(* ===== verification/Prelude.thy ===== *)
theory Prelude
  imports Main "HOL-Library.Word" "HOL-Library.Signed_Division"
begin

text \<open>
  Shared vocabulary of the development.

  \<^item> \<open>outcome\<close>: the result of running a piece of the C++ code. \<open>Ret x\<close> is a normal return;
    \<open>Abort f\<close> ends the process. A failing \<^verbatim>\<open>assert\<close> is \<open>AssertFail\<close>, a
    \<^verbatim>\<open>LOG_FATAL\<close> / \<^verbatim>\<open>LOG_SYSFATAL\<close> / \<^verbatim>\<open>abort()\<close> is \<open>Fatal\<close>, an exception that
    nobody in the modelled code catches is \<open>Throw\<close>, and a step the C++ standard leaves
    undefined (reading past a vector, following a null pointer) is \<open>Undefined\<close>.
  \<^item> \<open>bindo\<close> is the sequencing of two statements, \<open>require\<close> is \<^verbatim>\<open>assert\<close>.
  \<^item> \<open>size_t\<close> values are natural numbers below \<open>2 ^ 64\<close>; sums and
    differences of unchecked arguments are written \<open>wadd\<close> and \<open>wsub\<close>, which wrap around.
  \<^item> \<open>std_find\<close>, \<open>std_search\<close>, \<open>memchr\<close> are the standard algorithms on the range they are
    applied to; a pointer into the range is an offset, and the null pointer is \<open>None\<close>.
\<close>

section \<open>Results of running code\<close>

datatype fault = AssertFail string | Fatal string | Throw string | Undefined string

datatype 'a outcome = Ret 'a | Abort fault

fun bindo :: "'a outcome \<Rightarrow> ('a \<Rightarrow> 'b outcome) \<Rightarrow> 'b outcome" where
  "bindo (Ret x) f = f x"
| "bindo (Abort e) f = Abort e"

definition require :: "bool \<Rightarrow> string \<Rightarrow> 'a outcome \<Rightarrow> 'a outcome" where
  "require b msg k = (if b then k else Abort (AssertFail msg))"

definition returns :: "'a outcome \<Rightarrow> bool" where
  "returns m = (case m of Ret _ \<Rightarrow> True | Abort _ \<Rightarrow> False)"

named_theorems outcome_simps \<open>evaluation of \<open>bindo\<close>, \<open>require\<close> and \<open>returns\<close>\<close>

lemma bindo_eq_Ret [outcome_simps]:
  "bindo m f = Ret y \<longleftrightarrow> (\<exists>x. m = Ret x \<and> f x = Ret y)"
  by (cases m) auto

lemma require_True [simp]: "require True msg k = k"
  by (simp add: require_def)

lemma require_False [simp]: "require False msg k = Abort (AssertFail msg)"
  by (simp add: require_def)

lemma require_eq_Ret [outcome_simps]: "require b msg k = Ret y \<longleftrightarrow> b \<and> k = Ret y"
  by (simp add: require_def)

lemma returns_simps [simp]: "returns (Ret x)" "\<not> returns (Abort e)"
  by (simp_all add: returns_def)

lemma returns_iff: "returns m \<longleftrightarrow> (\<exists>x. m = Ret x)"
  by (cases m) auto

lemma returns_bindo [outcome_simps]:
  "returns (bindo m f) \<longleftrightarrow> (\<exists>x. m = Ret x \<and> returns (f x))"
  by (cases m) auto

lemma returns_require [outcome_simps]: "returns (require b msg k) \<longleftrightarrow> b \<and> returns k"
  by (simp add: require_def)

lemma bindo_assoc: "bindo (bindo m f) g = bindo m (\<lambda>x. bindo (f x) g)"
  by (cases m) auto

lemma bindo_cong: "m = m' \<Longrightarrow> (\<And>x. m' = Ret x \<Longrightarrow> f x = g x) \<Longrightarrow> bindo m f = bindo m' g"
  by (cases m') auto

text \<open>Running an effect on every element of a list, in order, stopping at the first abort: the
  \<^verbatim>\<open>for (x : xs)\<close> loop over a state.\<close>

fun foldo :: "('x \<Rightarrow> 's \<Rightarrow> 's outcome) \<Rightarrow> 'x list \<Rightarrow> 's \<Rightarrow> 's outcome" where
  "foldo f [] s = Ret s"
| "foldo f (x # xs) s = bindo (f x s) (foldo f xs)"

lemma foldo_append: "foldo f (xs @ ys) s = bindo (foldo f xs s) (foldo f ys)"
proof (induction xs arbitrary: s)
  case (Cons x xs)
  then show ?case by (cases "f x s") simp_all
qed simp

lemma foldo_invariant:
  assumes "foldo f xs s = Ret s'" and "P s"
    and "\<And>x s s'. x \<in> set xs \<Longrightarrow> P s \<Longrightarrow> f x s = Ret s' \<Longrightarrow> P s'"
  shows "P s'"
  using assms
proof (induction xs arbitrary: s)
  case Nil
  then show ?case by simp
next
  case (Cons x xs)
  from Cons.prems(1) obtain t where t: "f x s = Ret t" and rest: "foldo f xs t = Ret s'"
    by (auto simp: bindo_eq_Ret)
  have "P t" using Cons.prems(2,3) t by auto
  with rest show ?case using Cons.IH Cons.prems(3) by (meson list.set_intros(2))
qed

section \<open>Machine sizes\<close>

abbreviation size_modulus :: nat where
  "size_modulus \<equiv> 2 ^ 64"

text \<open>\<^verbatim>\<open>std::vector<char>::max_size()\<close> of libstdc++ on a 64-bit target.\<close>

definition vec_max :: nat where
  "vec_max = 2 ^ 63 - 1"

definition wadd :: "nat \<Rightarrow> nat \<Rightarrow> nat" where
  "wadd a b = (a + b) mod size_modulus"

definition wsub :: "nat \<Rightarrow> nat \<Rightarrow> nat" where
  "wsub a b = (a + (size_modulus - b)) mod size_modulus"

lemma wsub_le: "b \<le> a \<Longrightarrow> a < size_modulus \<Longrightarrow> wsub a b = a - b"
proof -
  assume "b \<le> a" "a < size_modulus"
  then have "a + (size_modulus - b) = (a - b) + size_modulus" by simp
  then have "wsub a b = (a - b) mod size_modulus" by (simp only: wsub_def mod_add_self2)
  then show "wsub a b = a - b" using \<open>a < size_modulus\<close> by simp
qed

lemma wsub_vec_max: "b \<le> a \<Longrightarrow> a \<le> vec_max \<Longrightarrow> wsub a b = a - b"
  by (rule wsub_le) (simp_all add: vec_max_def)

lemma wadd_small: "a + b < size_modulus \<Longrightarrow> wadd a b = a + b"
  by (simp add: wadd_def)

lemma vec_max_less: "vec_max + vec_max < size_modulus"
  by (simp add: vec_max_def)

lemma wadd_le_vec_max [simp]: "a \<le> vec_max \<Longrightarrow> b \<le> vec_max \<Longrightarrow> wadd a b = a + b"
  by (simp add: wadd_def vec_max_def)

text \<open>\<^verbatim>\<open>Timestamp::kMicroSecondsPerSecond\<close>, shared by the timers and the calendar.\<close>

definition kMicroSecondsPerSecond :: int where
  "kMicroSecondsPerSecond = 1000 * 1000"

section \<open>Standard algorithms on ranges\<close>

fun std_find :: "'a list \<Rightarrow> 'a \<Rightarrow> nat" where
  "std_find [] c = 0"
| "std_find (x # xs) c = (if x = c then 0 else Suc (std_find xs c))"

fun std_search :: "'a list \<Rightarrow> 'a list \<Rightarrow> nat" where
  "std_search [] pat = 0"
| "std_search (x # xs) pat =
     (if take (length pat) (x # xs) = pat then 0 else Suc (std_search xs pat))"

definition memchr :: "'a list \<Rightarrow> 'a \<Rightarrow> nat option" where
  "memchr xs c = (if c \<in> set xs then Some (std_find xs c) else None)"

lemma std_find_le: "std_find xs c \<le> length xs"
  by (induction xs) auto

lemma std_find_less_iff: "std_find xs c < length xs \<longleftrightarrow> c \<in> set xs"
  by (induction xs) auto

lemma std_find_eq_length_iff: "std_find xs c = length xs \<longleftrightarrow> c \<notin> set xs"
  by (induction xs) auto

lemma std_find_nth: "c \<in> set xs \<Longrightarrow> xs ! std_find xs c = c"
  by (induction xs) auto

lemma std_find_first: "i < std_find xs c \<Longrightarrow> xs ! i \<noteq> c"
proof (induction xs arbitrary: i)
  case (Cons x xs)
  then show ?case by (cases i) (auto split: if_splits)
qed simp

lemma std_find_append: "c \<notin> set xs \<Longrightarrow> std_find (xs @ c # ys) c = length xs"
  by (induction xs) auto

lemma std_find_append_less: "c \<in> set xs \<Longrightarrow> std_find (xs @ ys) c = std_find xs c"
  by (induction xs) auto

lemma std_search_le: "std_search xs pat \<le> length xs"
  by (induction xs) auto

lemma std_search_match:
  "std_search xs pat < length xs \<Longrightarrow> take (length pat) (drop (std_search xs pat) xs) = pat"
  by (induction xs pat rule: std_search.induct) (auto split: if_splits)

lemma std_search_first:
  "i < std_search xs pat \<Longrightarrow> take (length pat) (drop i xs) \<noteq> pat"
proof (induction xs pat arbitrary: i rule: std_search.induct)
  case (2 x xs pat)
  then show ?case by (cases i) (auto split: if_splits)
qed simp

lemma std_search_room:
  assumes "std_search xs pat < length xs"
  shows "std_search xs pat + length pat \<le> length xs"
proof -
  have "length (take (length pat) (drop (std_search xs pat) xs)) = length pat"
    by (simp only: std_search_match [OF assms])
  then show ?thesis using assms by (simp add: min_def split: if_splits)
qed

section \<open>Lists\<close>

lemma take_drop_slice: "i \<le> j \<Longrightarrow> drop i (take j xs) = take (j - i) (drop i xs)"
  by (simp add: drop_take)

lemma take_pred_drop: "n < length xs \<Longrightarrow> take (Suc n) xs = take n xs @ [xs ! n]"
  by (rule take_Suc_conv_app_nth)

section \<open>Decimal printing\<close>

text \<open>The decimal digits of a number, most significant first: what \<^verbatim>\<open>operator<<\<close> of the standard
  streams and \<^verbatim>\<open>%d\<close> print.\<close>

definition digit_char :: "nat \<Rightarrow> char" where
  "digit_char d = char_of (48 + d)"

fun dec_nat :: "nat \<Rightarrow> string" where
  "dec_nat n = (if n < 10 then [digit_char n] else dec_nat (n div 10) @ [digit_char (n mod 10)])"

declare dec_nat.simps [simp del]

definition dec_int :: "int \<Rightarrow> string" where
  "dec_int i = (if i < 0 then CHR ''-'' # dec_nat (nat (- i)) else dec_nat (nat i))"

fun dec_val :: "nat \<Rightarrow> string \<Rightarrow> nat" where
  "dec_val acc [] = acc"
| "dec_val acc (c # cs) = dec_val (10 * acc + (of_char c - 48)) cs"

lemma dec_val_append: "dec_val acc (xs @ ys) = dec_val (dec_val acc xs) ys"
  by (induction xs arbitrary: acc) auto

lemma of_digit_char: "d < 10 \<Longrightarrow> of_char (digit_char d) = 48 + d"
  by (simp add: digit_char_def)

lemma dec_val_dec_nat: "dec_val 0 (dec_nat n) = n"
proof (induction n rule: dec_nat.induct)
  case (1 n)
  show ?case
  proof (cases "n < 10")
    case True
    then show ?thesis by (simp add: dec_nat.simps [of n] of_digit_char)
  next
    case False
    then show ?thesis using 1 by (simp add: dec_nat.simps [of n] dec_val_append of_digit_char)
  qed
qed

lemma dec_nat_inj: "dec_nat m = dec_nat n \<longleftrightarrow> m = n"
  by (metis dec_val_dec_nat)

lemma dec_nat_nonempty [simp]: "dec_nat n \<noteq> []"
  by (simp add: dec_nat.simps [of n])

lemma dec_nat_digits: "c \<in> set (dec_nat n) \<Longrightarrow> 48 \<le> (of_char c :: nat) \<and> (of_char c :: nat) \<le> 57"
proof (induction n rule: dec_nat.induct)
  case (1 n)
  then show ?case by (cases "n < 10") (auto simp: dec_nat.simps [of n] of_digit_char)
qed

lemma length_dec_nat: "n < 10 ^ k \<Longrightarrow> 0 < k \<Longrightarrow> length (dec_nat n) \<le> k"
proof (induction k arbitrary: n)
  case (Suc k)
  show ?case
  proof (cases "n < 10")
    case False
    then have "n div 10 < 10 ^ k" "0 < k" using Suc.prems by (auto simp: less_mult_imp_div_less intro: gr0I)
    with Suc.IH show ?thesis using False by (simp add: dec_nat.simps [of n])
  qed (simp add: dec_nat.simps [of n])
qed simp

lemma hd_dec_nat: "0 < n \<Longrightarrow> hd (dec_nat n) \<noteq> CHR ''0''"
proof (induction n rule: dec_nat.induct)
  case (1 n)
  show ?case
  proof (cases "n < 10")
    case True
    have "(of_char (digit_char n) :: nat) \<noteq> of_char CHR ''0''" using True 1(2) by (simp add: of_digit_char)
    then have "digit_char n \<noteq> CHR ''0''" by metis
    then show ?thesis using True by (simp add: dec_nat.simps [of n])
  next
    case False
    then have "hd (dec_nat (n div 10)) \<noteq> CHR ''0''" using 1 by simp
    then show ?thesis using False by (simp add: dec_nat.simps [of n])
  qed
qed

text \<open>\<^verbatim>\<open>snprintf(buf, size, ...)\<close> keeps what fits before the terminating null byte.\<close>

definition snprintf :: "nat \<Rightarrow> string \<Rightarrow> string" where
  "snprintf n s = take (n - 1) s"

lemma snprintf_fits: "length s < n \<Longrightarrow> snprintf n s = s"
  by (simp add: snprintf_def)

text \<open>\<^verbatim>\<open>isspace\<close> in the C locale.\<close>

definition isspace :: "char \<Rightarrow> bool" where
  "isspace c \<longleftrightarrow> c \<in> {CHR '' '', CHR 0x09, CHR 0x0A, CHR 0x0B, CHR 0x0C, CHR 0x0D}"

section \<open>Total correctness up to memory exhaustion\<close>

text \<open>\<open>guarantees P m\<close>: running \<open>m\<close> returns a value satisfying \<open>P\<close>, or memory is exhausted
  (\<^verbatim>\<open>operator new\<close> throws \<^verbatim>\<open>bad_alloc\<close>, or a vector would exceed its maximal size); no assertion
  fails and nothing undefined happens.\<close>

definition guarantees :: "('a \<Rightarrow> bool) \<Rightarrow> 'a outcome \<Rightarrow> bool" where
  "guarantees P m =
     (case m of Ret x \<Rightarrow> P x | Abort e \<Rightarrow> e = Throw ''bad_alloc'' \<or> e = Throw ''length_error'')"

lemma guarantees_simps [simp]:
  "guarantees P (Ret x) = P x"
  "guarantees P (Abort e) = (e = Throw ''bad_alloc'' \<or> e = Throw ''length_error'')"
  by (simp_all add: guarantees_def)

lemma guarantees_bindo:
  "guarantees P m \<Longrightarrow> (\<And>x. P x \<Longrightarrow> guarantees Q (f x)) \<Longrightarrow> guarantees Q (bindo m f)"
  by (cases m) auto

lemma guarantees_mono: "guarantees P m \<Longrightarrow> (\<And>x. P x \<Longrightarrow> Q x) \<Longrightarrow> guarantees Q m"
  by (cases m) auto

lemma guarantees_foldo:
  assumes "P s" and "\<And>x s. x \<in> set xs \<Longrightarrow> P s \<Longrightarrow> guarantees P (f x s)"
  shows "guarantees P (foldo f xs s)"
  using assms
proof (induction xs arbitrary: s)
  case (Cons x xs)
  have "guarantees P (f x s)" using Cons.prems by simp
  then show ?case by (simp, rule guarantees_bindo) (use Cons in auto)
qed simp

section \<open>Sorted lists\<close>

lemma takeWhile_sorted:
  assumes "sorted xs" and "\<And>x y. x \<le> y \<Longrightarrow> P y \<Longrightarrow> P x"
  shows "takeWhile P xs = filter P xs" and "dropWhile P xs = filter (\<lambda>x. \<not> P x) xs"
proof -
  have "takeWhile P xs = filter P xs \<and> dropWhile P xs = filter (\<lambda>x. \<not> P x) xs"
    using assms(1)
  proof (induction xs)
    case (Cons x xs)
    show ?case
    proof (cases "P x")
      case False
      then have "\<forall>y\<in>set xs. \<not> P y" using Cons.prems assms(2) by auto
      with False show ?thesis by (auto simp: filter_empty_conv filter_id_conv)
    qed (use Cons in simp)
  qed simp
  then show "takeWhile P xs = filter P xs" and "dropWhile P xs = filter (\<lambda>x. \<not> P x) xs" by auto
qed

end
