(* ===== verification/ByteOrder.thy ===== *)
theory ByteOrder
  imports Prelude
begin

text \<open>
  \<^verbatim>\<open>muduo/net/Endian.h\<close>: host and network byte order.

  The build targets a little-endian Linux machine, where \<^verbatim>\<open>htobe64\<close> and its relatives reverse
  the bytes of their argument. \<open>le_bytes k n\<close> is the object representation of a \<open>k\<close>-byte
  unsigned integer on such a host (what \<^verbatim>\<open>memcpy(&x, ..., sizeof x)\<close> sees), \<open>le_val\<close> reads it
  back, \<open>be_bytes\<close> is the network representation. The lemmas show that converting and then
  copying the object representation is exactly the big-endian encoding, and that decoding
  inverts encoding.
\<close>

fun le_bytes :: "nat \<Rightarrow> nat \<Rightarrow> char list" where
  "le_bytes 0 n = []"
| "le_bytes (Suc k) n = char_of n # le_bytes k (n div 256)"

fun le_val :: "char list \<Rightarrow> nat" where
  "le_val [] = 0"
| "le_val (c # cs) = of_char c + 256 * le_val cs"

definition be_bytes :: "nat \<Rightarrow> nat \<Rightarrow> char list" where
  "be_bytes k n = rev (le_bytes k n)"

definition be_val :: "char list \<Rightarrow> nat" where
  "be_val cs = le_val (rev cs)"

definition bswap :: "nat \<Rightarrow> nat \<Rightarrow> nat" where
  "bswap k n = le_val (rev (le_bytes k n))"

definition hostToNetwork64 :: "64 word \<Rightarrow> 64 word" where
  "hostToNetwork64 host64 = word_of_nat (bswap 8 (unat host64))"

definition hostToNetwork32 :: "32 word \<Rightarrow> 32 word" where
  "hostToNetwork32 host32 = word_of_nat (bswap 4 (unat host32))"

definition hostToNetwork16 :: "16 word \<Rightarrow> 16 word" where
  "hostToNetwork16 host16 = word_of_nat (bswap 2 (unat host16))"

definition networkToHost64 :: "64 word \<Rightarrow> 64 word" where
  "networkToHost64 net64 = word_of_nat (bswap 8 (unat net64))"

definition networkToHost32 :: "32 word \<Rightarrow> 32 word" where
  "networkToHost32 net32 = word_of_nat (bswap 4 (unat net32))"

definition networkToHost16 :: "16 word \<Rightarrow> 16 word" where
  "networkToHost16 net16 = word_of_nat (bswap 2 (unat net16))"

lemma length_le_bytes [simp]: "length (le_bytes k n) = k"
  by (induction k arbitrary: n) auto

lemma length_be_bytes [simp]: "length (be_bytes k n) = k"
  by (simp add: be_bytes_def)

lemma of_char_bound [simp]: "(of_char c :: nat) < 256"
  using mod_less_divisor [of 256 "of_char c :: nat"] by (simp del: mod_less_divisor)

lemma char_of_add_256 [simp]: "char_of (of_char c + 256 * n :: nat) = c"
proof -
  have "(of_char (char_of (of_char c + 256 * n :: nat)) :: nat) = of_char c"
    by (simp only: of_char_of mod_mult_self2 of_char_mod_256)
  then show ?thesis by (simp only: of_char_eq_iff)
qed

lemma le_val_bound: "le_val cs < 256 ^ length cs"
proof (induction cs)
  case (Cons c cs)
  have "of_char c + 256 * le_val cs < 256 + 256 * le_val cs"
    by simp
  also have "\<dots> \<le> 256 * 256 ^ length cs"
    using Cons.IH by simp
  finally show ?case by simp
qed simp

lemma le_val_le_bytes: "le_val (le_bytes k n) = n mod 256 ^ k"
proof (induction k arbitrary: n)
  case (Suc k)
  have "n mod 256 ^ Suc k = n mod 256 + 256 * (n div 256 mod 256 ^ k)"
    by (simp add: mod_mult2_eq)
  then show ?case using Suc.IH by simp
qed simp

lemma le_bytes_le_val: "le_bytes (length cs) (le_val cs) = cs"
  by (induction cs) simp_all

lemma be_bytes_be_val: "be_bytes (length cs) (be_val cs) = cs"
  using le_bytes_le_val [of "rev cs"] by (simp add: be_bytes_def be_val_def)

lemma be_val_be_bytes: "be_val (be_bytes k n) = n mod 256 ^ k"
  by (simp add: be_val_def be_bytes_def le_val_le_bytes)

lemma bswap_bound: "bswap k n < 256 ^ k"
  using le_val_bound [of "rev (le_bytes k n)"] by (simp add: bswap_def)

text \<open>The object representation of the converted value is the network encoding.\<close>

lemma le_bytes_bswap: "le_bytes k (bswap k n) = be_bytes k n"
  using le_bytes_le_val [of "rev (le_bytes k n)"] by (simp add: bswap_def be_bytes_def)

lemma bswap_bswap: "bswap k (bswap k n) = n mod 256 ^ k"
  by (simp add: bswap_def [of k "bswap k n"] le_bytes_bswap be_bytes_def le_val_le_bytes)

lemma bswap_le_val: "length cs = k \<Longrightarrow> bswap k (le_val cs) = be_val cs"
  using le_bytes_le_val [of cs] by (simp add: bswap_def be_val_def)

lemma bswap_width [simp]:
  "bswap 8 n < 18446744073709551616" "bswap 4 n < 4294967296" "bswap 2 n < 65536"
  using bswap_bound [of 8 n] bswap_bound [of 4 n] bswap_bound [of 2 n] by simp_all

lemma unat_hostToNetwork:
  "unat (hostToNetwork64 x) = bswap 8 (unat x)"
  "unat (hostToNetwork32 y) = bswap 4 (unat y)"
  "unat (hostToNetwork16 z) = bswap 2 (unat z)"
  by (simp_all add: hostToNetwork64_def hostToNetwork32_def hostToNetwork16_def unat_of_nat)

lemma network_host_inverse:
  "networkToHost64 (hostToNetwork64 x) = x"
  "networkToHost32 (hostToNetwork32 y) = y"
  "networkToHost16 (hostToNetwork16 z) = z"
  using unsigned_less [of x, where 'a = nat] unsigned_less [of y, where 'a = nat]
    unsigned_less [of z, where 'a = nat]
  by (simp_all add: networkToHost64_def networkToHost32_def networkToHost16_def
      unat_hostToNetwork bswap_bswap)

end
