(* ===== verification/NetBuffer.thy ===== *)
theory NetBuffer
  imports ByteOrder
begin

text \<open>
  \<^verbatim>\<open>muduo/net/Buffer.h\<close> and \<^verbatim>\<open>muduo/net/Buffer.cc\<close>: the growable byte buffer with a
  cheap-prepend area.

  The record mirrors the three data members; a pointer returned by the code (\<^verbatim>\<open>peek\<close>,
  \<^verbatim>\<open>findCRLF\<close>, \<dots>) is the offset from \<^verbatim>\<open>begin()\<close>. \<open>buffer_ok\<close> is the class invariant drawn in
  the source comment, \<open>content\<close> the abstraction to the readable bytes. The locale \<open>byte_fifo\<close>
  is the contract the network code relies on (append at the back, retrieve from the front,
  nothing lost or reordered); it is interpreted on the model of \<open>Buffer\<close> at the end, together
  with the integer round trips.
\<close>

section \<open>Data members and observers\<close>

record Buffer =
  buffer :: "char list"
  readerIndex :: nat
  writerIndex :: nat

definition kCheapPrepend :: nat where
  "kCheapPrepend = 8"

definition kInitialSize :: nat where
  "kInitialSize = 1024"

definition kCRLF :: "char list" where
  "kCRLF = [CHR 0x0D, CHR 0x0A]"

definition readableBytes :: "Buffer \<Rightarrow> nat" where
  "readableBytes b = wsub (writerIndex b) (readerIndex b)"

definition writableBytes :: "Buffer \<Rightarrow> nat" where
  "writableBytes b = wsub (length (buffer b)) (writerIndex b)"

definition prependableBytes :: "Buffer \<Rightarrow> nat" where
  "prependableBytes b = readerIndex b"

definition peek :: "Buffer \<Rightarrow> nat" where
  "peek b = readerIndex b"

definition beginWrite :: "Buffer \<Rightarrow> nat" where
  "beginWrite b = writerIndex b"

text \<open>The characters between two pointers into the buffer.\<close>

definition buf_slice :: "nat \<Rightarrow> nat \<Rightarrow> Buffer \<Rightarrow> char list" where
  "buf_slice i j b = take (j - i) (drop i (buffer b))"

definition content :: "Buffer \<Rightarrow> char list" where
  "content b = buf_slice (peek b) (beginWrite b) b"

text \<open>\<^verbatim>\<open>std::copy\<close> of a range onto the vector, starting at offset \<open>i\<close>.\<close>

definition overwrite :: "nat \<Rightarrow> char list \<Rightarrow> char list \<Rightarrow> char list" where
  "overwrite i xs ys = take i ys @ xs @ drop (i + length xs) ys"

text \<open>\<^verbatim>\<open>std::vector::resize\<close>: value-initialised growth, \<^verbatim>\<open>length_error\<close> past \<^verbatim>\<open>max_size()\<close>.\<close>

definition vec_resize :: "nat \<Rightarrow> char list \<Rightarrow> char list outcome" where
  "vec_resize n xs =
     (if n > vec_max then Abort (Throw ''length_error'')
      else Ret (take n xs @ replicate (n - length xs) (CHR 0x00)))"

section \<open>Operations, in the order of the source\<close>

definition new_Buffer :: "nat \<Rightarrow> Buffer outcome" where
  "new_Buffer initialSize =
     bindo (vec_resize (wadd kCheapPrepend initialSize) []) (\<lambda>v.
       let b = \<lparr>buffer = v, readerIndex = kCheapPrepend, writerIndex = kCheapPrepend\<rparr> in
       require (readableBytes b = 0) ''readableBytes() == 0''
       (require (writableBytes b = initialSize) ''writableBytes() == initialSize''
       (require (prependableBytes b = kCheapPrepend) ''prependableBytes() == kCheapPrepend''
       (Ret b))))"

definition Buffer_swap :: "Buffer \<times> Buffer \<Rightarrow> Buffer \<times> Buffer" where
  "Buffer_swap = (\<lambda>(this, rhs). (rhs, this))"

definition findCRLF :: "Buffer \<Rightarrow> nat option" where
  "findCRLF b =
     (let crlf = peek b + std_search (buf_slice (peek b) (beginWrite b) b) kCRLF
      in if crlf = beginWrite b then None else Some crlf)"

definition findCRLF_from :: "nat \<Rightarrow> Buffer \<Rightarrow> nat option outcome" where
  "findCRLF_from start b =
     require (peek b \<le> start) ''peek() <= start''
     (require (start \<le> beginWrite b) ''start <= beginWrite()''
     (let crlf = start + std_search (buf_slice start (beginWrite b) b) kCRLF
      in Ret (if crlf = beginWrite b then None else Some crlf)))"

definition findEOL :: "Buffer \<Rightarrow> nat option" where
  "findEOL b = map_option ((+) (peek b)) (memchr (buf_slice (peek b) (beginWrite b) b) (CHR 0x0A))"

definition findEOL_from :: "nat \<Rightarrow> Buffer \<Rightarrow> nat option outcome" where
  "findEOL_from start b =
     require (peek b \<le> start) ''peek() <= start''
     (require (start \<le> beginWrite b) ''start <= beginWrite()''
     (Ret (map_option ((+) start) (memchr (buf_slice start (beginWrite b) b) (CHR 0x0A)))))"

definition retrieveAll :: "Buffer \<Rightarrow> Buffer" where
  "retrieveAll b = b\<lparr>readerIndex := kCheapPrepend, writerIndex := kCheapPrepend\<rparr>"

definition retrieve :: "nat \<Rightarrow> Buffer \<Rightarrow> Buffer outcome" where
  "retrieve len b =
     require (len \<le> readableBytes b) ''len <= readableBytes()''
     (if len < readableBytes b then Ret (b\<lparr>readerIndex := wadd (readerIndex b) len\<rparr>)
      else Ret (retrieveAll b))"

definition retrieveUntil :: "nat \<Rightarrow> Buffer \<Rightarrow> Buffer outcome" where
  "retrieveUntil e b =
     require (peek b \<le> e) ''peek() <= end''
     (require (e \<le> beginWrite b) ''end <= beginWrite()''
     (retrieve (e - peek b) b))"

definition retrieveInt64 :: "Buffer \<Rightarrow> Buffer outcome" where
  "retrieveInt64 b = retrieve 8 b"

definition retrieveInt32 :: "Buffer \<Rightarrow> Buffer outcome" where
  "retrieveInt32 b = retrieve 4 b"

definition retrieveInt16 :: "Buffer \<Rightarrow> Buffer outcome" where
  "retrieveInt16 b = retrieve 2 b"

definition retrieveInt8 :: "Buffer \<Rightarrow> Buffer outcome" where
  "retrieveInt8 b = retrieve 1 b"

definition retrieveAsString :: "nat \<Rightarrow> Buffer \<Rightarrow> (string \<times> Buffer) outcome" where
  "retrieveAsString len b =
     require (len \<le> readableBytes b) ''len <= readableBytes()''
     (let result = buf_slice (peek b) (peek b + len) b
      in bindo (retrieve len b) (\<lambda>b'. Ret (result, b')))"

definition retrieveAllAsString :: "Buffer \<Rightarrow> (string \<times> Buffer) outcome" where
  "retrieveAllAsString b = retrieveAsString (readableBytes b) b"

text \<open>A \<^verbatim>\<open>StringPiece\<close> over the readable bytes: what its pointer can reach, and its length, which
  is a 32-bit \<^verbatim>\<open>int\<close> obtained by \<^verbatim>\<open>static_cast\<close> from \<^verbatim>\<open>size_t\<close>.\<close>

definition toStringPiece :: "Buffer \<Rightarrow> char list \<times> int" where
  "toStringPiece b = (content b, sint (word_of_nat (readableBytes b) :: 32 word))"

definition makeSpace :: "nat \<Rightarrow> Buffer \<Rightarrow> Buffer outcome" where
  "makeSpace len b =
     (if wadd (writableBytes b) (prependableBytes b) < wadd len kCheapPrepend
      then bindo (vec_resize (wadd (writerIndex b) len) (buffer b)) (\<lambda>v. Ret (b\<lparr>buffer := v\<rparr>))
      else
        require (kCheapPrepend < readerIndex b) ''kCheapPrepend < readerIndex_''
        (let readable = readableBytes b;
             b' = b\<lparr>buffer := overwrite kCheapPrepend
                       (buf_slice (readerIndex b) (writerIndex b) b) (buffer b),
                    readerIndex := kCheapPrepend,
                    writerIndex := wadd kCheapPrepend readable\<rparr>
         in require (readable = readableBytes b') ''readable == readableBytes()'' (Ret b')))"

definition ensureWritableBytes :: "nat \<Rightarrow> Buffer \<Rightarrow> Buffer outcome" where
  "ensureWritableBytes len b =
     bindo (if writableBytes b < len then makeSpace len b else Ret b) (\<lambda>b'.
       require (writableBytes b' \<ge> len) ''writableBytes() >= len'' (Ret b'))"

definition hasWritten :: "nat \<Rightarrow> Buffer \<Rightarrow> Buffer outcome" where
  "hasWritten len b =
     require (len \<le> writableBytes b) ''len <= writableBytes()''
     (Ret (b\<lparr>writerIndex := wadd (writerIndex b) len\<rparr>))"

definition Buffer_append :: "char list \<Rightarrow> Buffer \<Rightarrow> Buffer outcome" where
  "Buffer_append data b =
     bindo (ensureWritableBytes (length data) b) (\<lambda>b'.
       hasWritten (length data)
         (b'\<lparr>buffer := overwrite (beginWrite b') data (buffer b')\<rparr>))"

text \<open>Appending a \<^verbatim>\<open>StringPiece\<close> converts its \<^verbatim>\<open>int\<close> size to \<^verbatim>\<open>size_t\<close>; reading beyond what
  its pointer refers to is undefined.\<close>

definition append_StringPiece :: "char list \<times> int \<Rightarrow> Buffer \<Rightarrow> Buffer outcome" where
  "append_StringPiece str b =
     (let len = nat (snd str mod 2 ^ 64)
      in if len \<le> length (fst str) then Buffer_append (take len (fst str)) b
         else Abort (Undefined ''StringPiece read out of range''))"

definition unwrite :: "nat \<Rightarrow> Buffer \<Rightarrow> Buffer outcome" where
  "unwrite len b =
     require (len \<le> readableBytes b) ''len <= readableBytes()''
     (Ret (b\<lparr>writerIndex := wsub (writerIndex b) len\<rparr>))"

definition appendInt64 :: "64 word \<Rightarrow> Buffer \<Rightarrow> Buffer outcome" where
  "appendInt64 x b = Buffer_append (le_bytes 8 (unat (hostToNetwork64 x))) b"

definition appendInt32 :: "32 word \<Rightarrow> Buffer \<Rightarrow> Buffer outcome" where
  "appendInt32 x b = Buffer_append (le_bytes 4 (unat (hostToNetwork32 x))) b"

definition appendInt16 :: "16 word \<Rightarrow> Buffer \<Rightarrow> Buffer outcome" where
  "appendInt16 x b = Buffer_append (le_bytes 2 (unat (hostToNetwork16 x))) b"

definition appendInt8 :: "8 word \<Rightarrow> Buffer \<Rightarrow> Buffer outcome" where
  "appendInt8 x b = Buffer_append (le_bytes 1 (unat x)) b"

definition peekInt64 :: "Buffer \<Rightarrow> 64 word outcome" where
  "peekInt64 b =
     require (readableBytes b \<ge> 8) ''readableBytes() >= sizeof(int64_t)''
     (Ret (networkToHost64 (word_of_nat (le_val (buf_slice (peek b) (peek b + 8) b)))))"

definition peekInt32 :: "Buffer \<Rightarrow> 32 word outcome" where
  "peekInt32 b =
     require (readableBytes b \<ge> 4) ''readableBytes() >= sizeof(int32_t)''
     (Ret (networkToHost32 (word_of_nat (le_val (buf_slice (peek b) (peek b + 4) b)))))"

definition peekInt16 :: "Buffer \<Rightarrow> 16 word outcome" where
  "peekInt16 b =
     require (readableBytes b \<ge> 2) ''readableBytes() >= sizeof(int16_t)''
     (Ret (networkToHost16 (word_of_nat (le_val (buf_slice (peek b) (peek b + 2) b)))))"

definition peekInt8 :: "Buffer \<Rightarrow> 8 word outcome" where
  "peekInt8 b =
     require (readableBytes b \<ge> 1) ''readableBytes() >= sizeof(int8_t)''
     (Ret (word_of_nat (le_val (buf_slice (peek b) (peek b + 1) b))))"

definition readInt64 :: "Buffer \<Rightarrow> (64 word \<times> Buffer) outcome" where
  "readInt64 b = bindo (peekInt64 b) (\<lambda>r. bindo (retrieveInt64 b) (\<lambda>b'. Ret (r, b')))"

definition readInt32 :: "Buffer \<Rightarrow> (32 word \<times> Buffer) outcome" where
  "readInt32 b = bindo (peekInt32 b) (\<lambda>r. bindo (retrieveInt32 b) (\<lambda>b'. Ret (r, b')))"

definition readInt16 :: "Buffer \<Rightarrow> (16 word \<times> Buffer) outcome" where
  "readInt16 b = bindo (peekInt16 b) (\<lambda>r. bindo (retrieveInt16 b) (\<lambda>b'. Ret (r, b')))"

definition readInt8 :: "Buffer \<Rightarrow> (8 word \<times> Buffer) outcome" where
  "readInt8 b = bindo (peekInt8 b) (\<lambda>r. bindo (retrieveInt8 b) (\<lambda>b'. Ret (r, b')))"

definition prepend :: "char list \<Rightarrow> Buffer \<Rightarrow> Buffer outcome" where
  "prepend data b =
     require (length data \<le> prependableBytes b) ''len <= prependableBytes()''
     (let r = wsub (readerIndex b) (length data)
      in Ret (b\<lparr>readerIndex := r, buffer := overwrite r data (buffer b)\<rparr>))"

definition prependInt64 :: "64 word \<Rightarrow> Buffer \<Rightarrow> Buffer outcome" where
  "prependInt64 x b = prepend (le_bytes 8 (unat (hostToNetwork64 x))) b"

definition prependInt32 :: "32 word \<Rightarrow> Buffer \<Rightarrow> Buffer outcome" where
  "prependInt32 x b = prepend (le_bytes 4 (unat (hostToNetwork32 x))) b"

definition prependInt16 :: "16 word \<Rightarrow> Buffer \<Rightarrow> Buffer outcome" where
  "prependInt16 x b = prepend (le_bytes 2 (unat (hostToNetwork16 x))) b"

definition prependInt8 :: "8 word \<Rightarrow> Buffer \<Rightarrow> Buffer outcome" where
  "prependInt8 x b = prepend (le_bytes 1 (unat x)) b"

definition shrink :: "nat \<Rightarrow> Buffer \<Rightarrow> Buffer outcome" where
  "shrink reserve b =
     bindo (new_Buffer kInitialSize) (\<lambda>other.
     bindo (ensureWritableBytes (wadd (readableBytes b) reserve) other) (\<lambda>other.
     bindo (append_StringPiece (toStringPiece b) other) (\<lambda>other.
     Ret (fst (Buffer_swap (b, other))))))"

text \<open>
  \<^verbatim>\<open>Buffer::readFd\<close>. The system call \<^verbatim>\<open>readv\<close> is the parameter: given the lengths of the I/O
  vectors it delivers either an \<^verbatim>\<open>errno\<close> or the bytes it scattered over them in order. The result
  is the return value, the \<^verbatim>\<open>savedErrno\<close> stored through the pointer (if any) and the buffer.
\<close>

definition readFd ::
  "(nat list \<Rightarrow> int + char list) \<Rightarrow> Buffer \<Rightarrow> (int \<times> int option \<times> Buffer) outcome" where
  "readFd readv b =
     (let writable = writableBytes b;
          vec = (if writable < 65536 then [writable, 65536] else [writable])
      in case readv vec of
           Inl errno \<Rightarrow> Ret (-1, Some errno, b)
         | Inr bytes \<Rightarrow>
             let n = length bytes;
                 b1 = b\<lparr>buffer := overwrite (writerIndex b) (take writable bytes) (buffer b)\<rparr>
             in if n \<le> writable
                then Ret (int n, None, b1\<lparr>writerIndex := wadd (writerIndex b1) n\<rparr>)
                else bindo (Buffer_append (drop writable bytes) (b1\<lparr>writerIndex := length (buffer b1)\<rparr>))
                       (\<lambda>b2. Ret (int n, None, b2)))"

section \<open>The class invariant\<close>

definition buffer_ok :: "Buffer \<Rightarrow> bool" where
  "buffer_ok b \<longleftrightarrow>
     readerIndex b \<le> writerIndex b \<and> writerIndex b \<le> length (buffer b) \<and>
     kCheapPrepend \<le> length (buffer b) \<and> length (buffer b) \<le> vec_max"

lemma readableBytes_ok: "buffer_ok b \<Longrightarrow> readableBytes b = writerIndex b - readerIndex b"
  by (simp add: readableBytes_def buffer_ok_def wsub_vec_max)

lemma writableBytes_ok: "buffer_ok b \<Longrightarrow> writableBytes b = length (buffer b) - writerIndex b"
  by (simp add: writableBytes_def buffer_ok_def wsub_vec_max)

text \<open>The invariant as facts for the simplifier, and the observers under it.\<close>

lemma buffer_okD:
  assumes "buffer_ok b"
  shows "readerIndex b \<le> writerIndex b" and "writerIndex b \<le> length (buffer b)"
    and "kCheapPrepend \<le> length (buffer b)" and "length (buffer b) \<le> vec_max"
    and "readerIndex b \<le> vec_max" and "writerIndex b \<le> vec_max"
    and "readableBytes b = writerIndex b - readerIndex b"
    and "writableBytes b = length (buffer b) - writerIndex b"
    and "prependableBytes b = readerIndex b"
  using assms readableBytes_ok [OF assms] writableBytes_ok [OF assms]
  by (auto simp: buffer_ok_def prependableBytes_def)

lemmas pointers = peek_def beginWrite_def

lemma kCheapPrepend_le [simp]: "kCheapPrepend \<le> vec_max" "kCheapPrepend < size_modulus"
  by (simp_all add: kCheapPrepend_def vec_max_def)

lemma length_overwrite [simp]:
  "i + length xs \<le> length ys \<Longrightarrow> length (overwrite i xs ys) = length ys"
  by (simp add: overwrite_def)

lemma overwrite_inside [simp]:
  assumes "i \<le> length ys"
  shows "take (length xs) (drop i (overwrite i xs ys)) = xs"
  using assms by (simp add: overwrite_def min_def)

lemma overwrite_Nil [simp]: "overwrite i [] ys = ys"
  by (simp add: overwrite_def)

lemma drop_overwrite_behind:
  assumes "i + length xs \<le> j" and "i \<le> length ys"
  shows "drop j (overwrite i xs ys) = drop j ys"
  using assms by (simp add: overwrite_def min_def)

lemma take_drop_overwrite_before:
  assumes "r \<le> w" and "w \<le> length ys"
  shows "take (w - r) (drop r (overwrite w xs ys)) = take (w - r) (drop r ys)"
  using assms by (simp add: overwrite_def drop_take)

lemma buf_slice_split:
  assumes "i \<le> j" and "j \<le> k"
  shows "buf_slice i k b = buf_slice i j b @ buf_slice j k b"
proof -
  have "k - i = (j - i) + (k - j)" and "(j - i) + i = j" using assms by simp_all
  then show ?thesis by (simp only: buf_slice_def take_add drop_drop)
qed

lemma length_buf_slice: "j \<le> length (buffer b) \<Longrightarrow> length (buf_slice i j b) = j - i"
  by (simp add: buf_slice_def)

lemma length_content: "buffer_ok b \<Longrightarrow> length (content b) = readableBytes b"
  by (simp add: content_def length_buf_slice buffer_okD pointers)

lemma content_take:
  "buffer_ok b \<Longrightarrow> n \<le> readableBytes b \<Longrightarrow> buf_slice (peek b) (peek b + n) b = take n (content b)"
  by (simp add: content_def buf_slice_def buffer_okD pointers)

section \<open>Every operation keeps the invariant and acts on the readable bytes\<close>

lemma new_Buffer_ok:
  assumes "n + kCheapPrepend \<le> vec_max"
  shows "\<exists>b. new_Buffer n = Ret b \<and> buffer_ok b \<and> content b = [] \<and> writableBytes b = n
    \<and> prependableBytes b = kCheapPrepend \<and> writerIndex b = kCheapPrepend"
proof -
  have w: "wadd kCheapPrepend n = kCheapPrepend + n" using assms by simp
  let ?b = "\<lparr>buffer = replicate (kCheapPrepend + n) (CHR 0x00), readerIndex = kCheapPrepend,
      writerIndex = kCheapPrepend\<rparr>"
  have "buffer_ok ?b" using assms by (simp add: buffer_ok_def)
  then show ?thesis using assms
    by (simp add: new_Buffer_def w vec_resize_def buffer_okD content_def buf_slice_def pointers)
qed

lemma retrieveAll_ok: "buffer_ok b \<Longrightarrow> buffer_ok (retrieveAll b)"
  by (simp add: retrieveAll_def buffer_ok_def)

lemma content_retrieveAll [simp]: "content (retrieveAll b) = []"
  by (simp add: retrieveAll_def content_def buf_slice_def pointers)

lemma retrieve_ok:
  assumes ok: "buffer_ok b" and n: "n \<le> readableBytes b"
  shows "\<exists>b'. retrieve n b = Ret b' \<and> buffer_ok b' \<and> content b' = drop n (content b)
    \<and> buffer b' = buffer b \<and> writerIndex b' \<le> max kCheapPrepend (writerIndex b)"
proof (cases "n < readableBytes b")
  case True
  let ?b = "b\<lparr>readerIndex := readerIndex b + n\<rparr>"
  have "wadd (readerIndex b) n = readerIndex b + n"
    using True buffer_okD [OF ok] by (intro wadd_le_vec_max) auto
  moreover have "content ?b = drop n (content b)"
    by (simp add: content_def buf_slice_def pointers drop_take add.commute)
  moreover have "buffer_ok ?b"
    using ok True buffer_okD [OF ok] by (simp add: buffer_ok_def)
  ultimately show ?thesis using True by (simp add: retrieve_def)
next
  case False
  then have "n = readableBytes b" using n by simp
  then show ?thesis using ok
    by (simp add: retrieve_def retrieveAll_ok length_content) (simp add: retrieveAll_def)
qed

lemma vec_resize_grow:
  "length xs \<le> n \<Longrightarrow> n \<le> vec_max \<Longrightarrow>
    vec_resize n xs = Ret (xs @ replicate (n - length xs) (CHR 0x00))"
  by (simp add: vec_resize_def)

text \<open>\<^verbatim>\<open>makeSpace\<close> never trips its assertions: either the vector would pass its maximal size and
  \<^verbatim>\<open>resize\<close> throws, or there is room afterwards and the readable bytes are the same.\<close>

definition made_room :: "nat \<Rightarrow> Buffer \<Rightarrow> Buffer \<Rightarrow> bool" where
  "made_room len b b' \<longleftrightarrow> buffer_ok b' \<and> content b' = content b \<and> len \<le> writableBytes b'
     \<and> writerIndex b' \<le> writerIndex b"

lemma buffer_ok_wadd:
  assumes "buffer_ok b" and "len \<le> vec_max"
  shows "wadd (writableBytes b) (prependableBytes b) = writableBytes b + prependableBytes b"
    and "wadd len kCheapPrepend = len + kCheapPrepend"
    and "wadd (writerIndex b) len = writerIndex b + len"
  using assms buffer_okD [OF assms(1)] by (auto intro: wadd_le_vec_max)

lemma makeSpace_grow:
  assumes ok: "buffer_ok b" and need: "writableBytes b < len"
    and fits: "writerIndex b + len \<le> vec_max"
  defines "b' \<equiv> b\<lparr>buffer := buffer b @ replicate (writerIndex b + len - length (buffer b)) (CHR 0x00)\<rparr>"
  shows "vec_resize (writerIndex b + len) (buffer b) = Ret (buffer b') \<and> made_room len b b'"
proof -
  have n: "length (buffer b) \<le> writerIndex b + len"
    using need buffer_okD [OF ok] by simp
  have ok': "buffer_ok b'"
    using ok fits n by (simp add: b'_def buffer_ok_def)
  moreover have "content b' = content b"
    using buffer_okD [OF ok] by (simp add: b'_def content_def buf_slice_def pointers)
  moreover have "len \<le> writableBytes b'"
    using buffer_okD [OF ok'] n by (simp add: b'_def)
  ultimately show ?thesis
    using n fits by (simp add: made_room_def vec_resize_grow) (simp add: b'_def)
qed

lemma makeSpace_move:
  assumes ok: "buffer_ok b" and r: "kCheapPrepend < readerIndex b"
    and space: "len + kCheapPrepend \<le> writableBytes b + prependableBytes b"
  defines "b' \<equiv> b\<lparr>buffer := overwrite kCheapPrepend (buf_slice (readerIndex b) (writerIndex b) b) (buffer b),
      readerIndex := kCheapPrepend, writerIndex := kCheapPrepend + readableBytes b\<rparr>"
  shows "made_room len b b' \<and> readableBytes b' = readableBytes b"
proof -
  have ls: "length (buf_slice (readerIndex b) (writerIndex b) b) = readableBytes b"
    using buffer_okD [OF ok] by (simp add: length_buf_slice)
  have le: "kCheapPrepend + readableBytes b \<le> length (buffer b)"
    using buffer_okD [OF ok] r by simp
  then have lv: "length (buffer b') = length (buffer b)"
    by (simp add: b'_def ls)
  have ok': "buffer_ok b'"
    using ok lv le by (simp add: buffer_ok_def) (simp add: b'_def)
  moreover have "content b' = content b"
    using overwrite_inside [of kCheapPrepend "buffer b" "buf_slice (readerIndex b) (writerIndex b) b"] ls ok
    by (simp add: content_def buf_slice_def pointers b'_def buffer_okD)
  moreover have "readerIndex b' = kCheapPrepend" "writerIndex b' = kCheapPrepend + readableBytes b"
    by (simp_all add: b'_def)
  then have "len \<le> writableBytes b'" "writerIndex b' \<le> writerIndex b" "readableBytes b' = readableBytes b"
    using buffer_okD(7,8) [OF ok'] buffer_okD [OF ok] space r lv by linarith+
  ultimately show ?thesis by (simp add: made_room_def)
qed

lemma makeSpace_cases:
  assumes ok: "buffer_ok b" and need: "writableBytes b < len" and len: "len \<le> vec_max"
  shows "(makeSpace len b = Abort (Throw ''length_error'') \<and> vec_max < writerIndex b + len)
    \<or> (\<exists>b'. makeSpace len b = Ret b' \<and> made_room len b b')"
proof (cases "writableBytes b + prependableBytes b < len + kCheapPrepend")
  case True
  then have m: "makeSpace len b =
      bindo (vec_resize (writerIndex b + len) (buffer b)) (\<lambda>v. Ret (b\<lparr>buffer := v\<rparr>))"
    by (simp add: makeSpace_def buffer_ok_wadd [OF ok len])
  show ?thesis
  proof (cases "writerIndex b + len \<le> vec_max")
    case True
    then show ?thesis using makeSpace_grow [OF ok need] m by auto
  next
    case False
    then show ?thesis by (simp add: m vec_resize_def)
  qed
next
  case False
  have r: "kCheapPrepend < readerIndex b"
    using False need by (simp add: prependableBytes_def)
  have "wadd kCheapPrepend (readableBytes b) = kCheapPrepend + readableBytes b"
    using buffer_okD [OF ok] by (intro wadd_le_vec_max) auto
  then show ?thesis
    using False r makeSpace_move [OF ok r, of len]
    by (auto simp: makeSpace_def buffer_ok_wadd [OF ok len] Let_def)
qed

lemma ensureWritableBytes_cases:
  assumes "buffer_ok b" and "len \<le> vec_max"
  shows "(ensureWritableBytes len b = Abort (Throw ''length_error'') \<and> vec_max < writerIndex b + len)
    \<or> (\<exists>b'. ensureWritableBytes len b = Ret b' \<and> made_room len b b')"
proof (cases "writableBytes b < len")
  case True
  then show ?thesis using makeSpace_cases [OF assms(1) True assms(2)]
    by (auto simp: ensureWritableBytes_def made_room_def)
next
  case False
  then show ?thesis using assms by (simp add: ensureWritableBytes_def made_room_def)
qed

lemma content_written:
  assumes ok: "buffer_ok b" and len: "length xs \<le> writableBytes b"
  defines "b' \<equiv> b\<lparr>buffer := overwrite (writerIndex b) xs (buffer b), writerIndex := writerIndex b + length xs\<rparr>"
  shows "content b' = content b @ xs \<and> buffer_ok b'"
proof -
  have w: "writerIndex b + length xs \<le> length (buffer b)"
    using buffer_okD [OF ok] len by simp
  have ok': "buffer_ok b'" using ok w by (simp add: b'_def buffer_ok_def)
  have "content b' = buf_slice (readerIndex b) (writerIndex b) b'
      @ buf_slice (writerIndex b) (writerIndex b + length xs) b'"
    using buf_slice_split [of "readerIndex b" "writerIndex b" "writerIndex b + length xs" b']
      buffer_okD [OF ok] by (simp add: content_def b'_def pointers)
  also have "buf_slice (writerIndex b) (writerIndex b + length xs) b' = xs"
    using w by (simp add: buf_slice_def b'_def)
  also have "buf_slice (readerIndex b) (writerIndex b) b' = content b"
    using w buffer_okD [OF ok]
    by (simp add: content_def buf_slice_def b'_def pointers take_drop_overwrite_before)
  finally show ?thesis using ok' by simp
qed

lemma Buffer_append_cases:
  assumes "buffer_ok b" and "length xs \<le> vec_max"
  shows "(Buffer_append xs b = Abort (Throw ''length_error'') \<and> vec_max < writerIndex b + length xs)
    \<or> (\<exists>b'. Buffer_append xs b = Ret b' \<and> buffer_ok b' \<and> content b' = content b @ xs
         \<and> writerIndex b' \<le> writerIndex b + length xs)"
  using ensureWritableBytes_cases [OF assms]
proof (elim disjE exE conjE)
  fix b' assume e: "ensureWritableBytes (length xs) b = Ret b'" "made_room (length xs) b b'"
  then have ok': "buffer_ok b'" and room: "length xs \<le> writableBytes b'" by (simp_all add: made_room_def)
  then have w: "wadd (writerIndex b') (length xs) = writerIndex b' + length xs"
    and l: "writerIndex b' + length xs \<le> length (buffer b')"
    using buffer_okD [OF ok'] by auto
  let ?b = "b'\<lparr>buffer := overwrite (writerIndex b') xs (buffer b')\<rparr>"
  have "buffer_ok ?b" using ok' l by (simp add: buffer_ok_def)
  then have "writableBytes ?b = writableBytes b'" using l ok' by (simp add: buffer_okD)
  then show ?thesis using e content_written [OF ok' room] w room
    by (simp add: Buffer_append_def hasWritten_def beginWrite_def made_room_def)
qed (simp add: Buffer_append_def)

lemma Buffer_append_ok:
  assumes "buffer_ok b" and "writerIndex b + length xs \<le> vec_max"
  shows "\<exists>b'. Buffer_append xs b = Ret b' \<and> buffer_ok b' \<and> content b' = content b @ xs
    \<and> writerIndex b' \<le> writerIndex b + length xs"
  using Buffer_append_cases [of b xs] assms by auto

section \<open>The byte queue contract\<close>

text \<open>
  What the rest of the library relies on: a queue of bytes with a bounded high-water index
  \<open>used\<close>. Putting succeeds while the index stays within the limit and appends; skipping removes
  from the front.
\<close>

locale byte_fifo =
  fixes bytes :: "'q \<Rightarrow> char list"
    and invar :: "'q \<Rightarrow> bool"
    and used :: "'q \<Rightarrow> nat"
    and limit :: nat
    and put :: "char list \<Rightarrow> 'q \<Rightarrow> 'q outcome"
    and skip :: "nat \<Rightarrow> 'q \<Rightarrow> 'q outcome"
  assumes put_ok: "invar q \<Longrightarrow> used q + length xs \<le> limit \<Longrightarrow>
      \<exists>q'. put xs q = Ret q' \<and> invar q' \<and> bytes q' = bytes q @ xs \<and> used q' \<le> used q + length xs"
    and skip_ok: "invar q \<Longrightarrow> n \<le> length (bytes q) \<Longrightarrow>
      \<exists>q'. skip n q = Ret q' \<and> invar q' \<and> bytes q' = drop n (bytes q) \<and> used q' \<le> used q"
    and skip_too_much: "invar q \<Longrightarrow> length (bytes q) < n \<Longrightarrow> \<not> returns (skip n q)"
begin

lemma put_chunks:
  assumes "invar q" and "used q + length (concat xss) \<le> limit"
  shows "\<exists>q'. foldo put xss q = Ret q' \<and> invar q' \<and> bytes q' = bytes q @ concat xss
    \<and> used q' \<le> used q + length (concat xss)"
  using assms
proof (induction xss arbitrary: q)
  case (Cons xs xss)
  obtain q1 where q1: "put xs q = Ret q1" "invar q1" "bytes q1 = bytes q @ xs"
    "used q1 \<le> used q + length xs"
    using put_ok [of q xs] Cons.prems by auto
  then have "\<exists>q'. foldo put xss q1 = Ret q' \<and> invar q' \<and> bytes q' = bytes q1 @ concat xss
    \<and> used q' \<le> used q1 + length (concat xss)"
    using Cons.IH [of q1] Cons.prems by simp
  then show ?case using q1 by auto
qed simp

lemma put_then_skip:
  assumes "invar q" and "used q + length xs \<le> limit"
  shows "\<exists>q1 q2. put xs q = Ret q1 \<and> skip (length (bytes q)) q1 = Ret q2 \<and> invar q2 \<and> bytes q2 = xs"
proof -
  obtain q1 where q1: "put xs q = Ret q1" "invar q1" "bytes q1 = bytes q @ xs"
    using put_ok [OF assms] by blast
  with skip_ok [of q1 "length (bytes q)"] show ?thesis by auto
qed

lemma skip_split:
  assumes "invar q" and "m + n \<le> length (bytes q)"
  shows "\<exists>q1 q2. skip m q = Ret q1 \<and> skip n q1 = Ret q2 \<and> invar q2 \<and> bytes q2 = drop (m + n) (bytes q)"
proof -
  obtain q1 where q1: "skip m q = Ret q1" "invar q1" "bytes q1 = drop m (bytes q)"
    using skip_ok [of q m] assms by auto
  moreover have "n \<le> length (bytes q1)" using q1 assms by simp
  ultimately show ?thesis using skip_ok [of q1 n] by (auto simp: add.commute)
qed

end

definition high_water :: "Buffer \<Rightarrow> nat" where
  "high_water b = max kCheapPrepend (writerIndex b)"

interpretation net_fifo: byte_fifo content buffer_ok high_water vec_max Buffer_append retrieve
proof
  fix b and xs :: "char list"
  assume "buffer_ok b" "high_water b + length xs \<le> vec_max"
  then show "\<exists>b'. Buffer_append xs b = Ret b' \<and> buffer_ok b' \<and> content b' = content b @ xs
      \<and> high_water b' \<le> high_water b + length xs"
    using Buffer_append_ok [of b xs] by (fastforce simp: high_water_def)
next
  fix b n
  assume "buffer_ok b" "n \<le> length (content b)"
  then show "\<exists>b'. retrieve n b = Ret b' \<and> buffer_ok b' \<and> content b' = drop n (content b)
      \<and> high_water b' \<le> high_water b"
    using retrieve_ok [of b n] by (fastforce simp: high_water_def length_content)
next
  fix b n
  assume "buffer_ok b" "length (content b) < n"
  then show "\<not> returns (retrieve n b)"
    by (simp add: retrieve_def length_content outcome_simps)
qed

section \<open>Prepending and unwriting\<close>

lemma prepend_ok:
  assumes ok: "buffer_ok b" and len: "length xs \<le> prependableBytes b"
  shows "\<exists>b'. prepend xs b = Ret b' \<and> buffer_ok b' \<and> content b' = xs @ content b"
proof -
  let ?r = "readerIndex b - length xs"
  let ?v = "overwrite ?r xs (buffer b)"
  let ?b = "b\<lparr>readerIndex := ?r, buffer := ?v\<rparr>"
  have r: "?r + length xs = readerIndex b" "?r \<le> length (buffer b)"
    "readerIndex b \<le> length (buffer b)" "wsub (readerIndex b) (length xs) = ?r"
    using len buffer_okD [OF ok] by (auto intro: wsub_vec_max)
  have "content ?b = buf_slice ?r (readerIndex b) ?b @ buf_slice (readerIndex b) (writerIndex b) ?b"
    using buf_slice_split [of ?r "readerIndex b" "writerIndex b" ?b] buffer_okD [OF ok]
    by (simp add: content_def pointers)
  also have "buf_slice ?r (readerIndex b) ?b = xs"
    using r overwrite_inside [of ?r "buffer b" xs] by (simp add: buf_slice_def)
  also have "buf_slice (readerIndex b) (writerIndex b) ?b = content b"
    using r drop_overwrite_behind [of ?r xs "readerIndex b" "buffer b"]
    by (simp add: buf_slice_def content_def pointers)
  finally have "content ?b = xs @ content b" .
  moreover have "length ?v = length (buffer b)" using r by simp
  ultimately show ?thesis using ok len r by (auto simp: prepend_def buffer_ok_def Let_def)
qed

lemma unwrite_ok:
  assumes ok: "buffer_ok b" and n: "n \<le> readableBytes b"
  shows "\<exists>b'. unwrite n b = Ret b' \<and> buffer_ok b' \<and> content b' = take (length (content b) - n) (content b)"
proof -
  let ?b = "b\<lparr>writerIndex := writerIndex b - n\<rparr>"
  have w: "wsub (writerIndex b) n = writerIndex b - n"
    using n buffer_okD [OF ok] by (intro wsub_vec_max) auto
  have "length (content b) - n = writerIndex b - n - readerIndex b"
    using ok by (simp add: length_content buffer_okD)
  then have "content ?b = take (length (content b) - n) (content b)"
    by (simp add: content_def buf_slice_def pointers min_def)
  then show ?thesis using n buffer_okD [OF ok] w by (auto simp: unwrite_def buffer_ok_def)
qed

section \<open>Integers in network byte order\<close>

lemma append_network_bytes:
  "appendInt64 x b = Buffer_append (be_bytes 8 (unat x)) b"
  "appendInt32 y b = Buffer_append (be_bytes 4 (unat y)) b"
  "appendInt16 z b = Buffer_append (be_bytes 2 (unat z)) b"
  "appendInt8 u b = Buffer_append (be_bytes 1 (unat u)) b"
  "prependInt64 x b = prepend (be_bytes 8 (unat x)) b"
  "prependInt32 y b = prepend (be_bytes 4 (unat y)) b"
  "prependInt16 z b = prepend (be_bytes 2 (unat z)) b"
  "prependInt8 u b = prepend (be_bytes 1 (unat u)) b"
  by (simp_all add: appendInt64_def appendInt32_def appendInt16_def appendInt8_def prependInt64_def
      prependInt32_def prependInt16_def prependInt8_def unat_hostToNetwork le_bytes_bswap be_bytes_def)

lemma peek_network_bytes:
  assumes ok: "buffer_ok b"
  shows "8 \<le> readableBytes b \<Longrightarrow> peekInt64 b = Ret (word_of_nat (be_val (take 8 (content b))))"
    and "4 \<le> readableBytes b \<Longrightarrow> peekInt32 b = Ret (word_of_nat (be_val (take 4 (content b))))"
    and "2 \<le> readableBytes b \<Longrightarrow> peekInt16 b = Ret (word_of_nat (be_val (take 2 (content b))))"
    and "1 \<le> readableBytes b \<Longrightarrow> peekInt8 b = Ret (word_of_nat (be_val (take 1 (content b))))"
proof -
  have le: "le_val cs < 256 ^ k" if "length cs = k" for cs k
    using le_val_bound [of cs] that by simp
  show "8 \<le> readableBytes b \<Longrightarrow> peekInt64 b = Ret (word_of_nat (be_val (take 8 (content b))))"
    using le [of "take 8 (content b)" 8]
    by (simp add: peekInt64_def content_take ok networkToHost64_def unat_of_nat bswap_le_val length_content)
  show "4 \<le> readableBytes b \<Longrightarrow> peekInt32 b = Ret (word_of_nat (be_val (take 4 (content b))))"
    using le [of "take 4 (content b)" 4]
    by (simp add: peekInt32_def content_take ok networkToHost32_def unat_of_nat bswap_le_val length_content)
  show "2 \<le> readableBytes b \<Longrightarrow> peekInt16 b = Ret (word_of_nat (be_val (take 2 (content b))))"
    using le [of "take 2 (content b)" 2]
    by (simp add: peekInt16_def content_take ok networkToHost16_def unat_of_nat bswap_le_val length_content
        del: add_2_eq_Suc')
  show "1 \<le> readableBytes b \<Longrightarrow> peekInt8 b = Ret (word_of_nat (be_val (take 1 (content b))))"
  proof -
    assume "1 \<le> readableBytes b"
    moreover then obtain c cs where "content b = c # cs"
      by (metis length_content [OF ok] length_0_conv neq_Nil_conv not_one_le_zero)
    ultimately show ?thesis
      using content_take [OF ok, of 1] by (simp add: peekInt8_def be_val_def)
  qed
qed

text \<open>Reading fails in the readable-bytes assertion exactly when fewer bytes than the width are
  there, and otherwise consumes them.\<close>

lemma readInt_content:
  assumes ok: "buffer_ok b"
  shows "content b = be_bytes 8 (unat x) @ cs \<Longrightarrow> \<exists>b'. readInt64 b = Ret (x, b') \<and> buffer_ok b' \<and> content b' = cs"
    and "content b = be_bytes 4 (unat y) @ cs \<Longrightarrow> \<exists>b'. readInt32 b = Ret (y, b') \<and> buffer_ok b' \<and> content b' = cs"
    and "content b = be_bytes 2 (unat z) @ cs \<Longrightarrow> \<exists>b'. readInt16 b = Ret (z, b') \<and> buffer_ok b' \<and> content b' = cs"
    and "content b = be_bytes 1 (unat u) @ cs \<Longrightarrow> \<exists>b'. readInt8 b = Ret (u, b') \<and> buffer_ok b' \<and> content b' = cs"
proof -
  have r: "k \<le> readableBytes b" if "content b = be_bytes k n @ cs" for k n
    using length_content [OF ok] that by simp
  note retr = retrieve_ok [OF ok r]
  show "content b = be_bytes 8 (unat x) @ cs \<Longrightarrow> \<exists>b'. readInt64 b = Ret (x, b') \<and> buffer_ok b' \<and> content b' = cs"
    using retr [of 8 "unat x"] peek_network_bytes(1) [OF ok r] unsigned_less [of x, where 'a = nat]
    by (auto simp: readInt64_def retrieveInt64_def be_val_be_bytes)
  show "content b = be_bytes 4 (unat y) @ cs \<Longrightarrow> \<exists>b'. readInt32 b = Ret (y, b') \<and> buffer_ok b' \<and> content b' = cs"
    using retr [of 4 "unat y"] peek_network_bytes(2) [OF ok r] unsigned_less [of y, where 'a = nat]
    by (auto simp: readInt32_def retrieveInt32_def be_val_be_bytes)
  show "content b = be_bytes 2 (unat z) @ cs \<Longrightarrow> \<exists>b'. readInt16 b = Ret (z, b') \<and> buffer_ok b' \<and> content b' = cs"
    using retr [of 2 "unat z"] peek_network_bytes(3) [OF ok r] unsigned_less [of z, where 'a = nat]
    by (auto simp: readInt16_def retrieveInt16_def be_val_be_bytes)
  show "content b = be_bytes 1 (unat u) @ cs \<Longrightarrow> \<exists>b'. readInt8 b = Ret (u, b') \<and> buffer_ok b' \<and> content b' = cs"
    using retr [of 1 "unat u"] peek_network_bytes(4) [OF ok r] unsigned_less [of u, where 'a = nat]
    by (auto simp: readInt8_def retrieveInt8_def be_val_be_bytes)
qed

section \<open>Searching\<close>

lemma length_kCRLF [simp]: "length kCRLF = 2"
  by (simp add: kCRLF_def)

lemma findCRLF_Some:
  assumes ok: "buffer_ok b" and "findCRLF b = Some p"
  shows "peek b \<le> p \<and> p + 2 \<le> beginWrite b \<and> take 2 (drop (p - peek b) (content b)) = kCRLF"
proof -
  let ?i = "std_search (content b) kCRLF"
  have p: "p = peek b + ?i" and ne: "peek b + ?i \<noteq> beginWrite b"
    using assms(2) by (auto simp: findCRLF_def content_def Let_def split: if_splits)
  have lc: "length (content b) = beginWrite b - peek b" and le: "peek b \<le> beginWrite b"
    using ok by (simp_all add: length_content buffer_okD pointers)
  with ne std_search_le [of "content b" kCRLF] have lt: "?i < length (content b)" by simp
  show ?thesis
    using p lc le std_search_room [OF lt] std_search_match [OF lt] by simp
qed

lemma findCRLF_first:
  assumes "buffer_ok b" and "findCRLF b = Some p" and "i < p - peek b"
  shows "take 2 (drop i (content b)) \<noteq> kCRLF"
  using assms std_search_first [of i "content b" kCRLF]
  by (auto simp: findCRLF_def content_def Let_def split: if_splits)

lemma findCRLF_None:
  assumes ok: "buffer_ok b" and "findCRLF b = None"
  shows "take 2 (drop i (content b)) \<noteq> kCRLF"
proof -
  have lc: "length (content b) = beginWrite b - peek b" and le: "peek b \<le> beginWrite b"
    using ok by (simp_all add: length_content buffer_okD pointers)
  have s: "std_search (content b) kCRLF = length (content b)"
    using assms(2) lc le by (auto simp: findCRLF_def content_def Let_def split: if_splits)
  show ?thesis
  proof (cases "i < length (content b)")
    case True
    then show ?thesis using std_search_first [of i "content b" kCRLF] s by simp
  next
    case False
    then show ?thesis by (simp add: kCRLF_def)
  qed
qed

section \<open>Reading from a descriptor\<close>

text \<open>The documented behaviour of \<^verbatim>\<open>readv\<close>: it never delivers more bytes than the vectors hold.\<close>

definition readv_spec :: "(nat list \<Rightarrow> int + char list) \<Rightarrow> bool" where
  "readv_spec readv \<longleftrightarrow> (\<forall>vec bytes. readv vec = Inr bytes \<longrightarrow> length bytes \<le> sum_list vec)"

lemma readFd_error:
  "readv (if writableBytes b < 65536 then [writableBytes b, 65536] else [writableBytes b]) = Inl e \<Longrightarrow>
    readFd readv b = Ret (-1, Some e, b)"
  by (simp add: readFd_def Let_def)

text \<open>The buffer once the writable area has been filled completely.\<close>

lemma readFd_filled:
  fixes b :: Buffer and bytes :: "char list"
  assumes ok: "buffer_ok b" and long: "writableBytes b < length bytes"
  defines "b1 \<equiv> b\<lparr>buffer := overwrite (writerIndex b) (take (writableBytes b) bytes) (buffer b)\<rparr>"
  shows "buffer_ok (b1\<lparr>writerIndex := length (buffer b1)\<rparr>)"
    and "content (b1\<lparr>writerIndex := length (buffer b1)\<rparr>) = content b @ take (writableBytes b) bytes"
    and "length (buffer b1) = length (buffer b)"
proof -
  let ?w = "writableBytes b"
  have wr: "writerIndex b + ?w = length (buffer b)" using buffer_okD [OF ok] by simp
  show l1: "length (buffer b1) = length (buffer b)" using wr by (simp add: b1_def)
  have tk: "writerIndex b + length (take ?w bytes) = length (buffer b)" using long wr by simp
  show "buffer_ok (b1\<lparr>writerIndex := length (buffer b1)\<rparr>)"
    and "content (b1\<lparr>writerIndex := length (buffer b1)\<rparr>) = content b @ take ?w bytes"
    using content_written [OF ok, of "take ?w bytes", unfolded tk] l1 by (simp_all add: b1_def)
qed

lemma readFd_cases:
  assumes ok: "buffer_ok b" and spec: "readv_spec readv"
    and got: "readv (if writableBytes b < 65536 then [writableBytes b, 65536] else [writableBytes b])
      = Inr bytes"
  shows "(\<exists>b'. readFd readv b = Ret (int (length bytes), None, b') \<and> buffer_ok b' \<and> content b' = content b @ bytes)
    \<or> readFd readv b = Abort (Throw ''length_error'') \<and> vec_max < length (buffer b) + 65536"
proof -
  let ?w = "writableBytes b"
  let ?b1 = "b\<lparr>buffer := overwrite (writerIndex b) (take ?w bytes) (buffer b)\<rparr>"
  show ?thesis
  proof (cases "length bytes \<le> ?w")
    case True
    then have "wadd (writerIndex b) (length bytes) = writerIndex b + length bytes"
      using buffer_okD [OF ok] by (intro wadd_le_vec_max) auto
    with True content_written [OF ok, of "take ?w bytes"] got show ?thesis by (simp add: readFd_def Let_def)
  next
    case False
    have lb: "length bytes \<le> ?w + 65536"
    proof -
      have "length bytes \<le> sum_list (if ?w < 65536 then [?w, 65536] else [?w])"
        using spec got unfolding readv_spec_def by blast
      then show ?thesis by (simp split: if_splits)
    qed
    let ?b2 = "?b1\<lparr>writerIndex := length (buffer ?b1)\<rparr>"
    note b2 = readFd_filled [OF ok, of bytes]
    have "length (drop ?w bytes) \<le> vec_max" using lb by (simp add: vec_max_def)
    from Buffer_append_cases [of ?b2, OF _ this] b2 False got lb show ?thesis
      by (auto simp: readFd_def Let_def)
  qed
qed

lemma readFd_delivers:
  assumes "buffer_ok b" and "length (buffer b) + 65536 \<le> vec_max" and "readv_spec readv"
    and "readv (if writableBytes b < 65536 then [writableBytes b, 65536] else [writableBytes b]) = Inr bytes"
  shows "\<exists>b'. readFd readv b = Ret (int (length bytes), None, b') \<and> buffer_ok b'
    \<and> content b' = content b @ bytes"
  using readFd_cases [OF assms(1,3,4)] assms(2) by auto

section \<open>Shrinking\<close>

lemma toStringPiece_small:
  assumes "buffer_ok b" and "readableBytes b < 2 ^ 31"
  shows "toStringPiece b = (content b, int (length (content b)))"
proof -
  have "sint (word_of_nat (readableBytes b) :: 32 word) = int (readableBytes b)"
    using assms(2) by (simp add: signed_of_nat signed_take_bit_int_eq_self)
  then show ?thesis using assms(1) by (simp add: toStringPiece_def length_content)
qed

lemma shrink_ok:
  assumes ok: "buffer_ok b" and small: "readableBytes b < 2 ^ 31" and r: "reserve < 2 ^ 62"
  shows "\<exists>b'. shrink reserve b = Ret b' \<and> buffer_ok b' \<and> content b' = content b"
proof -
  obtain o0 where o0: "new_Buffer kInitialSize = Ret o0" "buffer_ok o0" "content o0 = []"
    "writerIndex o0 = kCheapPrepend"
    using new_Buffer_ok [of kInitialSize] by (auto simp: kInitialSize_def vec_max_def kCheapPrepend_def)
  let ?n = "readableBytes b + reserve"
  have n: "wadd (readableBytes b) reserve = ?n" "?n + 8 \<le> vec_max"
    using small r by (simp_all add: wadd_def vec_max_def)
  obtain o1 where o1: "ensureWritableBytes ?n o0 = Ret o1" "buffer_ok o1" "content o1 = []"
    "writerIndex o1 \<le> kCheapPrepend"
    using ensureWritableBytes_cases [OF o0(2), of ?n] n o0
    by (auto simp: made_room_def kCheapPrepend_def)
  have len: "length (content b) < 2 ^ 31" using small ok by (simp add: length_content)
  have "writerIndex o1 + length (content b) \<le> vec_max"
    using o1(4) len by (simp add: vec_max_def kCheapPrepend_def)
  from Buffer_append_ok [OF o1(2) this] obtain o2 where
    o2: "Buffer_append (content b) o1 = Ret o2" "buffer_ok o2" "content o2 = content b"
    using o1(3) by auto
  have "append_StringPiece (toStringPiece b) o1 = Ret o2"
    using o2 len by (simp add: toStringPiece_small [OF ok small] append_StringPiece_def Let_def)
  then show ?thesis using o0 o1 o2 n by (simp add: shrink_def Buffer_swap_def)
qed

section \<open>Properties\<close>

lemmas buffer_eval = new_Buffer_def vec_resize_def wadd_def wsub_def vec_max_def kCheapPrepend_def
  readableBytes_def writableBytes_def prependableBytes_def Buffer_append_def ensureWritableBytes_def
  makeSpace_def hasWritten_def retrieve_def retrieveAll_def prepend_def unwrite_def overwrite_def
  buf_slice_def peek_def beginWrite_def content_def buffer_ok_def Let_def

text \<open>A small concrete buffer holding some bytes, for the witnesses.\<close>

definition demo_buffer :: "char list \<Rightarrow> Buffer" where
  "demo_buffer cs = \<lparr>buffer = replicate 8 (CHR 0x00) @ cs @ replicate 4 (CHR 0x00), readerIndex = 8,
     writerIndex = 8 + length cs\<rparr>"

text \<open>Appending any sequence of chunks to a well-formed buffer whose write index leaves room for
  them always returns: the chunks follow the old readable bytes, in order, and the invariant
  holds.\<close>

theorem append_chunks_total:
  assumes "buffer_ok b" and "high_water b + length (concat xss) \<le> vec_max"
  shows "\<exists>b'. foldo Buffer_append xss b = Ret b' \<and> buffer_ok b' \<and> content b' = content b @ concat xss"
  using net_fifo.put_chunks [OF assms] by auto

theorem append_chunks_total_witness:
  "\<exists>b'. foldo Buffer_append [''GET '', ''/'', ''''] (demo_buffer ''x'') = Ret b' \<and> buffer_ok b'
     \<and> content b' = content (demo_buffer ''x'') @ ''GET /''"
  using append_chunks_total [of "demo_buffer ''x''" "[''GET '', ''/'', '''']"]
  by (simp add: demo_buffer_def buffer_ok_def high_water_def kCheapPrepend_def vec_max_def)

text \<open>C27: integers of all four widths, appended in network byte order to an empty buffer and read
  back in the same order, are recovered exactly and the buffer is empty again.\<close>

theorem int_round_trip:
  assumes "buffer_ok b" and "content b = []" and "high_water b + 15 \<le> vec_max"
  shows "\<exists>b' r1 r2 r3 r4.
      bindo (appendInt64 x b) (\<lambda>b. bindo (appendInt32 y b) (\<lambda>b. bindo (appendInt16 z b) (appendInt8 u))) = Ret b'
      \<and> readInt64 b' = Ret (x, r1) \<and> readInt32 r1 = Ret (y, r2) \<and> readInt16 r2 = Ret (z, r3)
      \<and> readInt8 r3 = Ret (u, r4) \<and> buffer_ok r4 \<and> content r4 = []"
proof -
  let ?xss = "[be_bytes 8 (unat x), be_bytes 4 (unat y), be_bytes 2 (unat z), be_bytes 1 (unat u)]"
  obtain b' where b': "foldo Buffer_append ?xss b = Ret b'" "buffer_ok b'" "content b' = concat ?xss"
    using net_fifo.put_chunks [OF assms(1), of ?xss] assms by auto
  have "bindo (appendInt64 x b) (\<lambda>b. bindo (appendInt32 y b) (\<lambda>b. bindo (appendInt16 z b) (appendInt8 u))) = Ret b'"
    using b'(1) by (auto simp: append_network_bytes bindo_eq_Ret)
  moreover obtain r1 where "readInt64 b' = Ret (x, r1)" and r1: "buffer_ok r1" "content r1 = concat (tl ?xss)"
    using readInt_content(1) [OF b'(2)] b'(3) by (metis concat.simps(2) list.sel(3))
  moreover obtain r2 where "readInt32 r1 = Ret (y, r2)" and r2: "buffer_ok r2" "content r2 = concat (tl (tl ?xss))"
    using readInt_content(2) [OF r1(1)] r1(2) by (metis concat.simps(2) list.sel(3))
  moreover obtain r3 where "readInt16 r2 = Ret (z, r3)" and r3: "buffer_ok r3" "content r3 = be_bytes 1 (unat u) @ []"
    using readInt_content(3) [OF r2(1)] r2(2) by (metis concat.simps list.sel(3))
  moreover obtain r4 where "readInt8 r3 = Ret (u, r4)" "buffer_ok r4" "content r4 = []"
    using readInt_content(4) [OF r3] by blast
  ultimately show ?thesis by blast
qed

theorem int_round_trip_witness:
  "\<exists>b' r1 r2 r3 r4.
      bindo (appendInt64 1 (demo_buffer '''')) (\<lambda>b. bindo (appendInt32 (-2) b) (\<lambda>b. bindo (appendInt16 300 b) (appendInt8 255))) = Ret b'
      \<and> readInt64 b' = Ret (1, r1) \<and> readInt32 r1 = Ret (-2, r2) \<and> readInt16 r2 = Ret (300, r3)
      \<and> readInt8 r3 = Ret (255, r4) \<and> buffer_ok r4 \<and> content r4 = []"
  by (rule int_round_trip)
    (simp_all add: demo_buffer_def buffer_ok_def high_water_def kCheapPrepend_def vec_max_def content_def
      buf_slice_def peek_def beginWrite_def)

text \<open>FindCRLF returns the position of the first CRLF among the readable bytes, wholly inside
  them, and the null pointer exactly when they contain none.\<close>

theorem findCRLF_finds_first:
  assumes "buffer_ok b"
  shows "case findCRLF b of
      None \<Rightarrow> (\<forall>i. take 2 (drop i (content b)) \<noteq> kCRLF)
    | Some p \<Rightarrow> peek b \<le> p \<and> p + 2 \<le> beginWrite b \<and> take 2 (drop (p - peek b) (content b)) = kCRLF
        \<and> (\<forall>i. i < p - peek b \<longrightarrow> take 2 (drop i (content b)) \<noteq> kCRLF)"
  using findCRLF_Some [OF assms] findCRLF_first [OF assms] findCRLF_None [OF assms]
  by (simp split: option.split)

theorem findCRLF_finds_first_witness:
  "findCRLF (demo_buffer (''ab'' @ kCRLF @ ''c'')) = Some 10 \<and> 10 + 2 \<le> beginWrite (demo_buffer (''ab'' @ kCRLF @ ''c''))"
proof -
  have f: "findCRLF (demo_buffer (''ab'' @ kCRLF @ ''c'')) = Some 10"
    by (simp add: demo_buffer_def findCRLF_def kCRLF_def buffer_eval)
  have "buffer_ok (demo_buffer (''ab'' @ kCRLF @ ''c''))"
    by (simp add: demo_buffer_def kCRLF_def buffer_eval)
  from findCRLF_finds_first [OF this] f show ?thesis by simp
qed

text \<open>C28: whatever readv scatters over the writable area and the 64 KiB stack buffer arrives after
  the old readable bytes, completely and in order, and the byte count is returned; when readv
  fails, -1 and the errno are returned and the buffer is untouched.\<close>

theorem readFd_appends_what_was_read:
  assumes "buffer_ok b" and "length (buffer b) + 65536 \<le> vec_max" and "readv_spec readv"
  shows "case readv (if writableBytes b < 65536 then [writableBytes b, 65536] else [writableBytes b]) of
      Inl e \<Rightarrow> readFd readv b = Ret (-1, Some e, b)
    | Inr bytes \<Rightarrow> \<exists>b'. readFd readv b = Ret (int (length bytes), None, b') \<and> buffer_ok b'
        \<and> content b' = content b @ bytes"
  using readFd_error [of readv b] readFd_delivers [OF assms]
  by (cases "readv (if writableBytes b < 65536 then [writableBytes b, 65536] else [writableBytes b])") auto

theorem readFd_appends_what_was_read_witness:
  "\<exists>b'. readFd (\<lambda>vec. Inr (take (sum_list vec) ''0123456789'')) (demo_buffer ''>'') = Ret (10, None, b')
     \<and> buffer_ok b' \<and> content b' = content (demo_buffer ''>'') @ ''0123456789''"
  using readFd_appends_what_was_read [of "demo_buffer ''>''" "\<lambda>vec. Inr (take (sum_list vec) ''0123456789'')"]
  by (simp add: demo_buffer_def buffer_ok_def vec_max_def kCheapPrepend_def readv_spec_def
      writableBytes_def wsub_def)

text \<open>Shrink rebuilds the storage without touching the readable bytes, for every buffer with
  less than 2 GiB of them (the StringPiece it goes through has a 32-bit length).\<close>

theorem shrink_keeps_content:
  assumes "buffer_ok b" and "readableBytes b < 2 ^ 31" and "reserve < 2 ^ 62"
  shows "\<exists>b'. shrink reserve b = Ret b' \<and> buffer_ok b' \<and> content b' = content b"
  using assms by (rule shrink_ok)

theorem shrink_keeps_content_witness:
  "\<exists>b'. shrink 5 (demo_buffer ''abc'') = Ret b' \<and> buffer_ok b' \<and> content b' = content (demo_buffer ''abc'')"
  using shrink_keeps_content [of "demo_buffer ''abc''" 5]
  by (simp add: demo_buffer_def buffer_ok_def vec_max_def kCheapPrepend_def readableBytes_def wsub_def)

end
