(* ===== verification/Channels.thy ===== *)
theory Channels
  imports Prelude
begin

text \<open>
  \<^verbatim>\<open>muduo/net/Channel.h\<close> and \<^verbatim>\<open>muduo/net/Channel.cc\<close>: the selectable I/O channel, the object that
  dispatches the events of one descriptor.

  A pointer to a channel is a natural number, the store of a loop maps pointers to \<open>Channel\<close>
  records. The callbacks are \<^verbatim>\<open>std::function\<close> objects owned by others: the record keeps whether each
  one is set, and the dispatch takes the function that runs them as a parameter. The weak pointer
  of \<^verbatim>\<open>tie()\<close> is represented by the answer of \<^verbatim>\<open>lock()\<close>.
\<close>

unbundle bit_operations_syntax

section \<open>Event masks\<close>

type_synonym events = "32 word"

definition POLLIN :: events where "POLLIN = 1"
definition POLLPRI :: events where "POLLPRI = 2"
definition POLLOUT :: events where "POLLOUT = 4"
definition POLLERR :: events where "POLLERR = 8"
definition POLLHUP :: events where "POLLHUP = 16"
definition POLLNVAL :: events where "POLLNVAL = 32"
definition POLLRDHUP :: events where "POLLRDHUP = 0x2000"

definition kNoneEvent :: events where
  "kNoneEvent = 0"

definition kReadEvent :: events where
  "kReadEvent = POLLIN OR POLLPRI"

definition kWriteEvent :: events where
  "kWriteEvent = POLLOUT"

definition has_bits :: "events \<Rightarrow> events \<Rightarrow> bool" where
  "has_bits ev bits \<longleftrightarrow> ev AND bits \<noteq> 0"

lemmas poll_masks = POLLIN_def POLLPRI_def POLLOUT_def POLLERR_def POLLHUP_def POLLNVAL_def
  POLLRDHUP_def kNoneEvent_def kReadEvent_def kWriteEvent_def

section \<open>The channel object\<close>

record Channel =
  fd :: int
  events :: events
  revents :: events
  index :: int
  logHup :: bool
  tied :: bool
  eventHandling :: bool
  addedToLoop :: bool
  readCallback :: bool
  writeCallback :: bool
  closeCallback :: bool
  errorCallback :: bool

type_synonym store = "nat \<Rightarrow> Channel"

definition new_Channel :: "int \<Rightarrow> Channel" where
  "new_Channel fd_arg = \<lparr>fd = fd_arg, events = 0, revents = 0, index = -1, logHup = True, tied = False,
     eventHandling = False, addedToLoop = False, readCallback = False, writeCallback = False,
     closeCallback = False, errorCallback = False\<rparr>"

text \<open>The destructor: the channel must be out of its loop; \<open>in_thread\<close> is \<^verbatim>\<open>loop_->isInLoopThread()\<close>,
  \<open>has\<close> the answer of \<^verbatim>\<open>loop_->hasChannel(this)\<close>.\<close>

definition delete_Channel :: "bool \<Rightarrow> bool \<Rightarrow> Channel \<Rightarrow> unit outcome" where
  "delete_Channel in_thread has c =
     require (\<not> eventHandling c) ''!eventHandling_''
     (require (\<not> addedToLoop c) ''!addedToLoop_''
     (if in_thread then require (\<not> has) ''!loop_->hasChannel(this)'' (Ret ()) else Ret ()))"

definition Channel_tie :: "Channel \<Rightarrow> Channel" where
  "Channel_tie c = c\<lparr>tied := True\<rparr>"

definition isNoneEvent :: "Channel \<Rightarrow> bool" where
  "isNoneEvent c \<longleftrightarrow> events c = kNoneEvent"

definition isWriting :: "Channel \<Rightarrow> bool" where
  "isWriting c \<longleftrightarrow> has_bits (events c) kWriteEvent"

definition isReading :: "Channel \<Rightarrow> bool" where
  "isReading c \<longleftrightarrow> has_bits (events c) kReadEvent"

text \<open>The five calls that change the interest set: the new mask each of them computes.\<close>

datatype interest_call = EnableReading | DisableReading | EnableWriting | DisableWriting | DisableAll

fun new_events :: "interest_call \<Rightarrow> events \<Rightarrow> events" where
  "new_events EnableReading ev = ev OR kReadEvent"
| "new_events DisableReading ev = ev AND NOT kReadEvent"
| "new_events EnableWriting ev = ev OR kWriteEvent"
| "new_events DisableWriting ev = ev AND NOT kWriteEvent"
| "new_events DisableAll ev = kNoneEvent"

text \<open>\<^verbatim>\<open>update()\<close> and \<^verbatim>\<open>remove()\<close> go through the loop to the poller, whose two operations are the
  parameters; the state is the store together with the poller.\<close>

definition Channel_update ::
  "(nat \<Rightarrow> store \<times> 'p \<Rightarrow> (store \<times> 'p) outcome) \<Rightarrow> nat \<Rightarrow> store \<times> 'p \<Rightarrow> (store \<times> 'p) outcome" where
  "Channel_update updateChannel c s =
     (case s of (h, p) \<Rightarrow> updateChannel c (h(c := (h c)\<lparr>addedToLoop := True\<rparr>), p))"

definition Channel_interest ::
  "(nat \<Rightarrow> store \<times> 'p \<Rightarrow> (store \<times> 'p) outcome) \<Rightarrow> interest_call \<Rightarrow> nat \<Rightarrow> store \<times> 'p \<Rightarrow> (store \<times> 'p) outcome" where
  "Channel_interest updateChannel call c s =
     (case s of (h, p) \<Rightarrow>
        Channel_update updateChannel c (h(c := (h c)\<lparr>events := new_events call (events (h c))\<rparr>), p))"

definition Channel_remove ::
  "(nat \<Rightarrow> store \<times> 'p \<Rightarrow> (store \<times> 'p) outcome) \<Rightarrow> nat \<Rightarrow> store \<times> 'p \<Rightarrow> (store \<times> 'p) outcome" where
  "Channel_remove removeChannel c s =
     (case s of (h, p) \<Rightarrow>
        require (isNoneEvent (h c)) ''isNoneEvent()''
        (removeChannel c (h(c := (h c)\<lparr>addedToLoop := False\<rparr>), p)))"

section \<open>Dispatch\<close>

datatype callback = CbRead | CbWrite | CbClose | CbError

definition run_if ::
  "bool \<Rightarrow> (callback \<Rightarrow> Channel \<times> 's \<Rightarrow> (Channel \<times> 's) outcome) \<Rightarrow> callback \<Rightarrow> Channel \<times> 's \<Rightarrow> (Channel \<times> 's) outcome" where
  "run_if b run cb s = (if b then run cb s else Ret s)"

definition handleEventWithGuard ::
  "(callback \<Rightarrow> Channel \<times> 's \<Rightarrow> (Channel \<times> 's) outcome) \<Rightarrow> Channel \<times> 's \<Rightarrow> (Channel \<times> 's) outcome" where
  "handleEventWithGuard run cs =
     bindo (let c = fst cs in
            run_if (has_bits (revents c) POLLHUP \<and> \<not> has_bits (revents c) POLLIN \<and> closeCallback c)
              run CbClose (c\<lparr>eventHandling := True\<rparr>, snd cs)) (\<lambda>s.
     bindo (run_if (has_bits (revents (fst s)) (POLLERR OR POLLNVAL) \<and> errorCallback (fst s)) run CbError s) (\<lambda>s.
     bindo (run_if (has_bits (revents (fst s)) (POLLIN OR POLLPRI OR POLLRDHUP) \<and> readCallback (fst s)) run CbRead s) (\<lambda>s.
     bindo (run_if (has_bits (revents (fst s)) POLLOUT \<and> writeCallback (fst s)) run CbWrite s) (\<lambda>s.
     Ret ((fst s)\<lparr>eventHandling := False\<rparr>, snd s)))))"

text \<open>\<open>locked\<close> is whether \<^verbatim>\<open>tie_.lock()\<close> yields the owner.\<close>

definition handleEvent ::
  "bool \<Rightarrow> (callback \<Rightarrow> Channel \<times> 's \<Rightarrow> (Channel \<times> 's) outcome) \<Rightarrow> Channel \<times> 's \<Rightarrow> (Channel \<times> 's) outcome" where
  "handleEvent locked run cs =
     (if tied (fst cs)
      then (if locked then handleEventWithGuard run cs else Ret cs)
      else handleEventWithGuard run cs)"

definition eventsToString :: "int \<Rightarrow> events \<Rightarrow> string" where
  "eventsToString f ev =
     dec_int f @ '': '' @
     (if has_bits ev POLLIN then ''IN '' else '''') @
     (if has_bits ev POLLPRI then ''PRI '' else '''') @
     (if has_bits ev POLLOUT then ''OUT '' else '''') @
     (if has_bits ev POLLHUP then ''HUP '' else '''') @
     (if has_bits ev POLLRDHUP then ''RDHUP '' else '''') @
     (if has_bits ev POLLERR then ''ERR '' else '''') @
     (if has_bits ev POLLNVAL then ''NVAL '' else '''')"

definition reventsToString :: "Channel \<Rightarrow> string" where
  "reventsToString c = eventsToString (fd c) (revents c)"

definition channel_eventsToString :: "Channel \<Rightarrow> string" where
  "channel_eventsToString c = eventsToString (fd c) (events c)"

section \<open>Interest masks\<close>

text \<open>Starting from no interest, the five calls only ever produce four masks, all of which survive
  the cast to \<^verbatim>\<open>short\<close> that poll needs.\<close>

definition interest_ok :: "events \<Rightarrow> bool" where
  "interest_ok ev \<longleftrightarrow> ev \<in> {0, 3, 4, 7}"

lemma interest_ok_zero [simp]: "interest_ok 0"
  by (simp add: interest_ok_def)

lemma new_events_ok: "interest_ok ev \<Longrightarrow> interest_ok (new_events call ev)"
  by (cases call) (auto simp: interest_ok_def poll_masks)

lemma enabled_nonzero: "call \<in> {EnableReading, EnableWriting} \<Longrightarrow> interest_ok ev \<Longrightarrow> new_events call ev \<noteq> 0"
  by (auto simp: interest_ok_def poll_masks)

lemma interest_calls_observed:
  assumes "interest_ok (events c)"
  shows "isReading (c\<lparr>events := new_events EnableReading (events c)\<rparr>)"
    and "\<not> isReading (c\<lparr>events := new_events DisableReading (events c)\<rparr>)"
    and "isWriting (c\<lparr>events := new_events EnableWriting (events c)\<rparr>)"
    and "\<not> isWriting (c\<lparr>events := new_events DisableWriting (events c)\<rparr>)"
    and "isReading (c\<lparr>events := new_events DisableWriting (events c)\<rparr>) = isReading c"
    and "isWriting (c\<lparr>events := new_events DisableReading (events c)\<rparr>) = isWriting c"
    and "isNoneEvent c \<longleftrightarrow> \<not> isReading c \<and> \<not> isWriting c"
  using assms
  by (auto simp: interest_ok_def isReading_def isWriting_def isNoneEvent_def has_bits_def poll_masks)

section \<open>Which callbacks an event runs\<close>

definition dispatched :: "Channel \<Rightarrow> callback list" where
  "dispatched c =
     (if has_bits (revents c) POLLHUP \<and> \<not> has_bits (revents c) POLLIN \<and> closeCallback c then [CbClose] else []) @
     (if has_bits (revents c) (POLLERR OR POLLNVAL) \<and> errorCallback c then [CbError] else []) @
     (if has_bits (revents c) (POLLIN OR POLLPRI OR POLLRDHUP) \<and> readCallback c then [CbRead] else []) @
     (if has_bits (revents c) POLLOUT \<and> writeCallback c then [CbWrite] else [])"

text \<open>A callback runner that leaves the received events and the callback slots alone, as every
  callback of the library does.\<close>

definition same_dispatch :: "Channel \<Rightarrow> Channel \<Rightarrow> bool" where
  "same_dispatch c d \<longleftrightarrow> (revents c, readCallback c, writeCallback c, closeCallback c, errorCallback c)
     = (revents d, readCallback d, writeCallback d, closeCallback d, errorCallback d)"

definition keeps_dispatch :: "(callback \<Rightarrow> Channel \<times> 's \<Rightarrow> (Channel \<times> 's) outcome) \<Rightarrow> bool" where
  "keeps_dispatch run \<longleftrightarrow> (\<forall>cb s s'. run cb s = Ret s' \<longrightarrow> same_dispatch (fst s') (fst s))"

lemma run_if_foldo: "run_if b run cb s = foldo run (if b then [cb] else []) s"
  by (cases "run cb s") (auto simp: run_if_def)

text \<open>It is enough that the callbacks run before a callback leave the decision about it alone.\<close>

lemma handleEventWithGuard_runs:
  assumes keeps: "\<And>cbs more s'. dispatched c = cbs @ more \<Longrightarrow> foldo run cbs (c\<lparr>eventHandling := True\<rparr>, s) = Ret s' \<Longrightarrow> same_dispatch (fst s') c"
  shows "handleEventWithGuard run (c, s) =
    bindo (foldo run (dispatched c) (c\<lparr>eventHandling := True\<rparr>, s))
      (\<lambda>s. Ret ((fst s)\<lparr>eventHandling := False\<rparr>, snd s))"
proof -
  define l1 where "l1 = (if has_bits (revents c) POLLHUP \<and> \<not> has_bits (revents c) POLLIN \<and> closeCallback c then [CbClose] else [])"
  define l2 where "l2 = (if has_bits (revents c) (POLLERR OR POLLNVAL) \<and> errorCallback c then [CbError] else [])"
  define l3 where "l3 = (if has_bits (revents c) (POLLIN OR POLLPRI OR POLLRDHUP) \<and> readCallback c then [CbRead] else [])"
  define l4 where "l4 = (if has_bits (revents c) POLLOUT \<and> writeCallback c then [CbWrite] else [])"
  have d: "dispatched c = l1 @ l2 @ l3 @ l4" by (simp add: dispatched_def l1_def l2_def l3_def l4_def)
  show ?thesis
    unfolding handleEventWithGuard_def d foldo_append bindo_assoc Let_def fst_conv snd_conv run_if_foldo l1_def [symmetric]
  proof (intro bindo_cong refl)
    fix s1
    assume 1: "foldo run l1 (c\<lparr>eventHandling := True\<rparr>, s) = Ret s1"
    then have "same_dispatch (fst s1) c" using keeps [of l1] d by simp
    then show "foldo run (if has_bits (revents (fst s1)) (POLLERR OR POLLNVAL) \<and> errorCallback (fst s1) then [CbError] else []) s1 = foldo run l2 s1"
      by (simp add: same_dispatch_def l2_def)
    fix s2
    assume 2: "foldo run l2 s1 = Ret s2"
    then have "same_dispatch (fst s2) c" using keeps [of "l1 @ l2"] d 1 by (simp add: foldo_append)
    then show "foldo run (if has_bits (revents (fst s2)) (POLLIN OR POLLPRI OR POLLRDHUP) \<and> readCallback (fst s2) then [CbRead] else []) s2 = foldo run l3 s2"
      by (simp add: same_dispatch_def l3_def)
    fix s3
    assume "foldo run l3 s2 = Ret s3"
    then have "same_dispatch (fst s3) c" using keeps [of "l1 @ l2 @ l3"] d 1 2 by (simp add: foldo_append)
    then show "foldo run (if has_bits (revents (fst s3)) POLLOUT \<and> writeCallback (fst s3) then [CbWrite] else []) s3 = foldo run l4 s3"
      by (simp add: same_dispatch_def l4_def)
  qed
qed

lemma foldo_same_dispatch:
  assumes "keeps_dispatch run" and "foldo run cbs s = Ret s'"
  shows "same_dispatch (fst s') (fst s)"
  using assms(2)
proof (induction cbs arbitrary: s)
  case (Cons cb cbs)
  then obtain s1 where "run cb s = Ret s1" "foldo run cbs s1 = Ret s'" by (auto simp: bindo_eq_Ret)
  moreover from this have "same_dispatch (fst s1) (fst s)" using assms(1) unfolding keeps_dispatch_def by blast
  ultimately show ?case using Cons.IH unfolding same_dispatch_def by metis
qed (simp add: same_dispatch_def)

lemma handleEventWithGuard_dispatched:
  assumes "keeps_dispatch run"
  shows "handleEventWithGuard run (c, s) =
    bindo (foldo run (dispatched c) (c\<lparr>eventHandling := True\<rparr>, s))
      (\<lambda>s. Ret ((fst s)\<lparr>eventHandling := False\<rparr>, snd s))"
  by (rule handleEventWithGuard_runs) (auto dest: foldo_same_dispatch [OF assms] simp: same_dispatch_def)

end
