(* ===== verification/Pollers.thy ===== *)
theory Pollers
  imports Channels
begin

text \<open>
  \<^verbatim>\<open>muduo/net/Poller.{h,cc}\<close>, \<^verbatim>\<open>muduo/net/poller/EPollPoller.{h,cc}\<close>,
  \<^verbatim>\<open>muduo/net/poller/PollPoller.{h,cc}\<close> and \<^verbatim>\<open>DefaultPoller.cc\<close>: the two I/O multiplexers behind the
  abstract class \<^verbatim>\<open>Poller\<close>.

  The state of an operation is the channel store together with the poller object. The kernel side
  of epoll is a parameter: \<^verbatim>\<open>epoll_ctl\<close> and \<^verbatim>\<open>epoll_wait\<close> act on a kernel state of any type, their
  documented behaviour is \<open>epoll_ctl_spec\<close> and \<open>epoll_wait_spec\<close>. In the same way \<^verbatim>\<open>poll\<close>
  is a parameter with \<open>poll_spec\<close>. The locale \<open>poller\<close> is the contract of the abstract class,
  interpreted on both implementations.
\<close>

section \<open>The base class\<close>

text \<open>\<^verbatim>\<open>EventLoop::assertInLoopThread\<close>: fatal in another thread than the owner's.\<close>

definition assertInLoopThread :: "int \<Rightarrow> int \<Rightarrow> 'a outcome \<Rightarrow> 'a outcome" where
  "assertInLoopThread tid threadId k =
     (if tid = threadId then k else Abort (Fatal ''EventLoop::abortNotInLoopThread''))"

lemma assertInLoopThread_same [simp]: "assertInLoopThread t t k = k"
  by (simp add: assertInLoopThread_def)

definition hasChannel :: "int \<Rightarrow> int \<Rightarrow> (int \<rightharpoonup> nat) \<Rightarrow> store \<Rightarrow> nat \<Rightarrow> bool outcome" where
  "hasChannel tid threadId chans h c =
     assertInLoopThread tid threadId (Ret (chans (fd (h c)) = Some c))"

section \<open>epoll\<close>

datatype ctl_op = EPOLL_CTL_ADD | EPOLL_CTL_DEL | EPOLL_CTL_MOD

record 'k EPollPoller =
  ep_threadId :: int
  ep_channels :: "int \<rightharpoonup> nat"
  ep_events :: nat
  ep_kernel :: 'k

definition kNew :: int where "kNew = -1"
definition kAdded :: int where "kAdded = 1"
definition kDeleted :: int where "kDeleted = 2"
definition kInitEventListSize :: nat where "kInitEventListSize = 16"

lemmas epoll_indices = kNew_def kAdded_def kDeleted_def

definition new_EPollPoller :: "int \<Rightarrow> int + 'k \<Rightarrow> 'k EPollPoller outcome" where
  "new_EPollPoller threadId epoll_create1 =
     (case epoll_create1 of
        Inl errno \<Rightarrow> Abort (Fatal ''EPollPoller::EPollPoller'')
      | Inr k \<Rightarrow> Ret \<lparr>ep_threadId = threadId, ep_channels = Map.empty, ep_events = kInitEventListSize, ep_kernel = k\<rparr>)"

definition operationToString :: "ctl_op \<Rightarrow> string" where
  "operationToString op =
     (case op of EPOLL_CTL_ADD \<Rightarrow> ''ADD'' | EPOLL_CTL_DEL \<Rightarrow> ''DEL'' | EPOLL_CTL_MOD \<Rightarrow> ''MOD'')"

definition EPoll_update ::
  "(ctl_op \<Rightarrow> int \<Rightarrow> events \<times> nat \<Rightarrow> 'k \<Rightarrow> int \<times> 'k) \<Rightarrow> ctl_op \<Rightarrow> nat \<Rightarrow> store \<times> 'k EPollPoller
    \<Rightarrow> (store \<times> 'k EPollPoller) outcome" where
  "EPoll_update epoll_ctl op c s =
     (case s of (h, p) \<Rightarrow>
       (case epoll_ctl op (fd (h c)) (events (h c), c) (ep_kernel p) of (r, k) \<Rightarrow>
          if r < 0 \<and> op \<noteq> EPOLL_CTL_DEL then Abort (Fatal (''epoll_ctl op ='' @ operationToString op))
          else Ret (h, p\<lparr>ep_kernel := k\<rparr>)))"

definition EPoll_updateChannel ::
  "(ctl_op \<Rightarrow> int \<Rightarrow> events \<times> nat \<Rightarrow> 'k \<Rightarrow> int \<times> 'k) \<Rightarrow> int \<Rightarrow> nat \<Rightarrow> store \<times> 'k EPollPoller
    \<Rightarrow> (store \<times> 'k EPollPoller) outcome" where
  "EPoll_updateChannel epoll_ctl tid c s =
     (case s of (h, p) \<Rightarrow>
        assertInLoopThread tid (ep_threadId p)
        (let idx = index (h c); f = fd (h c) in
        if idx = kNew \<or> idx = kDeleted then
          bindo (if idx = kNew
                 then require (ep_channels p f = None) ''channels_.find(fd) == channels_.end()''
                        (Ret (p\<lparr>ep_channels := (ep_channels p)(f \<mapsto> c)\<rparr>))
                 else require (ep_channels p f \<noteq> None) ''channels_.find(fd) != channels_.end()''
                        (require (ep_channels p f = Some c) ''channels_[fd] == channel'' (Ret p))) (\<lambda>p.
            EPoll_update epoll_ctl EPOLL_CTL_ADD c (h(c := (h c)\<lparr>index := kAdded\<rparr>), p))
        else
          require (ep_channels p f \<noteq> None) ''channels_.find(fd) != channels_.end()''
          (require (ep_channels p f = Some c) ''channels_[fd] == channel''
          (require (idx = kAdded) ''index == kAdded''
          (if isNoneEvent (h c)
           then bindo (EPoll_update epoll_ctl EPOLL_CTL_DEL c (h, p)) (\<lambda>(h, p).
                  Ret (h(c := (h c)\<lparr>index := kDeleted\<rparr>), p))
           else EPoll_update epoll_ctl EPOLL_CTL_MOD c (h, p))))))"

definition EPoll_removeChannel ::
  "(ctl_op \<Rightarrow> int \<Rightarrow> events \<times> nat \<Rightarrow> 'k \<Rightarrow> int \<times> 'k) \<Rightarrow> int \<Rightarrow> nat \<Rightarrow> store \<times> 'k EPollPoller
    \<Rightarrow> (store \<times> 'k EPollPoller) outcome" where
  "EPoll_removeChannel epoll_ctl tid c s =
     (case s of (h, p) \<Rightarrow>
        assertInLoopThread tid (ep_threadId p)
        (let f = fd (h c); idx = index (h c) in
        require (ep_channels p f \<noteq> None) ''channels_.find(fd) != channels_.end()''
        (require (ep_channels p f = Some c) ''channels_[fd] == channel''
        (require (isNoneEvent (h c)) ''channel->isNoneEvent()''
        (require (idx = kAdded \<or> idx = kDeleted) ''index == kAdded || index == kDeleted''
        (let p = p\<lparr>ep_channels := (ep_channels p)(f := None)\<rparr> in
         bindo (if idx = kAdded then EPoll_update epoll_ctl EPOLL_CTL_DEL c (h, p) else Ret (h, p)) (\<lambda>(h, p).
           Ret (h(c := (h c)\<lparr>index := kNew\<rparr>), p))))))))"

fun EPoll_fillActiveChannels ::
  "(events \<times> nat) list \<Rightarrow> (int \<rightharpoonup> nat) \<Rightarrow> store \<times> nat list \<Rightarrow> (store \<times> nat list) outcome" where
  "EPoll_fillActiveChannels [] chans (h, active) = Ret (h, active)"
| "EPoll_fillActiveChannels ((ev, c) # evs) chans (h, active) =
     require (chans (fd (h c)) \<noteq> None) ''it != channels_.end()''
     (require (chans (fd (h c)) = Some c) ''it->second == channel''
     (EPoll_fillActiveChannels evs chans (h(c := (h c)\<lparr>revents := ev\<rparr>), active @ [c])))"

text \<open>\<^verbatim>\<open>poll\<close>: \<open>epoll_wait\<close> is given the kernel state, the capacity of \<^verbatim>\<open>events_\<close> and the time-out and
  returns an errno or the ready list. An error is only logged.\<close>

definition EPoll_poll ::
  "('k \<Rightarrow> nat \<Rightarrow> int \<Rightarrow> int + (events \<times> nat) list) \<Rightarrow> int \<Rightarrow> store \<times> 'k EPollPoller
    \<Rightarrow> (nat list \<times> store \<times> 'k EPollPoller) outcome" where
  "EPoll_poll epoll_wait timeoutMs s =
     (case s of (h, p) \<Rightarrow>
       (case epoll_wait (ep_kernel p) (ep_events p) timeoutMs of
          Inl errno \<Rightarrow> Ret ([], h, p)
        | Inr evs \<Rightarrow>
            if evs = [] then Ret ([], h, p)
            else require (length evs \<le> ep_events p) ''numEvents <= events_.size()''
              (bindo (EPoll_fillActiveChannels evs (ep_channels p) (h, [])) (\<lambda>(h, active).
                Ret (active, h, if length evs = ep_events p then p\<lparr>ep_events := ep_events p * 2\<rparr> else p)))))"

section \<open>poll\<close>

record pollfd =
  pfd_fd :: int
  pfd_events :: "16 word"
  pfd_revents :: "16 word"

record PollPoller =
  pp_threadId :: int
  pp_channels :: "int \<rightharpoonup> nat"
  pollfds :: "pollfd list"

definition new_PollPoller :: "int \<Rightarrow> PollPoller" where
  "new_PollPoller threadId = \<lparr>pp_threadId = threadId, pp_channels = Map.empty, pollfds = []\<rparr>"

definition Poll_updateChannel :: "int \<Rightarrow> nat \<Rightarrow> store \<times> PollPoller \<Rightarrow> (store \<times> PollPoller) outcome" where
  "Poll_updateChannel tid c s =
     (case s of (h, p) \<Rightarrow>
        assertInLoopThread tid (pp_threadId p)
        (let f = fd (h c) in
        if index (h c) < 0 then
          require (pp_channels p f = None) ''channels_.find(channel->fd()) == channels_.end()''
          (let pfd = \<lparr>pfd_fd = f, pfd_events = ucast (events (h c)), pfd_revents = 0\<rparr>;
               fds = pollfds p @ [pfd];
               idx = int (length fds) - 1
           in Ret (h(c := (h c)\<lparr>index := idx\<rparr>), p\<lparr>pollfds := fds, pp_channels := (pp_channels p)(f \<mapsto> c)\<rparr>))
        else
          require (pp_channels p f \<noteq> None) ''channels_.find(channel->fd()) != channels_.end()''
          (require (pp_channels p f = Some c) ''channels_[channel->fd()] == channel''
          (let idx = index (h c) in
           require (0 \<le> idx \<and> idx < int (length (pollfds p))) ''0 <= idx && idx < pollfds_.size()''
           (let pfd = pollfds p ! nat idx in
            require (pfd_fd pfd = f \<or> pfd_fd pfd = - f - 1) ''pfd.fd == channel->fd() || pfd.fd == -channel->fd() - 1''
            (let pfd' = \<lparr>pfd_fd = (if isNoneEvent (h c) then - f - 1 else f),
                         pfd_events = ucast (events (h c)), pfd_revents = 0\<rparr>
             in Ret (h, p\<lparr>pollfds := (pollfds p)[nat idx := pfd']\<rparr>)))))))"

text \<open>\<^verbatim>\<open>removeChannel\<close>: the last entry takes the freed slot. Like the code, it leaves the index of the
  removed channel as it is. \<^verbatim>\<open>channels_[channelAtEnd]\<close> would insert a null pointer for an unknown
  descriptor, and following it is undefined.\<close>

definition Poll_removeChannel :: "int \<Rightarrow> nat \<Rightarrow> store \<times> PollPoller \<Rightarrow> (store \<times> PollPoller) outcome" where
  "Poll_removeChannel tid c s =
     (case s of (h, p) \<Rightarrow>
        assertInLoopThread tid (pp_threadId p)
        (let f = fd (h c) in
        require (pp_channels p f \<noteq> None) ''channels_.find(channel->fd()) != channels_.end()''
        (require (pp_channels p f = Some c) ''channels_[channel->fd()] == channel''
        (require (isNoneEvent (h c)) ''channel->isNoneEvent()''
        (let idx = index (h c) in
         require (0 \<le> idx \<and> idx < int (length (pollfds p))) ''0 <= idx && idx < pollfds_.size()''
         (let pfd = pollfds p ! nat idx in
          require (pfd_fd pfd = - f - 1 \<and> scast (pfd_events pfd) = events (h c))
            ''pfd.fd == -channel->fd() - 1 && pfd.events == channel->events()''
          (let chans = (pp_channels p)(f := None);
               n = length (pollfds p)
           in if nat idx = n - 1
              then Ret (h, p\<lparr>pp_channels := chans, pollfds := butlast (pollfds p)\<rparr>)
              else
                let channelAtEnd = pfd_fd (last (pollfds p));
                    swapped = (pollfds p)[nat idx := last (pollfds p), n - 1 := pfd];
                    channelAtEnd = (if channelAtEnd < 0 then - channelAtEnd - 1 else channelAtEnd)
                in case chans channelAtEnd of
                     None \<Rightarrow> Abort (Undefined ''null Channel'')
                   | Some d \<Rightarrow> Ret (h(d := (h d)\<lparr>index := idx\<rparr>),
                       p\<lparr>pp_channels := chans, pollfds := butlast swapped\<rparr>))))))))"

fun Poll_fillActiveChannels ::
  "nat \<Rightarrow> pollfd list \<Rightarrow> (int \<rightharpoonup> nat) \<Rightarrow> store \<times> nat list \<Rightarrow> (store \<times> nat list) outcome" where
  "Poll_fillActiveChannels numEvents [] chans (h, active) = Ret (h, active)"
| "Poll_fillActiveChannels numEvents (pfd # pfds) chans (h, active) =
     (if numEvents = 0 then Ret (h, active)
      else if 0 < sint (pfd_revents pfd) then
        (case chans (pfd_fd pfd) of
           None \<Rightarrow> Abort (AssertFail ''ch != channels_.end()'')
         | Some c \<Rightarrow>
             require (fd (h c) = pfd_fd pfd) ''channel->fd() == pfd->fd''
             (Poll_fillActiveChannels (numEvents - 1) pfds chans
               (h(c := (h c)\<lparr>revents := scast (pfd_revents pfd)\<rparr>), active @ [c])))
      else Poll_fillActiveChannels numEvents pfds chans (h, active))"

text \<open>\<open>poll\<close> is given the array and the time-out and returns an errno, or the number of ready
  entries and the array with the received events stored.\<close>

definition Poll_poll ::
  "(pollfd list \<Rightarrow> int \<Rightarrow> int + nat \<times> pollfd list) \<Rightarrow> int \<Rightarrow> store \<times> PollPoller
    \<Rightarrow> (nat list \<times> store \<times> PollPoller) outcome" where
  "Poll_poll poll_call timeoutMs s =
     (case s of (h, p) \<Rightarrow>
       (case poll_call (pollfds p) timeoutMs of
          Inl errno \<Rightarrow> Ret ([], h, p)
        | Inr (numEvents, fds) \<Rightarrow>
            if numEvents = 0 then Ret ([], h, p\<lparr>pollfds := fds\<rparr>)
            else bindo (Poll_fillActiveChannels numEvents fds (pp_channels p) (h, [])) (\<lambda>(h, active).
              Ret (active, h, p\<lparr>pollfds := fds\<rparr>))))"

text \<open>\<^verbatim>\<open>Poller::newDefaultPoller\<close>.\<close>

datatype 'k default_poller = UsePoll PollPoller | UseEPoll "'k EPollPoller"

definition newDefaultPoller :: "int \<Rightarrow> bool \<Rightarrow> int + 'k \<Rightarrow> 'k default_poller outcome" where
  "newDefaultPoller threadId getenv_MUDUO_USE_POLL epoll_create1 =
     (if getenv_MUDUO_USE_POLL then Ret (UsePoll (new_PollPoller threadId))
      else bindo (new_EPollPoller threadId epoll_create1) (\<lambda>p. Ret (UseEPoll p)))"

section \<open>The contract of the abstract class\<close>

text \<open>Operations may change the bookkeeping index of the channels they know about, and nothing else
  of the channels.\<close>

definition frame :: "(int \<rightharpoonup> nat) \<Rightarrow> nat \<Rightarrow> store \<Rightarrow> store \<Rightarrow> bool" where
  "frame reg c h h' \<longleftrightarrow> (\<forall>d. (h' d)\<lparr>index := 0\<rparr> = (h d)\<lparr>index := 0\<rparr>) \<and>
     (\<forall>d. d \<noteq> c \<longrightarrow> reg (fd (h d)) \<noteq> Some d \<longrightarrow> h' d = h d)"

lemma frame_members:
  assumes "frame reg c h h'"
  shows "fd (h' d) = fd (h d)" and "events (h' d) = events (h d)" and "addedToLoop (h' d) = addedToLoop (h d)"
proof -
  have "(h' d)\<lparr>index := 0\<rparr> = (h d)\<lparr>index := 0\<rparr>" using assms by (simp add: frame_def)
  then show "fd (h' d) = fd (h d)" and "events (h' d) = events (h d)" and "addedToLoop (h' d) = addedToLoop (h d)"
    by (metis Channel.surjective Channel.update_convs(4) Channel.select_convs)+
qed

lemma index_refl: "\<exists>i. ch = ch\<lparr>index := i\<rparr>"
  by (rule exI [of _ "index ch"]) simp

lemma frameI:
  assumes "\<And>d. d \<noteq> c \<Longrightarrow> d \<noteq> e \<Longrightarrow> h' d = h d"
    and "\<And>d. d = c \<or> d = e \<Longrightarrow> \<exists>i. h' d = (h d)\<lparr>index := i\<rparr>"
    and "e \<noteq> c \<Longrightarrow> reg (fd (h e)) = Some e"
  shows "frame reg c h h'"
proof -
  have "(h' d)\<lparr>index := 0\<rparr> = (h d)\<lparr>index := 0\<rparr>" for d
    using assms(1) [of d] assms(2) [of d] by (cases "d = c \<or> d = e") auto
  then show ?thesis using assms(1,3) by (auto simp: frame_def)
qed

definition admissible :: "(int \<rightharpoonup> nat) \<Rightarrow> store \<Rightarrow> nat \<Rightarrow> events \<Rightarrow> bool" where
  "admissible reg h c ev \<longleftrightarrow> interest_ok ev \<and>
     (reg (fd (h c)) = Some c \<or>
      reg (fd (h c)) = None \<and> index (h c) = -1 \<and> 0 \<le> fd (h c) \<and> ev \<noteq> 0)"

locale poller =
  fixes invar :: "store \<times> 'p \<Rightarrow> bool"
    and registered :: "'p \<Rightarrow> int \<rightharpoonup> nat"
    and watched :: "'p \<Rightarrow> int \<Rightarrow> events"
    and update_op :: "nat \<Rightarrow> store \<times> 'p \<Rightarrow> (store \<times> 'p) outcome"
    and remove_op :: "nat \<Rightarrow> store \<times> 'p \<Rightarrow> (store \<times> 'p) outcome"
  assumes update_ok: "invar (h0, p) \<Longrightarrow> admissible (registered p) h0 c ev \<Longrightarrow>
      h = h0(c := (h0 c)\<lparr>events := ev, addedToLoop := a\<rparr>) \<Longrightarrow>
      \<exists>h' p'. update_op c (h, p) = Ret (h', p') \<and> invar (h', p') \<and> frame (registered p) c h h'
        \<and> registered p' = (registered p)(fd (h0 c) \<mapsto> c) \<and> watched p' = (watched p)(fd (h0 c) := ev)"
    and remove_ok: "invar (h0, p) \<Longrightarrow> registered p (fd (h0 c)) = Some c \<Longrightarrow> events (h0 c) = 0 \<Longrightarrow>
      h = h0(c := (h0 c)\<lparr>addedToLoop := a\<rparr>) \<Longrightarrow>
      \<exists>h' p'. remove_op c (h, p) = Ret (h', p') \<and> invar (h', p') \<and> frame (registered p) c h h'
        \<and> registered p' = (registered p)(fd (h0 c) := None) \<and> watched p' = (watched p)(fd (h0 c) := 0)"
    and create_ok: "invar (h, p) \<Longrightarrow> \<forall>f. registered p f \<noteq> Some c \<Longrightarrow> invar (h(c := ch), p)"

text \<open>One client call on a channel, and the effect it should have on the abstract state: the
  registered channels, the interest of each channel, and the channels ever registered.\<close>

definition client_op ::
  "(nat \<Rightarrow> store \<times> 'p \<Rightarrow> (store \<times> 'p) outcome) \<Rightarrow> (nat \<Rightarrow> store \<times> 'p \<Rightarrow> (store \<times> 'p) outcome) \<Rightarrow>
   (interest_call + unit) \<times> nat \<Rightarrow> store \<times> 'p \<Rightarrow> (store \<times> 'p) outcome" where
  "client_op updateChannel removeChannel x s = (case x of
      (Inl call, c) \<Rightarrow> Channel_interest updateChannel call c s
    | (Inr u, c) \<Rightarrow> Channel_remove removeChannel c s)"

record watch_state =
  ws_reg :: "int \<rightharpoonup> nat"
  ws_events :: "nat \<Rightarrow> events"
  ws_used :: "nat set"

definition legal_call :: "(nat \<Rightarrow> int) \<Rightarrow> (interest_call + unit) \<times> nat \<Rightarrow> watch_state \<Rightarrow> bool" where
  "legal_call fdof x w = (case x of
      (Inl call, c) \<Rightarrow>
        ws_reg w (fdof c) = Some c \<or>
        ws_reg w (fdof c) = None \<and> c \<notin> ws_used w \<and> 0 \<le> fdof c \<and> new_events call (ws_events w c) \<noteq> 0
    | (Inr u, c) \<Rightarrow> ws_reg w (fdof c) = Some c \<and> ws_events w c = 0)"

definition watch_step :: "(nat \<Rightarrow> int) \<Rightarrow> (interest_call + unit) \<times> nat \<Rightarrow> watch_state \<Rightarrow> watch_state" where
  "watch_step fdof x w = (case x of
      (Inl call, c) \<Rightarrow> w\<lparr>ws_reg := (ws_reg w)(fdof c \<mapsto> c),
          ws_events := (ws_events w)(c := new_events call (ws_events w c)),
          ws_used := insert c (ws_used w)\<rparr>
    | (Inr u, c) \<Rightarrow> w\<lparr>ws_reg := (ws_reg w)(fdof c := None)\<rparr>)"

fun legal_script :: "(nat \<Rightarrow> int) \<Rightarrow> ((interest_call + unit) \<times> nat) list \<Rightarrow> watch_state \<Rightarrow> bool" where
  "legal_script fdof [] w = True"
| "legal_script fdof (x # xs) w = (legal_call fdof x w \<and> legal_script fdof xs (watch_step fdof x w))"

text \<open>What the multiplexer should watch: the interest of the registered channel.\<close>

definition interest_of :: "watch_state \<Rightarrow> int \<Rightarrow> events" where
  "interest_of w f = (case ws_reg w f of None \<Rightarrow> 0 | Some c \<Rightarrow> ws_events w c)"

definition watch_ok :: "(nat \<Rightarrow> int) \<Rightarrow> watch_state \<Rightarrow> bool" where
  "watch_ok fdof w \<longleftrightarrow> (\<forall>f c. ws_reg w f = Some c \<longrightarrow> fdof c = f \<and> c \<in> ws_used w) \<and>
     (\<forall>c. interest_ok (ws_events w c))"

lemma watch_ok_step: "watch_ok fdof w \<Longrightarrow> legal_call fdof x w \<Longrightarrow> watch_ok fdof (watch_step fdof x w)"
  by (auto simp: watch_ok_def watch_step_def legal_call_def new_events_ok split: prod.splits sum.splits if_splits)

context poller
begin

definition agrees :: "(nat \<Rightarrow> int) \<Rightarrow> store \<times> 'p \<Rightarrow> watch_state \<Rightarrow> bool" where
  "agrees fdof s w \<longleftrightarrow> (case s of (h, p) \<Rightarrow>
     invar (h, p) \<and> registered p = ws_reg w \<and> watched p = interest_of w \<and> watch_ok fdof w \<and>
     (\<forall>c. fd (h c) = fdof c \<and> events (h c) = ws_events w c \<and>
        (c \<notin> ws_used w \<longrightarrow> index (h c) = -1)))"

lemma agreesD:
  assumes "agrees fdof (h, p) w"
  shows "invar (h, p)" "registered p = ws_reg w" "watched p = interest_of w" "watch_ok fdof w" "fd (h c) = fdof c" "events (h c) = ws_events w c"
    "c \<notin> ws_used w \<Longrightarrow> index (h c) = -1" "ws_reg w f = Some c \<Longrightarrow> c \<in> ws_used w" "ws_reg w f = Some c \<Longrightarrow> fdof c = f"
  using assms by (auto simp: agrees_def watch_ok_def)

lemma interest_simulates:
  assumes ag: "agrees fdof (h, p) w" and lg: "legal_call fdof (Inl call, c) w"
  shows "\<exists>s'. client_op update_op remove_op (Inl call, c) (h, p) = Ret s' \<and> agrees fdof s' (watch_step fdof (Inl call, c) w)"
proof -
  let ?ev = "new_events call (ws_events w c)" and ?x = "(Inl call, c)"
  let ?h = "h(c := (h c)\<lparr>events := ?ev, addedToLoop := True\<rparr>)"
  note A = agreesD [OF ag]
  have "admissible (registered p) h c ?ev"
    using lg A by (auto simp: admissible_def legal_call_def watch_ok_def new_events_ok)
  from update_ok [OF A(1) this refl, of True] obtain h' p' where
    run: "update_op c (?h, p) = Ret (h', p')" and inv': "invar (h', p')" and fr: "frame (registered p) c ?h h'"
    and reg': "registered p' = (registered p)(fd (h c) \<mapsto> c)" and wat': "watched p' = (watched p)(fd (h c) := ?ev)" by auto
  have "client_op update_op remove_op ?x (h, p) = Ret (h', p')"
    using run by (simp add: client_op_def Channel_interest_def Channel_update_def A(6))
  moreover have "index (h' d) = -1" if "d \<notin> insert c (ws_used w)" for d
  proof -
    have "h' d = ?h d" using fr that A unfolding frame_def by (metis fun_upd_other insertCI)
    then show ?thesis using that A(7) by simp
  qed
  moreover have "watched p' = interest_of (watch_step fdof ?x w)"
    using wat' A(3,5,9) by (auto simp: interest_of_def watch_step_def fun_eq_iff split: option.split)
  ultimately show ?thesis
    using inv' reg' watch_ok_step [OF A(4) lg] frame_members [OF fr] A by (auto simp: agrees_def watch_step_def)
qed

lemma remove_simulates:
  assumes ag: "agrees fdof (h, p) w" and lg: "legal_call fdof (Inr u, c) w"
  shows "\<exists>s'. client_op update_op remove_op (Inr u, c) (h, p) = Ret s' \<and> agrees fdof s' (watch_step fdof (Inr u, c) w)"
proof -
  let ?h = "h(c := (h c)\<lparr>addedToLoop := False\<rparr>)" and ?x = "(Inr u, c)"
  note A = agreesD [OF ag]
  have rc: "registered p (fd (h c)) = Some c" "events (h c) = 0" using lg A by (auto simp: legal_call_def)
  from remove_ok [OF A(1) this refl, of False] obtain h' p' where
    run: "remove_op c (?h, p) = Ret (h', p')" and inv': "invar (h', p')" and fr: "frame (registered p) c ?h h'"
    and reg': "registered p' = (registered p)(fd (h c) := None)" and wat': "watched p' = (watched p)(fd (h c) := 0)" by auto
  have "client_op update_op remove_op ?x (h, p) = Ret (h', p')"
    using run rc by (simp add: client_op_def Channel_remove_def isNoneEvent_def kNoneEvent_def)
  moreover have "index (h' d) = -1" if "d \<notin> ws_used w" for d
  proof -
    have "d \<noteq> c" using rc A that by auto
    then have "h' d = ?h d" using fr that A unfolding frame_def by (metis fun_upd_other)
    then show ?thesis using that A(7) \<open>d \<noteq> c\<close> by simp
  qed
  moreover have "watched p' = interest_of (watch_step fdof ?x w)"
    using wat' A(3,5) by (auto simp: interest_of_def watch_step_def fun_eq_iff split: option.split)
  ultimately show ?thesis
    using inv' reg' watch_ok_step [OF A(4) lg] frame_members [OF fr] A by (auto simp: agrees_def watch_step_def)
qed

lemma client_op_simulates:
  assumes "agrees fdof (h, p) w" and "legal_call fdof x w"
  shows "\<exists>s'. client_op update_op remove_op x (h, p) = Ret s' \<and> agrees fdof s' (watch_step fdof x w)"
  using assms interest_simulates remove_simulates by (cases x; cases "fst x") auto

text \<open>A call changes the interest of its own channel, records whether it is in the loop, and touches nothing else but indices.\<close>

lemma client_op_frame:
  assumes ag: "agrees fdof (h, p) w" and lg: "legal_call fdof (y, c) w" and run: "client_op update_op remove_op (y, c) (h, p) = Ret (h', p')"
  shows "\<exists>e. \<forall>d. (h' d)\<lparr>index := 0\<rparr> = ((h(c := (h c)\<lparr>events := e, addedToLoop := (case y of Inl _ \<Rightarrow> True | Inr _ \<Rightarrow> False)\<rparr>)) d)\<lparr>index := 0\<rparr>"
proof -
  have inv: "invar (h, p)" and reg: "registered p = ws_reg w" and wok: "watch_ok fdof w"
    and chan: "\<And>c. fd (h c) = fdof c" "\<And>c. events (h c) = ws_events w c" "\<And>c. c \<notin> ws_used w \<Longrightarrow> index (h c) = -1"
    using ag by (auto simp: agrees_def)
  show ?thesis
  proof (cases y)
    case (Inl call)
    let ?ev = "new_events call (ws_events w c)"
    have "admissible (registered p) h c ?ev"
      using lg Inl wok chan reg by (auto simp: admissible_def legal_call_def watch_ok_def new_events_ok)
    from update_ok [OF inv this refl, of True] run show ?thesis
      by (auto simp: Inl client_op_def Channel_interest_def Channel_update_def chan(2) frame_def intro!: exI [of _ ?ev])
  next
    case (Inr u)
    have rc: "registered p (fd (h c)) = Some c" "events (h c) = 0" using lg Inr reg chan by (auto simp: legal_call_def)
    then have "(h c)\<lparr>events := 0, addedToLoop := False\<rparr> = (h c)\<lparr>addedToLoop := False\<rparr>" by simp
    with remove_ok [OF inv rc refl, of False] run rc show ?thesis
      by (auto simp: Inr client_op_def Channel_remove_def isNoneEvent_def kNoneEvent_def frame_def intro!: exI [of _ 0])
  qed
qed

lemma client_op_others:
  assumes ag: "agrees fdof (h, p) w" and lg: "legal_call fdof x w" and run: "client_op update_op remove_op x (h, p) = Ret (h', p')"
  shows "d \<noteq> snd x \<Longrightarrow> (h' d)\<lparr>index := 0\<rparr> = (h d)\<lparr>index := 0\<rparr>"
    and "eventHandling (h' d) = eventHandling (h d)"
    and "addedToLoop (h' (snd x)) = (case fst x of Inl _ \<Rightarrow> True | Inr _ \<Rightarrow> False)"
    and "same_dispatch (h' d) (h d) \<and> tied (h' d) = tied (h d)"
proof -
  obtain y c where x: "x = (y, c)" by fastforce
  obtain e where fr: "\<And>d. (h' d)\<lparr>index := 0\<rparr> = ((h(c := (h c)\<lparr>events := e, addedToLoop := (case y of Inl _ \<Rightarrow> True | Inr _ \<Rightarrow> False)\<rparr>)) d)\<lparr>index := 0\<rparr>"
    using client_op_frame [OF ag lg [unfolded x] run [unfolded x]] by blast
  show "d \<noteq> snd x \<Longrightarrow> (h' d)\<lparr>index := 0\<rparr> = (h d)\<lparr>index := 0\<rparr>" using fr [of d] by (simp add: x)
  show "eventHandling (h' d) = eventHandling (h d)" using arg_cong [OF fr [of d], of eventHandling] by (cases "d = c") simp_all
  show "addedToLoop (h' (snd x)) = (case fst x of Inl _ \<Rightarrow> True | Inr _ \<Rightarrow> False)" using arg_cong [OF fr [of c], of addedToLoop] by (simp add: x)
  have "same_dispatch (ch\<lparr>index := 0\<rparr>) ch'' = same_dispatch ch ch''" "same_dispatch ch (ch''\<lparr>index := 0\<rparr>) = same_dispatch ch ch''" for ch ch''
    by (simp_all add: same_dispatch_def)
  then have "same_dispatch (h' d) ((h(c := (h c)\<lparr>events := e, addedToLoop := (case y of Inl _ \<Rightarrow> True | Inr _ \<Rightarrow> False)\<rparr>)) d)"
    using fr [of d] by (metis same_dispatch_def)
  moreover have "tied (h' d) = tied (h d)" using arg_cong [OF fr [of d], of tied] by (cases "d = c") simp_all
  ultimately show "same_dispatch (h' d) (h d) \<and> tied (h' d) = tied (h d)" by (cases "d = c") (simp_all add: same_dispatch_def)
qed

lemma agrees_create:
  assumes "agrees fdof (h, p) w" and "c \<notin> ws_used w" and "fd ch = fdof c" and "events ch = ws_events w c" and "index ch = - 1"
  shows "agrees fdof (h(c := ch), p) w"
proof -
  have "\<forall>f. registered p f \<noteq> Some c" using assms(1,2) by (auto simp: agrees_def watch_ok_def)
  then show ?thesis using assms create_ok [of h p c ch] by (auto simp: agrees_def)
qed

lemma script_simulates:
  assumes "agrees fdof s w" and "legal_script fdof xs w"
  shows "\<exists>s'. foldo (client_op update_op remove_op) xs s = Ret s' \<and> agrees fdof s' (foldl (\<lambda>w x. watch_step fdof x w) w xs)"
  using assms
proof (induction xs arbitrary: s w)
  case (Cons x xs)
  obtain h p where s: "s = (h, p)" by fastforce
  obtain s1 where "client_op update_op remove_op x s = Ret s1" "agrees fdof s1 (watch_step fdof x w)"
    using client_op_simulates [of fdof h p w x] Cons.prems s by auto
  then show ?case using Cons.IH [of s1] Cons.prems by auto
qed simp

end

section \<open>epoll implements the contract\<close>

text \<open>The documented behaviour of \<^verbatim>\<open>epoll_ctl\<close> on valid descriptors: \<open>watching k\<close> is the interest list of
  the epoll instance; adding what is absent, and changing or deleting what is present, succeeds.\<close>

definition epoll_ctl_spec ::
  "(ctl_op \<Rightarrow> int \<Rightarrow> events \<times> nat \<Rightarrow> 'k \<Rightarrow> int \<times> 'k) \<Rightarrow> ('k \<Rightarrow> int \<rightharpoonup> events \<times> nat) \<Rightarrow> bool" where
  "epoll_ctl_spec epoll_ctl watching \<longleftrightarrow>
     (\<forall>k f ev. watching k f = None \<longrightarrow> 0 \<le> fst (epoll_ctl EPOLL_CTL_ADD f ev k) \<and>
        watching (snd (epoll_ctl EPOLL_CTL_ADD f ev k)) = (watching k)(f \<mapsto> ev)) \<and>
     (\<forall>k f ev. watching k f \<noteq> None \<longrightarrow> 0 \<le> fst (epoll_ctl EPOLL_CTL_MOD f ev k) \<and>
        watching (snd (epoll_ctl EPOLL_CTL_MOD f ev k)) = (watching k)(f \<mapsto> ev)) \<and>
     (\<forall>k f ev. watching k f \<noteq> None \<longrightarrow> 0 \<le> fst (epoll_ctl EPOLL_CTL_DEL f ev k) \<and>
        watching (snd (epoll_ctl EPOLL_CTL_DEL f ev k)) = (watching k)(f := None))"

definition epoll_slot :: "(int \<rightharpoonup> events \<times> nat) \<Rightarrow> int \<Rightarrow> nat \<Rightarrow> Channel \<Rightarrow> bool" where
  "epoll_slot w f c ch \<longleftrightarrow> fd ch = f \<and>
     (index ch = kAdded \<and> w f = Some (events ch, c) \<or> index ch = kDeleted \<and> events ch = 0 \<and> w f = None)"

definition epoll_invar ::
  "(ctl_op \<Rightarrow> int \<Rightarrow> events \<times> nat \<Rightarrow> 'k \<Rightarrow> int \<times> 'k) \<Rightarrow> ('k \<Rightarrow> int \<rightharpoonup> events \<times> nat) \<Rightarrow> int \<Rightarrow>
    store \<times> 'k EPollPoller \<Rightarrow> bool" where
  "epoll_invar epoll_ctl watching tid s \<longleftrightarrow> (case s of (h, p) \<Rightarrow>
     epoll_ctl_spec epoll_ctl watching \<and> ep_threadId p = tid \<and>
     (\<forall>f c. ep_channels p f = Some c \<longrightarrow> epoll_slot (watching (ep_kernel p)) f c (h c)) \<and>
     (\<forall>f. ep_channels p f = None \<longrightarrow> watching (ep_kernel p) f = None))"

definition epoll_watched :: "('k \<Rightarrow> int \<rightharpoonup> events \<times> nat) \<Rightarrow> 'k EPollPoller \<Rightarrow> int \<Rightarrow> events" where
  "epoll_watched watching p f = (case watching (ep_kernel p) f of None \<Rightarrow> 0 | Some (ev, c) \<Rightarrow> ev)"

lemma EPoll_update_ok:
  assumes "epoll_ctl_spec epoll_ctl watching"
    and "(watching (ep_kernel p) (fd (h c)) = None) = (op = EPOLL_CTL_ADD)"
  shows "\<exists>k. EPoll_update epoll_ctl op c (h, p) = Ret (h, p\<lparr>ep_kernel := k\<rparr>) \<and>
    watching k = (watching (ep_kernel p))(fd (h c) :=
      if op = EPOLL_CTL_DEL then None else Some (events (h c), c))"
proof -
  obtain r k where r: "epoll_ctl op (fd (h c)) (events (h c), c) (ep_kernel p) = (r, k)" by fastforce
  have "0 \<le> fst (epoll_ctl op (fd (h c)) (events (h c), c) (ep_kernel p)) \<and>
    watching (snd (epoll_ctl op (fd (h c)) (events (h c), c) (ep_kernel p)))
      = (watching (ep_kernel p))(fd (h c) := if op = EPOLL_CTL_DEL then None else Some (events (h c), c))"
    using assms unfolding epoll_ctl_spec_def by (cases op) simp_all
  then show ?thesis by (auto simp: EPoll_update_def r)
qed

text \<open>Changing one descriptor's slot, in the table of channels and in the kernel, keeps the others.\<close>

lemma epoll_invar_step:
  assumes "epoll_invar epoll_ctl watching tid (h0, p)"
    and "ep_threadId p' = tid" and "ep_channels p' = (ep_channels p)(f := v)"
    and "\<And>g. g \<noteq> f \<Longrightarrow> watching (ep_kernel p') g = watching (ep_kernel p) g"
    and "\<And>d. d \<noteq> c \<Longrightarrow> h' d = h0 d" and "fd (h0 c) = f"
    and "case v of None \<Rightarrow> watching (ep_kernel p') f = None
      | Some d \<Rightarrow> epoll_slot (watching (ep_kernel p')) f d (h' d)"
  shows "epoll_invar epoll_ctl watching tid (h', p')"
proof -
  have "epoll_slot (watching (ep_kernel p')) g d (h' d)" if "ep_channels p' g = Some d" for g d
  proof (cases "g = f")
    case False
    then have "epoll_slot (watching (ep_kernel p)) g d (h0 d)"
      using assms(1,3) that by (auto simp: epoll_invar_def)
    moreover from this have "d \<noteq> c" using assms(6) False by (auto simp: epoll_slot_def)
    ultimately show ?thesis using assms(4,5) False by (simp add: epoll_slot_def)
  qed (use assms(3,7) that in auto)
  moreover have "watching (ep_kernel p') g = None" if "ep_channels p' g = None" for g
    using assms(1,3,4,7) that by (cases "g = f") (auto simp: epoll_invar_def)
  ultimately show ?thesis using assms(1,2) by (auto simp: epoll_invar_def)
qed

lemma EPoll_updateChannel_runs:
  assumes inv: "epoll_invar epoll_ctl watching tid (h0, p)"
    and adm: "admissible (ep_channels p) h0 c ev"
    and h: "h = h0(c := (h0 c)\<lparr>events := ev, addedToLoop := a\<rparr>)"
  shows "\<exists>i k. EPoll_updateChannel epoll_ctl tid c (h, p) =
      Ret (h(c := (h c)\<lparr>index := i\<rparr>), p\<lparr>ep_channels := (ep_channels p)(fd (h0 c) \<mapsto> c), ep_kernel := k\<rparr>) \<and>
    watching k = (watching (ep_kernel p))(fd (h0 c) := if i = kDeleted then None else Some (ev, c)) \<and>
    (i = kAdded \<or> i = kDeleted \<and> ev = 0)"
proof -
  let ?f = "fd (h0 c)" and ?w = "watching (ep_kernel p)" and ?h = "h(c := (h c)\<lparr>index := kAdded\<rparr>)"
  have spec: "epoll_ctl_spec epoll_ctl watching" and tid: "ep_threadId p = tid"
    and slot: "ep_channels p ?f = Some c \<Longrightarrow> epoll_slot ?w ?f c (h0 c)"
    and none: "ep_channels p ?f = None \<Longrightarrow> ?w ?f = None"
    using inv by (auto simp: epoll_invar_def)
  note eval = EPoll_updateChannel_def h Let_def epoll_indices isNoneEvent_def kNoneEvent_def
  consider (new) "ep_channels p ?f = None" "index (h0 c) = kNew"
    | (deleted) "ep_channels p ?f = Some c" "index (h0 c) = kDeleted" "?w ?f = None"
    | (removed) "ep_channels p ?f = Some c" "index (h0 c) = kAdded" "?w ?f \<noteq> None" "ev = 0"
    | (changed) "ep_channels p ?f = Some c" "index (h0 c) = kAdded" "?w ?f \<noteq> None" "ev \<noteq> 0"
    using adm slot by (cases "ev = 0") (auto simp: admissible_def epoll_slot_def kNew_def)
  then show ?thesis
  proof cases
    case new
    let ?p = "p\<lparr>ep_channels := (ep_channels p)(?f \<mapsto> c)\<rparr>"
    from EPoll_update_ok [OF spec, of ?p ?h c EPOLL_CTL_ADD] new none
    obtain k where "EPoll_update epoll_ctl EPOLL_CTL_ADD c (?h, ?p) = Ret (?h, ?p\<lparr>ep_kernel := k\<rparr>)" "watching k = ?w(?f \<mapsto> (ev, c))"
      by (auto simp: h)
    with new tid show ?thesis by (intro exI [of _ kAdded] exI [of _ k]) (simp add: eval)
  next
    case deleted
    from EPoll_update_ok [OF spec, of p ?h c EPOLL_CTL_ADD] deleted
    obtain k where "EPoll_update epoll_ctl EPOLL_CTL_ADD c (?h, p) = Ret (?h, p\<lparr>ep_kernel := k\<rparr>)" "watching k = ?w(?f \<mapsto> (ev, c))"
      by (auto simp: h)
    with deleted tid show ?thesis by (intro exI [of _ kAdded] exI [of _ k]) (simp add: eval fun_upd_idem)
  next
    case removed
    from EPoll_update_ok [OF spec, of p h c EPOLL_CTL_DEL] removed
    obtain k where "EPoll_update epoll_ctl EPOLL_CTL_DEL c (h, p) = Ret (h, p\<lparr>ep_kernel := k\<rparr>)" "watching k = ?w(?f := None)"
      by (auto simp: h)
    with removed tid show ?thesis by (intro exI [of _ kDeleted] exI [of _ k]) (simp add: eval fun_upd_idem)
  next
    case changed
    from EPoll_update_ok [OF spec, of p h c EPOLL_CTL_MOD] changed
    obtain k where "EPoll_update epoll_ctl EPOLL_CTL_MOD c (h, p) = Ret (h, p\<lparr>ep_kernel := k\<rparr>)" "watching k = ?w(?f \<mapsto> (ev, c))"
      by (auto simp: h)
    moreover have "?h = h" using changed(2) h by (simp add: fun_eq_iff)
    ultimately show ?thesis using changed tid by (intro exI [of _ kAdded] exI [of _ k]) (simp add: eval fun_upd_idem)
  qed
qed

lemma EPoll_updateChannel_ok:
  assumes inv: "epoll_invar epoll_ctl watching tid (h0, p)"
    and adm: "admissible (ep_channels p) h0 c ev"
    and h: "h = h0(c := (h0 c)\<lparr>events := ev, addedToLoop := a\<rparr>)"
  shows "\<exists>h' p'. EPoll_updateChannel epoll_ctl tid c (h, p) = Ret (h', p') \<and>
    epoll_invar epoll_ctl watching tid (h', p') \<and> frame (ep_channels p) c h h' \<and>
    ep_channels p' = (ep_channels p)(fd (h0 c) \<mapsto> c) \<and>
    epoll_watched watching p' = (epoll_watched watching p)(fd (h0 c) := ev)"
proof -
  let ?f = "fd (h0 c)"
  obtain i k where run: "EPoll_updateChannel epoll_ctl tid c (h, p) =
      Ret (h(c := (h c)\<lparr>index := i\<rparr>), p\<lparr>ep_channels := (ep_channels p)(?f \<mapsto> c), ep_kernel := k\<rparr>)"
    and k: "watching k = (watching (ep_kernel p))(?f := if i = kDeleted then None else Some (ev, c))" and i: "i = kAdded \<or> i = kDeleted \<and> ev = 0"
    using EPoll_updateChannel_runs [OF assms] by blast
  let ?h' = "h(c := (h c)\<lparr>index := i\<rparr>)" and ?p' = "p\<lparr>ep_channels := (ep_channels p)(?f \<mapsto> c), ep_kernel := k\<rparr>"
  have "epoll_invar epoll_ctl watching tid (?h', ?p')"
    using k i h inv by (intro epoll_invar_step [OF inv, of ?p' ?f "Some c" c]) (auto simp: epoll_slot_def epoll_indices epoll_invar_def)
  moreover have "frame (ep_channels p) c h ?h'" by (rule frameI [where e = c]) auto
  moreover have "epoll_watched watching ?p' = (epoll_watched watching p)(?f := ev)"
    using k i by (auto simp: epoll_watched_def fun_eq_iff epoll_indices)
  ultimately show ?thesis using run by auto
qed

lemma EPoll_removeChannel_ok:
  assumes inv: "epoll_invar epoll_ctl watching tid (h0, p)"
    and reg: "ep_channels p (fd (h0 c)) = Some c" and ev: "events (h0 c) = 0"
    and h: "h = h0(c := (h0 c)\<lparr>addedToLoop := a\<rparr>)"
  shows "\<exists>h' p'. EPoll_removeChannel epoll_ctl tid c (h, p) = Ret (h', p') \<and>
    epoll_invar epoll_ctl watching tid (h', p') \<and> frame (ep_channels p) c h h' \<and>
    ep_channels p' = (ep_channels p)(fd (h0 c) := None) \<and>
    epoll_watched watching p' = (epoll_watched watching p)(fd (h0 c) := 0)"
proof -
  let ?f = "fd (h0 c)"
  let ?w = "watching (ep_kernel p)"
  let ?p = "p\<lparr>ep_channels := (ep_channels p)(?f := None)\<rparr>"
  have spec: "epoll_ctl_spec epoll_ctl watching" and tid: "ep_threadId p = tid"
    and slot: "epoll_slot ?w ?f c (h0 c)"
    using inv reg by (auto simp: epoll_invar_def)
  obtain k where run: "(if index (h c) = kAdded then EPoll_update epoll_ctl EPOLL_CTL_DEL c (h, ?p) else Ret (h, ?p))
      = Ret (h, ?p\<lparr>ep_kernel := k\<rparr>)" and k: "watching k = ?w(?f := None)"
  proof (cases "index (h c) = kAdded")
    case True
    then show ?thesis using EPoll_update_ok [OF spec, of ?p h c EPOLL_CTL_DEL] slot that
      by (auto simp: h epoll_slot_def epoll_indices)
  next
    case False
    then show ?thesis using slot by (intro that [of "ep_kernel p"]) (auto simp: h epoll_slot_def fun_upd_idem)
  qed
  let ?h' = "h(c := (h c)\<lparr>index := kNew\<rparr>)"
  have "EPoll_removeChannel epoll_ctl tid c (h, p) = Ret (?h', ?p\<lparr>ep_kernel := k\<rparr>)"
    using run reg ev tid slot
    by (auto simp: EPoll_removeChannel_def h Let_def isNoneEvent_def kNoneEvent_def epoll_slot_def)
  moreover have "epoll_invar epoll_ctl watching tid (?h', ?p\<lparr>ep_kernel := k\<rparr>)"
    using k h tid by (intro epoll_invar_step [OF inv, of _ ?f None c]) auto
  moreover have "frame (ep_channels p) c h ?h'" by (rule frameI [where e = c]) auto
  moreover have "epoll_watched watching (?p\<lparr>ep_kernel := k\<rparr>) = (epoll_watched watching p)(?f := 0)"
    using k by (auto simp: epoll_watched_def fun_eq_iff)
  ultimately show ?thesis by auto
qed

lemma epoll_invar_create:
  "epoll_invar epoll_ctl watching tid (h, p) \<Longrightarrow> \<forall>f. ep_channels p f \<noteq> Some c \<Longrightarrow> epoll_invar epoll_ctl watching tid (h(c := ch), p)"
  by (auto simp: epoll_invar_def)

interpretation epoll: poller "epoll_invar epoll_ctl watching tid" ep_channels "epoll_watched watching"
  "EPoll_updateChannel epoll_ctl tid" "EPoll_removeChannel epoll_ctl tid"
  for epoll_ctl :: "ctl_op \<Rightarrow> int \<Rightarrow> events \<times> nat \<Rightarrow> 'k \<Rightarrow> int \<times> 'k" and watching tid
  by unfold_locales (rule EPoll_updateChannel_ok EPoll_removeChannel_ok epoll_invar_create; assumption)+

section \<open>poll implements the contract\<close>

definition poll_slot :: "pollfd list \<Rightarrow> int \<Rightarrow> Channel \<Rightarrow> bool" where
  "poll_slot pfds f ch \<longleftrightarrow> fd ch = f \<and> 0 \<le> f \<and> interest_ok (events ch) \<and>
     0 \<le> index ch \<and> nat (index ch) < length pfds \<and>
     pfd_fd (pfds ! nat (index ch)) = (if events ch = 0 then - f - 1 else f) \<and>
     pfd_events (pfds ! nat (index ch)) = ucast (events ch)"

text \<open>Every array entry belongs to exactly one registered channel, whose index it is.\<close>

definition poll_invar :: "int \<Rightarrow> store \<times> PollPoller \<Rightarrow> bool" where
  "poll_invar tid s \<longleftrightarrow> (case s of (h, p) \<Rightarrow>
     pp_threadId p = tid \<and>
     (\<forall>f c. pp_channels p f = Some c \<longrightarrow> poll_slot (pollfds p) f (h c)) \<and>
     (\<forall>i < length (pollfds p). \<exists>f c. pp_channels p f = Some c \<and> index (h c) = int i))"

definition poll_watched :: "PollPoller \<Rightarrow> int \<Rightarrow> events" where
  "poll_watched p f =
     (case find (\<lambda>pfd. pfd_fd pfd = f) (pollfds p) of None \<Rightarrow> 0 | Some pfd \<Rightarrow> scast (pfd_events pfd))"

lemma poll_slot_inj:
  "poll_slot pfds f ch \<Longrightarrow> poll_slot pfds g ch' \<Longrightarrow> index ch = index ch' \<Longrightarrow> f = g"
  by (auto simp: poll_slot_def split: if_splits)

lemma short_interest: "interest_ok ev \<Longrightarrow> scast (ucast ev :: 16 word) = ev"
  by (auto simp: interest_ok_def)

lemma poll_owner:
  assumes inv: "poll_invar tid (h, p)" and pfd: "pfd \<in> set (pollfds p)"
  obtains f c where "pp_channels p f = Some c" "poll_slot (pollfds p) f (h c)"
    "pfd = pollfds p ! nat (index (h c))"
proof -
  obtain i where i: "i < length (pollfds p)" "pfd = pollfds p ! i" using pfd by (metis in_set_conv_nth)
  then obtain f c where "pp_channels p f = Some c" "index (h c) = int i"
    using inv by (auto simp: poll_invar_def)
  with inv i that [of f c] show ?thesis by (auto simp: poll_invar_def)
qed

lemma poll_watched_eq:
  assumes inv: "poll_invar tid (h, p)"
  shows "poll_watched p f = (case pp_channels p f of None \<Rightarrow> 0 | Some c \<Rightarrow> events (h c))"
proof (cases "find (\<lambda>pfd. pfd_fd pfd = f) (pollfds p)")
  case None
  have "events (h c) = 0" if "pp_channels p f = Some c" for c
  proof (rule ccontr)
    assume "events (h c) \<noteq> 0"
    with inv that have "pfd_fd (pollfds p ! nat (index (h c))) = f" "nat (index (h c)) < length (pollfds p)"
      by (auto simp: poll_invar_def poll_slot_def)
    with None show False by (auto simp: find_None_iff)
  qed
  with None show ?thesis by (auto simp: poll_watched_def split: option.split)
next
  case (Some pfd)
  then have "pfd \<in> set (pollfds p)" "pfd_fd pfd = f" by (auto simp: find_Some_iff)
  with poll_owner [OF inv] obtain g c where
    g: "pp_channels p g = Some c" "poll_slot (pollfds p) g (h c)" "pfd = pollfds p ! nat (index (h c))"
    by metis
  show ?thesis
  proof (cases "events (h c) = 0")
    case True
    then have "f < 0" "pfd_events pfd = 0" using g \<open>pfd_fd pfd = f\<close> by (auto simp: poll_slot_def)
    moreover have "pp_channels p f = None"
    proof (cases "pp_channels p f")
      case (Some d)
      then show ?thesis using inv \<open>f < 0\<close> by (fastforce simp: poll_invar_def poll_slot_def)
    qed
    ultimately show ?thesis using Some by (simp add: poll_watched_def)
  next
    case False
    then have "f = g" using g \<open>pfd_fd pfd = f\<close> by (auto simp: poll_slot_def)
    with g Some show ?thesis by (auto simp: poll_watched_def poll_slot_def short_interest)
  qed
qed

lemma poll_slot_other: "poll_invar tid (h, p) \<Longrightarrow> pp_channels p g = Some d \<Longrightarrow> g \<noteq> fd (h c) \<Longrightarrow> d \<noteq> c"
  by (auto simp: poll_invar_def poll_slot_def)

text \<open>A new channel is appended to the array; the entry of a known one is replaced.\<close>

lemma poll_invar_append:
  assumes inv: "poll_invar tid (h0, p)" and evok: "interest_ok ev"
    and new: "pp_channels p (fd (h0 c)) = None" "0 \<le> fd (h0 c)" "ev \<noteq> 0"
    and h: "h = h0(c := (h0 c)\<lparr>events := ev, addedToLoop := a\<rparr>)"
  shows "poll_invar tid (h(c := (h c)\<lparr>index := int (length (pollfds p))\<rparr>),
    p\<lparr>pollfds := pollfds p @ [\<lparr>pfd_fd = fd (h0 c), pfd_events = ucast ev, pfd_revents = 0\<rparr>], pp_channels := (pp_channels p)(fd (h0 c) \<mapsto> c)\<rparr>)"
    (is "poll_invar tid (?h', ?p')")
proof -
  have slot: "\<And>g d. pp_channels p g = Some d \<Longrightarrow> poll_slot (pollfds p) g (h0 d)"
    and owner: "\<And>i. i < length (pollfds p) \<Longrightarrow> \<exists>g d. pp_channels p g = Some d \<and> index (h0 d) = int i"
    using inv by (auto simp: poll_invar_def)
  have "poll_slot (pollfds ?p') g (?h' d)" if "pp_channels ?p' g = Some d" for g d
  proof (cases "g = fd (h0 c)")
    case True
    then show ?thesis using that new evok by (simp add: h poll_slot_def)
  next
    case False
    then show ?thesis using that slot [of g d] poll_slot_other [OF inv, of g d c] by (simp add: h poll_slot_def nth_append)
  qed
  moreover have "\<exists>g d. pp_channels ?p' g = Some d \<and> index (?h' d) = int i" if "i < length (pollfds ?p')" for i
  proof (cases "i < length (pollfds p)")
    case True
    then obtain g d where g: "pp_channels p g = Some d" "index (h0 d) = int i" using owner by blast
    moreover have "g \<noteq> fd (h0 c)" using g new(1) by auto
    ultimately show ?thesis using poll_slot_other [OF inv, of g d c] by (intro exI [of _ g] exI [of _ d]) (simp add: h)
  next
    case False
    then show ?thesis using that by (intro exI [of _ "fd (h0 c)"] exI [of _ c]) simp
  qed
  ultimately show ?thesis using inv by (simp add: poll_invar_def)
qed

lemma poll_invar_replace:
  assumes inv: "poll_invar tid (h0, p)" and evok: "interest_ok ev" and reg: "pp_channels p (fd (h0 c)) = Some c"
    and h: "h = h0(c := (h0 c)\<lparr>events := ev, addedToLoop := a\<rparr>)"
  shows "poll_invar tid (h, p\<lparr>pollfds := (pollfds p)[nat (index (h0 c)) :=
    \<lparr>pfd_fd = (if ev = 0 then - fd (h0 c) - 1 else fd (h0 c)), pfd_events = ucast ev, pfd_revents = 0\<rparr>]\<rparr>)" (is "poll_invar tid (h, ?p')")
proof -
  have slot: "\<And>g d. pp_channels p g = Some d \<Longrightarrow> poll_slot (pollfds p) g (h0 d)"
    and owner: "\<And>i. i < length (pollfds p) \<Longrightarrow> \<exists>g d. pp_channels p g = Some d \<and> index (h0 d) = int i"
    using inv by (auto simp: poll_invar_def)
  have "poll_slot (pollfds ?p') g (h d)" if "pp_channels ?p' g = Some d" for g d
  proof (cases "g = fd (h0 c)")
    case True
    then show ?thesis using that reg slot [OF reg] evok by (simp add: h poll_slot_def)
  next
    case False
    then have "index (h0 d) \<noteq> index (h0 c)" "poll_slot (pollfds p) g (h0 d)" "d \<noteq> c"
      using that slot [of g d] poll_slot_other [OF inv, of g d c] poll_slot_inj [OF slot [OF reg], of g "h0 d"] by auto
    then show ?thesis using slot [OF reg] by (auto simp: h poll_slot_def nth_list_update)
  qed
  moreover have "\<exists>g d. pp_channels ?p' g = Some d \<and> index (h d) = int i" if "i < length (pollfds ?p')" for i
    using owner [of i] that by (auto simp: h)
  ultimately show ?thesis using inv by (simp add: poll_invar_def)
qed

lemma poll_updated:
  assumes inv: "poll_invar tid (h0, p)" and inv': "poll_invar tid (h', p')" and h: "h = h0(c := (h0 c)\<lparr>events := ev, addedToLoop := a\<rparr>)"
    and h': "h' = h(c := (h c)\<lparr>index := i\<rparr>)" and chans: "pp_channels p' = (pp_channels p)(fd (h0 c) \<mapsto> c)"
  shows "frame (pp_channels p) c h h'" and "poll_watched p' = (poll_watched p)(fd (h0 c) := ev)"
proof -
  show "frame (pp_channels p) c h h'" unfolding h' by (rule frameI [where e = c]) auto
  show "poll_watched p' = (poll_watched p)(fd (h0 c) := ev)"
    using poll_watched_eq [OF inv'] poll_watched_eq [OF inv] chans h' h poll_slot_other [OF inv] by (auto simp: fun_eq_iff split: option.split)
qed

lemma Poll_updateChannel_ok:
  assumes inv: "poll_invar tid (h0, p)"
    and adm: "admissible (pp_channels p) h0 c ev"
    and h: "h = h0(c := (h0 c)\<lparr>events := ev, addedToLoop := a\<rparr>)"
  shows "\<exists>h' p'. Poll_updateChannel tid c (h, p) = Ret (h', p') \<and>
    poll_invar tid (h', p') \<and> frame (pp_channels p) c h h' \<and>
    pp_channels p' = (pp_channels p)(fd (h0 c) \<mapsto> c) \<and>
    poll_watched p' = (poll_watched p)(fd (h0 c) := ev)"
proof -
  let ?f = "fd (h0 c)"
  have tid: "pp_threadId p = tid" and evok: "interest_ok ev" using inv adm by (auto simp: poll_invar_def admissible_def)
  show ?thesis
  proof (cases "pp_channels p ?f")
    case None
    with adm have new: "index (h0 c) = -1" "0 \<le> ?f" "ev \<noteq> 0" by (auto simp: admissible_def)
    note inv' = poll_invar_append [OF inv evok None new(2,3) h]
    note up = poll_updated [OF inv inv' h refl]
    have "Poll_updateChannel tid c (h, p) = Ret (h(c := (h c)\<lparr>index := int (length (pollfds p))\<rparr>),
        p\<lparr>pollfds := pollfds p @ [\<lparr>pfd_fd = ?f, pfd_events = ucast ev, pfd_revents = 0\<rparr>], pp_channels := (pp_channels p)(?f \<mapsto> c)\<rparr>)"
      using None new tid by (simp add: Poll_updateChannel_def h Let_def)
    with inv' up show ?thesis by (intro exI conjI; assumption?) simp_all
  next
    case (Some d)
    with adm have reg: "pp_channels p ?f = Some c" by (auto simp: admissible_def)
    note inv' = poll_invar_replace [OF inv evok reg h]
    have same: "h = h(c := (h c)\<lparr>index := index (h c)\<rparr>)" by (simp add: fun_eq_iff)
    have sc: "poll_slot (pollfds p) ?f (h0 c)" using inv reg by (auto simp: poll_invar_def)
    then have "index (h0 c) < int (length (pollfds p))" by (auto simp: poll_slot_def)
    then have "Poll_updateChannel tid c (h, p) = Ret (h, p\<lparr>pollfds := (pollfds p)[nat (index (h0 c)) :=
        \<lparr>pfd_fd = (if ev = 0 then - ?f - 1 else ?f), pfd_events = ucast ev, pfd_revents = 0\<rparr>]\<rparr>)"
      using reg sc tid by (auto simp: Poll_updateChannel_def h Let_def poll_slot_def isNoneEvent_def kNoneEvent_def)
    with inv' poll_updated [OF inv inv' h same] reg show ?thesis by (intro exI conjI; assumption?) (simp_all add: fun_upd_idem)
  qed
qed

text \<open>The array after a removal: the last entry has taken the freed slot.\<close>

lemma nth_swap_remove:
  assumes "i < length xs" and "j < length xs - 1"
  shows "butlast (xs[i := last xs, length xs - 1 := y]) ! j = (if j = i then last xs else xs ! j)"
    and "length (butlast (xs[i := last xs, length xs - 1 := y])) = length xs - 1"
  using assms by (auto simp: nth_butlast nth_list_update)

lemma poll_invar_other:
  assumes inv: "poll_invar tid (h, p)" and reg: "pp_channels p (fd (h c)) = Some c"
    and g: "pp_channels p g = Some d" "g \<noteq> fd (h c)"
  shows "d \<noteq> c \<and> index (h d) \<noteq> index (h c)"
proof -
  have "poll_slot (pollfds p) (fd (h c)) (h c)" "poll_slot (pollfds p) g (h d)" using inv reg g by (auto simp: poll_invar_def)
  with poll_slot_inj [OF this] g(2) show ?thesis by (auto simp: poll_slot_def)
qed

text \<open>Removing the last entry of the array.\<close>

lemma poll_invar_drop_last:
  assumes inv: "poll_invar tid (h0, p)" and reg: "pp_channels p (fd (h0 c)) = Some c" and idx: "index (h0 c) = int (length (pollfds p) - 1)"
    and h: "h = h0(c := (h0 c)\<lparr>addedToLoop := a\<rparr>)"
  shows "poll_invar tid (h, p\<lparr>pp_channels := (pp_channels p)(fd (h0 c) := None), pollfds := butlast (pollfds p)\<rparr>)" (is "poll_invar tid (h, ?p')")
proof -
  let ?f = "fd (h0 c)" and ?n = "length (pollfds p)"
  have slot: "\<And>g d. pp_channels p g = Some d \<Longrightarrow> poll_slot (pollfds p) g (h0 d)"
    and owner: "\<And>i. i < ?n \<Longrightarrow> \<exists>g d. pp_channels p g = Some d \<and> index (h0 d) = int i"
    using inv by (auto simp: poll_invar_def)
  have "poll_slot (pollfds ?p') g (h d)" if gd: "pp_channels ?p' g = Some d" for g d
  proof -
    from gd have g: "pp_channels p g = Some d" "g \<noteq> ?f" by (auto split: if_splits)
    then have "nat (index (h0 d)) < ?n - 1"
      using slot [OF g(1)] poll_invar_other [OF inv reg g] idx by (auto simp: poll_slot_def)
    then show ?thesis using slot [OF g(1)] poll_invar_other [OF inv reg g] by (simp add: h poll_slot_def nth_butlast)
  qed
  moreover have "\<exists>g d. pp_channels ?p' g = Some d \<and> index (h d) = int i" if lt: "i < ?n - 1" for i
  proof -
    obtain g d where "pp_channels p g = Some d" "index (h0 d) = int i" using owner [of i] lt by fastforce
    moreover from this have "g \<noteq> ?f" using lt idx reg by auto
    ultimately show ?thesis by (intro exI [of _ g] exI [of _ d]) (auto simp: h)
  qed
  ultimately show ?thesis using inv by (simp add: poll_invar_def)
qed

text \<open>Removing another entry: the last entry takes its place, and the channel of the last entry its index.\<close>

lemma poll_invar_swap_remove:
  assumes inv: "poll_invar tid (h0, p)" and reg: "pp_channels p (fd (h0 c)) = Some c" and idx: "index (h0 c) = int k" "k < m"
    and h: "h = h0(c := (h0 c)\<lparr>addedToLoop := a\<rparr>)" and m: "length (pollfds p) = Suc m"
    and e: "pp_channels p e = Some d" "index (h0 d) = int m"
  shows "poll_invar tid (h(d := (h d)\<lparr>index := int k\<rparr>),
    p\<lparr>pp_channels := (pp_channels p)(fd (h0 c) := None), pollfds := butlast ((pollfds p)[k := last (pollfds p), m := pollfds p ! k])\<rparr>)"
proof -
  let ?f = "fd (h0 c)" and ?xs = "butlast ((pollfds p)[k := last (pollfds p), m := pollfds p ! k])" and ?h' = "h(d := (h d)\<lparr>index := int k\<rparr>)"
  have slot: "\<And>g d. pp_channels p g = Some d \<Longrightarrow> poll_slot (pollfds p) g (h0 d)"
    and owner: "\<And>i. i < Suc m \<Longrightarrow> \<exists>g d. pp_channels p g = Some d \<and> index (h0 d) = int i"
    using inv m by (auto simp: poll_invar_def)
  have last: "last (pollfds p) = pollfds p ! m" using m last_conv_nth [of "pollfds p"] by (auto simp del: length_0_conv simp flip: length_0_conv)
  have ef: "e \<noteq> ?f" "d \<noteq> c" using e idx reg by auto
  note se = slot [OF e(1)] and sw = nth_swap_remove [of k "pollfds p" _ "pollfds p ! k", unfolded m diff_Suc_1]
  have slot': "poll_slot ?xs g (?h' b)" if "((pp_channels p)(?f := None)) g = Some b" for g b
  proof (cases "g = e")
    case True
    then show ?thesis using se e that ef last idx sw by (auto simp: h poll_slot_def)
  next
    case False
    from that have g: "pp_channels p g = Some b" "g \<noteq> ?f" by (auto split: if_splits)
    have "index (h0 b) \<noteq> index (h0 d)" "b \<noteq> d"
      using poll_slot_inj [OF slot [OF g(1)] se] False slot [OF g(1)] se by (auto simp: poll_slot_def)
    then have "nat (index (h0 b)) < m" using slot [OF g(1)] e m by (auto simp: poll_slot_def)
    then show ?thesis using slot [OF g(1)] poll_invar_other [OF inv reg g] idx \<open>b \<noteq> d\<close> sw by (auto simp: h poll_slot_def)
  qed
  have owner': "\<exists>g b. ((pp_channels p)(?f := None)) g = Some b \<and> index (?h' b) = int i" if lt: "i < m" for i
  proof (cases "i = k")
    case True
    then show ?thesis using e ef by (intro exI [of _ e] exI [of _ d]) simp
  next
    case False
    obtain g b where g: "pp_channels p g = Some b" "index (h0 b) = int i" using owner [of i] lt by auto
    then have "g \<noteq> ?f" "b \<noteq> d" using False lt idx reg e by auto
    then show ?thesis using g by (intro exI [of _ g] exI [of _ b]) (auto simp: h)
  qed
  show ?thesis using inv slot' owner' sw(2) idx(2) by (simp add: poll_invar_def)
qed

text \<open>After a removal that changed at most one index, what is watched follows from the invariant.\<close>

lemma poll_removed:
  assumes inv: "poll_invar tid (h0, p)" and inv': "poll_invar tid (h', p')" and h: "h = h0(c := (h0 c)\<lparr>addedToLoop := a\<rparr>)"
    and h': "h' = h(d := (h d)\<lparr>index := i\<rparr>)" and d: "d \<noteq> c \<Longrightarrow> pp_channels p (fd (h d)) = Some d"
    and chans: "pp_channels p' = (pp_channels p)(fd (h0 c) := None)"
  shows "frame (pp_channels p) c h h'" and "poll_watched p' = (poll_watched p)(fd (h0 c) := 0)"
proof -
  show "frame (pp_channels p) c h h'" unfolding h' using d by (intro frameI [where e = d]) (auto intro: index_refl)
  show "poll_watched p' = (poll_watched p)(fd (h0 c) := 0)"
    using poll_watched_eq [OF inv'] poll_watched_eq [OF inv] chans h' h by (auto simp: fun_eq_iff split: option.split)
qed

lemma Poll_removeChannel_ok:
  assumes inv: "poll_invar tid (h0, p)"
    and reg: "pp_channels p (fd (h0 c)) = Some c" and ev: "events (h0 c) = 0"
    and h: "h = h0(c := (h0 c)\<lparr>addedToLoop := a\<rparr>)"
  shows "\<exists>h' p'. Poll_removeChannel tid c (h, p) = Ret (h', p') \<and>
    poll_invar tid (h', p') \<and> frame (pp_channels p) c h h' \<and>
    pp_channels p' = (pp_channels p)(fd (h0 c) := None) \<and>
    poll_watched p' = (poll_watched p)(fd (h0 c) := 0)"
proof -
  let ?f = "fd (h0 c)" and ?n = "length (pollfds p)"
  let ?chans = "(pp_channels p)(?f := None)"
  have tid: "pp_threadId p = tid" and slot: "\<And>g d. pp_channels p g = Some d \<Longrightarrow> poll_slot (pollfds p) g (h0 d)"
    and owner: "\<And>i. i < ?n \<Longrightarrow> \<exists>g d. pp_channels p g = Some d \<and> index (h0 d) = int i" using inv by (auto simp: poll_invar_def)
  obtain k where idx: "index (h0 c) = int k" "k < ?n" using slot [OF reg] by (metis nat_0_le poll_slot_def)
  have hc: "fd (h c) = ?f" "index (h c) = index (h0 c)" "events (h c) = events (h0 c)" by (simp_all add: h)
  have pre: "Poll_removeChannel tid c (h, p) =
      (if k = ?n - 1 then Ret (h, p\<lparr>pp_channels := ?chans, pollfds := butlast (pollfds p)\<rparr>)
       else case ?chans (if pfd_fd (last (pollfds p)) < 0 then - pfd_fd (last (pollfds p)) - 1
                         else pfd_fd (last (pollfds p))) of
         None \<Rightarrow> Abort (Undefined ''null Channel'')
       | Some d \<Rightarrow> Ret (h(d := (h d)\<lparr>index := int k\<rparr>), p\<lparr>pp_channels := ?chans,
           pollfds := butlast ((pollfds p)[k := last (pollfds p), ?n - 1 := pollfds p ! k])\<rparr>))"
    using reg slot [OF reg] tid ev idx hc
    by (simp add: Poll_removeChannel_def Let_def poll_slot_def isNoneEvent_def kNoneEvent_def split: option.split)
  show ?thesis
  proof (cases "k = ?n - 1")
    case True
    have same: "h = h(c := (h c)\<lparr>index := index (h c)\<rparr>)" by (simp add: fun_eq_iff)
    have inv': "poll_invar tid (h, p\<lparr>pp_channels := ?chans, pollfds := butlast (pollfds p)\<rparr>)"
      using idx(1) True by (intro poll_invar_drop_last [OF inv reg _ h]) simp
    then show ?thesis using poll_removed [OF inv inv' h same] pre True by simp
  next
    case False
    obtain m where m: "?n = Suc m" "k < m" using idx(2) False by (cases ?n) auto
    obtain e d where e: "pp_channels p e = Some d" "index (h0 d) = int m" using owner [of m] m(1) by auto
    have ef: "d \<noteq> c" "fd (h0 d) = e" using e(2) idx(1) m(2) slot [OF e(1)] by (auto simp: poll_slot_def)
    then have "e \<noteq> ?f" using e(1) reg by auto
    have "last (pollfds p) = pollfds p ! m" using m(1) last_conv_nth [of "pollfds p"] by (auto simp del: length_0_conv simp flip: length_0_conv)
    then have dec: "(if pfd_fd (last (pollfds p)) < 0 then - pfd_fd (last (pollfds p)) - 1 else pfd_fd (last (pollfds p))) = e"
      using slot [OF e(1)] e(2) by (auto simp: poll_slot_def split: if_splits)
    note inv' = poll_invar_swap_remove [OF inv reg idx(1) m(2) h m(1) e]
    have "pp_channels p (fd (h d)) = Some d" using e ef h by simp
    note rm = poll_removed [OF inv inv' h refl this]
    have "Poll_removeChannel tid c (h, p) = Ret (h(d := (h d)\<lparr>index := int k\<rparr>), p\<lparr>pp_channels := ?chans,
        pollfds := butlast ((pollfds p)[k := last (pollfds p), m := pollfds p ! k])\<rparr>)"
      unfolding pre dec using False e \<open>e \<noteq> ?f\<close> m(1) by simp
    with inv' rm show ?thesis by (intro exI conjI; assumption?) simp_all
  qed
qed

lemma poll_invar_create:
  "poll_invar tid (h, p) \<Longrightarrow> \<forall>f. pp_channels p f \<noteq> Some c \<Longrightarrow> poll_invar tid (h(c := ch), p)"
  unfolding poll_invar_def by (simp add: split_beta) (metis fun_upd_other)

interpretation poll: poller "poll_invar tid" pp_channels poll_watched "Poll_updateChannel tid"
  "Poll_removeChannel tid" for tid
  by unfold_locales (rule Poll_updateChannel_ok Poll_removeChannel_ok poll_invar_create; assumption)+

section \<open>Waiting for events\<close>

text \<open>\<^verbatim>\<open>epoll_wait\<close> reports at most as many events as asked for, each carrying the pointer it was
  registered with.\<close>

definition epoll_wait_spec ::
  "('k \<Rightarrow> nat \<Rightarrow> int \<Rightarrow> int + (events \<times> nat) list) \<Rightarrow> ('k \<Rightarrow> int \<rightharpoonup> events \<times> nat) \<Rightarrow> bool" where
  "epoll_wait_spec epoll_wait watching \<longleftrightarrow>
     (\<forall>k n t evs. epoll_wait k n t = Inr evs \<longrightarrow> length evs \<le> n \<and> distinct (map snd evs) \<and>
        (\<forall>ev c. (ev, c) \<in> set evs \<longrightarrow> (\<exists>f e. watching k f = Some (e, c))))"

definition store_revents :: "(events \<times> nat) list \<Rightarrow> store \<Rightarrow> store" where
  "store_revents evs h c = (case map_of (map (\<lambda>(ev, c). (c, ev)) evs) c of None \<Rightarrow> h c | Some ev \<Rightarrow> (h c)\<lparr>revents := ev\<rparr>)"

lemma EPoll_fillActiveChannels_ok:
  assumes "\<And>ev c. (ev, c) \<in> set evs \<Longrightarrow> chans (fd (h c)) = Some c" and "distinct (map snd evs)"
  shows "EPoll_fillActiveChannels evs chans (h, active) = Ret (store_revents evs h, active @ map snd evs)"
  using assms
proof (induction evs arbitrary: h active)
  case Nil
  then show ?case by (simp add: store_revents_def fun_eq_iff)
next
  case (Cons x evs)
  obtain ev c where x: "x = (ev, c)" by fastforce
  let ?h = "h(c := (h c)\<lparr>revents := ev\<rparr>)"
  have "map_of (map (\<lambda>(ev, c). (c, ev)) evs) c = None"
    using Cons.prems(2) x by (force simp: map_of_eq_None_iff)
  then have "store_revents evs ?h = store_revents (x # evs) h"
    by (auto simp: store_revents_def fun_eq_iff x split: option.split)
  moreover have "EPoll_fillActiveChannels evs chans (?h, active @ [c])
      = Ret (store_revents evs ?h, (active @ [c]) @ map snd evs)"
    using Cons.prems by (intro Cons.IH) (auto simp: x)
  ultimately show ?case using Cons.prems(1) [of ev c] by (simp add: x)
qed

lemma EPoll_poll_ok:
  assumes inv: "epoll_invar epoll_ctl watching tid (h, p)" and spec: "epoll_wait_spec epoll_wait watching"
    and got: "epoll_wait (ep_kernel p) (ep_events p) t = Inr evs"
  shows "\<exists>p'. EPoll_poll epoll_wait t (h, p) = Ret (map snd evs, store_revents evs h, p') \<and>
    ep_channels p' = ep_channels p \<and> ep_kernel p' = ep_kernel p \<and> ep_threadId p' = ep_threadId p \<and>
    ep_events p' = (if evs \<noteq> [] \<and> length evs = ep_events p then ep_events p * 2 else ep_events p)"
proof -
  have evs: "length evs \<le> ep_events p" "distinct (map snd evs)"
    "\<And>ev c. (ev, c) \<in> set evs \<Longrightarrow> \<exists>f e. watching (ep_kernel p) f = Some (e, c)"
    using spec got by (auto simp: epoll_wait_spec_def)
  have "ep_channels p (fd (h c)) = Some c" if ec: "(ev, c) \<in> set evs" for ev c
  proof -
    obtain f e where w: "watching (ep_kernel p) f = Some (e, c)" using evs(3) [OF ec] by auto
    obtain d where d: "ep_channels p f = Some d"
      using inv w by (cases "ep_channels p f") (auto simp: epoll_invar_def)
    with inv have "epoll_slot (watching (ep_kernel p)) f d (h d)" by (auto simp: epoll_invar_def)
    with w d show ?thesis by (auto simp: epoll_slot_def)
  qed
  from EPoll_fillActiveChannels_ok [of evs, OF this evs(2)] evs(1) got show ?thesis
    by (auto simp: EPoll_poll_def store_revents_def fun_eq_iff)
qed

lemma store_revents_members [simp]: "fd (store_revents evs h c) = fd (h c)" "index (store_revents evs h c) = index (h c)"
  "events (store_revents evs h c) = events (h c)"
  by (auto simp: store_revents_def split: option.split)

lemma epoll_invar_revents:
  assumes "epoll_invar epoll_ctl watching tid (h, p)"
    and "ep_channels p' = ep_channels p" and "ep_kernel p' = ep_kernel p" and "ep_threadId p' = ep_threadId p"
  shows "epoll_invar epoll_ctl watching tid (store_revents evs h, p')"
  using assms by (simp add: epoll_invar_def epoll_slot_def)

text \<open>\<^verbatim>\<open>poll\<close> only stores received events, none for an ignored (negative) descriptor, and returns how
  many entries have some.\<close>

definition poll_spec :: "(pollfd list \<Rightarrow> int \<Rightarrow> int + nat \<times> pollfd list) \<Rightarrow> bool" where
  "poll_spec poll_call \<longleftrightarrow>
     (\<forall>pfds t n fds. poll_call pfds t = Inr (n, fds) \<longrightarrow>
        map (\<lambda>x. x\<lparr>pfd_revents := 0\<rparr>) fds = map (\<lambda>x. x\<lparr>pfd_revents := 0\<rparr>) pfds \<and>
        n = length (filter (\<lambda>x. 0 < sint (pfd_revents x)) fds) \<and>
        (\<forall>x\<in>set fds. pfd_fd x < 0 \<longrightarrow> pfd_revents x = 0))"

definition ready :: "pollfd list \<Rightarrow> (int \<rightharpoonup> nat) \<Rightarrow> (events \<times> nat) list" where
  "ready fds chans = map (\<lambda>x. (scast (pfd_revents x), the (chans (pfd_fd x))))
     (filter (\<lambda>x. 0 < sint (pfd_revents x)) fds)"

lemma Poll_fillActiveChannels_ok:
  assumes "\<And>x. x \<in> set fds \<Longrightarrow> 0 < sint (pfd_revents x) \<Longrightarrow>
      \<exists>c. chans (pfd_fd x) = Some c \<and> fd (h c) = pfd_fd x"
    and "n = length (filter (\<lambda>x. 0 < sint (pfd_revents x)) fds)"
    and "distinct (map snd (ready fds chans))"
  shows "Poll_fillActiveChannels n fds chans (h, active)
    = Ret (store_revents (ready fds chans) h, active @ map snd (ready fds chans))"
  using assms
proof (induction fds arbitrary: h active n)
  case Nil
  then show ?case by (simp add: store_revents_def ready_def fun_eq_iff)
next
  case (Cons x fds)
  show ?case
  proof (cases "0 < sint (pfd_revents x)")
    case False
    then have rx: "ready (x # fds) chans = ready fds chans" by (simp add: ready_def)
    show ?thesis
    proof (cases n)
      case 0
      then have "ready fds chans = []" using Cons.prems(2) False by (simp add: ready_def)
      then show ?thesis using 0 rx by (simp add: store_revents_def fun_eq_iff)
    next
      case (Suc m)
      then show ?thesis using False rx Cons.IH [of h n active] Cons.prems by simp
    qed
  next
    case True
    obtain c where c: "chans (pfd_fd x) = Some c" "fd (h c) = pfd_fd x" using Cons.prems(1) [of x] True by auto
    let ?ev = "scast (pfd_revents x)"
    let ?h = "h(c := (h c)\<lparr>revents := ?ev\<rparr>)"
    have rx: "ready (x # fds) chans = (?ev, c) # ready fds chans" using True c by (simp add: ready_def)
    have "map_of (map (\<lambda>(ev, c). (c, ev)) (ready fds chans)) c = None"
      using Cons.prems(3) rx by (force simp: map_of_eq_None_iff)
    then have "store_revents (ready fds chans) ?h = store_revents (ready (x # fds) chans) h"
      by (auto simp: store_revents_def fun_eq_iff rx split: option.split)
    moreover have "Poll_fillActiveChannels (n - 1) fds chans (?h, active @ [c])
        = Ret (store_revents (ready fds chans) ?h, (active @ [c]) @ map snd (ready fds chans))"
    proof (rule Cons.IH)
      show "\<exists>d. chans (pfd_fd y) = Some d \<and> fd (?h d) = pfd_fd y"
        if "y \<in> set fds" "0 < sint (pfd_revents y)" for y
        using Cons.prems(1) [of y] that by auto
    qed (use Cons.prems True rx in auto)
    moreover have "n \<noteq> 0" using Cons.prems(2) True by simp
    ultimately show ?thesis using True c rx by simp
  qed
qed

lemma poll_fds_distinct:
  assumes inv: "poll_invar tid (h, p)"
  shows "distinct (map pfd_fd (pollfds p))"
proof -
  have "i = j" if ij: "i < length (pollfds p)" "j < length (pollfds p)"
    "pfd_fd (pollfds p ! i) = pfd_fd (pollfds p ! j)" for i j
  proof -
    obtain f c where fc: "pp_channels p f = Some c" "index (h c) = int i"
      using inv ij(1) by (auto simp: poll_invar_def)
    obtain g d where gd: "pp_channels p g = Some d" "index (h d) = int j"
      using inv ij(2) by (auto simp: poll_invar_def)
    have "poll_slot (pollfds p) f (h c)" "poll_slot (pollfds p) g (h d)"
      using inv fc(1) gd(1) by (auto simp: poll_invar_def)
    then have "f = g" using ij fc(2) gd(2) by (auto simp: poll_slot_def split: if_splits)
    with fc gd show ?thesis by simp
  qed
  then show ?thesis unfolding distinct_conv_nth by (metis length_map nth_map)
qed

lemma map_snd_ready: "map snd (ready fds chans) =
    map (\<lambda>x. the (chans (pfd_fd x))) (filter (\<lambda>x. 0 < sint (pfd_revents x)) fds)"
  by (simp add: ready_def)

lemma poll_invar_revents:
  assumes inv: "poll_invar tid (h, p)"
    and same: "map (\<lambda>x. x\<lparr>pfd_revents := 0\<rparr>) fds = map (\<lambda>x. x\<lparr>pfd_revents := 0\<rparr>) (pollfds p)"
  shows "poll_invar tid (store_revents evs h, p\<lparr>pollfds := fds\<rparr>)"
proof -
  have len: "length fds = length (pollfds p)" using same by (rule map_eq_imp_length_eq)
  have nth: "pfd_fd (fds ! i) = pfd_fd (pollfds p ! i)" "pfd_events (fds ! i) = pfd_events (pollfds p ! i)"
    if "i < length (pollfds p)" for i
  proof -
    have "(fds ! i)\<lparr>pfd_revents := 0\<rparr> = (pollfds p ! i)\<lparr>pfd_revents := 0\<rparr>"
      using same len that by (metis (no_types, lifting) nth_map)
    then show "pfd_fd (fds ! i) = pfd_fd (pollfds p ! i)" "pfd_events (fds ! i) = pfd_events (pollfds p ! i)"
      by (cases "fds ! i"; cases "pollfds p ! i"; simp)+
  qed
  show ?thesis using inv by (simp add: poll_invar_def poll_slot_def len nth)
qed

lemma Poll_poll_ok:
  assumes inv: "poll_invar tid (h, p)" and spec: "poll_spec poll_call"
    and got: "poll_call (pollfds p) t = Inr (n, fds)"
  shows "Poll_poll poll_call t (h, p)
      = Ret (map snd (ready fds (pp_channels p)), store_revents (ready fds (pp_channels p)) h, p\<lparr>pollfds := fds\<rparr>) \<and>
    poll_invar tid (store_revents (ready fds (pp_channels p)) h, p\<lparr>pollfds := fds\<rparr>) \<and> distinct (map snd (ready fds (pp_channels p)))"
proof -
  have same: "map (\<lambda>x. x\<lparr>pfd_revents := 0\<rparr>) fds = map (\<lambda>x. x\<lparr>pfd_revents := 0\<rparr>) (pollfds p)"
    and n: "n = length (filter (\<lambda>x. 0 < sint (pfd_revents x)) fds)"
    and neg: "\<And>x. x \<in> set fds \<Longrightarrow> pfd_fd x < 0 \<Longrightarrow> pfd_revents x = 0"
    using spec got by (auto simp: poll_spec_def)
  have fdeq: "map pfd_fd fds = map pfd_fd (pollfds p)"
    using arg_cong [OF same, of "map pfd_fd"] by (simp add: comp_def)
  have own: "\<exists>c. pp_channels p (pfd_fd x) = Some c \<and> fd (h c) = pfd_fd x"
    if x: "x \<in> set fds" "0 < sint (pfd_revents x)" for x
  proof -
    have "0 \<le> pfd_fd x" using neg [OF x(1)] x(2) by (cases "pfd_fd x < 0") auto
    moreover have "pfd_fd x \<in> set (map pfd_fd (pollfds p))" using x(1) fdeq [symmetric] by simp
    then obtain y where "y \<in> set (pollfds p)" "pfd_fd y = pfd_fd x" by auto
    moreover obtain f c where "pp_channels p f = Some c" "poll_slot (pollfds p) f (h c)"
      "y = pollfds p ! nat (index (h c))"
      using poll_owner [OF inv calculation(2)] by blast
    ultimately show ?thesis by (auto simp: poll_slot_def split: if_splits)
  qed
  have dist: "distinct (map snd (ready fds (pp_channels p)))"
  proof -
    have "distinct (map pfd_fd (filter (\<lambda>x. 0 < sint (pfd_revents x)) fds))"
      using poll_fds_distinct [OF inv] fdeq by (metis distinct_map_filter)
    moreover have "inj_on (\<lambda>f. the (pp_channels p f)) (pfd_fd ` set (filter (\<lambda>x. 0 < sint (pfd_revents x)) fds))"
    proof (rule inj_onI)
      fix f g
      assume "f \<in> pfd_fd ` set (filter (\<lambda>x. 0 < sint (pfd_revents x)) fds)"
        and "g \<in> pfd_fd ` set (filter (\<lambda>x. 0 < sint (pfd_revents x)) fds)"
        and eq: "the (pp_channels p f) = the (pp_channels p g)"
      then obtain x y where x: "x \<in> set fds" "0 < sint (pfd_revents x)" "f = pfd_fd x"
        and y: "y \<in> set fds" "0 < sint (pfd_revents y)" "g = pfd_fd y" by auto
      from own [OF x(1,2)] own [OF y(1,2)] eq x(3) y(3) show "f = g" by auto
    qed
    ultimately have "distinct (map (\<lambda>f. the (pp_channels p f)) (map pfd_fd (filter (\<lambda>x. 0 < sint (pfd_revents x)) fds)))"
      by (subst distinct_map) simp
    then show ?thesis by (simp add: map_snd_ready comp_def)
  qed
  note fill = Poll_fillActiveChannels_ok [OF own n dist, of "[]"]
  have "ready fds (pp_channels p) = []" if "n = 0" using that n by (simp add: ready_def)
  then have "Poll_poll poll_call t (h, p)
      = Ret (map snd (ready fds (pp_channels p)), store_revents (ready fds (pp_channels p)) h, p\<lparr>pollfds := fds\<rparr>)"
    using got fill by (auto simp: Poll_poll_def store_revents_def fun_eq_iff)
  with poll_invar_revents [OF inv same] dist show ?thesis by blast
qed

section \<open>Properties\<close>

definition no_watch :: watch_state where
  "no_watch = \<lparr>ws_reg = Map.empty, ws_events = (\<lambda>_. 0), ws_used = {}\<rparr>"

definition fresh_channels :: "(nat \<Rightarrow> int) \<Rightarrow> store" where
  "fresh_channels fdof c = new_Channel (fdof c)"

lemma watch_ok_no_watch: "watch_ok fdof no_watch"
  by (simp add: watch_ok_def no_watch_def interest_ok_def)

lemma epoll_fresh_agrees:
  assumes "epoll_ctl_spec epoll_ctl watching" and "watching k = Map.empty"
  shows "\<exists>p. new_EPollPoller tid (Inr k) = Ret p \<and> epoll.agrees epoll_ctl watching tid fdof (fresh_channels fdof, p) no_watch"
  using assms watch_ok_no_watch [of fdof]
  by (auto simp: new_EPollPoller_def epoll.agrees_def epoll_invar_def no_watch_def fresh_channels_def new_Channel_def
      interest_of_def epoll_watched_def fun_eq_iff)

lemma poll_fresh_agrees: "poll.agrees tid fdof (fresh_channels fdof, new_PollPoller tid) no_watch"
  using watch_ok_no_watch [of fdof]
  by (auto simp: poll.agrees_def poll_invar_def no_watch_def fresh_channels_def new_Channel_def
      interest_of_def poll_watched_def new_PollPoller_def fun_eq_iff)

text \<open>C6: for every sequence of enable/disable/remove calls on fresh channels in which a channel is
  registered with some interest first, removed only when its interest is empty, and not reused
  after removal, the epoll poller never aborts, never lets epoll_ctl fail, and the kernel watches
  exactly the interest sets of the registered channels.\<close>

theorem epoll_tracks_interest:
  assumes "epoll_ctl_spec epoll_ctl watching" and "watching k = Map.empty"
    and "legal_script fdof xs no_watch"
  shows "\<exists>h p p'. new_EPollPoller tid (Inr k) = Ret p \<and>
    foldo (client_op (EPoll_updateChannel epoll_ctl tid) (EPoll_removeChannel epoll_ctl tid)) xs
      (fresh_channels fdof, p) = Ret (h, p') \<and>
    ep_channels p' = ws_reg (foldl (\<lambda>w x. watch_step fdof x w) no_watch xs) \<and>
    epoll_watched watching p' = interest_of (foldl (\<lambda>w x. watch_step fdof x w) no_watch xs)"
proof -
  obtain p where p: "new_EPollPoller tid (Inr k) = Ret p" "epoll.agrees epoll_ctl watching tid fdof (fresh_channels fdof, p) no_watch"
    using epoll_fresh_agrees [OF assms(1,2)] by blast
  from epoll.script_simulates [OF p(2) assms(3)] p(1) show ?thesis by (auto simp: epoll.agrees_def)
qed

text \<open>C16: the poll poller gives the same guarantee on the same call sequences: it never aborts, and
  the array handed to poll asks for exactly the interest sets of the registered channels, although
  removals swap array entries.\<close>

theorem poll_tracks_interest:
  assumes "legal_script fdof xs no_watch"
  shows "\<exists>h p'. foldo (client_op (Poll_updateChannel tid) (Poll_removeChannel tid)) xs
      (fresh_channels fdof, new_PollPoller tid) = Ret (h, p') \<and>
    pp_channels p' = ws_reg (foldl (\<lambda>w x. watch_step fdof x w) no_watch xs) \<and>
    poll_watched p' = interest_of (foldl (\<lambda>w x. watch_step fdof x w) no_watch xs)"
  using poll.script_simulates [OF poll_fresh_agrees assms, of tid] by (auto simp: poll.agrees_def)

text \<open>A kernel whose interest list is a map, for the witnesses.\<close>

fun map_ctl :: "ctl_op \<Rightarrow> int \<Rightarrow> events \<times> nat \<Rightarrow> (int \<rightharpoonup> events \<times> nat) \<Rightarrow> int \<times> (int \<rightharpoonup> events \<times> nat)" where
  "map_ctl EPOLL_CTL_ADD f ev k = (if k f = None then (0, k(f \<mapsto> ev)) else (-1, k))"
| "map_ctl EPOLL_CTL_MOD f ev k = (if k f = None then (-1, k) else (0, k(f \<mapsto> ev)))"
| "map_ctl EPOLL_CTL_DEL f ev k = (if k f = None then (-1, k) else (0, k(f := None)))"

lemma map_ctl_spec: "epoll_ctl_spec map_ctl id"
  by (auto simp: epoll_ctl_spec_def)

definition demo_script :: "((interest_call + unit) \<times> nat) list" where
  "demo_script = [(Inl EnableReading, 0), (Inl EnableWriting, 1), (Inl EnableReading, 2),
     (Inl DisableAll, 0), (Inr (), 0), (Inl DisableWriting, 1)]"

lemma demo_script_legal: "legal_script (\<lambda>c. int c + 5) demo_script no_watch"
  by (simp add: demo_script_def legal_call_def watch_step_def no_watch_def poll_masks)

theorem epoll_tracks_interest_witness:
  "\<exists>h p p'. new_EPollPoller 7 (Inr Map.empty) = Ret p \<and>
    foldo (client_op (EPoll_updateChannel map_ctl 7) (EPoll_removeChannel map_ctl 7)) demo_script
      (fresh_channels (\<lambda>c. int c + 5), p) = Ret (h, p') \<and>
    ep_channels p' = ws_reg (foldl (\<lambda>w x. watch_step (\<lambda>c. int c + 5) x w) no_watch demo_script) \<and>
    epoll_watched id p' = interest_of (foldl (\<lambda>w x. watch_step (\<lambda>c. int c + 5) x w) no_watch demo_script)"
  by (rule epoll_tracks_interest [OF map_ctl_spec _ demo_script_legal]) simp

theorem poll_tracks_interest_witness:
  "\<exists>h p'. foldo (client_op (Poll_updateChannel 7) (Poll_removeChannel 7)) demo_script
      (fresh_channels (\<lambda>c. int c + 5), new_PollPoller 7) = Ret (h, p') \<and>
    pp_channels p' = ws_reg (foldl (\<lambda>w x. watch_step (\<lambda>c. int c + 5) x w) no_watch demo_script) \<and>
    poll_watched p' = interest_of (foldl (\<lambda>w x. watch_step (\<lambda>c. int c + 5) x w) no_watch demo_script)"
  by (rule poll_tracks_interest [OF demo_script_legal])

text \<open>Waiting hands the loop exactly the channels epoll_wait reported, in its order, each with
  its received events stored and nothing else changed; the debug assertions hold, and the event
  array doubles when it was filled completely.\<close>

theorem epoll_poll_reports:
  assumes "epoll_invar epoll_ctl watching tid (h, p)" and "epoll_wait_spec epoll_wait watching"
    and "epoll_wait (ep_kernel p) (ep_events p) t = Inr evs"
  shows "\<exists>p'. EPoll_poll epoll_wait t (h, p) = Ret (map snd evs, store_revents evs h, p') \<and>
    epoll_invar epoll_ctl watching tid (store_revents evs h, p') \<and>
    ep_events p' = (if evs \<noteq> [] \<and> length evs = ep_events p then ep_events p * 2 else ep_events p)"
proof -
  obtain p' where p': "EPoll_poll epoll_wait t (h, p) = Ret (map snd evs, store_revents evs h, p')"
    "ep_channels p' = ep_channels p" "ep_kernel p' = ep_kernel p" "ep_threadId p' = ep_threadId p"
    "ep_events p' = (if evs \<noteq> [] \<and> length evs = ep_events p then ep_events p * 2 else ep_events p)"
    using EPoll_poll_ok [OF assms] by auto
  have "epoll_invar epoll_ctl watching tid (store_revents evs h, p')" by (rule epoll_invar_revents [OF assms(1) p'(2-4)])
  with p' show ?thesis by blast
qed

definition demo_epoll :: "(int \<rightharpoonup> events \<times> nat) EPollPoller" where
  "demo_epoll = \<lparr>ep_threadId = 7, ep_channels = [5 \<mapsto> 0], ep_events = 1, ep_kernel = [5 \<mapsto> (3, 0)]\<rparr>"

definition demo_store :: store where
  "demo_store = (\<lambda>c. (new_Channel 5)\<lparr>events := 3, index := 1\<rparr>)"

definition demo_wait :: "(int \<rightharpoonup> events \<times> nat) \<Rightarrow> nat \<Rightarrow> int \<Rightarrow> int + (events \<times> nat) list" where
  "demo_wait k n t = Inr (if k 5 = Some (3, 0) then take n [(POLLIN, 0)] else [])"

theorem epoll_poll_reports_witness:
  "\<exists>p'. EPoll_poll demo_wait 10 (demo_store, demo_epoll) = Ret ([0], store_revents [(POLLIN, 0)] demo_store, p') \<and>
     ep_events p' = 2"
proof -
  have "epoll_invar map_ctl id 7 (demo_store, demo_epoll)"
    using map_ctl_spec
    by (auto simp: epoll_invar_def epoll_slot_def new_Channel_def epoll_indices demo_store_def demo_epoll_def
        split: if_splits)
  moreover have "epoll_wait_spec demo_wait id"
    by (auto simp: epoll_wait_spec_def demo_wait_def take_Cons split: nat.splits if_splits
        intro!: exI [of _ "5 :: int"])
  moreover have "demo_wait (ep_kernel demo_epoll) (ep_events demo_epoll) 10 = Inr [(POLLIN, 0)]"
    by (simp add: demo_wait_def demo_epoll_def)
  moreover have "ep_events demo_epoll = 1" by (simp add: demo_epoll_def)
  ultimately show ?thesis
    using epoll_poll_reports [of map_ctl id 7 demo_store demo_epoll demo_wait 10 "[(POLLIN, 0)]"] by auto
qed

text \<open>An event runs the close, error, read and write callbacks in this order, each at most once
  and only when its bits were received and it is set; a channel tied to an owner that is gone runs
  none. In particular a hang-up alone runs only the close callback.\<close>

theorem handleEvent_runs:
  assumes "keeps_dispatch run"
  shows "handleEvent locked run (c, s) =
      (if tied c \<and> \<not> locked then Ret (c, s)
       else bindo (foldo run (dispatched c) (c\<lparr>eventHandling := True\<rparr>, s))
              (\<lambda>s. Ret ((fst s)\<lparr>eventHandling := False\<rparr>, snd s))) \<and>
    distinct (dispatched c) \<and>
    (revents c = POLLHUP \<longrightarrow> dispatched c = (if closeCallback c then [CbClose] else []))"
  using handleEventWithGuard_dispatched [OF assms]
  by (auto simp: handleEvent_def dispatched_def has_bits_def poll_masks)

theorem handleEvent_runs_witness:
  "handleEvent True (\<lambda>cb (c, s). Ret (c, s @ [cb]))
     ((new_Channel 5)\<lparr>revents := POLLHUP, closeCallback := True, readCallback := True, tied := True\<rparr>, [])
   = Ret ((new_Channel 5)\<lparr>revents := POLLHUP, closeCallback := True, readCallback := True, tied := True\<rparr>, [CbClose])"
proof -
  have "keeps_dispatch (\<lambda>cb (c, s). Ret (c, s @ [cb]))"
    by (auto simp: keeps_dispatch_def same_dispatch_def)
  from handleEvent_runs [OF this, of True "(new_Channel 5)\<lparr>revents := POLLHUP, closeCallback := True,
    readCallback := True, tied := True\<rparr>" "[]"]
  show ?thesis by (simp add: new_Channel_def)
qed

end
