(* ===== verification/TimerQueues.thy ===== *)
theory TimerQueues
  imports Pollers "HOL-Library.Product_Lexorder"
begin

text \<open>
  \<^verbatim>\<open>muduo/net/Timer.{h,cc}\<close>, \<^verbatim>\<open>TimerId.h\<close>, \<^verbatim>\<open>TimerQueue.{h,cc}\<close>: the timers of an event loop.

  Timer objects live in a heap from addresses to \<open>Timer\<close> records; deleting one removes it, and
  touching a deleted one is \<open>Undefined\<close>. \<^verbatim>\<open>std::set<Entry>\<close>, ordered by time and address, is a
  sorted list without duplicates; the two \<^verbatim>\<open>ActiveTimerSet\<close>s are sets. Times are microseconds. An
  interval of type double is represented by the two values the code computes from it:
  \<^verbatim>\<open>interval > 0.0\<close> and the truncated number of microseconds.

  Parameters: the allocator (which may fail with \<^verbatim>\<open>bad_alloc\<close> and otherwise returns the address of
  no live object), the clock readings, and the scripts of the timer callbacks, that is, the calls a
  callback makes on the same queue. The timer descriptor is represented by the clock reading and
  the value of the last \<^verbatim>\<open>timerfd_settime\<close>.
\<close>

section \<open>Timers\<close>

record Timer =
  callback :: nat
  expiration :: int
  interval :: int
  repeat :: bool
  sequence :: int

definition Timer_restart :: "int \<Rightarrow> Timer \<Rightarrow> Timer" where
  "Timer_restart now t = (if repeat t then t\<lparr>expiration := now + interval t\<rparr> else t\<lparr>expiration := 0\<rparr>)"

record TimerQueue =
  tq_threadId :: int
  timers :: "(int \<times> nat) list"
  activeTimers :: "(nat \<times> int) set"
  callingExpiredTimers :: bool
  cancelingTimers :: "(nat \<times> int) set"
  theap :: "nat \<rightharpoonup> Timer"
  numCreated :: int
  timerfd :: "(int \<times> int \<times> int) option"

definition new_TimerQueue :: "int \<Rightarrow> int \<Rightarrow> TimerQueue" where
  "new_TimerQueue threadId created = \<lparr>tq_threadId = threadId, timers = [], activeTimers = {},
     callingExpiredTimers = False, cancelingTimers = {}, theap = Map.empty, numCreated = created, timerfd = None\<rparr>"

text \<open>\<^verbatim>\<open>new Timer(cb, when, interval)\<close>.\<close>

definition new_Timer ::
  "((nat \<rightharpoonup> Timer) \<Rightarrow> nat option) \<Rightarrow> nat \<Rightarrow> int \<Rightarrow> bool \<Rightarrow> int \<Rightarrow> TimerQueue \<Rightarrow> (nat \<times> TimerQueue) outcome" where
  "new_Timer alloc cb when positive micros q =
     (case alloc (theap q) of
        None \<Rightarrow> Abort (Throw ''bad_alloc'')
      | Some p \<Rightarrow>
          let n = numCreated q + 1 in
          Ret (p, q\<lparr>theap := (theap q)(p \<mapsto> \<lparr>callback = cb, expiration = when, interval = micros,
                      repeat = positive, sequence = n\<rparr>), numCreated := n\<rparr>))"

section \<open>The queue\<close>

definition UINTPTR_MAX :: nat where
  "UINTPTR_MAX = 2 ^ 64 - 1"

definition howMuchTimeFromNow :: "int \<Rightarrow> int \<Rightarrow> int \<times> int" where
  "howMuchTimeFromNow now when =
     (let microseconds = when - now;
          microseconds = (if microseconds < 100 then 100 else microseconds)
      in (microseconds div kMicroSecondsPerSecond, (microseconds mod kMicroSecondsPerSecond) * 1000))"

definition resetTimerfd :: "int \<Rightarrow> int \<Rightarrow> TimerQueue \<Rightarrow> TimerQueue" where
  "resetTimerfd clock when q = q\<lparr>timerfd := Some (clock, howMuchTimeFromNow clock when)\<rparr>"

definition deref :: "TimerQueue \<Rightarrow> nat \<Rightarrow> (Timer \<Rightarrow> 'a outcome) \<Rightarrow> 'a outcome" where
  "deref q p k = (case theap q p of None \<Rightarrow> Abort (Undefined ''dangling Timer'') | Some t \<Rightarrow> k t)"

definition sizes_agree :: "TimerQueue \<Rightarrow> bool" where
  "sizes_agree q \<longleftrightarrow> length (timers q) = card (activeTimers q)"

definition tq_insert :: "int \<Rightarrow> nat \<Rightarrow> TimerQueue \<Rightarrow> (bool \<times> TimerQueue) outcome" where
  "tq_insert tid p q =
     assertInLoopThread tid (tq_threadId q)
     (require (sizes_agree q) ''timers_.size() == activeTimers_.size()''
     (deref q p (\<lambda>t.
        let when = expiration t;
            earliestChanged = (timers q = [] \<or> when < fst (hd (timers q)))
        in require ((when, p) \<notin> set (timers q)) ''result.second''
          (require ((p, sequence t) \<notin> activeTimers q) ''result.second''
          (let q = q\<lparr>timers := insort (when, p) (timers q), activeTimers := insert (p, sequence t) (activeTimers q)\<rparr>
           in require (sizes_agree q) ''timers_.size() == activeTimers_.size()''
             (Ret (earliestChanged, q)))))))"

definition addTimerInLoop :: "int \<Rightarrow> int \<Rightarrow> nat \<Rightarrow> TimerQueue \<Rightarrow> TimerQueue outcome" where
  "addTimerInLoop tid clock p q =
     assertInLoopThread tid (tq_threadId q)
     (bindo (tq_insert tid p q) (\<lambda>(earliestChanged, q).
        if earliestChanged then deref q p (\<lambda>t. Ret (resetTimerfd clock (expiration t) q)) else Ret q))"

text \<open>\<^verbatim>\<open>addTimer\<close> and \<^verbatim>\<open>cancel\<close> hand the work to \<^verbatim>\<open>EventLoop::runInLoop\<close>, a parameter here; in the loop's
  thread it runs its argument at once.\<close>

definition addTimer ::
  "((TimerQueue \<Rightarrow> TimerQueue outcome) \<Rightarrow> TimerQueue \<Rightarrow> TimerQueue outcome) \<Rightarrow>
   ((nat \<rightharpoonup> Timer) \<Rightarrow> nat option) \<Rightarrow> int \<Rightarrow> int \<Rightarrow> nat \<Rightarrow> int \<Rightarrow> bool \<Rightarrow> int \<Rightarrow> TimerQueue \<Rightarrow>
   ((nat \<times> int) \<times> TimerQueue) outcome" where
  "addTimer runInLoop alloc tid clock cb when positive micros q =
     bindo (new_Timer alloc cb when positive micros q) (\<lambda>(p, q).
       bindo (runInLoop (addTimerInLoop tid clock p) q) (\<lambda>q.
         deref q p (\<lambda>t. Ret ((p, sequence t), q))))"

definition cancelInLoop :: "int \<Rightarrow> nat \<times> int \<Rightarrow> TimerQueue \<Rightarrow> TimerQueue outcome" where
  "cancelInLoop tid timer q =
     assertInLoopThread tid (tq_threadId q)
     (require (sizes_agree q) ''timers_.size() == activeTimers_.size()''
     (bindo
       (if timer \<in> activeTimers q then
          deref q (fst timer) (\<lambda>t.
            require ((expiration t, fst timer) \<in> set (timers q)) ''n == 1''
            (Ret (q\<lparr>timers := remove1 (expiration t, fst timer) (timers q),
                    theap := (theap q)(fst timer := None),
                    activeTimers := activeTimers q - {timer}\<rparr>)))
        else if callingExpiredTimers q then Ret (q\<lparr>cancelingTimers := insert timer (cancelingTimers q)\<rparr>)
        else Ret q)
       (\<lambda>q. require (sizes_agree q) ''timers_.size() == activeTimers_.size()'' (Ret q))))"

definition cancel ::
  "((TimerQueue \<Rightarrow> TimerQueue outcome) \<Rightarrow> TimerQueue \<Rightarrow> TimerQueue outcome) \<Rightarrow>
    int \<Rightarrow> nat \<times> int \<Rightarrow> TimerQueue \<Rightarrow> TimerQueue outcome" where
  "cancel runInLoop tid timerId q = runInLoop (cancelInLoop tid timerId) q"

text \<open>\<^verbatim>\<open>getExpired\<close>: the prefix before \<^verbatim>\<open>lower_bound(Entry(now, UINTPTR_MAX))\<close> is moved out.\<close>

definition erase_active :: "int \<times> nat \<Rightarrow> TimerQueue \<Rightarrow> TimerQueue outcome" where
  "erase_active e q =
     deref q (snd e) (\<lambda>t.
       require ((snd e, sequence t) \<in> activeTimers q) ''n == 1''
       (Ret (q\<lparr>activeTimers := activeTimers q - {(snd e, sequence t)}\<rparr>)))"

definition getExpired :: "int \<Rightarrow> TimerQueue \<Rightarrow> ((int \<times> nat) list \<times> TimerQueue) outcome" where
  "getExpired now q =
     require (sizes_agree q) ''timers_.size() == activeTimers_.size()''
     (let sentry = (now, UINTPTR_MAX);
          expired = takeWhile (\<lambda>e. e < sentry) (timers q);
          rest = dropWhile (\<lambda>e. e < sentry) (timers q)
      in require (rest = [] \<or> now < fst (hd rest)) ''end == timers_.end() || now < end->first''
        (bindo (foldo erase_active expired (q\<lparr>timers := rest\<rparr>)) (\<lambda>q.
           require (sizes_agree q) ''timers_.size() == activeTimers_.size()''
           (Ret (expired, q)))))"

definition reset_one :: "int \<Rightarrow> int \<Rightarrow> int \<times> nat \<Rightarrow> TimerQueue \<Rightarrow> TimerQueue outcome" where
  "reset_one tid now e q =
     deref q (snd e) (\<lambda>t.
       if repeat t \<and> (snd e, sequence t) \<notin> cancelingTimers q
       then bindo (tq_insert tid (snd e) (q\<lparr>theap := (theap q)(snd e \<mapsto> Timer_restart now t)\<rparr>)) (\<lambda>(b, q). Ret q)
       else Ret (q\<lparr>theap := (theap q)(snd e := None)\<rparr>))"

definition tq_reset :: "int \<Rightarrow> (int \<times> nat) list \<Rightarrow> int \<Rightarrow> int \<Rightarrow> TimerQueue \<Rightarrow> TimerQueue outcome" where
  "tq_reset tid expired now clock q =
     bindo (foldo (reset_one tid now) expired q) (\<lambda>q.
       bindo (if timers q = [] then Ret 0 else deref q (snd (hd (timers q))) (\<lambda>t. Ret (expiration t)))
         (\<lambda>nextExpire. Ret (if nextExpire > 0 then resetTimerfd clock nextExpire q else q)))"

text \<open>What a callback does to the queue: calls of \<^verbatim>\<open>addTimer\<close> and \<^verbatim>\<open>cancel\<close> in the loop's thread.\<close>

datatype tq_call = CallAdd nat int bool int int | CallCancel "nat \<times> int"

fun tq_exec :: "((nat \<rightharpoonup> Timer) \<Rightarrow> nat option) \<Rightarrow> int \<Rightarrow> tq_call \<Rightarrow> TimerQueue \<Rightarrow> TimerQueue outcome" where
  "tq_exec alloc tid (CallAdd cb when positive micros clock) q =
     bindo (addTimer (\<lambda>f. f) alloc tid clock cb when positive micros q) (\<lambda>(i, q). Ret q)"
| "tq_exec alloc tid (CallCancel timer) q = cancel (\<lambda>f. f) tid timer q"

definition run_timer ::
  "((nat \<rightharpoonup> Timer) \<Rightarrow> nat option) \<Rightarrow> int \<Rightarrow> (nat \<Rightarrow> tq_call list) \<Rightarrow> int \<times> nat \<Rightarrow> TimerQueue \<Rightarrow> TimerQueue outcome" where
  "run_timer alloc tid script e q = deref q (snd e) (\<lambda>t. foldo (tq_exec alloc tid) (script (callback t)) q)"

definition tq_handleRead ::
  "((nat \<rightharpoonup> Timer) \<Rightarrow> nat option) \<Rightarrow> int \<Rightarrow> (nat \<Rightarrow> tq_call list) \<Rightarrow> int \<Rightarrow> int \<Rightarrow> TimerQueue \<Rightarrow> TimerQueue outcome" where
  "tq_handleRead alloc tid script now clock q =
     assertInLoopThread tid (tq_threadId q)
     (bindo (getExpired now q) (\<lambda>(expired, q).
        bindo (foldo (run_timer alloc tid script) expired
                 (q\<lparr>callingExpiredTimers := True, cancelingTimers := {}\<rparr>)) (\<lambda>q.
          tq_reset tid expired now clock (q\<lparr>callingExpiredTimers := False\<rparr>))))"

text \<open>The loop of the destructor that deletes what is left in the queue.\<close>

definition delete_timers :: "TimerQueue \<Rightarrow> TimerQueue outcome" where
  "delete_timers q =
     foldo (\<lambda>e q. deref q (snd e) (\<lambda>t. Ret (q\<lparr>theap := (theap q)(snd e := None)\<rparr>))) (timers q) q"

section \<open>The invariant\<close>

text \<open>The operator \<^verbatim>\<open>new\<close> returns the address of no live object, below the sentinel address.\<close>

definition alloc_spec :: "((nat \<rightharpoonup> Timer) \<Rightarrow> nat option) \<Rightarrow> bool" where
  "alloc_spec alloc \<longleftrightarrow> (\<forall>h p. alloc h = Some p \<longrightarrow> h p = None \<and> p < UINTPTR_MAX)"

text \<open>\<open>E\<close> holds the timers that are alive outside the queue: just created, or expired and running.\<close>

definition queued :: "TimerQueue \<Rightarrow> nat set" where
  "queued q = snd ` set (timers q)"

definition entry_ok :: "TimerQueue \<Rightarrow> int \<times> nat \<Rightarrow> bool" where
  "entry_ok q e \<longleftrightarrow> 0 < fst e \<and> (\<exists>t. theap q (snd e) = Some t \<and> expiration t = fst e)"

definition timer_ok :: "TimerQueue \<Rightarrow> nat \<Rightarrow> Timer \<Rightarrow> bool" where
  "timer_ok q p t \<longleftrightarrow> p < UINTPTR_MAX \<and> sequence t \<le> numCreated q \<and> (repeat t \<longrightarrow> 0 \<le> interval t)"

definition active_id :: "TimerQueue \<Rightarrow> nat \<Rightarrow> nat \<times> int" where
  "active_id q p = (p, sequence (the (theap q p)))"

definition tq_inv :: "int \<Rightarrow> nat set \<Rightarrow> TimerQueue \<Rightarrow> bool" where
  "tq_inv tid E q \<longleftrightarrow> tq_threadId q = tid \<and> sorted (timers q) \<and> distinct (timers q) \<and>
     (\<forall>e\<in>set (timers q). entry_ok q e) \<and>
     activeTimers q = active_id q ` queued q \<and>
     dom (theap q) = E \<union> queued q \<and> E \<inter> queued q = {} \<and>
     (\<forall>p t. theap q p = Some t \<longrightarrow> timer_ok q p t)"

lemma tq_invD:
  assumes "tq_inv tid E q"
  shows "tq_threadId q = tid" "sorted (timers q)" "distinct (timers q)" "activeTimers q = active_id q ` queued q"
    "dom (theap q) = E \<union> queued q" "E \<inter> queued q = {}"
    and "e \<in> set (timers q) \<Longrightarrow> entry_ok q e" and "theap q p = Some t \<Longrightarrow> timer_ok q p t"
  using assms by (auto simp: tq_inv_def)

lemma tq_inj: "tq_inv tid E q \<Longrightarrow> inj_on snd (set (timers q))"
  by (rule inj_onI) (metis entry_ok_def option.inject prod.expand tq_invD(7))

lemma tq_sizes: "tq_inv tid E q \<Longrightarrow> sizes_agree q"
proof -
  assume inv: "tq_inv tid E q"
  have "inj_on (active_id q) (queued q)" by (auto simp: active_id_def inj_on_def)
  then have "card (activeTimers q) = card (queued q)" using tq_invD(4) [OF inv] by (simp add: card_image)
  also have "\<dots> = length (timers q)"
    using tq_invD(3) [OF inv] by (simp add: queued_def card_image [OF tq_inj [OF inv]] distinct_card)
  finally show ?thesis by (simp add: sizes_agree_def)
qed

lemma tq_new_inv: "tq_inv tid {} (new_TimerQueue tid n)"
  by (simp add: tq_inv_def new_TimerQueue_def queued_def)

text \<open>Inserting a live timer that is outside the queue.\<close>

lemma tq_insert_ok:
  assumes inv: "tq_inv tid E q" and p: "p \<in> E" and t: "theap q p = Some t" and pos: "0 < expiration t"
  shows "tq_insert tid p q = Ret (timers q = [] \<or> expiration t < fst (hd (timers q)),
      q\<lparr>timers := insort (expiration t, p) (timers q), activeTimers := insert (p, sequence t) (activeTimers q)\<rparr>)"
    and "tq_inv tid (E - {p}) (q\<lparr>timers := insort (expiration t, p) (timers q),
      activeTimers := insert (p, sequence t) (activeTimers q)\<rparr>)"
proof -
  let ?q = "q\<lparr>timers := insort (expiration t, p) (timers q), activeTimers := insert (p, sequence t) (activeTimers q)\<rparr>"
  note D = tq_invD [OF inv]
  have pq: "p \<notin> queued q" using p D(6) by auto
  then have fresh: "(expiration t, p) \<notin> set (timers q)" "(p, sequence t) \<notin> activeTimers q"
    using D(4) by (force simp: queued_def active_id_def)+
  have qd: "queued ?q = insert p (queued q)" by (auto simp: queued_def set_insort_key)
  have aid: "active_id ?q x = active_id q x" for x by (simp add: active_id_def)
  have "entry_ok ?q e" if "e \<in> set (timers ?q)" for e
    using that D(7) [of e] t pos by (auto simp: entry_ok_def set_insort_key)
  moreover have "timer_ok ?q x y" if "theap ?q x = Some y" for x y
    using that D(8) by (simp add: timer_ok_def)
  ultimately show inv': "tq_inv tid (E - {p}) ?q"
    using D(1-6) p pq fresh t unfolding tq_inv_def qd aid
    by (auto simp: sorted_insort distinct_insort active_id_def)
  show "tq_insert tid p q = Ret (timers q = [] \<or> expiration t < fst (hd (timers q)), ?q)"
    using tq_sizes [OF inv] tq_sizes [OF inv'] fresh t D(1) by (simp add: tq_insert_def deref_def Let_def)
qed

lemma tq_inv_frame [simp]:
  "tq_inv tid E (q\<lparr>timerfd := x\<rparr>) = tq_inv tid E q"
  "tq_inv tid E (q\<lparr>callingExpiredTimers := b\<rparr>) = tq_inv tid E q"
  "tq_inv tid E (q\<lparr>cancelingTimers := c\<rparr>) = tq_inv tid E q"
  by (simp_all add: tq_inv_def entry_ok_def timer_ok_def queued_def active_id_def [abs_def])

lemma tq_inv_new_Timer:
  assumes inv: "tq_inv tid E q" and p: "theap q p = None" "p < UINTPTR_MAX"
    and t: "sequence t = numCreated q + 1" "repeat t \<longrightarrow> 0 \<le> interval t"
  shows "tq_inv tid (insert p E) (q\<lparr>theap := (theap q)(p \<mapsto> t), numCreated := numCreated q + 1\<rparr>)"
proof -
  let ?q = "q\<lparr>theap := (theap q)(p \<mapsto> t), numCreated := numCreated q + 1\<rparr>"
  note D = tq_invD [OF inv]
  have pq: "p \<notin> queued q" "p \<notin> E" using p D(5) by auto
  have aid: "active_id ?q x = active_id q x" if "x \<in> queued q" for x
    using that pq by (auto simp: active_id_def)
  have qd: "queued ?q = queued q" by (simp add: queued_def)
  have "entry_ok ?q e" if "e \<in> set (timers ?q)" for e
  proof -
    have "snd e \<noteq> p" using that pq by (auto simp: queued_def)
    then show ?thesis using D(7) [of e] that by (simp add: entry_ok_def)
  qed
  moreover have "timer_ok ?q x y" if "theap ?q x = Some y" for x y
    using that D(8) [of x y] p t by (auto simp: timer_ok_def split: if_splits)
  moreover have "active_id ?q ` queued q = active_id q ` queued q" using aid by (intro image_cong) auto
  ultimately show ?thesis using D(1-6) pq unfolding tq_inv_def qd by auto
qed

lemma addTimer_ok:
  assumes inv: "tq_inv tid E q" and al: "alloc_spec alloc" and w: "0 < when" and i: "positive \<longrightarrow> 0 \<le> micros"
  shows "guarantees (\<lambda>((p, seq), q'). tq_inv tid E q' \<and> theap q p = None \<and> seq = numCreated q + 1 \<and>
      theap q' = (theap q)(p \<mapsto> \<lparr>callback = cb, expiration = when, interval = micros, repeat = positive, sequence = seq\<rparr>) \<and>
      timers q' = insort (when, p) (timers q) \<and> activeTimers q' = insert (p, seq) (activeTimers q) \<and>
      callingExpiredTimers q' = callingExpiredTimers q \<and> cancelingTimers q' = cancelingTimers q \<and>
      timerfd q' = (if timers q = [] \<or> when < fst (hd (timers q)) then Some (clock, howMuchTimeFromNow clock when)
        else timerfd q))
    (addTimer (\<lambda>f. f) alloc tid clock cb when positive micros q)"
proof (cases "alloc (theap q)")
  case None
  then show ?thesis by (simp add: addTimer_def new_Timer_def)
next
  case (Some p)
  then have p: "theap q p = None" "p < UINTPTR_MAX" using al by (auto simp: alloc_spec_def)
  let ?t = "\<lparr>callback = cb, expiration = when, interval = micros, repeat = positive, sequence = numCreated q + 1\<rparr>"
  let ?q1 = "q\<lparr>theap := (theap q)(p \<mapsto> ?t), numCreated := numCreated q + 1\<rparr>"
  let ?q2 = "?q1\<lparr>timers := insort (when, p) (timers q), activeTimers := insert (p, numCreated q + 1) (activeTimers q)\<rparr>"
  have inv1: "tq_inv tid (insert p E) ?q1" using tq_inv_new_Timer [OF inv p] i by simp
  have "p \<notin> E" using p tq_invD(5) [OF inv] by auto
  then have ins: "tq_insert tid p ?q1 = Ret (timers q = [] \<or> when < fst (hd (timers q)), ?q2)" "tq_inv tid E ?q2"
    using tq_insert_ok [OF inv1, of p ?t] w by simp_all
  show ?thesis using ins p Some tq_invD(1) [OF inv]
    by (auto simp: addTimer_def new_Timer_def addTimerInLoop_def deref_def resetTimerfd_def Let_def)
qed

lemma tq_inv_delete:
  assumes inv: "tq_inv tid E q" and p: "p \<in> queued q"
  shows "tq_inv tid E (q\<lparr>timers := filter (\<lambda>e. snd e \<noteq> p) (timers q), theap := (theap q)(p := None),
    activeTimers := activeTimers q - {active_id q p}\<rparr>)"
proof -
  let ?q = "q\<lparr>timers := filter (\<lambda>e. snd e \<noteq> p) (timers q), theap := (theap q)(p := None),
    activeTimers := activeTimers q - {active_id q p}\<rparr>"
  note D = tq_invD [OF inv]
  have qd: "queued ?q = queued q - {p}" by (auto simp: queued_def)
  have aid: "active_id ?q x = active_id q x" if "x \<noteq> p" for x using that by (simp add: active_id_def)
  have "active_id ?q ` (queued q - {p}) = active_id q ` (queued q - {p})" using aid by (intro image_cong) auto
  also have "\<dots> = activeTimers q - {active_id q p}" using D(4) by (auto simp: active_id_def)
  finally have act: "activeTimers ?q = active_id ?q ` queued ?q" unfolding qd by simp
  have "entry_ok ?q e" if "e \<in> set (timers ?q)" for e
    using D(7) [of e] that by (auto simp: entry_ok_def)
  moreover have "timer_ok ?q x y" if "theap ?q x = Some y" for x y
    using that D(8) [of x y] by (auto simp: timer_ok_def split: if_splits)
  ultimately show ?thesis using D(1-3,5,6) p act unfolding tq_inv_def qd by (auto intro: sorted_wrt_filter)
qed

lemma cancelInLoop_ok:
  assumes inv: "tq_inv tid E q"
  shows "\<exists>q'. cancelInLoop tid timer q = Ret q' \<and> tq_inv tid E q' \<and> timer \<notin> activeTimers q' \<and>
    (timer \<in> activeTimers q \<longrightarrow> q' = q\<lparr>timers := filter (\<lambda>e. snd e \<noteq> fst timer) (timers q),
        theap := (theap q)(fst timer := None), activeTimers := activeTimers q - {timer}\<rparr>) \<and>
    (timer \<notin> activeTimers q \<longrightarrow> q' = (if callingExpiredTimers q
        then q\<lparr>cancelingTimers := insert timer (cancelingTimers q)\<rparr> else q))"
proof (cases "timer \<in> activeTimers q")
  case True
  let ?p = "fst timer"
  from True have tm: "timer = active_id q ?p" "?p \<in> queued q"
    using tq_invD(4) [OF inv] by (auto simp: active_id_def)
  then obtain w where w: "(w, ?p) \<in> set (timers q)" by (auto simp: queued_def)
  then obtain t where t: "theap q ?p = Some t" "expiration t = w"
    using tq_invD(7) [OF inv] by (fastforce simp: entry_ok_def)
  have "remove1 (w, ?p) (timers q) = filter (\<lambda>e. snd e \<noteq> ?p) (timers q)"
    unfolding distinct_remove1_removeAll [OF tq_invD(3) [OF inv]] removeAll_filter_not_eq
  proof (rule filter_cong [OF refl])
    fix e assume "e \<in> set (timers q)"
    then show "((w, ?p) \<noteq> e) = (snd e \<noteq> ?p)" using inj_onD [OF tq_inj [OF inv], of e "(w, ?p)"] w by auto
  qed
  moreover have "tq_inv tid E (q\<lparr>timers := filter (\<lambda>e. snd e \<noteq> ?p) (timers q), theap := (theap q)(?p := None),
      activeTimers := activeTimers q - {timer}\<rparr>)"
    using tq_inv_delete [OF inv tm(2)] tm(1) by simp
  ultimately show ?thesis
    using True t w tq_sizes [OF inv] tq_invD(1) [OF inv] tq_sizes
    by (simp add: cancelInLoop_def deref_def)
next
  case False
  then show ?thesis using inv tq_sizes [OF inv] tq_invD(1) [OF inv]
    by (simp add: cancelInLoop_def sizes_agree_def)
qed

section \<open>Expiry\<close>

lemma erase_active_foldo:
  assumes "distinct (map snd es)" and "\<And>e. e \<in> set es \<Longrightarrow> \<exists>t. theap q (snd e) = Some t \<and> (snd e, sequence t) \<in> activeTimers q"
  shows "foldo erase_active es q = Ret (q\<lparr>activeTimers := activeTimers q - active_id q ` snd ` set es\<rparr>)"
  using assms
proof (induction es arbitrary: q)
  case (Cons e es)
  obtain t where t: "theap q (snd e) = Some t" "(snd e, sequence t) \<in> activeTimers q"
    using Cons.prems(2) [of e] by auto
  let ?q = "q\<lparr>activeTimers := activeTimers q - {(snd e, sequence t)}\<rparr>"
  have "foldo erase_active es ?q = Ret (?q\<lparr>activeTimers := activeTimers ?q - active_id ?q ` snd ` set es\<rparr>)"
  proof (rule Cons.IH)
    fix e' assume e': "e' \<in> set es"
    have "snd e \<notin> snd ` set es" using Cons.prems(1) by simp
    then have "snd e' \<noteq> snd e" using e' by (metis imageI)
    then show "\<exists>t. theap ?q (snd e') = Some t \<and> (snd e', sequence t) \<in> activeTimers ?q"
      using Cons.prems(2) [of e'] e' by auto
  qed (use Cons.prems in simp)
  moreover have "active_id ?q = active_id q" by (simp add: active_id_def [abs_def])
  moreover have "active_id q (snd e) = (snd e, sequence t)" using t by (simp add: active_id_def)
  moreover have "activeTimers q - {(snd e, sequence t)} - X = activeTimers q - insert (snd e, sequence t) X" for X
    by auto
  moreover have "erase_active e q = Ret ?q" using t by (simp add: erase_active_def deref_def)
  ultimately show ?case by simp
qed simp

lemma tq_inv_expire:
  assumes inv: "tq_inv tid E q"
  shows "tq_inv tid (E \<union> snd ` set (filter P (timers q)))
    (q\<lparr>timers := filter (\<lambda>e. \<not> P e) (timers q), activeTimers := activeTimers q - active_id q ` snd ` set (filter P (timers q))\<rparr>)"
    (is "tq_inv tid ?E ?q")
proof -
  note D = tq_invD [OF inv]
  have qd: "queued ?q = queued q - snd ` set (filter P (timers q))"
    using tq_inj [OF inv] by (auto simp: queued_def inj_on_def)
  have sub: "snd ` set (filter P (timers q)) \<subseteq> queued q" by (auto simp: queued_def)
  have aid: "active_id ?q = active_id q" by (simp add: active_id_def [abs_def])
  have "activeTimers ?q = active_id q ` (queued q - snd ` set (filter P (timers q)))"
    using D(4) by (auto simp: active_id_def)
  moreover have "entry_ok ?q e" if "e \<in> set (timers ?q)" for e
    using D(7) [of e] that by (auto simp: entry_ok_def)
  moreover have "timer_ok ?q x y" if "theap ?q x = Some y" for x y
    using that D(8) [of x y] by (auto simp: timer_ok_def)
  ultimately show ?thesis using D(1-3,5,6) sub unfolding tq_inv_def qd aid
    by (auto intro: sorted_wrt_filter)
qed

lemma getExpired_ok:
  fixes now :: int
  assumes inv: "tq_inv tid E q"
  defines "es \<equiv> filter (\<lambda>e. fst e \<le> now) (timers q)"
  shows "\<exists>q'. getExpired now q = Ret (es, q') \<and> tq_inv tid (E \<union> snd ` set es) q' \<and>
    q' = q\<lparr>timers := filter (\<lambda>e. now < fst e) (timers q), activeTimers := activeTimers q - active_id q ` snd ` set es\<rparr>"
proof -
  note D = tq_invD [OF inv]
  let ?P = "\<lambda>e. e < (now, UINTPTR_MAX)"
  have P: "?P e \<longleftrightarrow> fst e \<le> now" if e: "e \<in> set (timers q)" for e
  proof -
    obtain t where "theap q (snd e) = Some t" using D(7) [OF e] by (auto simp: entry_ok_def)
    then have "snd e < UINTPTR_MAX" using D(8) by (auto simp: timer_ok_def)
    then show ?thesis by (cases e) auto
  qed
  have tw: "takeWhile ?P (timers q) = es" "dropWhile ?P (timers q) = filter (\<lambda>e. now < fst e) (timers q)"
    using takeWhile_sorted [OF D(2), of ?P] P by (auto simp: es_def not_le intro!: filter_cong)
  let ?q' = "q\<lparr>timers := filter (\<lambda>e. now < fst e) (timers q), activeTimers := activeTimers q - active_id q ` snd ` set es\<rparr>"
  have inv': "tq_inv tid (E \<union> snd ` set es) ?q'"
    using tq_inv_expire [OF inv, of "\<lambda>e. fst e \<le> now"] by (simp add: es_def not_le)
  have "foldo erase_active es (q\<lparr>timers := filter (\<lambda>e. now < fst e) (timers q)\<rparr>) = Ret ?q'"
  proof (subst erase_active_foldo)
    show "distinct (map snd es)"
      using tq_inj [OF inv] D(3) by (auto simp: es_def distinct_map inj_on_def)
    show "\<exists>t. theap (q\<lparr>timers := filter (\<lambda>e. now < fst e) (timers q)\<rparr>) (snd e) = Some t \<and>
        (snd e, sequence t) \<in> activeTimers (q\<lparr>timers := filter (\<lambda>e. now < fst e) (timers q)\<rparr>)" if "e \<in> set es" for e
    proof -
      have e: "e \<in> set (timers q)" using that by (auto simp: es_def)
      then obtain t where "theap q (snd e) = Some t" using D(7) [OF e] by (auto simp: entry_ok_def)
      then show ?thesis using D(4) e by (auto simp: active_id_def queued_def image_iff intro!: bexI [of _ e])
    qed
  qed (simp add: active_id_def [abs_def])
  moreover have "filter (\<lambda>e. now < fst e) (timers q) = [] \<or> now < fst (hd (filter (\<lambda>e. now < fst e) (timers q)))"
    using hd_in_set [of "filter (\<lambda>e. now < fst e) (timers q)"] by auto
  ultimately have "getExpired now q = Ret (es, ?q')"
    unfolding getExpired_def Let_def tw using tq_sizes [OF inv] tq_sizes [OF inv']
    by (simp del: filter_empty_conv filter_False add: require_def)
  with inv' show ?thesis by blast
qed

section \<open>Running callbacks\<close>

text \<open>What the calls of a callback are allowed to ask for, and what they cannot disturb: the timers
  outside the queue, and the queued ones nobody cancels.\<close>

fun call_sane :: "tq_call \<Rightarrow> bool" where
  "call_sane (CallAdd cb when positive micros clock) = (0 < when \<and> (positive \<longrightarrow> 0 \<le> micros))"
| "call_sane (CallCancel timer) = True"

definition while_calling :: "int \<Rightarrow> nat set \<Rightarrow> (nat \<Rightarrow> Timer option) \<Rightarrow> (nat \<times> int) set \<Rightarrow> TimerQueue \<Rightarrow> bool" where
  "while_calling tid E h keep q \<longleftrightarrow> tq_inv tid E q \<and> callingExpiredTimers q \<and> (\<forall>p\<in>E. theap q p = h p) \<and>
     keep \<subseteq> activeTimers q \<and> (\<forall>i\<in>keep. theap q (fst i) = h (fst i))"

lemma active_owner:
  assumes "tq_inv tid E q" and "i \<in> activeTimers q"
  shows "fst i \<in> queued q" "fst i \<notin> E" "theap q (fst i) \<noteq> None" "i = active_id q (fst i)"
proof -
  have i: "fst i \<in> queued q" "i = active_id q (fst i)"
    using assms(2) tq_invD(4) [OF assms(1)] by (auto simp: active_id_def)
  then show "fst i \<in> queued q" "fst i \<notin> E" "theap q (fst i) \<noteq> None" "i = active_id q (fst i)"
    using tq_invD(5,6) [OF assms(1)] by auto
qed

lemma tq_add_calling:
  assumes wc: "while_calling tid E h keep q" and al: "alloc_spec alloc" and w: "0 < w" "positive \<longrightarrow> 0 \<le> micros"
  shows "guarantees (\<lambda>r. while_calling tid E h keep (snd r)) (addTimer (\<lambda>f. f) alloc tid clock cb w positive micros q)"
proof (cases "addTimer (\<lambda>f. f) alloc tid clock cb w positive micros q")
  case (Abort e)
  then show ?thesis using addTimer_ok [OF _ al w, of tid E q cb clock] wc by (simp add: while_calling_def)
next
  case (Ret r)
  have inv: "tq_inv tid E q" and ka: "keep \<subseteq> activeTimers q" using wc by (auto simp: while_calling_def)
  obtain p seq q' where rp: "r = ((p, seq), q')" by (metis prod.collapse)
  then have q': "tq_inv tid E q'" "theap q p = None" "activeTimers q' = insert (p, seq) (activeTimers q)"
    "callingExpiredTimers q' = callingExpiredTimers q" "\<And>x. x \<noteq> p \<Longrightarrow> theap q' x = theap q x"
    using addTimer_ok [OF inv al w, of cb clock] Ret by auto
  have "x \<noteq> p" if "x \<in> E" for x using that q'(2) tq_invD(5) [OF inv] by auto
  moreover have "fst i \<noteq> p" if "i \<in> keep" for i using active_owner(3) [OF inv, of i] ka that q'(2) by auto
  ultimately show ?thesis using q' wc Ret rp unfolding while_calling_def by auto
qed

lemma tq_cancel_calling:
  assumes wc: "while_calling tid E h keep q" and nk: "timer \<notin> keep"
  shows "guarantees (while_calling tid E h keep) (cancelInLoop tid timer q)"
proof -
  have inv: "tq_inv tid E q" and calling: "callingExpiredTimers q" and ka: "keep \<subseteq> activeTimers q" using wc by (auto simp: while_calling_def)
  obtain q' where q': "cancelInLoop tid timer q = Ret q'" "tq_inv tid E q'"
    "timer \<in> activeTimers q \<longrightarrow> q' = q\<lparr>timers := filter (\<lambda>e. snd e \<noteq> fst timer) (timers q),
        theap := (theap q)(fst timer := None), activeTimers := activeTimers q - {timer}\<rparr>"
    "timer \<notin> activeTimers q \<longrightarrow> q' = (if callingExpiredTimers q
        then q\<lparr>cancelingTimers := insert timer (cancelingTimers q)\<rparr> else q)"
    using cancelInLoop_ok [OF inv, of timer] by blast
  have "while_calling tid E h keep q'"
  proof (cases "timer \<in> activeTimers q")
    case True
    have "x \<noteq> fst timer" if "x \<in> E" for x using active_owner(2) [OF inv True] that by auto
    moreover have "fst i \<noteq> fst timer" if "i \<in> keep" for i
      using active_owner(4) [OF inv True] active_owner(4) [OF inv, of i] ka that nk by auto
    ultimately show ?thesis using True q' wc nk unfolding while_calling_def by auto
  next
    case False
    then show ?thesis using wc q' calling by (simp add: while_calling_def)
  qed
  then show ?thesis using q' by simp
qed

lemma tq_exec_ok:
  assumes "while_calling tid E h keep q" and "alloc_spec alloc" and "call_sane x"
    and "\<And>i. x = CallCancel i \<Longrightarrow> i \<notin> keep"
  shows "guarantees (while_calling tid E h keep) (tq_exec alloc tid x q)"
proof (cases x)
  case (CallAdd cb w positive micros clock)
  with assms(3) tq_add_calling [OF assms(1,2), of w positive micros clock cb] show ?thesis
    by (cases "addTimer (\<lambda>f. f) alloc tid clock cb w positive micros q") auto
next
  case (CallCancel timer)
  with tq_cancel_calling [OF assms(1) assms(4) [OF CallCancel]] show ?thesis by (simp add: cancel_def)
qed

lemma run_timers_ok:
  assumes "while_calling tid E h keep q" and al: "alloc_spec alloc" and sub: "snd ` set es \<subseteq> E"
    and sane: "\<And>cb x. x \<in> set (script cb) \<Longrightarrow> call_sane x"
    and nk: "\<And>cb i. CallCancel i \<in> set (script cb) \<Longrightarrow> i \<notin> keep"
  shows "guarantees (while_calling tid E h keep) (foldo (run_timer alloc tid script) es q)"
proof (rule guarantees_foldo [where P = "while_calling tid E h keep", OF assms(1)])
  fix e q assume e: "e \<in> set es" and wc: "while_calling tid E h keep q"
  have "snd e \<in> dom (theap q)"
    using sub e tq_invD(5) [of tid E q] wc by (auto simp: while_calling_def)
  then obtain t where t: "theap q (snd e) = Some t" by auto
  have "guarantees (while_calling tid E h keep) (foldo (tq_exec alloc tid) (script (callback t)) q)"
  proof (rule guarantees_foldo [where P = "while_calling tid E h keep", OF wc])
    fix x q' assume x: "x \<in> set (script (callback t))" and "while_calling tid E h keep q'"
    then show "guarantees (while_calling tid E h keep) (tq_exec alloc tid x q')"
      by (intro tq_exec_ok al sane [OF x]) (use nk x in auto)
  qed
  then show "guarantees (while_calling tid E h keep) (run_timer alloc tid script e q)"
    using t by (simp add: run_timer_def deref_def)
qed

section \<open>Resetting expired timers\<close>

lemma tq_inv_change:
  assumes inv: "tq_inv tid E q" and p: "p \<in> E"
  shows "timer_ok q p t \<Longrightarrow> tq_inv tid E (q\<lparr>theap := (theap q)(p \<mapsto> t)\<rparr>)"
    and "tq_inv tid (E - {p}) (q\<lparr>theap := (theap q)(p := None)\<rparr>)"
proof -
  note D = tq_invD [OF inv]
  have pq: "p \<notin> queued q" using p D(6) by auto
  have ent: "entry_ok (q\<lparr>theap := (theap q)(p := v)\<rparr>) e" if "e \<in> set (timers q)" for e v
  proof -
    have "snd e \<noteq> p" using that pq by (auto simp: queued_def)
    then show ?thesis using D(7) [OF that] by (simp add: entry_ok_def)
  qed
  have act: "active_id (q\<lparr>theap := (theap q)(p := v)\<rparr>) ` queued q = active_id q ` queued q" for v
    using pq by (intro image_cong) (auto simp: active_id_def)
  have qd: "queued (q\<lparr>theap := v\<rparr>) = queued q" for v by (simp add: queued_def)
  have tok: "timer_ok (q\<lparr>theap := v\<rparr>) = timer_ok q" for v by (simp add: timer_ok_def [abs_def])
  show "timer_ok q p t \<Longrightarrow> tq_inv tid E (q\<lparr>theap := (theap q)(p \<mapsto> t)\<rparr>)"
    using D(1-6) ent D(8) p pq unfolding tq_inv_def qd act tok by (auto split: if_splits)
  show "tq_inv tid (E - {p}) (q\<lparr>theap := (theap q)(p := None)\<rparr>)"
    using D(1-6) ent D(8) p pq unfolding tq_inv_def qd act tok by (auto split: if_splits)
qed

definition restarts :: "TimerQueue \<Rightarrow> nat \<Rightarrow> bool" where
  "restarts q p \<longleftrightarrow> repeat (the (theap q p)) \<and> active_id q p \<notin> cancelingTimers q"

definition after_reset :: "int \<Rightarrow> TimerQueue \<Rightarrow> nat \<Rightarrow> Timer option" where
  "after_reset now q p = (if restarts q p then Some (Timer_restart now (the (theap q p))) else None)"

lemma reset_one_ok:
  assumes inv: "tq_inv tid E q" and p: "snd e \<in> E" and now: "0 < now"
  shows "\<exists>q'. reset_one tid now e q = Ret q' \<and> tq_inv tid (E - {snd e}) q' \<and>
    theap q' = (theap q)(snd e := after_reset now q (snd e)) \<and> cancelingTimers q' = cancelingTimers q \<and>
    callingExpiredTimers q' = callingExpiredTimers q"
proof -
  obtain t where t: "theap q (snd e) = Some t" using tq_invD(5) [OF inv] p by blast
  have tok: "timer_ok q (snd e) t" using tq_invD(8) [OF inv t] .
  show ?thesis
  proof (cases "restarts q (snd e)")
    case True
    then have rep: "repeat t" "(snd e, sequence t) \<notin> cancelingTimers q"
      using t by (auto simp: restarts_def active_id_def)
    let ?t = "Timer_restart now t"
    let ?q = "q\<lparr>theap := (theap q)(snd e \<mapsto> ?t)\<rparr>"
    have inv1: "tq_inv tid E ?q"
      using rep tok by (intro tq_inv_change(1) [OF inv p]) (simp add: timer_ok_def Timer_restart_def)
    have pos: "0 < expiration ?t" using rep tok now by (simp add: Timer_restart_def timer_ok_def)
    note ins = tq_insert_ok [OF inv1 p _ pos]
    show ?thesis using ins t rep True
      by (simp add: reset_one_def deref_def after_reset_def)
  next
    case False
    then show ?thesis using t tq_inv_change(2) [OF inv p]
      by (auto simp: reset_one_def deref_def after_reset_def restarts_def active_id_def)
  qed
qed

lemma reset_all_ok:
  assumes "tq_inv tid (snd ` set es) q" and "distinct (map snd es)" and now: "0 < now"
  shows "\<exists>q'. foldo (reset_one tid now) es q = Ret q' \<and> tq_inv tid {} q' \<and>
    (\<forall>p. theap q' p = (if p \<in> snd ` set es then after_reset now q p else theap q p)) \<and>
    cancelingTimers q' = cancelingTimers q \<and> callingExpiredTimers q' = callingExpiredTimers q"
  using assms(1,2)
proof (induction es arbitrary: q)
  case (Cons e es)
  from reset_one_ok [OF Cons.prems(1) _ now, of e] obtain q1 where
    q1: "reset_one tid now e q = Ret q1" "tq_inv tid (snd ` set (e # es) - {snd e}) q1"
      "theap q1 = (theap q)(snd e := after_reset now q (snd e))" "cancelingTimers q1 = cancelingTimers q"
      "callingExpiredTimers q1 = callingExpiredTimers q"
    by auto
  have ne: "snd e \<notin> snd ` set es" using Cons.prems(2) by simp
  then have "snd ` set (e # es) - {snd e} = snd ` set es" by auto
  with q1(2) obtain q' where q': "foldo (reset_one tid now) es q1 = Ret q'" "tq_inv tid {} q'"
    "\<forall>p. theap q' p = (if p \<in> snd ` set es then after_reset now q1 p else theap q1 p)"
    "cancelingTimers q' = cancelingTimers q1" "callingExpiredTimers q' = callingExpiredTimers q1"
    using Cons.IH [of q1] Cons.prems(2) by auto
  have "after_reset now q1 p = after_reset now q p" if "p \<noteq> snd e" for p
    using that q1(3,4) by (simp add: after_reset_def restarts_def active_id_def)
  then have "theap q' p = (if p \<in> snd ` set (e # es) then after_reset now q p else theap q p)" for p
    using q'(3) q1(3) ne by (cases "p = snd e") auto
  with q' q1 show ?case by simp
qed simp

section \<open>Arming the timer descriptor\<close>

text \<open>The time, in microseconds, at which the descriptor fires, and that this is no later than the
  earliest expiration (or the minimal delay of 100 microseconds after arming).\<close>

definition fires_at :: "int \<times> int \<times> int \<Rightarrow> int" where
  "fires_at x = (case x of (c, s, n) \<Rightarrow> c + s * 1000000 + n div 1000)"

definition armed_ok :: "TimerQueue \<Rightarrow> bool" where
  "armed_ok q \<longleftrightarrow> timers q = [] \<or>
     (case timerfd q of None \<Rightarrow> False | Some x \<Rightarrow> fires_at x \<le> max (fst (hd (timers q))) (fst x + 100))"

lemma fires_at_howMuch: "fires_at (c, howMuchTimeFromNow c w) = max w (c + 100)"
proof -
  have "m div 1000000 * 1000000 + (m mod 1000000) * 1000 div 1000 = m" for m :: int by simp
  then show ?thesis by (simp add: fires_at_def howMuchTimeFromNow_def kMicroSecondsPerSecond_def Let_def)
qed

lemma armed_reset: "fst (hd (timers q)) = w \<Longrightarrow> armed_ok (resetTimerfd c w q)"
  by (simp add: armed_ok_def resetTimerfd_def fires_at_howMuch)

lemma fst_hd_insort:
  assumes "xs \<noteq> []" and "sorted xs"
  shows "fst (hd (insort (w, p) xs)) = (if w < fst (hd xs) then w else fst (hd xs))"
  using assms by (cases xs) (auto simp: less_eq_prod_def split: if_splits)

lemma fst_hd_filter:
  fixes xs :: "(int \<times> nat) list"
  assumes "sorted xs" and "filter P xs \<noteq> []"
  shows "fst (hd xs) \<le> fst (hd (filter P xs))"
proof (cases xs)
  case (Cons x ys)
  have "hd (filter P xs) \<in> set xs" using hd_in_set [OF assms(2)] by simp
  then have "x \<le> hd (filter P xs)" using assms(1) Cons by auto
  then show ?thesis using Cons by (auto simp: less_eq_prod_def)
qed (use assms in simp)

section \<open>The event handler\<close>

lemma timers_of_heap:
  assumes "tq_inv tid {} q"
  shows "(w, p) \<in> set (timers q) \<longleftrightarrow> (\<exists>t. theap q p = Some t \<and> expiration t = w)"
proof
  assume "(w, p) \<in> set (timers q)"
  from tq_invD(7) [OF assms this] show "\<exists>t. theap q p = Some t \<and> expiration t = w" by (simp add: entry_ok_def)
next
  assume "\<exists>t. theap q p = Some t \<and> expiration t = w"
  then obtain t where t: "theap q p = Some t" "expiration t = w" by auto
  then have "p \<in> queued q" using tq_invD(5) [OF assms] by auto
  then obtain w' where w': "(w', p) \<in> set (timers q)" by (auto simp: queued_def)
  from tq_invD(7) [OF assms w'] t have "w' = w" by (simp add: entry_ok_def)
  with w' show "(w, p) \<in> set (timers q)" by simp
qed

lemma active_of_heap:
  assumes "tq_inv tid {} q" and "theap q p = Some t"
  shows "(p, sequence t) \<in> activeTimers q"
  using tq_invD(4,5) [OF assms(1)] assms(2) by (force simp: active_id_def)

text \<open>What one run of the handler does to the timers that were in the queue.\<close>

definition handled :: "int \<Rightarrow> (nat \<Rightarrow> tq_call list) \<Rightarrow> TimerQueue \<Rightarrow> TimerQueue \<Rightarrow> bool" where
  "handled now script q q' \<longleftrightarrow> (\<forall>p t. theap q p = Some t \<longrightarrow>
     (if expiration t \<le> now
      then theap q' p = (if repeat t \<and> (p, sequence t) \<notin> cancelingTimers q'
             then Some (t\<lparr>expiration := now + interval t\<rparr>) else None)
      else (\<forall>cb. CallCancel (p, sequence t) \<notin> set (script cb)) \<longrightarrow> theap q' p = Some t))"

lemma tq_reset_ok:
  assumes inv: "tq_inv tid (snd ` set es) q" and "distinct (map snd es)" and "0 < now"
  shows "\<exists>q'. tq_reset tid es now clock q = Ret q' \<and> tq_inv tid {} q' \<and> armed_ok q' \<and>
    (\<forall>p. theap q' p = (if p \<in> snd ` set es then after_reset now q p else theap q p)) \<and>
    cancelingTimers q' = cancelingTimers q \<and> callingExpiredTimers q' = callingExpiredTimers q"
proof -
  obtain q1 where q1: "foldo (reset_one tid now) es q = Ret q1" "tq_inv tid {} q1"
    "\<forall>p. theap q1 p = (if p \<in> snd ` set es then after_reset now q p else theap q p)"
    "cancelingTimers q1 = cancelingTimers q" "callingExpiredTimers q1 = callingExpiredTimers q"
    using reset_all_ok [OF assms] by blast
  show ?thesis
  proof (cases "timers q1 = []")
    case True
    then show ?thesis using q1 by (simp add: tq_reset_def armed_ok_def)
  next
    case False
    obtain w p where wp: "hd (timers q1) = (w, p)" by fastforce
    then have "(w, p) \<in> set (timers q1)" using hd_in_set [OF False] by simp
    from tq_invD(7) [OF q1(2) this] obtain t where t: "theap q1 p = Some t" "expiration t = w" "0 < w"
      by (auto simp: entry_ok_def)
    have "tq_reset tid es now clock q = Ret (resetTimerfd clock w q1)"
      using False q1(1) t wp by (simp add: tq_reset_def deref_def)
    moreover have "armed_ok (resetTimerfd clock w q1)" using wp by (intro armed_reset) simp
    ultimately show ?thesis using q1 by (simp add: resetTimerfd_def)
  qed
qed

lemma expired_by_heap:
  assumes inv: "tq_inv tid {} q" and t: "theap q p = Some t"
  shows "p \<in> snd ` set (filter (\<lambda>e. fst e \<le> now) (timers q)) \<longleftrightarrow> expiration t \<le> now"
proof
  assume "p \<in> snd ` set (filter (\<lambda>e. fst e \<le> now) (timers q))"
  then obtain w where w: "(w, p) \<in> set (timers q)" "w \<le> now" by auto
  from timers_of_heap [OF inv, of w p] w t show "expiration t \<le> now" by auto
next
  assume le: "expiration t \<le> now"
  have "(expiration t, p) \<in> set (timers q)" using t timers_of_heap [OF inv] by blast
  with le have "(expiration t, p) \<in> set (filter (\<lambda>e. fst e \<le> now) (timers q))" by simp
  then show "p \<in> snd ` set (filter (\<lambda>e. fst e \<le> now) (timers q))" by (metis imageI snd_conv)
qed

text \<open>What the callbacks keep and what the reset does to the expired timers make up the effect of the event.\<close>

lemma handled_from_reset:
  fixes q :: TimerQueue and now :: int
  defines "E \<equiv> snd ` set (filter (\<lambda>e. fst e \<le> now) (timers q))"
  assumes inv: "tq_inv tid {} q"
    and wc: "while_calling tid E (theap q) {i \<in> activeTimers q - active_id q ` E. \<forall>cb. CallCancel i \<notin> set (script cb)} q3"
    and heap: "\<forall>p. theap q' p = (if p \<in> E then after_reset now (q3\<lparr>callingExpiredTimers := False\<rparr>) p else theap q3 p)"
    and canc: "cancelingTimers q' = cancelingTimers q3"
  shows "handled now script q q'"
  unfolding handled_def
proof (intro allI impI)
  fix p t assume t: "theap q p = Some t"
  note E = expired_by_heap [OF inv t, of now, folded E_def]
  show "if expiration t \<le> now
    then theap q' p = (if repeat t \<and> (p, sequence t) \<notin> cancelingTimers q'
           then Some (t\<lparr>expiration := now + interval t\<rparr>) else None)
    else (\<forall>cb. CallCancel (p, sequence t) \<notin> set (script cb)) \<longrightarrow> theap q' p = Some t"
  proof (cases "expiration t \<le> now")
    case True
    then have "theap q3 p = Some t" using wc E t unfolding while_calling_def by metis
    then show ?thesis using True E heap canc by (auto simp: after_reset_def restarts_def active_id_def Timer_restart_def)
  next
    case False
    have "(p, sequence t) \<in> activeTimers q - active_id q ` E" using active_of_heap [OF inv t] False E by (auto simp: active_id_def)
    then have "theap q3 (fst (p, sequence t)) = theap q (fst (p, sequence t))" if "\<forall>cb. CallCancel (p, sequence t) \<notin> set (script cb)"
      using wc that unfolding while_calling_def by blast
    then show ?thesis using False E heap t by simp
  qed
qed

lemma tq_handleRead_ok:
  assumes inv: "tq_inv tid {} q" and al: "alloc_spec alloc" and now: "0 < now"
    and sane: "\<And>cb x. x \<in> set (script cb) \<Longrightarrow> call_sane x"
  shows "guarantees (\<lambda>q'. tq_inv tid {} q' \<and> armed_ok q' \<and> \<not> callingExpiredTimers q' \<and> handled now script q q')
    (tq_handleRead alloc tid script now clock q)"
proof -
  let ?es = "filter (\<lambda>e. fst e \<le> now) (timers q)"
  let ?keep = "{i \<in> activeTimers q - active_id q ` snd ` set ?es. \<forall>cb. CallCancel i \<notin> set (script cb)}"
  obtain q1 where q1: "getExpired now q = Ret (?es, q1)" "tq_inv tid (snd ` set ?es) q1"
    "q1 = q\<lparr>timers := filter (\<lambda>e. now < fst e) (timers q), activeTimers := activeTimers q - active_id q ` snd ` set ?es\<rparr>"
    using getExpired_ok [OF inv, of now] by auto
  have dist: "distinct (map snd ?es)"
    using tq_inj [OF inv] tq_invD(3) [OF inv] by (auto simp: distinct_map inj_on_def)
  let ?q2 = "q1\<lparr>callingExpiredTimers := True, cancelingTimers := {}\<rparr>"
  have "while_calling tid (snd ` set ?es) (theap q) ?keep ?q2"
    using q1(2,3) by (auto simp: while_calling_def)
  from run_timers_ok [OF this al, of ?es script] sane
  have run: "guarantees (while_calling tid (snd ` set ?es) (theap q) ?keep) (foldo (run_timer alloc tid script) ?es ?q2)"
    by auto
  have fire: "tq_handleRead alloc tid script now clock q = bindo (foldo (run_timer alloc tid script) ?es ?q2)
      (\<lambda>q. tq_reset tid ?es now clock (q\<lparr>callingExpiredTimers := False\<rparr>))"
    using q1(1) tq_invD(1) [OF inv] by (simp add: tq_handleRead_def)
  show ?thesis
    unfolding fire
  proof (rule guarantees_bindo [OF run])
    fix q3 assume wc: "while_calling tid (snd ` set ?es) (theap q) ?keep q3"
    then have "tq_inv tid (snd ` set ?es) (q3\<lparr>callingExpiredTimers := False\<rparr>)" by (simp add: while_calling_def)
    from tq_reset_ok [OF this dist now, of clock] handled_from_reset [OF inv wc]
    show "guarantees (\<lambda>q'. tq_inv tid {} q' \<and> armed_ok q' \<and> \<not> callingExpiredTimers q' \<and> handled now script q q')
        (tq_reset tid ?es now clock (q3\<lparr>callingExpiredTimers := False\<rparr>))"
      by auto
  qed
qed

section \<open>Event sequences\<close>

datatype tq_event = Call tq_call | Fire int int "nat \<Rightarrow> tq_call list"

fun event_sane :: "tq_event \<Rightarrow> bool" where
  "event_sane (Call x) = call_sane x"
| "event_sane (Fire now clock script) = (0 < now \<and> (\<forall>cb. list_all call_sane (script cb)))"

fun tq_step :: "((nat \<rightharpoonup> Timer) \<Rightarrow> nat option) \<Rightarrow> int \<Rightarrow> tq_event \<Rightarrow> TimerQueue \<Rightarrow> TimerQueue outcome" where
  "tq_step alloc tid (Call x) q = tq_exec alloc tid x q"
| "tq_step alloc tid (Fire now clock script) q = tq_handleRead alloc tid script now clock q"

definition tq_idle :: "int \<Rightarrow> TimerQueue \<Rightarrow> bool" where
  "tq_idle tid q \<longleftrightarrow> tq_inv tid {} q \<and> armed_ok q \<and> \<not> callingExpiredTimers q"

text \<open>The head of the queue stays armed when a timer is added and when timers are removed.\<close>

lemma armed_added:
  assumes "tq_inv tid {} q" and armed: "armed_ok q" and q': "timers q' = insort (w, p) (timers q)"
    "timerfd q' = (if timers q = [] \<or> w < fst (hd (timers q)) then Some (clock, howMuchTimeFromNow clock w) else timerfd q)"
  shows "armed_ok q'"
proof (cases "timers q = [] \<or> w < fst (hd (timers q))")
  case True
  then have "fst (hd (timers q')) = w"
    using q'(1) fst_hd_insort [OF _ tq_invD(2) [OF assms(1)], of w p] by (cases "timers q = []") auto
  then show ?thesis using True q'(2) fires_at_howMuch [of clock w] by (simp add: armed_ok_def)
next
  case False
  then have "fst (hd (timers q')) = fst (hd (timers q))"
    using q'(1) fst_hd_insort [OF _ tq_invD(2) [OF assms(1)], of w p] by auto
  then show ?thesis using False q'(2) armed by (auto simp: armed_ok_def split: option.splits)
qed

lemma armed_filtered:
  assumes "tq_inv tid {} q" and armed: "armed_ok q" and q': "timers q' = filter P (timers q)" "timerfd q' = timerfd q"
  shows "armed_ok q'"
proof (cases "timers q' = []")
  case False
  then have "fst (hd (timers q)) \<le> fst (hd (timers q'))"
    using fst_hd_filter [OF tq_invD(2) [OF assms(1)]] q'(1) by metis
  moreover have "timers q \<noteq> []" using False q'(1) by auto
  ultimately show ?thesis using armed q'(2) by (auto simp: armed_ok_def split: option.splits)
qed (simp add: armed_ok_def)

lemma tq_exec_idle:
  assumes idle: "tq_idle tid q" and al: "alloc_spec alloc" and sane: "call_sane x"
  shows "guarantees (tq_idle tid) (tq_exec alloc tid x q)"
proof -
  have inv: "tq_inv tid {} q" and armed: "armed_ok q" and nc: "\<not> callingExpiredTimers q"
    using idle by (auto simp: tq_idle_def)
  show ?thesis
  proof (cases x)
    case (CallAdd cb w positive micros clock)
    have w: "0 < w" "positive \<longrightarrow> 0 \<le> micros" using sane CallAdd by auto
    note add = addTimer_ok [OF inv al w, of cb clock]
    show ?thesis
    proof (cases "addTimer (\<lambda>f. f) alloc tid clock cb w positive micros q")
      case (Abort e)
      then show ?thesis using add by (simp add: CallAdd)
    next
      case (Ret r)
      obtain p seq q' where rp: "r = ((p, seq), q')" by (metis prod.collapse)
      have q': "tq_inv tid {} q'" "\<not> callingExpiredTimers q'" "armed_ok q'"
        using add Ret rp nc armed_added [OF inv armed, of q' w p clock] by auto
      then show ?thesis by (simp add: CallAdd Ret rp tq_idle_def)
    qed
  next
    case (CallCancel timer)
    obtain q' where q': "cancelInLoop tid timer q = Ret q'" "tq_inv tid {} q'"
      "timer \<in> activeTimers q \<longrightarrow> q' = q\<lparr>timers := filter (\<lambda>e. snd e \<noteq> fst timer) (timers q),
          theap := (theap q)(fst timer := None), activeTimers := activeTimers q - {timer}\<rparr>"
      "timer \<notin> activeTimers q \<longrightarrow> q' = (if callingExpiredTimers q
          then q\<lparr>cancelingTimers := insert timer (cancelingTimers q)\<rparr> else q)"
      using cancelInLoop_ok [OF inv, of timer] by blast
    then have "armed_ok q' \<and> \<not> callingExpiredTimers q'"
      using armed nc armed_filtered [OF inv armed, of q' "\<lambda>e. snd e \<noteq> fst timer"] by (cases "timer \<in> activeTimers q") auto
    then show ?thesis using q' by (simp add: CallCancel cancel_def tq_idle_def)
  qed
qed

section \<open>Properties\<close>

text \<open>A first-fit allocator over a small arena, for the witnesses.\<close>

definition first_free :: "(nat \<rightharpoonup> Timer) \<Rightarrow> nat option" where
  "first_free h = find (\<lambda>p. h p = None) [0..<8]"

lemma first_free_spec: "alloc_spec first_free"
  by (auto simp: alloc_spec_def first_free_def find_Some_iff UINTPTR_MAX_def)




definition demo_queue :: TimerQueue where
  "demo_queue = (new_TimerQueue 1 2)\<lparr>timers := [(400, 1), (500, 0)], activeTimers := {(0, 1), (1, 2)},
     theap := [0 \<mapsto> \<lparr>callback = 0, expiration = 500, interval = 100, repeat = True, sequence = 1\<rparr>,
               1 \<mapsto> \<lparr>callback = 1, expiration = 400, interval = 0, repeat = False, sequence = 2\<rparr>],
     timerfd := Some (300, 0, 100000)\<rparr>"

lemma demo_queue_idle: "tq_idle 1 demo_queue"
  by (auto simp: tq_idle_def tq_inv_def demo_queue_def new_TimerQueue_def armed_ok_def fires_at_def
      queued_def entry_ok_def timer_ok_def active_id_def UINTPTR_MAX_def split: if_splits)


text \<open>GetExpired moves out exactly the entries whose time has come, in order of their
  expiration, leaves exactly the others, and removes the same timers from the active set.\<close>

theorem getExpired_exact:
  fixes now :: int
  assumes "tq_idle tid q"
  shows "\<exists>q'. getExpired now q = Ret (filter (\<lambda>e. fst e \<le> now) (timers q), q') \<and>
    timers q' = filter (\<lambda>e. now < fst e) (timers q) \<and> sorted (filter (\<lambda>e. fst e \<le> now) (timers q)) \<and>
    activeTimers q' = {(p, sequence t) | p t. theap q p = Some t \<and> now < expiration t}"
proof -
  have inv: "tq_inv tid {} q" using assms by (simp add: tq_idle_def)
  obtain q' where q': "getExpired now q = Ret (filter (\<lambda>e. fst e \<le> now) (timers q), q')"
    "q' = q\<lparr>timers := filter (\<lambda>e. now < fst e) (timers q),
      activeTimers := activeTimers q - active_id q ` snd ` set (filter (\<lambda>e. fst e \<le> now) (timers q))\<rparr>"
    "tq_inv tid (snd ` set (filter (\<lambda>e. fst e \<le> now) (timers q))) q'"
    using getExpired_ok [OF inv, of now] by auto
  have "activeTimers q' = active_id q' ` queued q'" using tq_invD(4) [OF q'(3)] .
  also have "\<dots> = {(p, sequence t) | p t. theap q p = Some t \<and> now < expiration t}"
  proof (rule set_eqI)
    fix i :: "nat \<times> int"
    have "i \<in> active_id q' ` queued q' \<longleftrightarrow>
        (\<exists>p w. (w, p) \<in> set (timers q) \<and> now < w \<and> i = (p, sequence (the (theap q p))))"
      by (auto simp: q'(2) queued_def active_id_def image_iff)
    also have "\<dots> \<longleftrightarrow> i \<in> {(p, sequence t) | p t. theap q p = Some t \<and> now < expiration t}"
      using timers_of_heap [OF inv] by fastforce
    finally show "i \<in> active_id q' ` queued q' \<longleftrightarrow>
      i \<in> {(p, sequence t) | p t. theap q p = Some t \<and> now < expiration t}" .
  qed
  finally show ?thesis using q' tq_invD(2) [OF inv] by (auto intro: sorted_wrt_filter)
qed

theorem getExpired_exact_witness:
  "\<exists>q'. getExpired 450 demo_queue = Ret ([(400, 1)], q') \<and> timers q' = [(500, 0)]"
  using getExpired_exact [OF demo_queue_idle, of 450] by (auto simp: demo_queue_def)

text \<open>Cancelling a timer that is queued removes it for good and deletes it, and an identifier whose
  timer is gone is recognised even when its address has been reused: the call then changes
  nothing.\<close>

theorem cancel_exact:
  assumes "tq_idle tid q" and "theap q p = Some t"
  shows "\<exists>q'. cancelInLoop tid (p, seq) q = Ret q' \<and> tq_inv tid {} q' \<and>
    (if sequence t = seq then theap q' = (theap q)(p := None) \<and> timers q' = filter (\<lambda>e. snd e \<noteq> p) (timers q)
     else q' = q)"
proof -
  have inv: "tq_inv tid {} q" and nc: "\<not> callingExpiredTimers q" using assms by (auto simp: tq_idle_def)
  have "(p, seq) \<in> activeTimers q \<longleftrightarrow> sequence t = seq"
    using active_of_heap [OF inv assms(2)] active_owner(4) [OF inv, of "(p, seq)"] assms(2)
    by (auto simp: active_id_def)
  with cancelInLoop_ok [OF inv, of "(p, seq)"] nc show ?thesis by auto
qed

theorem cancel_exact_witness:
  "cancelInLoop 1 (0, 7) demo_queue = Ret demo_queue"
  using cancel_exact [OF demo_queue_idle, of 0 "\<lparr>callback = 0, expiration = 500, interval = 100, repeat = True, sequence = 1\<rparr>" 7]
  by (auto simp: demo_queue_def)

text \<open>The relative time handed to timerfd_settime is always a valid timespec, is never zero (which
  would disarm the descriptor), and makes it fire at the expiration, or 100 microseconds from now
  when that is past or nearer.\<close>

theorem howMuchTimeFromNow_valid:
  "case howMuchTimeFromNow now w of (s, n) \<Rightarrow>
     0 \<le> s \<and> 0 \<le> n \<and> n \<le> 999999999 \<and> (s, n) \<noteq> (0, 0) \<and> fires_at (now, s, n) = max w (now + 100)"
proof -
  let ?m = "if w - now < 100 then 100 else w - now"
  have m: "100 \<le> ?m" by simp
  have "0 \<le> ?m div 1000000" "0 \<le> ?m mod 1000000 * 1000" "?m mod 1000000 * 1000 \<le> 999999999"
    using m pos_mod_bound [of 1000000 ?m] by (auto simp: div_int_pos_iff)
  moreover have "?m div 1000000 \<noteq> 0 \<or> ?m mod 1000000 * 1000 \<noteq> 0"
    using div_mult_mod_eq [of ?m 1000000] m by linarith
  ultimately show ?thesis
    using fires_at_howMuch [of now w] by (simp add: howMuchTimeFromNow_def kMicroSecondsPerSecond_def Let_def)
qed

end
