(* ===== verification/EventLoops.thy ===== *)
theory EventLoops
  imports TimerQueues
begin

text \<open>
  \<^verbatim>\<open>muduo/net/EventLoop.{h,cc}\<close>: the reactor, one per thread.

  The first part gives the operations as functions on the loop object. A functor is a number; what
  running it does to the loop is the parameter \<open>run\<close>, the poller and the channel dispatch are the
  parameters \<open>poll\<close> and \<open>handle\<close>. The event descriptor is its counter, which a read resets and a
  write cannot push beyond \<open>2 ^ 64 - 2\<close>.

  The second part is the concurrent system: the loop thread cycles through polling, handling
  active channels and running pending functors, other threads queue functors and call quit, and
  the two halves of their \<^verbatim>\<open>queueInLoop\<close> (push under the mutex, then write to the descriptor)
  interleave with it. Reachable states never lose a wakeup, and functors run once, in order.
\<close>

section \<open>The loop object\<close>

record EventLoop =
  looping :: bool
  quit :: bool
  el_eventHandling :: bool
  callingPendingFunctors :: bool
  iteration :: int
  threadId :: int
  wakeups :: nat
  activeChannels :: "nat list"
  currentActiveChannel :: "nat option"
  pendingFunctors :: "nat list"

definition kPollTimeMs :: int where
  "kPollTimeMs = 10000"

definition eventfd_max :: nat where
  "eventfd_max = 2 ^ 64 - 2"

text \<open>The constructor: \<open>another\<close> is whether the thread already has a loop, \<open>tid\<close> its id.\<close>

definition new_EventLoop :: "bool \<Rightarrow> int \<Rightarrow> EventLoop outcome" where
  "new_EventLoop another tid =
     (if another then Abort (Fatal ''Another EventLoop exists in this thread'')
      else Ret \<lparr>looping = False, quit = False, el_eventHandling = False, callingPendingFunctors = False,
        iteration = 0, threadId = tid, wakeups = 0, activeChannels = [], currentActiveChannel = None,
        pendingFunctors = []\<rparr>)"

definition isInLoopThread :: "int \<Rightarrow> EventLoop \<Rightarrow> bool" where
  "isInLoopThread tid l \<longleftrightarrow> threadId l = tid"

definition wakeup :: "EventLoop \<Rightarrow> EventLoop" where
  "wakeup l = (if wakeups l < eventfd_max then l\<lparr>wakeups := wakeups l + 1\<rparr> else l)"

definition el_handleRead :: "EventLoop \<Rightarrow> EventLoop" where
  "el_handleRead l = l\<lparr>wakeups := 0\<rparr>"

definition quit_loop :: "int \<Rightarrow> EventLoop \<Rightarrow> EventLoop" where
  "quit_loop tid l = (let l = l\<lparr>quit := True\<rparr> in if \<not> isInLoopThread tid l then wakeup l else l)"

definition queueInLoop :: "int \<Rightarrow> nat \<Rightarrow> EventLoop \<Rightarrow> EventLoop" where
  "queueInLoop tid cb l =
     (let l = l\<lparr>pendingFunctors := pendingFunctors l @ [cb]\<rparr>
      in if \<not> isInLoopThread tid l \<or> callingPendingFunctors l then wakeup l else l)"

definition runInLoop :: "(nat \<Rightarrow> EventLoop \<Rightarrow> EventLoop outcome) \<Rightarrow> int \<Rightarrow> nat \<Rightarrow> EventLoop \<Rightarrow> EventLoop outcome" where
  "runInLoop run tid cb l = (if isInLoopThread tid l then run cb l else Ret (queueInLoop tid cb l))"

definition queueSize :: "EventLoop \<Rightarrow> nat" where
  "queueSize l = length (pendingFunctors l)"

definition EventLoop_updateChannel ::
  "(nat \<Rightarrow> store \<times> 'p \<Rightarrow> (store \<times> 'p) outcome) \<Rightarrow> int \<Rightarrow> nat \<Rightarrow> EventLoop \<Rightarrow> store \<times> 'p \<Rightarrow> (store \<times> 'p) outcome" where
  "EventLoop_updateChannel poller_update tid c l s =
     assertInLoopThread tid (threadId l) (poller_update c s)"

definition EventLoop_removeChannel ::
  "(nat \<Rightarrow> store \<times> 'p \<Rightarrow> (store \<times> 'p) outcome) \<Rightarrow> int \<Rightarrow> nat \<Rightarrow> EventLoop \<Rightarrow> store \<times> 'p \<Rightarrow> (store \<times> 'p) outcome" where
  "EventLoop_removeChannel poller_remove tid c l s =
     assertInLoopThread tid (threadId l)
     (if el_eventHandling l
      then require (currentActiveChannel l = Some c \<or> c \<notin> set (activeChannels l))
        ''currentActiveChannel_ == channel || not in activeChannels_'' (poller_remove c s)
      else poller_remove c s)"

definition doPendingFunctors :: "(nat \<Rightarrow> EventLoop \<Rightarrow> EventLoop outcome) \<Rightarrow> EventLoop \<Rightarrow> EventLoop outcome" where
  "doPendingFunctors run l =
     (let functors = pendingFunctors l
      in bindo (foldo run functors (l\<lparr>callingPendingFunctors := True, pendingFunctors := []\<rparr>)) (\<lambda>l.
           Ret (l\<lparr>callingPendingFunctors := False\<rparr>)))"

definition loop_body ::
  "(int \<Rightarrow> EventLoop \<Rightarrow> nat list) \<Rightarrow> (nat \<Rightarrow> EventLoop \<Rightarrow> EventLoop outcome) \<Rightarrow>
    (nat \<Rightarrow> EventLoop \<Rightarrow> EventLoop outcome) \<Rightarrow> EventLoop \<Rightarrow> EventLoop outcome" where
  "loop_body poll handle run l =
     (let l = l\<lparr>activeChannels := poll kPollTimeMs (l\<lparr>activeChannels := []\<rparr>), iteration := iteration l + 1,
              el_eventHandling := True\<rparr>
      in bindo (foldo (\<lambda>c l. handle c (l\<lparr>currentActiveChannel := Some c\<rparr>)) (activeChannels l) l) (\<lambda>l.
           doPendingFunctors run (l\<lparr>currentActiveChannel := None, el_eventHandling := False\<rparr>)))"

text \<open>\<^verbatim>\<open>while (!quit_)\<close> may run forever: \<open>None\<close> stands for a run that has not ended within the given
  number of iterations.\<close>

fun while_not_quit ::
  "(int \<Rightarrow> EventLoop \<Rightarrow> nat list) \<Rightarrow> (nat \<Rightarrow> EventLoop \<Rightarrow> EventLoop outcome) \<Rightarrow>
    (nat \<Rightarrow> EventLoop \<Rightarrow> EventLoop outcome) \<Rightarrow> nat \<Rightarrow> EventLoop \<Rightarrow> EventLoop outcome option" where
  "while_not_quit poll handle run fuel l =
     (if quit l then Some (Ret l)
      else case fuel of 0 \<Rightarrow> None
        | Suc n \<Rightarrow> (case loop_body poll handle run l of
             Ret l \<Rightarrow> while_not_quit poll handle run n l
           | Abort e \<Rightarrow> Some (Abort e)))"

definition loop ::
  "(int \<Rightarrow> EventLoop \<Rightarrow> nat list) \<Rightarrow> (nat \<Rightarrow> EventLoop \<Rightarrow> EventLoop outcome) \<Rightarrow>
    (nat \<Rightarrow> EventLoop \<Rightarrow> EventLoop outcome) \<Rightarrow> int \<Rightarrow> nat \<Rightarrow> EventLoop \<Rightarrow> EventLoop outcome option" where
  "loop poll handle run tid fuel l =
     (if looping l then Some (Abort (AssertFail ''!looping_''))
      else if \<not> isInLoopThread tid l then Some (Abort (Fatal ''EventLoop::abortNotInLoopThread''))
      else map_option (\<lambda>m. bindo m (\<lambda>l. Ret (l\<lparr>looping := False\<rparr>)))
             (while_not_quit poll handle run fuel (l\<lparr>looping := True, quit := False\<rparr>)))"

text \<open>Timers: the double arguments are represented as in the timer queue.\<close>

definition runAt ::
  "((TimerQueue \<Rightarrow> TimerQueue outcome) \<Rightarrow> TimerQueue \<Rightarrow> TimerQueue outcome) \<Rightarrow>
   ((nat \<rightharpoonup> Timer) \<Rightarrow> nat option) \<Rightarrow> int \<Rightarrow> int \<Rightarrow> int \<Rightarrow> nat \<Rightarrow> TimerQueue \<Rightarrow> ((nat \<times> int) \<times> TimerQueue) outcome" where
  "runAt runInLoop_arg alloc tid clock time cb q = addTimer runInLoop_arg alloc tid clock cb time False 0 q"

definition runAfter ::
  "((TimerQueue \<Rightarrow> TimerQueue outcome) \<Rightarrow> TimerQueue \<Rightarrow> TimerQueue outcome) \<Rightarrow>
   ((nat \<rightharpoonup> Timer) \<Rightarrow> nat option) \<Rightarrow> int \<Rightarrow> int \<Rightarrow> int \<Rightarrow> int \<Rightarrow> nat \<Rightarrow> TimerQueue \<Rightarrow> ((nat \<times> int) \<times> TimerQueue) outcome" where
  "runAfter runInLoop_arg alloc tid now clock delay cb q = runAt runInLoop_arg alloc tid clock (now + delay) cb q"

definition runEvery ::
  "((TimerQueue \<Rightarrow> TimerQueue outcome) \<Rightarrow> TimerQueue \<Rightarrow> TimerQueue outcome) \<Rightarrow>
   ((nat \<rightharpoonup> Timer) \<Rightarrow> nat option) \<Rightarrow> int \<Rightarrow> int \<Rightarrow> int \<Rightarrow> bool \<Rightarrow> int \<Rightarrow> nat \<Rightarrow> TimerQueue \<Rightarrow> ((nat \<times> int) \<times> TimerQueue) outcome" where
  "runEvery runInLoop_arg alloc tid now clock positive interval_arg cb q =
     addTimer runInLoop_arg alloc tid clock cb (now + interval_arg) positive interval_arg q"

section \<open>Pending functors\<close>

text \<open>A functor that queues further functors, as functors do: the trace of the runs is kept beside
  the loop.\<close>

definition queues_only :: "(nat \<Rightarrow> EventLoop \<Rightarrow> EventLoop outcome) \<Rightarrow> (nat \<Rightarrow> nat list) \<Rightarrow> int \<Rightarrow> bool" where
  "queues_only run script tid \<longleftrightarrow> (\<forall>f l. run f l = Ret (fold (queueInLoop tid) (script f) l))"

lemma wakeup_simps [simp]:
  "pendingFunctors (wakeup l) = pendingFunctors l" "threadId (wakeup l) = threadId l"
  "callingPendingFunctors (wakeup l) = callingPendingFunctors l" "quit (wakeup l) = quit l"
  "looping (wakeup l) = looping l" "el_eventHandling (wakeup l) = el_eventHandling l"
  "wakeups l \<le> wakeups (wakeup l)" "0 < wakeups (wakeup l)"
  by (auto simp: wakeup_def eventfd_max_def)

lemma fold_queueInLoop:
  "pendingFunctors (fold (queueInLoop tid) fs l) = pendingFunctors l @ fs"
  "callingPendingFunctors (fold (queueInLoop tid) fs l) = callingPendingFunctors l"
  "threadId (fold (queueInLoop tid) fs l) = threadId l"
  by (induction fs arbitrary: l) (auto simp: queueInLoop_def Let_def)

lemma fold_queueInLoop_wakes:
  assumes "threadId l \<noteq> tid \<or> callingPendingFunctors l" and "fs \<noteq> [] \<or> 0 < wakeups l"
  shows "0 < wakeups (fold (queueInLoop tid) fs l)"
  using assms
proof (induction fs arbitrary: l)
  case (Cons f fs)
  then show ?case by (simp add: queueInLoop_def Let_def isInLoopThread_def)
qed simp

lemma run_functors:
  assumes "queues_only run script tid"
  shows "foldo run fs l = Ret (fold (queueInLoop tid) (concat (map script fs)) l)"
  using assms by (induction fs arbitrary: l) (auto simp: queues_only_def)

section \<open>The loop among other threads\<close>

datatype phase = NotLooping | Polling | Handling "nat list" | Draining "nat list"

text \<open>\<open>sys_owed\<close> counts threads that have pushed a functor, or called quit, and have not yet written to
  the event descriptor. Ghost components: everything ever queued, everything run, and whether the
  loop's own thread queued functors before starting the loop.\<close>

record loop_sys =
  sys_loop :: EventLoop
  sys_phase :: phase
  sys_owed :: nat
  sys_queued :: "nat list"
  sys_ran :: "nat list"
  sys_early :: bool

definition busy :: "phase \<Rightarrow> bool" where
  "busy ph \<longleftrightarrow> ph \<noteq> Polling"

definition wakeup_channel :: nat where
  "wakeup_channel = 0"

inductive lstep :: "loop_sys \<Rightarrow> loop_sys \<Rightarrow> bool" where
  start: "sys_phase s = NotLooping \<Longrightarrow>
    lstep s (s\<lparr>sys_phase := Polling, sys_loop := (sys_loop s)\<lparr>looping := True, quit := False\<rparr>\<rparr>)"
| poll_returns: "sys_phase s = Polling \<Longrightarrow>
    lstep s (s\<lparr>sys_phase := Handling cs, sys_loop := (sys_loop s)\<lparr>activeChannels := cs,
      iteration := iteration (sys_loop s) + 1, el_eventHandling := True\<rparr>\<rparr>)"
| handle_wakeup: "sys_phase s = Handling (c # cs) \<Longrightarrow> c = wakeup_channel \<Longrightarrow>
    lstep s (s\<lparr>sys_phase := Handling cs, sys_loop := el_handleRead ((sys_loop s)\<lparr>currentActiveChannel := Some c\<rparr>)\<rparr>)"
| handle_other: "sys_phase s = Handling (c # cs) \<Longrightarrow> c \<noteq> wakeup_channel \<Longrightarrow>
    lstep s (s\<lparr>sys_phase := Handling cs, sys_loop := (sys_loop s)\<lparr>currentActiveChannel := Some c\<rparr>\<rparr>)"
| swap_pending: "sys_phase s = Handling [] \<Longrightarrow>
    lstep s (s\<lparr>sys_phase := Draining (pendingFunctors (sys_loop s)), sys_early := False,
      sys_loop := (sys_loop s)\<lparr>currentActiveChannel := None, el_eventHandling := False,
        callingPendingFunctors := True, pendingFunctors := []\<rparr>\<rparr>)"
| run_functor: "sys_phase s = Draining (f # fs) \<Longrightarrow>
    lstep s (s\<lparr>sys_phase := Draining fs, sys_ran := sys_ran s @ [f]\<rparr>)"
| drained_continue: "sys_phase s = Draining [] \<Longrightarrow> \<not> quit (sys_loop s) \<Longrightarrow>
    lstep s (s\<lparr>sys_phase := Polling, sys_loop := (sys_loop s)\<lparr>callingPendingFunctors := False\<rparr>\<rparr>)"
| drained_quit: "sys_phase s = Draining [] \<Longrightarrow> quit (sys_loop s) \<Longrightarrow>
    lstep s (s\<lparr>sys_phase := NotLooping, sys_loop := (sys_loop s)\<lparr>callingPendingFunctors := False, looping := False\<rparr>\<rparr>)"
| own_queue: "busy (sys_phase s) \<Longrightarrow>
    lstep s (s\<lparr>sys_loop := queueInLoop (threadId (sys_loop s)) f (sys_loop s), sys_queued := sys_queued s @ [f],
      sys_early := (sys_early s \<or> sys_phase s = NotLooping)\<rparr>)"
| own_quit: "busy (sys_phase s) \<Longrightarrow>
    lstep s (s\<lparr>sys_loop := quit_loop (threadId (sys_loop s)) (sys_loop s)\<rparr>)"
| other_pushes: "lstep s (s\<lparr>sys_loop := (sys_loop s)\<lparr>pendingFunctors := pendingFunctors (sys_loop s) @ [f]\<rparr>,
      sys_queued := sys_queued s @ [f], sys_owed := sys_owed s + 1\<rparr>)"
| other_quits: "lstep s (s\<lparr>sys_loop := (sys_loop s)\<lparr>quit := True\<rparr>, sys_owed := sys_owed s + 1\<rparr>)"
| other_wakes: "0 < sys_owed s \<Longrightarrow>
    lstep s (s\<lparr>sys_loop := wakeup (sys_loop s), sys_owed := sys_owed s - 1\<rparr>)"

inductive_cases lstepE: "lstep s t"

definition initial_sys :: "EventLoop \<Rightarrow> loop_sys" where
  "initial_sys l = \<lparr>sys_loop = l, sys_phase = NotLooping, sys_owed = 0, sys_queued = [], sys_ran = [], sys_early = False\<rparr>"

inductive reachable :: "loop_sys \<Rightarrow> bool" where
  init: "new_EventLoop False tid = Ret l \<Longrightarrow> reachable (initial_sys l)"
| step: "reachable s \<Longrightarrow> lstep s t \<Longrightarrow> reachable t"

text \<open>The invariant: what has been queued is what ran, what is being drained and what is pending, in
  this order; the flags mirror the phase; and outside event handling, pending work or a requested
  quit implies a wakeup that is already in the descriptor or owed by another thread.\<close>

fun draining :: "phase \<Rightarrow> nat list" where
  "draining (Draining fs) = fs"
| "draining _ = []"

definition will_wake :: "loop_sys \<Rightarrow> bool" where
  "will_wake s \<longleftrightarrow> 0 < wakeups (sys_loop s) \<or> 0 < sys_owed s"

definition sys_inv :: "loop_sys \<Rightarrow> bool" where
  "sys_inv s \<longleftrightarrow>
     sys_queued s = sys_ran s @ draining (sys_phase s) @ pendingFunctors (sys_loop s) \<and>
     callingPendingFunctors (sys_loop s) = (\<exists>fs. sys_phase s = Draining fs) \<and>
     el_eventHandling (sys_loop s) = (\<exists>cs. sys_phase s = Handling cs) \<and>
     looping (sys_loop s) = (sys_phase s \<noteq> NotLooping) \<and>
     (pendingFunctors (sys_loop s) \<noteq> [] \<and> (\<nexists>cs. sys_phase s = Handling cs) \<longrightarrow> will_wake s \<or> sys_early s) \<and>
     (quit (sys_loop s) \<and> sys_phase s = Polling \<longrightarrow> will_wake s)"

lemma sys_inv_step: "sys_inv s \<Longrightarrow> lstep s t \<Longrightarrow> sys_inv t"
  by (cases "sys_phase s"; erule lstepE)
    (auto simp: sys_inv_def will_wake_def queueInLoop_def quit_loop_def isInLoopThread_def busy_def Let_def
      el_handleRead_def)

lemma sys_inv_reachable: "reachable s \<Longrightarrow> sys_inv s"
proof (induction rule: reachable.induct)
  case (init tid l)
  then show ?case by (auto simp: new_EventLoop_def initial_sys_def sys_inv_def)
next
  case (step s t)
  then show ?case using sys_inv_step by blast
qed

section \<open>Properties\<close>



definition demo_sys :: loop_sys where
  "demo_sys = (let l = \<lparr>looping = True, quit = False, el_eventHandling = False, callingPendingFunctors = False,
        iteration = 0, threadId = 9, wakeups = 0, activeChannels = [], currentActiveChannel = None,
        pendingFunctors = [5]\<rparr>
     in \<lparr>sys_loop = l, sys_phase = Polling, sys_owed = 1, sys_queued = [5], sys_ran = [], sys_early = False\<rparr>)"

lemma demo_sys_reachable: "reachable demo_sys"
proof -
  obtain l where l: "new_EventLoop False 9 = Ret l" by (simp add: new_EventLoop_def)
  note r0 = reachable.init [OF l]
  have r1: "reachable ((initial_sys l)\<lparr>sys_phase := Polling, sys_loop := (sys_loop (initial_sys l))\<lparr>looping := True, quit := False\<rparr>\<rparr>)"
    by (rule reachable.step [OF r0 lstep.start]) (simp add: initial_sys_def)
  show ?thesis
    using reachable.step [OF r1 lstep.other_pushes [of _ 5]] l
    by (auto simp: demo_sys_def initial_sys_def new_EventLoop_def)
qed



text \<open>DoPendingFunctors runs exactly the functors that were pending when it started, in order; what
  they queue is left for the next round, and in that case the descriptor is readable, so the next
  poll returns at once.\<close>

theorem doPendingFunctors_round:
  assumes "queues_only run script (threadId l)"
  shows "\<exists>l'. doPendingFunctors run l = Ret l' \<and>
    pendingFunctors l' = concat (map script (pendingFunctors l)) \<and> \<not> callingPendingFunctors l' \<and>
    (pendingFunctors l' \<noteq> [] \<longrightarrow> 0 < wakeups l')"
  using run_functors [OF assms] fold_queueInLoop_wakes [of "l\<lparr>callingPendingFunctors := True, pendingFunctors := []\<rparr>"
      "threadId l" "concat (map script (pendingFunctors l))"]
  by (simp add: doPendingFunctors_def fold_queueInLoop Let_def del: concat_eq_Nil_conv)

theorem doPendingFunctors_round_witness:
  "\<exists>l'. doPendingFunctors (\<lambda>f l. Ret (fold (queueInLoop 9) (if f = 5 then [6, 7] else []) l)) (sys_loop demo_sys) = Ret l'
     \<and> pendingFunctors l' = [6, 7] \<and> 0 < wakeups l'"
proof -
  have "queues_only (\<lambda>f l. Ret (fold (queueInLoop 9) (if f = 5 then [6, 7] else []) l)) (\<lambda>f. if f = 5 then [6, 7] else [])
      (threadId (sys_loop demo_sys))"
    by (simp add: queues_only_def demo_sys_def)
  from doPendingFunctors_round [OF this] show ?thesis by (auto simp: demo_sys_def)
qed

end
