(* ===== verification/TcpConnections.thy ===== *)
theory TcpConnections
  imports NetBuffer EventLoops
begin

text \<open>
  \<^verbatim>\<open>muduo/net/TcpConnection.{h,cc}\<close>: an established TCP connection.

  The record holds the data members, and three traces of effects outside the object: \<open>wire\<close>, the
  bytes the kernel accepted from \<^verbatim>\<open>write\<close>; \<open>posted\<close>, the functors handed to the loop's queue; and
  \<open>notified\<close>, the calls of the connection, message and close callbacks. Every system call result
  is an argument of the operation that makes the call. A callback is the list of calls it makes on
  the connection (\<open>conn_call\<close>), chosen by the parameter \<open>script\<close>. The interest changes of the
  channel are those of \<open>Channels\<close>; that the pollers implement them is shown in \<open>Pollers\<close>.
\<close>

section \<open>The connection object\<close>

datatype StateE = kDisconnected | kConnecting | kConnected | kDisconnecting

datatype conn_functor = FWriteComplete | FHighWater nat | FForceCloseInLoop | FForceCloseLater int
  | FShutdownInLoop | FSendInLoop "char list" | FStartRead | FStopRead

datatype conn_note = NoteUp | NoteDown | NoteMessage | NoteClose

record TcpConnection =
  tc_threadId :: int
  state :: StateE
  reading :: bool
  channel :: Channel
  writeCompleteCallback :: bool
  highWaterMarkCallback :: bool
  highWaterMark :: nat
  inputBuffer :: Buffer
  outputBuffer :: Buffer
  wire :: "char list"
  fin :: bool
  posted :: "conn_functor list"
  notified :: "conn_note list"

definition EWOULDBLOCK :: int where "EWOULDBLOCK = 11"
definition EPIPE :: int where "EPIPE = 32"
definition ECONNRESET :: int where "ECONNRESET = 104"

definition new_TcpConnection :: "int \<Rightarrow> int \<Rightarrow> TcpConnection outcome" where
  "new_TcpConnection threadId_arg sockfd =
     bindo (new_Buffer kInitialSize) (\<lambda>b.
       Ret \<lparr>tc_threadId = threadId_arg, state = kConnecting, reading = True,
         channel = (new_Channel sockfd)\<lparr>readCallback := True, writeCallback := True, closeCallback := True, errorCallback := True\<rparr>,
         writeCompleteCallback = False, highWaterMarkCallback = False, highWaterMark = 64 * 1024 * 1024,
         inputBuffer = b, outputBuffer = b, wire = [], fin = False, posted = [], notified = []\<rparr>)"

definition delete_TcpConnection :: "TcpConnection \<Rightarrow> unit outcome" where
  "delete_TcpConnection c = require (state c = kDisconnected) ''state_ == kDisconnected'' (Ret ())"

text \<open>\<^verbatim>\<open>channel_->enableReading()\<close> and the like: the new interest set, and the channel is (still) in the
  loop.\<close>

definition set_interest :: "interest_call \<Rightarrow> TcpConnection \<Rightarrow> TcpConnection" where
  "set_interest call c =
     c\<lparr>channel := (channel c)\<lparr>events := new_events call (events (channel c)), addedToLoop := True\<rparr>\<rparr>"

definition post :: "conn_functor \<Rightarrow> TcpConnection \<Rightarrow> TcpConnection" where
  "post f c = c\<lparr>posted := posted c @ [f]\<rparr>"

section \<open>Sending\<close>

text \<open>\<open>wr\<close> is \<^verbatim>\<open>sockets::write\<close>: an errno, or the number of bytes accepted.\<close>

definition sendInLoop ::
  "int \<Rightarrow> char list \<Rightarrow> (char list \<Rightarrow> int + nat) \<Rightarrow> TcpConnection \<Rightarrow> TcpConnection outcome" where
  "sendInLoop tid data wr c =
     assertInLoopThread tid (tc_threadId c)
     (if state c = kDisconnected then Ret c
      else
        let (nwrote, faultError, c) =
              (if \<not> isWriting (channel c) \<and> readableBytes (outputBuffer c) = 0
               then case wr data of
                      Inr n \<Rightarrow>
                        (n, False,
                         let c = c\<lparr>wire := wire c @ take n data\<rparr>
                         in if wsub (length data) n = 0 \<and> writeCompleteCallback c then post FWriteComplete c else c)
                    | Inl errno \<Rightarrow>
                        (0, errno \<noteq> EWOULDBLOCK \<and> (errno = EPIPE \<or> errno = ECONNRESET), c)
               else (0, False, c));
            remaining = wsub (length data) nwrote
        in require (remaining \<le> length data) ''remaining <= len''
          (if \<not> faultError \<and> remaining > 0
           then
             let oldLen = readableBytes (outputBuffer c);
                 c = (if wadd oldLen remaining \<ge> highWaterMark c \<and> oldLen < highWaterMark c \<and> highWaterMarkCallback c
                      then post (FHighWater (wadd oldLen remaining)) c else c)
             in bindo (Buffer_append (take remaining (drop nwrote data)) (outputBuffer c)) (\<lambda>b.
                  let c = c\<lparr>outputBuffer := b\<rparr>
                  in Ret (if \<not> isWriting (channel c) then set_interest EnableWriting c else c))
           else Ret c))"

definition send :: "int \<Rightarrow> char list \<Rightarrow> (char list \<Rightarrow> int + nat) \<Rightarrow> TcpConnection \<Rightarrow> TcpConnection outcome" where
  "send tid message wr c =
     (if state c = kConnected
      then if tid = tc_threadId c then sendInLoop tid message wr c else Ret (post (FSendInLoop message) c)
      else Ret c)"

definition send_Buffer ::
  "int \<Rightarrow> Buffer \<Rightarrow> (char list \<Rightarrow> int + nat) \<Rightarrow> TcpConnection \<Rightarrow> (Buffer \<times> TcpConnection) outcome" where
  "send_Buffer tid buf wr c =
     (if state c = kConnected
      then if tid = tc_threadId c
           then bindo (sendInLoop tid (content buf) wr c) (\<lambda>c. Ret (retrieveAll buf, c))
           else bindo (retrieveAllAsString buf) (\<lambda>(s, buf). Ret (buf, post (FSendInLoop s) c))
      else Ret (buf, c))"

section \<open>Closing\<close>

definition shutdownInLoop :: "int \<Rightarrow> TcpConnection \<Rightarrow> TcpConnection outcome" where
  "shutdownInLoop tid c =
     assertInLoopThread tid (tc_threadId c)
     (Ret (if \<not> isWriting (channel c) then c\<lparr>fin := True\<rparr> else c))"

definition shutdown :: "int \<Rightarrow> TcpConnection \<Rightarrow> TcpConnection outcome" where
  "shutdown tid c =
     (if state c = kConnected
      then let c = c\<lparr>state := kDisconnecting\<rparr>
           in if tid = tc_threadId c then shutdownInLoop tid c else Ret (post FShutdownInLoop c)
      else Ret c)"

definition forceClose :: "TcpConnection \<Rightarrow> TcpConnection" where
  "forceClose c =
     (if state c = kConnected \<or> state c = kDisconnecting
      then post FForceCloseInLoop (c\<lparr>state := kDisconnecting\<rparr>) else c)"

definition forceCloseWithDelay :: "int \<Rightarrow> TcpConnection \<Rightarrow> TcpConnection" where
  "forceCloseWithDelay micros c =
     (if state c = kConnected \<or> state c = kDisconnecting
      then post (FForceCloseLater micros) (c\<lparr>state := kDisconnecting\<rparr>) else c)"

definition stateToString :: "TcpConnection \<Rightarrow> string" where
  "stateToString c = (case state c of
      kDisconnected \<Rightarrow> ''kDisconnected'' | kConnecting \<Rightarrow> ''kConnecting''
    | kConnected \<Rightarrow> ''kConnected'' | kDisconnecting \<Rightarrow> ''kDisconnecting'')"

definition startReadInLoop :: "int \<Rightarrow> TcpConnection \<Rightarrow> TcpConnection outcome" where
  "startReadInLoop tid c =
     assertInLoopThread tid (tc_threadId c)
     (Ret (if \<not> reading c \<or> \<not> isReading (channel c)
           then (set_interest EnableReading c)\<lparr>reading := True\<rparr> else c))"

definition startRead :: "int \<Rightarrow> TcpConnection \<Rightarrow> TcpConnection outcome" where
  "startRead tid c = (if tid = tc_threadId c then startReadInLoop tid c else Ret (post FStartRead c))"

definition stopReadInLoop :: "int \<Rightarrow> TcpConnection \<Rightarrow> TcpConnection outcome" where
  "stopReadInLoop tid c =
     assertInLoopThread tid (tc_threadId c)
     (Ret (if reading c \<or> isReading (channel c)
           then (set_interest DisableReading c)\<lparr>reading := False\<rparr> else c))"

definition stopRead :: "int \<Rightarrow> TcpConnection \<Rightarrow> TcpConnection outcome" where
  "stopRead tid c = (if tid = tc_threadId c then stopReadInLoop tid c else Ret (post FStopRead c))"

section \<open>Callbacks\<close>

text \<open>The calls a callback, running in the loop's thread, may make on its connection. \<open>Consume n\<close>
  retrieves at most \<open>n\<close> bytes from the input buffer.\<close>

datatype conn_call = Send "char list" "char list \<Rightarrow> int + nat" | Shutdown | ForceClose | ForceCloseLater int
  | StartRead | StopRead | Consume nat

fun conn_exec :: "int \<Rightarrow> conn_call \<Rightarrow> TcpConnection \<Rightarrow> TcpConnection outcome" where
  "conn_exec tid (Send data wr) c = send tid data wr c"
| "conn_exec tid Shutdown c = shutdown tid c"
| "conn_exec tid ForceClose c = Ret (forceClose c)"
| "conn_exec tid (ForceCloseLater micros) c = Ret (forceCloseWithDelay micros c)"
| "conn_exec tid StartRead c = startRead tid c"
| "conn_exec tid StopRead c = stopRead tid c"
| "conn_exec tid (Consume n) c = 
     bindo (retrieve (min n (readableBytes (inputBuffer c))) (inputBuffer c)) (\<lambda>b. Ret (c\<lparr>inputBuffer := b\<rparr>))"

definition notify ::
  "(conn_note \<Rightarrow> TcpConnection \<Rightarrow> conn_call list) \<Rightarrow> int \<Rightarrow> conn_note \<Rightarrow> TcpConnection \<Rightarrow> TcpConnection outcome" where
  "notify script tid note c =
     foldo (conn_exec tid) (script note c) (c\<lparr>notified := notified c @ [note]\<rparr>)"

section \<open>Events\<close>

definition connectEstablished ::
  "(conn_note \<Rightarrow> TcpConnection \<Rightarrow> conn_call list) \<Rightarrow> int \<Rightarrow> TcpConnection \<Rightarrow> TcpConnection outcome" where
  "connectEstablished script tid c =
     assertInLoopThread tid (tc_threadId c)
     (require (state c = kConnecting) ''state_ == kConnecting''
     (let c = c\<lparr>state := kConnected\<rparr>;
          c = c\<lparr>channel := Channel_tie (channel c)\<rparr>
      in notify script tid NoteUp (set_interest EnableReading c)))"

definition connectDestroyed ::
  "(conn_note \<Rightarrow> TcpConnection \<Rightarrow> conn_call list) \<Rightarrow> int \<Rightarrow> TcpConnection \<Rightarrow> TcpConnection outcome" where
  "connectDestroyed script tid c =
     assertInLoopThread tid (tc_threadId c)
     (bindo
       (if state c = kConnected
        then notify script tid NoteDown (set_interest DisableAll (c\<lparr>state := kDisconnected\<rparr>))
        else Ret c)
       (\<lambda>c. require (isNoneEvent (channel c)) ''isNoneEvent()''
              (Ret (c\<lparr>channel := (channel c)\<lparr>addedToLoop := False\<rparr>\<rparr>))))"

definition handleClose ::
  "(conn_note \<Rightarrow> TcpConnection \<Rightarrow> conn_call list) \<Rightarrow> int \<Rightarrow> TcpConnection \<Rightarrow> TcpConnection outcome" where
  "handleClose script tid c =
     assertInLoopThread tid (tc_threadId c)
     (require (state c = kConnected \<or> state c = kDisconnecting) ''state_ == kConnected || state_ == kDisconnecting''
     (bindo (notify script tid NoteDown (set_interest DisableAll (c\<lparr>state := kDisconnected\<rparr>))) (\<lambda>c.
        notify script tid NoteClose c)))"

definition handleError :: "TcpConnection \<Rightarrow> TcpConnection outcome" where
  "handleError c = Ret c"

definition tc_handleRead ::
  "(conn_note \<Rightarrow> TcpConnection \<Rightarrow> conn_call list) \<Rightarrow> int \<Rightarrow> (nat list \<Rightarrow> int + char list) \<Rightarrow> TcpConnection \<Rightarrow> TcpConnection outcome" where
  "tc_handleRead script tid readv c =
     assertInLoopThread tid (tc_threadId c)
     (bindo (readFd readv (inputBuffer c)) (\<lambda>(n, savedErrno, b).
        let c = c\<lparr>inputBuffer := b\<rparr>
        in if n > 0 then notify script tid NoteMessage c
           else if n = 0 then handleClose script tid c
           else handleError c))"

definition handleWrite :: "int \<Rightarrow> (char list \<Rightarrow> int + nat) \<Rightarrow> TcpConnection \<Rightarrow> TcpConnection outcome" where
  "handleWrite tid wr c =
     assertInLoopThread tid (tc_threadId c)
     (if isWriting (channel c)
      then case wr (content (outputBuffer c)) of
             Inl errno \<Rightarrow> Ret c
           | Inr n \<Rightarrow>
               if n > 0
               then bindo (retrieve n (outputBuffer c)) (\<lambda>b.
                      let c = c\<lparr>outputBuffer := b, wire := wire c @ take n (content (outputBuffer c))\<rparr>
                      in if readableBytes (outputBuffer c) = 0
                         then
                           let c = set_interest DisableWriting c;
                               c = (if writeCompleteCallback c then post FWriteComplete c else c)
                           in if state c = kDisconnecting then shutdownInLoop tid c else Ret c
                         else Ret c)
               else Ret c
      else Ret c)"

definition forceCloseInLoop ::
  "(conn_note \<Rightarrow> TcpConnection \<Rightarrow> conn_call list) \<Rightarrow> int \<Rightarrow> TcpConnection \<Rightarrow> TcpConnection outcome" where
  "forceCloseInLoop script tid c =
     assertInLoopThread tid (tc_threadId c)
     (if state c = kConnected \<or> state c = kDisconnecting then handleClose script tid c else Ret c)"

text \<open>The channel's dispatch with the connection's handlers bound to it.\<close>

definition conn_callback ::
  "(conn_note \<Rightarrow> TcpConnection \<Rightarrow> conn_call list) \<Rightarrow> int \<Rightarrow> (nat list \<Rightarrow> int + char list) \<Rightarrow> (char list \<Rightarrow> int + nat) \<Rightarrow>
    callback \<Rightarrow> Channel \<times> TcpConnection \<Rightarrow> (Channel \<times> TcpConnection) outcome" where
  "conn_callback script tid readv wr cb s =
     (let c = (snd s)\<lparr>channel := fst s\<rparr> in
      bindo (case cb of
          CbRead \<Rightarrow> tc_handleRead script tid readv c
        | CbWrite \<Rightarrow> handleWrite tid wr c
        | CbClose \<Rightarrow> handleClose script tid c
        | CbError \<Rightarrow> handleError c) (\<lambda>c. Ret (channel c, c)))"

definition conn_event ::
  "(conn_note \<Rightarrow> TcpConnection \<Rightarrow> conn_call list) \<Rightarrow> int \<Rightarrow> (nat list \<Rightarrow> int + char list) \<Rightarrow> (char list \<Rightarrow> int + nat) \<Rightarrow>
    events \<Rightarrow> TcpConnection \<Rightarrow> TcpConnection outcome" where
  "conn_event script tid readv wr revs c =
     bindo (handleEvent True (conn_callback script tid readv wr) ((channel c)\<lparr>revents := revs\<rparr>, c)) (\<lambda>(ch, c).
       Ret (c\<lparr>channel := ch\<rparr>))"

section \<open>The invariant\<close>

text \<open>The connection and close notifications so far.\<close>

definition conn_notes :: "TcpConnection \<Rightarrow> conn_note list" where
  "conn_notes c = filter (\<lambda>n. n \<noteq> NoteMessage) (notified c)"

definition alive :: "TcpConnection \<Rightarrow> bool" where
  "alive c \<longleftrightarrow> state c = kConnected \<or> state c = kDisconnecting"

definition conn_ok :: "int \<Rightarrow> TcpConnection \<Rightarrow> bool" where
  "conn_ok tid c \<longleftrightarrow> tc_threadId c = tid \<and> buffer_ok (inputBuffer c) \<and> buffer_ok (outputBuffer c) \<and>
     interest_ok (events (channel c)) \<and>
     (case state c of
        kConnecting \<Rightarrow> events (channel c) = 0 \<and> content (outputBuffer c) = [] \<and> conn_notes c = []
      | kConnected \<Rightarrow> isWriting (channel c) = (content (outputBuffer c) \<noteq> []) \<and> conn_notes c = [NoteUp]
      | kDisconnecting \<Rightarrow> isWriting (channel c) = (content (outputBuffer c) \<noteq> []) \<and> conn_notes c = [NoteUp]
      | kDisconnected \<Rightarrow> events (channel c) = 0 \<and> conn_notes c \<in> {[NoteUp, NoteDown], [NoteUp, NoteDown, NoteClose]})"

lemma conn_ok_alive:
  "alive c \<Longrightarrow> conn_ok tid c \<longleftrightarrow> tc_threadId c = tid \<and> buffer_ok (inputBuffer c) \<and> buffer_ok (outputBuffer c) \<and>
     interest_ok (events (channel c)) \<and> isWriting (channel c) = (content (outputBuffer c) \<noteq> []) \<and> conn_notes c = [NoteUp]"
  by (auto simp: conn_ok_def alive_def)

lemma conn_okD:
  assumes "conn_ok tid c"
  shows "tc_threadId c = tid" "buffer_ok (inputBuffer c)" "buffer_ok (outputBuffer c)" "interest_ok (events (channel c))"
  using assms by (auto simp: conn_ok_def)

text \<open>\<^verbatim>\<open>write\<close> accepts at most the bytes it was given.\<close>

definition write_spec :: "(char list \<Rightarrow> int + nat) \<Rightarrow> bool" where
  "write_spec wr \<longleftrightarrow> (\<forall>data n. wr data = Inr n \<longrightarrow> n \<le> length data)"

definition stream :: "TcpConnection \<Rightarrow> char list" where
  "stream c = wire c @ content (outputBuffer c)"

lemma readable_content: "buffer_ok b \<Longrightarrow> readableBytes b = length (content b)"
  by (simp add: length_content)

lemma empty_readable: "buffer_ok b \<Longrightarrow> readableBytes b = 0 \<longleftrightarrow> content b = []"
  by (simp add: readable_content)

text \<open>What no call on a connection touches.\<close>

definition same_shell :: "TcpConnection \<Rightarrow> TcpConnection \<Rightarrow> bool" where
  "same_shell c d \<longleftrightarrow> (notified c, tc_threadId c, inputBuffer c, same_dispatch (channel c) (channel d))
     = (notified d, tc_threadId d, inputBuffer d, True)"

lemma interest_writing:
  assumes "interest_ok (events ch)"
  shows "isWriting (ch\<lparr>events := new_events EnableWriting (events ch), addedToLoop := a\<rparr>)"
    and "\<not> isWriting (ch\<lparr>events := new_events DisableWriting (events ch), addedToLoop := a\<rparr>)"
    and "isWriting (ch\<lparr>events := new_events EnableReading (events ch), addedToLoop := a\<rparr>) = isWriting ch"
    and "isWriting (ch\<lparr>events := new_events DisableReading (events ch), addedToLoop := a\<rparr>) = isWriting ch"
    and "new_events DisableAll (events ch) = 0"
    and "new_events DisableReading 0 = 0"
  using assms by (auto simp: interest_ok_def isWriting_def has_bits_def poll_masks)

lemma set_interest_simps [simp]:
  "state (set_interest x c) = state c" "tc_threadId (set_interest x c) = tc_threadId c"
  "inputBuffer (set_interest x c) = inputBuffer c" "outputBuffer (set_interest x c) = outputBuffer c"
  "wire (set_interest x c) = wire c" "notified (set_interest x c) = notified c" "fin (set_interest x c) = fin c"
  "conn_notes (set_interest x c) = conn_notes c"
  "channel (set_interest x c) = (channel c)\<lparr>events := new_events x (events (channel c)), addedToLoop := True\<rparr>"
  "posted (set_interest x c) = posted c" "writeCompleteCallback (set_interest x c) = writeCompleteCallback c"
  by (simp_all add: set_interest_def conn_notes_def)

lemma post_simps [simp]:
  "state (post x c) = state c" "tc_threadId (post x c) = tc_threadId c"
  "inputBuffer (post x c) = inputBuffer c" "outputBuffer (post x c) = outputBuffer c"
  "wire (post x c) = wire c" "notified (post x c) = notified c" "conn_notes (post x c) = conn_notes c"
  "channel (post x c) = channel c" "fin (post x c) = fin c"
  by (simp_all add: post_def conn_notes_def)

text \<open>Buffering what the kernel did not take.\<close>

lemma append_rest_ok:
  assumes ok: "buffer_ok b" and len: "length xs \<le> vec_max"
  shows "guarantees (\<lambda>b'. buffer_ok b' \<and> content b' = content b @ xs) (Buffer_append xs b)"
  using Buffer_append_cases [OF assms] by auto

text \<open>The two outcomes of the direct write attempt: a prefix of the data accepted, or nothing.\<close>

text \<open>What was not written is put into the output buffer, and the channel waits for room in the socket.\<close>

lemma buffer_rest_ok:
  assumes ok: "conn_ok tid c" and al: "alive c" and len: "length data \<le> vec_max"
    and d: "state d = state c" "channel d = channel c" "outputBuffer d = outputBuffer c" "notified d = notified c"
      "tc_threadId d = tid" "inputBuffer d = inputBuffer c" "wire d = wire c @ take n data"
    and n: "n < length data" "n \<noteq> 0 \<Longrightarrow> content (outputBuffer c) = []"
  shows "guarantees (\<lambda>c'. conn_ok tid c' \<and> state c' = state c \<and> same_shell c' c \<and> stream c' = stream c @ data)
      (bindo (Buffer_append (drop n data) (outputBuffer d)) (\<lambda>b.
        Ret (if \<not> isWriting (channel (d\<lparr>outputBuffer := b\<rparr>)) then set_interest EnableWriting (d\<lparr>outputBuffer := b\<rparr>)
             else d\<lparr>outputBuffer := b\<rparr>)))"
proof (rule guarantees_bindo [OF append_rest_ok])
  show "buffer_ok (outputBuffer d)" using ok conn_ok_alive [OF al] d(3) by auto
  show "length (drop n data) \<le> vec_max" using len by simp
next
  fix b assume b: "buffer_ok b \<and> content b = content (outputBuffer d) @ drop n data"
  have D: "buffer_ok (inputBuffer c)" "interest_ok (events (channel c))" "isWriting (channel c) = (content (outputBuffer c) \<noteq> [])" "conn_notes c = [NoteUp]"
    "tc_threadId c = tid"
    using ok conn_ok_alive [OF al] by auto
  let ?e = "if \<not> isWriting (channel (d\<lparr>outputBuffer := b\<rparr>)) then set_interest EnableWriting (d\<lparr>outputBuffer := b\<rparr>)
     else d\<lparr>outputBuffer := b\<rparr>"
  have ne: "content b \<noteq> []" using b n(1) by simp
  have "wire c @ take n data @ content (outputBuffer c) @ drop n data = stream c @ data"
    using n(2) by (cases "n = 0") (auto simp: stream_def)
  moreover have "conn_notes ?e = conn_notes c" using d by (simp add: conn_notes_def)
  moreover have "isWriting (channel ?e)" using interest_writing(1) [OF D(2)] d(2) by auto
  moreover have "interest_ok (events (channel ?e))" using new_events_ok [OF D(2), of EnableWriting] D(2) d(2) by auto
  moreover have "alive ?e" using al d(1) by (simp add: alive_def)
  ultimately show "guarantees (\<lambda>c'. conn_ok tid c' \<and> state c' = state c \<and> same_shell c' c \<and> stream c' = stream c @ data) (Ret ?e)"
    using b d D ne by (auto simp: conn_ok_alive same_shell_def same_dispatch_def stream_def)
qed

lemma sendInLoop_ok:
  assumes ok: "conn_ok tid c" and al: "alive c" and wr: "write_spec wr" and len: "length data \<le> vec_max"
  shows "guarantees (\<lambda>c'. conn_ok tid c' \<and> state c' = state c \<and> same_shell c' c \<and>
      (stream c' = stream c @ data \<or>
       stream c' = stream c \<and> (\<exists>e\<in>{EPIPE, ECONNRESET}. wr data = Inl e)))
    (sendInLoop tid data wr c)" (is "guarantees ?P _")
proof -
  have D: "tc_threadId c = tid" "buffer_ok (outputBuffer c)" "isWriting (channel c) = (content (outputBuffer c) \<noteq> [])"
    using ok conn_ok_alive [OF al] by auto
  have nd: "state c \<noteq> kDisconnected" using al by (auto simp: alive_def)
  have weaken: "guarantees ?P m" if "guarantees (\<lambda>c'. conn_ok tid c' \<and> state c' = state c \<and> same_shell c' c \<and> stream c' = stream c @ data) m" for m
    using that by (rule guarantees_mono) auto
  note rest = weaken [OF buffer_rest_ok [OF ok al len]]
  have refl: "?P c" if "data = [] \<or> (\<exists>e\<in>{EPIPE, ECONNRESET}. wr data = Inl e)"
    using that ok by (auto simp: same_shell_def same_dispatch_def)
  show ?thesis
  proof (cases "content (outputBuffer c) = []")
    case False
    then have "\<not> (\<not> isWriting (channel c) \<and> readableBytes (outputBuffer c) = 0)" using D by (simp add: empty_readable)
    then show ?thesis using refl rest [of _ 0] len D(1) nd
      by (cases "data = []") (auto simp: sendInLoop_def wsub_vec_max Let_def simp del: bindo.simps)
  next
    case True
    then have direct: "\<not> isWriting (channel c) \<and> readableBytes (outputBuffer c) = 0" using D by (simp add: empty_readable)
    show ?thesis
    proof (cases "wr data")
      case (Inl e)
      then show ?thesis using refl rest [of _ 0] len D(1) nd direct
        by (cases "data = []") (auto simp: sendInLoop_def wsub_vec_max Let_def simp del: bindo.simps)
    next
      case (Inr n)
      then have n: "n \<le> length data" using wr by (auto simp: write_spec_def)
      let ?d = "let c = c\<lparr>wire := wire c @ take n data\<rparr>
         in if wsub (length data) n = 0 \<and> writeCompleteCallback c then post FWriteComplete c else c"
      have "?P ?d" if "n = length data"
        using that ok al True D
        by (auto simp: Let_def conn_ok_alive alive_def conn_notes_def same_shell_def same_dispatch_def stream_def)
      then show ?thesis using rest [of _ n] len D direct n nd True Inr
        by (cases "n = length data") (auto simp: sendInLoop_def wsub_vec_max Let_def simp del: bindo.simps)
    qed
  qed
qed

lemma alive_simps [simp]:
  "alive (set_interest x c) = alive c" "alive (post f c) = alive c"
  "alive (c\<lparr>outputBuffer := b, wire := w\<rparr>) = alive c" "alive (c\<lparr>inputBuffer := b\<rparr>) = alive c"
  "alive (c\<lparr>channel := ch\<rparr>) = alive c" "alive (c\<lparr>notified := ns\<rparr>) = alive c"
  by (simp_all add: alive_def)

lemma conn_ok_ghosts [simp]:
  "conn_ok tid (post f c) = conn_ok tid c" "conn_ok tid (c\<lparr>fin := b\<rparr>) = conn_ok tid c"
  "conn_ok tid (c\<lparr>reading := b\<rparr>) = conn_ok tid c"
  by (cases "state c"; simp add: conn_ok_def conn_notes_def post_def)+

lemma handleWrite_ok:
  assumes ok: "conn_ok tid c" and wr: "write_spec wr"
  shows "guarantees (\<lambda>c'. conn_ok tid c' \<and> state c' = state c \<and> same_shell c' c \<and> stream c' = stream c)
    (handleWrite tid wr c)"
proof (cases "isWriting (channel c) \<and> (\<exists>n>0. wr (content (outputBuffer c)) = Inr n)")
  case False
  have "handleWrite tid wr c = Ret c"
  proof (cases "wr (content (outputBuffer c))")
    case (Inr n)
    with False show ?thesis using conn_okD(1) [OF ok] by (cases "n = 0") (auto simp: handleWrite_def)
  qed (use conn_okD(1) [OF ok] in \<open>simp add: handleWrite_def\<close>)
  then show ?thesis using ok by (simp add: same_shell_def same_dispatch_def)
next
  case True
  then obtain n where w: "isWriting (channel c)" "wr (content (outputBuffer c)) = Inr n" "0 < n" by auto
  have al: "alive c"
    using ok w(1) by (cases "state c") (auto simp: conn_ok_def alive_def isWriting_def has_bits_def)
  have D: "tc_threadId c = tid" "buffer_ok (inputBuffer c)" "buffer_ok (outputBuffer c)"
    "interest_ok (events (channel c))" "conn_notes c = [NoteUp]"
    using ok conn_ok_alive [OF al] by auto
  have "n \<le> length (content (outputBuffer c))" using w(2) wr by (simp add: write_spec_def)
  then have n: "n \<le> readableBytes (outputBuffer c)" using D(3) by (simp add: length_content)
  obtain b where b: "retrieve n (outputBuffer c) = Ret b" "buffer_ok b" "content b = drop n (content (outputBuffer c))"
    using retrieve_ok [OF D(3) n] by auto
  let ?d = "c\<lparr>outputBuffer := b, wire := wire c @ take n (content (outputBuffer c))\<rparr>"
  have st: "stream ?d = stream c" using b(3) by (simp add: stream_def)
  have al': "alive ?d" "alive (set_interest DisableWriting ?d)" using al by (simp_all add: alive_def)
  have "conn_ok tid ?d" if "content b \<noteq> []"
    using that D b w(1) by (simp add: conn_ok_alive [OF al'(1)] conn_notes_def)
  moreover have "conn_ok tid (set_interest DisableWriting ?d)" if "content b = []"
    using that D b interest_writing(2) [OF D(4)] new_events_ok [OF D(4), of DisableWriting]
    by (simp add: conn_ok_alive al conn_notes_def)
  ultimately show ?thesis using w D(1) b st interest_writing(2) [OF D(4)]
    by (auto simp: handleWrite_def Let_def empty_readable shutdownInLoop_def same_shell_def same_dispatch_def stream_def
        simp del: new_events.simps)
qed

text \<open>The effect of a call on the state: it only ever moves from connected to disconnecting.\<close>

definition no_revival :: "TcpConnection \<Rightarrow> TcpConnection \<Rightarrow> bool" where
  "no_revival c c' \<longleftrightarrow> state c' = state c \<or> state c = kConnected \<and> state c' = kDisconnecting"

definition call_step :: "int \<Rightarrow> TcpConnection \<Rightarrow> TcpConnection \<Rightarrow> bool" where
  "call_step tid c c' \<longleftrightarrow> conn_ok tid c' \<and> no_revival c c' \<and> notified c' = notified c \<and>
     same_dispatch (channel c') (channel c)"

fun call_ok :: "conn_call \<Rightarrow> TcpConnection \<Rightarrow> bool" where
  "call_ok (Send data wr) c = (write_spec wr \<and> length data \<le> vec_max)"
| "call_ok StartRead c = alive c"
| "call_ok _ c = True"

lemma conn_ok_alive_state:
  "alive c \<Longrightarrow> conn_ok tid c \<Longrightarrow> s = kConnected \<or> s = kDisconnecting \<Longrightarrow> conn_ok tid (c\<lparr>state := s\<rparr>)"
  by (auto simp: conn_ok_def alive_def conn_notes_def)

lemma conn_ok_interest:
  assumes "conn_ok tid c" and "x = EnableReading \<and> alive c \<or> x = DisableReading"
  shows "conn_ok tid (set_interest x c)"
proof -
  note i = interest_writing [OF conn_okD(4) [OF assms(1)]]
  have "interest_ok (new_events x (events (channel c)))"
    using new_events_ok [OF conn_okD(4) [OF assms(1)]] .
  then show ?thesis using assms i(3,4,6) by (auto simp: conn_ok_def alive_def simp del: new_events.simps split: StateE.splits)
qed

lemma conn_exec_ok:
  assumes ok: "conn_ok tid c" and call: "call_ok x c"
  shows "guarantees (call_step tid c) (conn_exec tid x c)"
proof (cases x)
  case (Send data wr)
  show ?thesis
  proof (cases "state c = kConnected")
    case True
    then have "alive c" by (simp add: alive_def)
    from sendInLoop_ok [OF ok this, of wr data] call Send
    have "guarantees (call_step tid c) (sendInLoop tid data wr c)"
      by (auto simp: call_step_def no_revival_def same_shell_def elim!: guarantees_mono)
    with Send True conn_okD(1) [OF ok] show ?thesis by (simp add: send_def)
  qed (use ok Send in \<open>simp add: send_def call_step_def no_revival_def same_dispatch_def\<close>)
next
  case Shutdown
  then show ?thesis using ok conn_ok_alive_state [of c tid kDisconnecting] conn_okD(1) [OF ok]
    by (auto simp: shutdown_def shutdownInLoop_def call_step_def no_revival_def same_dispatch_def alive_def Let_def)
next
  case ForceClose
  then show ?thesis using ok conn_ok_alive_state [of c tid kDisconnecting]
    by (auto simp: forceClose_def call_step_def no_revival_def same_dispatch_def alive_def)
next
  case (ForceCloseLater m)
  then show ?thesis using ok conn_ok_alive_state [of c tid kDisconnecting]
    by (auto simp: forceCloseWithDelay_def call_step_def no_revival_def same_dispatch_def alive_def)
next
  case StartRead
  then show ?thesis using ok conn_ok_interest [OF ok, of EnableReading] call conn_okD(1) [OF ok]
    by (auto simp: startRead_def startReadInLoop_def call_step_def no_revival_def same_dispatch_def)
next
  case StopRead
  then show ?thesis using ok conn_ok_interest [OF ok, of DisableReading] conn_okD(1) [OF ok]
    by (auto simp: stopRead_def stopReadInLoop_def call_step_def no_revival_def same_dispatch_def)
next
  case (Consume n)
  obtain b where "retrieve (min n (readableBytes (inputBuffer c))) (inputBuffer c) = Ret b" "buffer_ok b"
    using retrieve_ok [OF conn_okD(2) [OF ok], of "min n (readableBytes (inputBuffer c))"] by auto
  then show ?thesis using ok Consume
    by (auto simp: call_step_def no_revival_def same_dispatch_def conn_ok_def conn_notes_def split: StateE.splits)
qed

section \<open>Callbacks keep the invariant\<close>

text \<open>What the theorems ask of user callbacks: sane sends, and no startRead once the connection is
  reported down.\<close>

definition script_ok :: "(conn_note \<Rightarrow> TcpConnection \<Rightarrow> conn_call list) \<Rightarrow> bool" where
  "script_ok script \<longleftrightarrow> (\<forall>note c x. x \<in> set (script note c) \<longrightarrow>
     (x = StartRead \<longrightarrow> note = NoteUp \<or> note = NoteMessage) \<and>
     (\<forall>data wr. x = Send data wr \<longrightarrow> write_spec wr \<and> length data \<le> vec_max))"

lemma no_revival_alive: "no_revival c d \<Longrightarrow> alive d = alive c"
  by (auto simp: no_revival_def alive_def)

lemma call_step_trans: "call_step tid c d \<Longrightarrow> call_step tid d e \<Longrightarrow> call_step tid c e"
  by (auto simp: call_step_def no_revival_def same_dispatch_def)

lemma notify_ok:
  assumes ok: "conn_ok tid (c\<lparr>notified := notified c @ [note]\<rparr>)" and sc: "script_ok script"
    and al: "note = NoteUp \<or> note = NoteMessage \<Longrightarrow> alive c"
  shows "guarantees (call_step tid (c\<lparr>notified := notified c @ [note]\<rparr>)) (notify script tid note c)"
  unfolding notify_def
proof (rule guarantees_foldo)
  let ?c0 = "c\<lparr>notified := notified c @ [note]\<rparr>"
  show "call_step tid ?c0 ?c0" using ok by (simp add: call_step_def no_revival_def same_dispatch_def)
  fix x d assume x: "x \<in> set (script note c)" and st: "call_step tid ?c0 d"
  have "alive d" if "note = NoteUp \<or> note = NoteMessage"
    using al [OF that] no_revival_alive [of ?c0 d] st by (simp add: call_step_def)
  then have "call_ok x d" using sc x unfolding script_ok_def by (cases x) auto
  moreover have "conn_ok tid d" using st by (simp add: call_step_def)
  ultimately have "guarantees (call_step tid d) (conn_exec tid x d)" by (rule conn_exec_ok [rotated])
  then show "guarantees (call_step tid ?c0) (conn_exec tid x d)"
    by (rule guarantees_mono) (rule call_step_trans [OF st])
qed

lemma handleClose_ok:
  assumes ok: "conn_ok tid c" and al: "alive c" and sc: "script_ok script"
  shows "guarantees (\<lambda>c'. conn_ok tid c' \<and> state c' = kDisconnected \<and> same_dispatch (channel c') (channel c) \<and>
      conn_notes c' = [NoteUp, NoteDown, NoteClose]) (handleClose script tid c)"
proof -
  let ?c1 = "set_interest DisableAll (c\<lparr>state := kDisconnected\<rparr>)"
  let ?c2 = "?c1\<lparr>notified := notified ?c1 @ [NoteDown]\<rparr>"
  have D: "tc_threadId c = tid" "buffer_ok (inputBuffer c)" "buffer_ok (outputBuffer c)" "conn_notes c = [NoteUp]"
    using ok conn_ok_alive [OF al] by auto
  have ok2: "conn_ok tid ?c2"
    using D by (simp add: conn_ok_def conn_notes_def interest_ok_def kNoneEvent_def)
  have "handleClose script tid c = bindo (notify script tid NoteDown ?c1) (notify script tid NoteClose)"
    using al D(1) by (simp add: handleClose_def alive_def)
  moreover have "guarantees (\<lambda>c'. conn_ok tid c' \<and> state c' = kDisconnected \<and> same_dispatch (channel c') (channel c) \<and>
      conn_notes c' = [NoteUp, NoteDown, NoteClose]) (bindo (notify script tid NoteDown ?c1) (notify script tid NoteClose))"
  proof (rule guarantees_bindo [OF notify_ok [OF ok2 sc]])
    fix d assume d: "call_step tid ?c2 d"
    then have dk: "conn_ok tid d" "state d = kDisconnected" "notified d = notified c @ [NoteDown]"
      "same_dispatch (channel d) (channel c)"
      by (auto simp: call_step_def no_revival_def same_dispatch_def)
    then have "conn_ok tid (d\<lparr>notified := notified d @ [NoteClose]\<rparr>)"
      using D(4) by (simp add: conn_ok_def conn_notes_def interest_ok_def)
    from notify_ok [OF this sc] have "guarantees (call_step tid (d\<lparr>notified := notified d @ [NoteClose]\<rparr>))
        (notify script tid NoteClose d)" by simp
    then show "guarantees (\<lambda>c'. conn_ok tid c' \<and> state c' = kDisconnected \<and> same_dispatch (channel c') (channel c) \<and>
      conn_notes c' = [NoteUp, NoteDown, NoteClose]) (notify script tid NoteClose d)"
      by (rule guarantees_mono)
        (use dk D(4) in \<open>auto simp: call_step_def no_revival_def same_dispatch_def conn_notes_def\<close>)
  qed simp
  ultimately show ?thesis by simp
qed

text \<open>Once up, a connection that is not alive has called the close callback.\<close>

definition settled :: "TcpConnection \<Rightarrow> bool" where
  "settled c \<longleftrightarrow> alive c \<or> conn_notes c = [NoteUp, NoteDown, NoteClose]"

lemma settled_channel [simp]: "settled (c\<lparr>channel := ch\<rparr>) = settled c"
  by (simp add: settled_def conn_notes_def alive_def)

lemma tc_handleRead_ok:
  assumes ok: "conn_ok tid c" and al: "alive c" and sc: "script_ok script" and rv: "readv_spec readv"
  shows "guarantees (\<lambda>c'. conn_ok tid c' \<and> same_dispatch (channel c') (channel c) \<and> settled c') (tc_handleRead script tid readv c)"
proof -
  let ?b = "inputBuffer c"
  let ?vec = "if writableBytes ?b < 65536 then [writableBytes ?b, 65536] else [writableBytes ?b]"
  have D: "tc_threadId c = tid" "buffer_ok ?b" using conn_okD [OF ok] by auto
  have inp: "conn_ok tid (c\<lparr>inputBuffer := b\<rparr>)" if "buffer_ok b" for b
    using ok that al by (simp add: conn_ok_alive conn_notes_def)
  show ?thesis
  proof (cases "readv ?vec")
    case (Inl e)
    then show ?thesis using readFd_error [of readv ?b e] D(1) ok
      al by (simp add: tc_handleRead_def handleError_def same_dispatch_def settled_def)
  next
    case (Inr bytes)
    from readFd_cases [OF D(2) rv Inr] show ?thesis
    proof (elim disjE exE conjE)
      fix b assume b: "readFd readv ?b = Ret (int (length bytes), None, b)" "buffer_ok b"
      let ?c = "c\<lparr>inputBuffer := b\<rparr>"
      show ?thesis
      proof (cases "bytes = []")
        case True
        have "guarantees (\<lambda>c'. conn_ok tid c' \<and> same_dispatch (channel c') (channel c) \<and> settled c') (handleClose script tid ?c)"
          using handleClose_ok [OF inp [OF b(2)] _ sc] al by (auto simp: settled_def elim: guarantees_mono)
        then show ?thesis using b True D(1) by (simp add: tc_handleRead_def)
      next
        case False
        have "conn_ok tid (?c\<lparr>notified := notified ?c @ [NoteMessage]\<rparr>)"
          using inp [OF b(2)] al by (simp add: conn_ok_alive conn_notes_def)
        from notify_ok [OF this sc] al
        have "guarantees (\<lambda>c'. conn_ok tid c' \<and> same_dispatch (channel c') (channel c) \<and> settled c') (notify script tid NoteMessage ?c)"
          by (auto simp: call_step_def settled_def no_revival_def alive_def elim!: guarantees_mono)
        then show ?thesis using b False D(1) by (simp add: tc_handleRead_def)
      qed
    qed (use D(1) in \<open>simp add: tc_handleRead_def\<close>)
  qed
qed

section \<open>Events keep the invariant\<close>

lemma conn_ok_channel: "events ch = events ch' \<Longrightarrow> conn_ok tid (c\<lparr>channel := ch\<rparr>) = conn_ok tid (c\<lparr>channel := ch'\<rparr>)"
  by (cases "state c") (simp_all add: conn_ok_def conn_notes_def isWriting_def)

text \<open>Received events for which the dispatch calls the close callback and the read callback at most
  once together: a hang-up without pending input must not come with urgent data or the peer's
  half-close.\<close>

definition safe_revents :: "events \<Rightarrow> bool" where
  "safe_revents ev \<longleftrightarrow> \<not> (has_bits ev POLLHUP \<and> \<not> has_bits ev POLLIN \<and> has_bits ev (POLLIN OR POLLPRI OR POLLRDHUP))"

definition staged :: "int \<Rightarrow> Channel \<Rightarrow> bool \<Rightarrow> Channel \<times> TcpConnection \<Rightarrow> bool" where
  "staged tid ch0 live s \<longleftrightarrow> conn_ok tid ((snd s)\<lparr>channel := fst s\<rparr>) \<and> same_dispatch (fst s) ch0 \<and>
     settled (snd s) \<and> (live \<longrightarrow> alive (snd s))"

lemma staged_callback:
  assumes st: "staged tid ch0 live s" and sc: "script_ok script" and rv: "readv_spec readv" and wr: "write_spec wr"
    and need: "cb = CbRead \<or> cb = CbClose \<Longrightarrow> live"
  shows "guarantees (staged tid ch0 (live \<and> (cb = CbWrite \<or> cb = CbError))) (conn_callback script tid readv wr cb s)"
proof -
  let ?c = "(snd s)\<lparr>channel := fst s\<rparr>"
  have ok: "conn_ok tid ?c" and sd: "same_dispatch (channel ?c) ch0" and al: "live \<Longrightarrow> alive ?c"
    and se: "settled ?c"
    using st by (auto simp: staged_def)
  have wrap: "guarantees (staged tid ch0 l) (bindo m (\<lambda>c. Ret (channel c, c)))"
    if "guarantees (\<lambda>c'. conn_ok tid c' \<and> same_dispatch (channel c') (channel ?c) \<and> settled c' \<and> (l \<longrightarrow> alive c')) m" for m l
    by (rule guarantees_bindo [OF that]) (use sd in \<open>auto simp: staged_def same_dispatch_def\<close>)
  show ?thesis
  proof (cases cb)
    case CbRead
    then show ?thesis using wrap [of False] tc_handleRead_ok [OF ok al sc rv] need
      by (simp add: conn_callback_def Let_def)
  next
    case CbWrite
    have "guarantees (\<lambda>c'. conn_ok tid c' \<and> same_dispatch (channel c') (channel ?c) \<and> settled c' \<and> (live \<longrightarrow> alive c')) (handleWrite tid wr ?c)"
      by (rule guarantees_mono [OF handleWrite_ok [OF ok wr]]) (use al se in \<open>auto simp: same_shell_def alive_def settled_def conn_notes_def\<close>)
    then show ?thesis using wrap CbWrite by (simp add: conn_callback_def Let_def)
  next
    case CbClose
    have "guarantees (\<lambda>c'. conn_ok tid c' \<and> same_dispatch (channel c') (channel ?c) \<and> settled c') (handleClose script tid ?c)"
      by (rule guarantees_mono [OF handleClose_ok [OF ok al sc]]) (use need CbClose in \<open>auto simp: settled_def\<close>)
    then show ?thesis using wrap [of False] CbClose by (simp add: conn_callback_def Let_def)
  next
    case CbError
    then show ?thesis using wrap [of live "Ret ?c"] ok al se
      by (simp add: conn_callback_def Let_def handleError_def same_dispatch_def)
  qed
qed

lemma staged_run_if:
  assumes "staged tid ch0 live s" and "script_ok script" "readv_spec readv" "write_spec wr"
    and "b \<Longrightarrow> cb = CbRead \<or> cb = CbClose \<Longrightarrow> live"
  shows "guarantees (staged tid ch0 (live \<and> (\<not> b \<or> cb = CbWrite \<or> cb = CbError)))
    (run_if b (conn_callback script tid readv wr) cb s)"
  using assms staged_callback [OF assms(1-4), of cb] by (auto simp: run_if_def)

text \<open>The last three steps of the dispatch, from the back.\<close>

lemma tail_write:
  assumes st: "staged tid ch0 live s" and sp: "script_ok script" "readv_spec readv" "write_spec wr"
  shows "guarantees (\<lambda>s. conn_ok tid ((snd s)\<lparr>channel := fst s\<rparr>) \<and> settled (snd s))
    (bindo (run_if (has_bits (revents (fst s)) POLLOUT \<and> writeCallback (fst s)) (conn_callback script tid readv wr) CbWrite s)
      (\<lambda>s. Ret ((fst s)\<lparr>eventHandling := False\<rparr>, snd s)))"
proof (rule guarantees_bindo [OF staged_run_if [OF st sp]])
  fix u assume "staged tid ch0 (live \<and> (\<not> (has_bits (revents (fst s)) POLLOUT \<and> writeCallback (fst s)) \<or>
      CbWrite = CbWrite \<or> CbWrite = CbError)) u"
  then have "conn_ok tid ((snd u)\<lparr>channel := fst u\<rparr>)" "settled (snd u)" by (simp_all add: staged_def)
  then show "guarantees (\<lambda>s. conn_ok tid ((snd s)\<lparr>channel := fst s\<rparr>) \<and> settled (snd s)) (Ret ((fst u)\<lparr>eventHandling := False\<rparr>, snd u))"
    using conn_ok_channel [of "(fst u)\<lparr>eventHandling := False\<rparr>" "fst u" tid "snd u"] by simp
qed simp

lemma tail_read:
  assumes st: "staged tid ch0 live s" and sp: "script_ok script" "readv_spec readv" "write_spec wr"
    and need: "has_bits (revents ch0) (POLLIN OR POLLPRI OR POLLRDHUP) \<Longrightarrow> live"
  shows "guarantees (\<lambda>s. conn_ok tid ((snd s)\<lparr>channel := fst s\<rparr>) \<and> settled (snd s))
    (bindo (run_if (has_bits (revents (fst s)) (POLLIN OR POLLPRI OR POLLRDHUP) \<and> readCallback (fst s))
       (conn_callback script tid readv wr) CbRead s) (\<lambda>s.
     bindo (run_if (has_bits (revents (fst s)) POLLOUT \<and> writeCallback (fst s)) (conn_callback script tid readv wr) CbWrite s)
      (\<lambda>s. Ret ((fst s)\<lparr>eventHandling := False\<rparr>, snd s))))"
proof (rule guarantees_bindo [OF staged_run_if [OF st sp] tail_write [OF _ sp]])
  have "revents (fst s) = revents ch0" using st by (simp add: staged_def same_dispatch_def)
  then show "live" if "has_bits (revents (fst s)) (POLLIN OR POLLPRI OR POLLRDHUP) \<and> readCallback (fst s)"
    using need that by simp
qed

lemma tail_error:
  assumes st: "staged tid ch0 live s" and sp: "script_ok script" "readv_spec readv" "write_spec wr"
    and need: "has_bits (revents ch0) (POLLIN OR POLLPRI OR POLLRDHUP) \<Longrightarrow> live"
  shows "guarantees (\<lambda>s. conn_ok tid ((snd s)\<lparr>channel := fst s\<rparr>) \<and> settled (snd s))
    (bindo (run_if (has_bits (revents (fst s)) (POLLERR OR POLLNVAL) \<and> errorCallback (fst s))
       (conn_callback script tid readv wr) CbError s) (\<lambda>s.
     bindo (run_if (has_bits (revents (fst s)) (POLLIN OR POLLPRI OR POLLRDHUP) \<and> readCallback (fst s))
       (conn_callback script tid readv wr) CbRead s) (\<lambda>s.
     bindo (run_if (has_bits (revents (fst s)) POLLOUT \<and> writeCallback (fst s)) (conn_callback script tid readv wr) CbWrite s)
      (\<lambda>s. Ret ((fst s)\<lparr>eventHandling := False\<rparr>, snd s)))))"
  by (rule guarantees_bindo [OF staged_run_if [OF st sp]], simp, rule tail_read [OF _ sp], assumption)
    (use need in simp)

lemma conn_event_ok:
  assumes ok: "conn_ok tid c" and al: "alive c" and sp: "script_ok script" "readv_spec readv" "write_spec wr"
    and safe: "safe_revents revs"
  shows "guarantees (\<lambda>c'. conn_ok tid c' \<and> settled c') (conn_event script tid readv wr revs c)"
proof -
  let ?ch = "(channel c)\<lparr>revents := revs\<rparr>"
  have st0: "staged tid ?ch True (?ch\<lparr>eventHandling := True\<rparr>, c)"
    using ok al conn_ok_channel [of "?ch\<lparr>eventHandling := True\<rparr>" "channel c" tid c]
    by (simp add: staged_def same_dispatch_def settled_def)
  have "guarantees (\<lambda>s. conn_ok tid ((snd s)\<lparr>channel := fst s\<rparr>) \<and> settled (snd s)) (handleEventWithGuard (conn_callback script tid readv wr) (?ch, c))"
    unfolding handleEventWithGuard_def Let_def fst_conv snd_conv
    by (rule guarantees_bindo [OF staged_run_if [OF st0 sp]], simp, rule tail_error [OF _ sp], assumption)
      (use safe in \<open>auto simp: safe_revents_def\<close>)
  then have "guarantees (\<lambda>s. conn_ok tid ((snd s)\<lparr>channel := fst s\<rparr>) \<and> settled (snd s)) (handleEvent True (conn_callback script tid readv wr) (?ch, c))"
    by (simp add: handleEvent_def)
  then show ?thesis unfolding conn_event_def by (rule guarantees_bindo) auto
qed

section \<open>The life of a connection\<close>

text \<open>Running a functor that a call posted to the loop. The two user notifications have no effect of
  their own here: what they call is an \<open>Api\<close> event.\<close>

fun run_posted ::
  "(conn_note \<Rightarrow> TcpConnection \<Rightarrow> conn_call list) \<Rightarrow> int \<Rightarrow> (char list \<Rightarrow> int + nat) \<Rightarrow> conn_functor \<Rightarrow>
    TcpConnection \<Rightarrow> TcpConnection outcome" where
  "run_posted script tid wr FWriteComplete c = Ret c"
| "run_posted script tid wr (FHighWater n) c = Ret c"
| "run_posted script tid wr FForceCloseInLoop c = forceCloseInLoop script tid c"
| "run_posted script tid wr (FForceCloseLater micros) c = Ret (forceClose c)"
| "run_posted script tid wr FShutdownInLoop c = shutdownInLoop tid c"
| "run_posted script tid wr (FSendInLoop data) c = sendInLoop tid data wr c"
| "run_posted script tid wr FStartRead c = startReadInLoop tid c"
| "run_posted script tid wr FStopRead c = stopReadInLoop tid c"

datatype conn_ev = Establish | Io events "nat list \<Rightarrow> int + char list" "char list \<Rightarrow> int + nat"
  | Posted conn_functor "char list \<Rightarrow> int + nat" | Api conn_call | Other int conn_call | Destroy

fun conn_step ::
  "(conn_note \<Rightarrow> TcpConnection \<Rightarrow> conn_call list) \<Rightarrow> int \<Rightarrow> conn_ev \<Rightarrow> TcpConnection \<Rightarrow> TcpConnection outcome" where
  "conn_step script tid Establish c = connectEstablished script tid c"
| "conn_step script tid (Io revs readv wr) c = conn_event script tid readv wr revs c"
| "conn_step script tid (Posted f wr) c = run_posted script tid wr f c"
| "conn_step script tid (Api x) c = conn_exec tid x c"
| "conn_step script tid (Other other x) c = conn_exec other x c"
| "conn_step script tid Destroy c = connectDestroyed script tid c"

text \<open>When an event can happen: the server establishes a connection once, the poller reports only
  channels with some interest (which only live connections have), reading is restarted only on
  live connections, and the owner destroys a connection that is connected or closed.\<close>

fun ev_ok :: "int \<Rightarrow> conn_ev \<Rightarrow> TcpConnection \<Rightarrow> bool" where
  "ev_ok tid Establish c = (state c = kConnecting)"
| "ev_ok tid (Io revs readv wr) c = (alive c \<and> safe_revents revs \<and> readv_spec readv \<and> write_spec wr)"
| "ev_ok tid (Posted f wr) c =
     (write_spec wr \<and> state c \<noteq> kConnecting \<and> (f = FStartRead \<longrightarrow> alive c) \<and>
      (\<forall>data. f = FSendInLoop data \<longrightarrow> length data \<le> vec_max))"
| "ev_ok tid (Api x) c = call_ok x c"
| "ev_ok tid (Other other x) c = (other \<noteq> tid \<and> (\<forall>n. x \<noteq> Consume n))"
| "ev_ok tid Destroy c = (state c = kConnected \<or> state c = kDisconnected)"

inductive conn_reach :: "(conn_note \<Rightarrow> TcpConnection \<Rightarrow> conn_call list) \<Rightarrow> int \<Rightarrow> TcpConnection \<Rightarrow> bool"
  for script tid where
  init: "new_TcpConnection tid sockfd = Ret c \<Longrightarrow> conn_reach script tid c"
| step: "conn_reach script tid c \<Longrightarrow> ev_ok tid ev c \<Longrightarrow> conn_step script tid ev c = Ret c' \<Longrightarrow> conn_reach script tid c'"

lemma new_TcpConnection_ok: "new_TcpConnection tid sockfd = Ret c \<Longrightarrow> conn_ok tid c"
  using new_Buffer_ok [of kInitialSize]
  by (auto simp: new_TcpConnection_def conn_ok_def conn_notes_def new_Channel_def interest_ok_def kInitialSize_def
      kCheapPrepend_def vec_max_def)

lemma connectEstablished_ok:
  assumes "conn_ok tid c" and "state c = kConnecting" and "script_ok script"
  shows "guarantees (\<lambda>c'. conn_ok tid c' \<and> alive c') (connectEstablished script tid c)"
proof -
  let ?c = "set_interest EnableReading (c\<lparr>state := kConnected, channel := Channel_tie (channel c)\<rparr>)"
  have "conn_ok tid (?c\<lparr>notified := notified ?c @ [NoteUp]\<rparr>)"
    using assms(1,2) by (auto simp: conn_ok_def conn_notes_def Channel_tie_def interest_ok_def isWriting_def has_bits_def poll_masks)
  from notify_ok [OF this assms(3)] show ?thesis
    using assms(1,2) conn_okD(1) [OF assms(1)]
    by (auto simp: connectEstablished_def alive_def call_step_def no_revival_def Let_def elim!: guarantees_mono)
qed

lemma connectDestroyed_ok:
  assumes ok: "conn_ok tid c" and st: "state c = kConnected \<or> state c = kDisconnected" and sc: "script_ok script"
  shows "guarantees (\<lambda>c'. conn_ok tid c' \<and> state c' = kDisconnected \<and> \<not> addedToLoop (channel c')) (connectDestroyed script tid c)"
proof -
  have fin: "guarantees (\<lambda>c'. conn_ok tid c' \<and> state c' = kDisconnected \<and> \<not> addedToLoop (channel c'))
      (require (isNoneEvent (channel d)) ''isNoneEvent()'' (Ret (d\<lparr>channel := (channel d)\<lparr>addedToLoop := False\<rparr>\<rparr>)))"
    if "conn_ok tid d" "state d = kDisconnected" for d
    using that by (simp add: conn_ok_def conn_notes_def isNoneEvent_def kNoneEvent_def)
  show ?thesis
  proof (cases "state c = kConnected")
    case True
    let ?c1 = "set_interest DisableAll (c\<lparr>state := kDisconnected\<rparr>)"
    have "conn_ok tid (?c1\<lparr>notified := notified ?c1 @ [NoteDown]\<rparr>)"
      using ok True by (simp add: conn_ok_def conn_notes_def interest_ok_def kNoneEvent_def)
    from notify_ok [OF this sc] have "guarantees (\<lambda>d. conn_ok tid d \<and> state d = kDisconnected) (notify script tid NoteDown ?c1)"
      by (auto simp: call_step_def no_revival_def elim: guarantees_mono)
    then show ?thesis using True conn_okD(1) [OF ok] fin
      by (auto simp: connectDestroyed_def intro: guarantees_bindo)
  next
    case False
    then show ?thesis using st conn_okD(1) [OF ok] fin [OF ok] by (simp add: connectDestroyed_def)
  qed
qed

text \<open>How an event other than the owner's two may move the state: not out of connecting, not out of
  disconnected, and a live connection stays alive or has called the close callback.\<close>

definition moves :: "TcpConnection \<Rightarrow> TcpConnection \<Rightarrow> bool" where
  "moves c c' \<longleftrightarrow> (state c = kConnecting \<longrightarrow> state c' = kConnecting) \<and>
     (state c = kDisconnected \<longrightarrow> state c' = kDisconnected \<and> conn_notes c' = conn_notes c) \<and>
     (alive c \<longrightarrow> settled c')"

lemma moves_calm:
  "no_revival c c' \<Longrightarrow> notified c' = notified c \<Longrightarrow> moves c c'"
  by (auto simp: moves_def no_revival_def settled_def alive_def conn_notes_def)

lemma moves_closed:
  "alive c \<Longrightarrow> conn_notes c' = [NoteUp, NoteDown, NoteClose] \<Longrightarrow> moves c c'"
  by (auto simp: moves_def settled_def alive_def)

lemma call_step_moves: "call_step tid c c' \<Longrightarrow> conn_ok tid c' \<and> moves c c'"
  by (auto simp: call_step_def moves_calm)

lemma other_thread_ok:
  assumes ok: "conn_ok tid c" and o: "other \<noteq> tid" "\<forall>n. x \<noteq> Consume n"
  shows "guarantees (\<lambda>c'. conn_ok tid c' \<and> moves c c') (conn_exec other x c)"
  using ok conn_ok_alive_state [of c tid kDisconnecting] conn_okD(1) [OF ok] o
  by (cases x) (auto simp: send_def shutdown_def forceClose_def forceCloseWithDelay_def startRead_def stopRead_def
      alive_def no_revival_def Let_def intro: moves_calm)

lemma run_posted_ok:
  assumes ok: "conn_ok tid c" and ev: "ev_ok tid (Posted f wr) c" and sc: "script_ok script"
  shows "guarantees (\<lambda>c'. conn_ok tid c' \<and> moves c c') (run_posted script tid wr f c)"
proof (cases f)
  case FForceCloseInLoop
  have "guarantees (\<lambda>c'. conn_ok tid c' \<and> moves c c') (handleClose script tid c)" if "alive c"
    by (rule guarantees_mono [OF handleClose_ok [OF ok that sc]]) (use moves_closed [OF that] in auto)
  then show ?thesis using FForceCloseInLoop ok conn_okD(1) [OF ok]
    by (auto simp: forceCloseInLoop_def alive_def no_revival_def intro: moves_calm)
next
  case (FSendInLoop data)
  show ?thesis
  proof (cases "alive c")
    case True
    have "guarantees (\<lambda>c'. conn_ok tid c' \<and> moves c c') (sendInLoop tid data wr c)"
      by (rule guarantees_mono [OF sendInLoop_ok [OF ok True]])
        (use ev FSendInLoop in \<open>auto simp: same_shell_def no_revival_def intro: moves_calm\<close>)
    then show ?thesis using FSendInLoop by simp
  next
    case False
    then have "state c = kDisconnected" using ev by (cases "state c") (auto simp: alive_def)
    then show ?thesis using FSendInLoop ok conn_okD(1) [OF ok] by (simp add: sendInLoop_def moves_def alive_def)
  qed
next
  case (FForceCloseLater m)
  then show ?thesis using ok conn_ok_alive_state [of c tid kDisconnecting]
    by (auto simp: forceClose_def alive_def no_revival_def intro: moves_calm)
next
  case FStartRead
  have "guarantees (\<lambda>c'. conn_ok tid c' \<and> moves c c') (conn_exec tid StartRead c)"
    by (rule guarantees_mono [OF conn_exec_ok [OF ok]]) (use ev FStartRead call_step_moves in auto)
  then show ?thesis using FStartRead conn_okD(1) [OF ok] by (simp add: startRead_def)
next
  case FStopRead
  have "guarantees (\<lambda>c'. conn_ok tid c' \<and> moves c c') (conn_exec tid StopRead c)"
    by (rule guarantees_mono [OF conn_exec_ok [OF ok]]) (use call_step_moves in auto)
  then show ?thesis using FStopRead conn_okD(1) [OF ok] by (simp add: stopRead_def)
qed (use ok conn_okD(1) [OF ok] in \<open>auto simp: shutdownInLoop_def no_revival_def intro: moves_calm\<close>)

lemma conn_step_moves:
  assumes ok: "conn_ok tid c" and ev: "ev_ok tid ev c" and sc: "script_ok script"
    and "ev \<noteq> Establish" "ev \<noteq> Destroy"
  shows "guarantees (\<lambda>c'. conn_ok tid c' \<and> moves c c') (conn_step script tid ev c)"
proof (cases ev)
  case (Io revs readv wr)
  then have al: "alive c" using ev by simp
  have "guarantees (\<lambda>c'. conn_ok tid c' \<and> settled c') (conn_step script tid ev c)"
    using Io conn_event_ok [OF ok _ sc] ev by simp
  then show ?thesis by (rule guarantees_mono) (use al in \<open>auto simp: moves_def alive_def\<close>)
next
  case (Posted f wr)
  then show ?thesis using run_posted_ok [OF ok _ sc] ev by simp
next
  case (Api x)
  have "guarantees (call_step tid c) (conn_step script tid ev c)" using Api conn_exec_ok [OF ok, of x] ev by simp
  then show ?thesis by (rule guarantees_mono) (rule call_step_moves)
next
  case (Other t x)
  then show ?thesis using other_thread_ok [OF ok, of t x] ev by simp
qed (use assms in auto)

lemma conn_step_ok:
  assumes ok: "conn_ok tid c" and ev: "ev_ok tid ev c" and sc: "script_ok script"
  shows "guarantees (conn_ok tid) (conn_step script tid ev c)"
proof (cases "ev = Establish \<or> ev = Destroy")
  case True
  then show ?thesis using connectEstablished_ok [OF ok _ sc] connectDestroyed_ok [OF ok _ sc] ev
    by (auto elim: guarantees_mono)
next
  case False
  then show ?thesis using conn_step_moves [OF ok ev sc] by (auto elim: guarantees_mono)
qed

lemma conn_reach_ok:
  assumes "conn_reach script tid c" and "script_ok script"
  shows "conn_ok tid c"
  using assms(1)
proof induction
  case (init sockfd c)
  then show ?case by (rule new_TcpConnection_ok)
next
  case (step c ev c')
  then show ?case using conn_step_ok [OF _ step.hyps(2) assms(2)] by (metis guarantees_simps(1))
qed

section \<open>Properties\<close>


definition demo_conn :: TcpConnection where
  "demo_conn = \<lparr>tc_threadId = 1, state = kConnecting, reading = True,
     channel = (new_Channel 5)\<lparr>readCallback := True, writeCallback := True, closeCallback := True, errorCallback := True\<rparr>,
     writeCompleteCallback = False, highWaterMarkCallback = False, highWaterMark = 64 * 1024 * 1024,
     inputBuffer = \<lparr>buffer = replicate 1032 (CHR 0x00), readerIndex = 8, writerIndex = 8\<rparr>,
     outputBuffer = \<lparr>buffer = replicate 1032 (CHR 0x00), readerIndex = 8, writerIndex = 8\<rparr>,
     wire = [], fin = False, posted = [], notified = []\<rparr>"

lemma demo_conn_new: "new_TcpConnection 1 5 = Ret demo_conn"
  by (simp add: new_TcpConnection_def demo_conn_def new_Buffer_def kInitialSize_def kCheapPrepend_def vec_resize_def
      vec_max_def wadd_def readableBytes_def writableBytes_def prependableBytes_def wsub_def Let_def)


datatype out_op = SendOp "char list" "char list \<Rightarrow> int + nat" | WritableOp "char list \<Rightarrow> int + nat"

fun out_step :: "int \<Rightarrow> out_op \<Rightarrow> TcpConnection \<Rightarrow> TcpConnection outcome" where
  "out_step tid (SendOp data wr) c = sendInLoop tid data wr c"
| "out_step tid (WritableOp wr) c = handleWrite tid wr c"

fun out_data :: "out_op \<Rightarrow> char list" where
  "out_data (SendOp data wr) = data"
| "out_data (WritableOp wr) = []"

fun out_ok :: "out_op \<Rightarrow> bool" where
  "out_ok (SendOp data wr) = (write_spec wr \<and> length data \<le> vec_max \<and> wr data \<notin> {Inl EPIPE, Inl ECONNRESET})"
| "out_ok (WritableOp wr) = write_spec wr"

lemma out_step_ok:
  assumes "conn_ok tid c" and "alive c" and "out_ok x"
  shows "guarantees (\<lambda>c'. conn_ok tid c' \<and> alive c' \<and> stream c' = stream c @ out_data x) (out_step tid x c)"
proof (cases x)
  case (SendOp data wr)
  then show ?thesis using sendInLoop_ok [OF assms(1,2), of wr data] assms(2,3)
    by (auto simp: alive_def elim!: guarantees_mono)
next
  case (WritableOp wr)
  then show ?thesis using handleWrite_ok [OF assms(1), of wr] assms(2,3)
    by (auto simp: alive_def elim!: guarantees_mono)
qed

lemma out_steps_ok:
  assumes "conn_ok tid c" and "alive c" and "list_all out_ok xs"
  shows "guarantees (\<lambda>c'. conn_ok tid c' \<and> alive c' \<and> stream c' = stream c @ concat (map out_data xs))
    (foldo (out_step tid) xs c)"
  using assms
proof (induction xs arbitrary: c)
  case (Cons x xs)
  have "guarantees (\<lambda>c'. conn_ok tid c' \<and> alive c' \<and> stream c' = stream c @ out_data x) (out_step tid x c)"
    using out_step_ok Cons.prems by simp
  then show ?case unfolding foldo.simps
  proof (rule guarantees_bindo)
    fix d assume d: "conn_ok tid d \<and> alive d \<and> stream d = stream c @ out_data x"
    have "guarantees (\<lambda>c'. conn_ok tid c' \<and> alive c' \<and> stream c' = stream d @ concat (map out_data xs))
        (foldo (out_step tid) xs d)"
      using Cons.IH [of d] Cons.prems(3) d by simp
    then show "guarantees (\<lambda>c'. conn_ok tid c' \<and> alive c' \<and> stream c' = stream c @ concat (map out_data (x # xs)))
        (foldo (out_step tid) xs d)"
      by (rule guarantees_mono) (use d in simp)
  qed
qed simp

text \<open>C11: bytes leave in the order they were sent: on a live connection any interleaving of sends and
  write events keeps what the kernel accepted followed by the output buffer equal to the earlier
  stream followed by all messages, provided no direct write hits a broken pipe.\<close>

theorem stream_in_order:
  assumes "conn_ok tid c" and "alive c" and "list_all out_ok xs"
  shows "guarantees (\<lambda>c'. conn_ok tid c' \<and> alive c' \<and> stream c' = stream c @ concat (map out_data xs))
    (foldo (out_step tid) xs c)"
  using assms by (rule out_steps_ok)

definition demo_up :: TcpConnection where
  "demo_up = demo_conn\<lparr>state := kConnected, channel := (channel demo_conn)\<lparr>events := 3, addedToLoop := True\<rparr>, notified := [NoteUp]\<rparr>"

lemma demo_up_ok: "conn_ok 1 demo_up" "alive demo_up"
  by (simp_all add: demo_up_def demo_conn_def conn_ok_def conn_notes_def alive_def buffer_ok_def kCheapPrepend_def vec_max_def
      interest_ok_def new_Channel_def isWriting_def has_bits_def poll_masks content_def buf_slice_def peek_def beginWrite_def)

text \<open>A kernel that takes at most two bytes at a time.\<close>

definition two_bytes :: "char list \<Rightarrow> int + nat" where
  "two_bytes data = Inr (min 2 (length data))"

lemma two_bytes_spec: "write_spec two_bytes"
  by (simp add: write_spec_def two_bytes_def)

theorem stream_in_order_witness:
  "guarantees (\<lambda>c'. conn_ok 1 c' \<and> alive c' \<and> stream c' = stream demo_up @ ''hello, world'')
    (foldo (out_step 1) [SendOp ''hello'' two_bytes, WritableOp two_bytes, SendOp '', world'' two_bytes] demo_up)"
  using stream_in_order [OF demo_up_ok, of "[SendOp ''hello'' two_bytes, WritableOp two_bytes, SendOp '', world'' two_bytes]"]
    two_bytes_spec
  by (simp add: vec_max_def two_bytes_def)



text \<open>C30: a connection that is half closed (shutdown called, peer not yet gone) cannot be destroyed:
  connectDestroyed leaves its interest set alone in that state and fails the assertion of
  Channel::remove, so a server destroyed at that moment aborts.\<close>

theorem destroy_while_disconnecting:
  assumes "conn_ok tid c" and "state c = kDisconnecting" and "isReading (channel c)"
  shows "connectDestroyed script tid c = Abort (AssertFail ''isNoneEvent()'')"
proof -
  have "\<not> isNoneEvent (channel c)"
    using assms(3) by (auto simp: isNoneEvent_def isReading_def has_bits_def kNoneEvent_def)
  then show ?thesis using assms(2) conn_okD(1) [OF assms(1)] by (simp add: connectDestroyed_def)
qed

theorem destroy_while_disconnecting_witness:
  "\<exists>c. shutdown 1 demo_up = Ret c \<and> connectDestroyed (\<lambda>note c. []) 1 c = Abort (AssertFail ''isNoneEvent()'')"
proof -
  let ?c = "demo_up\<lparr>state := kDisconnecting, fin := True\<rparr>"
  have "shutdown 1 demo_up = Ret ?c"
    by (simp add: shutdown_def shutdownInLoop_def demo_up_def demo_conn_def new_Channel_def isWriting_def has_bits_def poll_masks)
  moreover have "conn_ok 1 ?c"
    using demo_up_ok conn_ok_alive_state [of demo_up 1 kDisconnecting] by simp
  moreover have "isReading (channel ?c)"
    by (simp add: demo_up_def demo_conn_def new_Channel_def isReading_def has_bits_def poll_masks)
  ultimately show ?thesis using destroy_while_disconnecting [of 1 ?c "\<lambda>note c. []"] by auto
qed

end
