(* ===== verification/EventLoopThreads.thy ===== *)
theory EventLoopThreads
  imports EventLoops
begin

text \<open>
  \<^verbatim>\<open>muduo/net/EventLoopThread.{h,cc}\<close> and \<^verbatim>\<open>muduo/net/EventLoopThreadPool.{h,cc}\<close>: a thread that runs
  an event loop, and the pool that hands out loops.

  A loop is named by the id of the thread that owns it. The handshake between \<^verbatim>\<open>startLoop\<close> and
  \<^verbatim>\<open>threadFunc\<close> is a step relation over the mutex-protected member \<^verbatim>\<open>loop_\<close>; the pool's operations
  are functions.
\<close>

section \<open>A thread with a loop\<close>

datatype owner_pc = Before | Waiting | Started int
datatype thread_pc = NotRunning | Initialising | Looping | Exited

record EventLoopThread =
  loop_ptr :: "int option"
  exiting :: bool
  thread_started :: bool
  elt_callback :: bool
  owner :: owner_pc
  thread_pc :: thread_pc
  callback_runs :: nat

definition new_EventLoopThread :: "bool \<Rightarrow> EventLoopThread" where
  "new_EventLoopThread cb =
     \<lparr>loop_ptr = None, exiting = False, thread_started = False, elt_callback = cb, owner = Before,
      thread_pc = NotRunning, callback_runs = 0\<rparr>"

text \<open>\<^verbatim>\<open>startLoop\<close> up to the wait, and the wait's return: the predicate \<^verbatim>\<open>loop_ == NULL\<close> is tested again
  under the mutex after every wakeup.\<close>

definition startLoop_begin :: "EventLoopThread \<Rightarrow> EventLoopThread outcome" where
  "startLoop_begin t =
     require (\<not> thread_started t) ''!thread_.isStarted()''
       (Ret (t\<lparr>thread_started := True, thread_pc := Initialising, owner := Waiting\<rparr>))"

definition startLoop_wait :: "EventLoopThread \<Rightarrow> EventLoopThread" where
  "startLoop_wait t = (case loop_ptr t of None \<Rightarrow> t | Some l \<Rightarrow> t\<lparr>owner := Started l\<rparr>)"

text \<open>\<^verbatim>\<open>threadFunc\<close>: the initialisation callback, then publishing the loop; \<open>tid\<close> is the new thread.\<close>

definition threadFunc_publish :: "int \<Rightarrow> EventLoopThread \<Rightarrow> EventLoopThread" where
  "threadFunc_publish tid t =
     (let t = (if elt_callback t then t\<lparr>callback_runs := callback_runs t + 1\<rparr> else t)
      in t\<lparr>loop_ptr := Some tid, thread_pc := Looping\<rparr>)"

definition threadFunc_exit :: "EventLoopThread \<Rightarrow> EventLoopThread" where
  "threadFunc_exit t = t\<lparr>loop_ptr := None, thread_pc := Exited\<rparr>"

text \<open>The destructor: whether it calls \<^verbatim>\<open>quit\<close> and joins.\<close>

definition delete_EventLoopThread :: "EventLoopThread \<Rightarrow> bool \<times> EventLoopThread" where
  "delete_EventLoopThread t = (loop_ptr t \<noteq> None, t\<lparr>exiting := True\<rparr>)"

inductive elt_step :: "int \<Rightarrow> EventLoopThread \<Rightarrow> EventLoopThread \<Rightarrow> bool" for tid where
  start: "owner t = Before \<Longrightarrow> startLoop_begin t = Ret t' \<Longrightarrow> elt_step tid t t'"
| wait: "owner t = Waiting \<Longrightarrow> elt_step tid t (startLoop_wait t)"
| publish: "thread_pc t = Initialising \<Longrightarrow> elt_step tid t (threadFunc_publish tid t)"
| exit: "thread_pc t = Looping \<Longrightarrow> elt_step tid t (threadFunc_exit t)"

inductive elt_reach :: "int \<Rightarrow> bool \<Rightarrow> EventLoopThread \<Rightarrow> bool" for tid cb where
  init: "elt_reach tid cb (new_EventLoopThread cb)"
| step: "elt_reach tid cb t \<Longrightarrow> elt_step tid t t' \<Longrightarrow> elt_reach tid cb t'"

definition elt_inv :: "int \<Rightarrow> bool \<Rightarrow> EventLoopThread \<Rightarrow> bool" where
  "elt_inv tid cb t \<longleftrightarrow> loop_ptr t = (if thread_pc t = Looping then Some tid else None) \<and>
     elt_callback t = cb \<and>
     callback_runs t = (if cb \<and> thread_pc t \<in> {Looping, Exited} then 1 else 0) \<and>
     (thread_pc t = NotRunning) = (owner t = Before) \<and> thread_started t = (owner t \<noteq> Before) \<and>
     (\<forall>l. owner t = Started l \<longrightarrow> l = tid \<and> thread_pc t \<in> {Looping, Exited})"

lemma elt_reach_inv: "elt_reach tid cb t \<Longrightarrow> elt_inv tid cb t"
proof (induction rule: elt_reach.induct)
  case init
  then show ?case by (simp add: elt_inv_def new_EventLoopThread_def)
next
  case (step t t')
  from step.hyps(2) step.IH show ?case
    by (cases rule: elt_step.cases)
      (auto simp: elt_inv_def startLoop_begin_def startLoop_wait_def threadFunc_publish_def threadFunc_exit_def
        outcome_simps Let_def split: if_splits option.splits)
qed

section \<open>The pool\<close>

record EventLoopThreadPool =
  baseLoop :: int
  pool_name :: string
  pool_started :: bool
  numThreads :: int
  next_loop :: int
  thread_names :: "string list"
  loops :: "int list"
  init_calls :: "int list"

definition new_EventLoopThreadPool :: "int \<Rightarrow> string \<Rightarrow> EventLoopThreadPool" where
  "new_EventLoopThreadPool base name =
     \<lparr>baseLoop = base, pool_name = name, pool_started = False, numThreads = 0, next_loop = 0,
      thread_names = [], loops = [], init_calls = []\<rparr>"

definition setThreadNum :: "int \<Rightarrow> EventLoopThreadPool \<Rightarrow> EventLoopThreadPool" where
  "setThreadNum n p = p\<lparr>numThreads := n\<rparr>"

text \<open>\<open>spawn i\<close> is the thread id of the loop that \<^verbatim>\<open>startLoop\<close> of the \<open>i\<close>-th thread returns; its
  initialisation callback runs there.\<close>

definition start_thread :: "(int \<Rightarrow> int) \<Rightarrow> bool \<Rightarrow> int \<Rightarrow> EventLoopThreadPool \<Rightarrow> EventLoopThreadPool" where
  "start_thread spawn cb i p =
     p\<lparr>thread_names := thread_names p @ [snprintf (length (pool_name p) + 32) (pool_name p @ dec_int i)],
       loops := loops p @ [spawn i],
       init_calls := (if cb then init_calls p @ [spawn i] else init_calls p)\<rparr>"

definition pool_start :: "int \<Rightarrow> (int \<Rightarrow> int) \<Rightarrow> bool \<Rightarrow> EventLoopThreadPool \<Rightarrow> EventLoopThreadPool outcome" where
  "pool_start tid spawn cb p =
     require (\<not> pool_started p) ''!started_''
     (assertInLoopThread tid (baseLoop p)
     (let p = fold (start_thread spawn cb) [0 .. numThreads p - 1] (p\<lparr>pool_started := True\<rparr>)
      in Ret (if numThreads p = 0 \<and> cb then p\<lparr>init_calls := init_calls p @ [baseLoop p]\<rparr> else p)))"

definition getNextLoop :: "int \<Rightarrow> EventLoopThreadPool \<Rightarrow> (int \<times> EventLoopThreadPool) outcome" where
  "getNextLoop tid p =
     assertInLoopThread tid (baseLoop p)
     (require (pool_started p) ''started_''
     (if loops p \<noteq> []
      then if 0 \<le> next_loop p \<and> nat (next_loop p) < length (loops p)
           then let loop = loops p ! nat (next_loop p);
                    p = p\<lparr>next_loop := next_loop p + 1\<rparr>
                in Ret (loop, if nat (next_loop p) \<ge> length (loops p) then p\<lparr>next_loop := 0\<rparr> else p)
           else Abort (Undefined ''loops_[next_]'')
      else Ret (baseLoop p, p)))"

definition getLoopForHash :: "int \<Rightarrow> nat \<Rightarrow> EventLoopThreadPool \<Rightarrow> int outcome" where
  "getLoopForHash tid hashCode p =
     assertInLoopThread tid (baseLoop p)
     (Ret (if loops p \<noteq> [] then loops p ! (hashCode mod length (loops p)) else baseLoop p))"

definition getAllLoops :: "int \<Rightarrow> EventLoopThreadPool \<Rightarrow> int list outcome" where
  "getAllLoops tid p =
     assertInLoopThread tid (baseLoop p)
     (require (pool_started p) ''started_'' (Ret (if loops p = [] then [baseLoop p] else loops p)))"

section \<open>Round robin\<close>

definition pool_loops :: "EventLoopThreadPool \<Rightarrow> int list" where
  "pool_loops p = (if loops p = [] then [baseLoop p] else loops p)"

definition pool_ok :: "EventLoopThreadPool \<Rightarrow> bool" where
  "pool_ok p \<longleftrightarrow> pool_started p \<and> 0 \<le> next_loop p \<and> (loops p \<noteq> [] \<longrightarrow> nat (next_loop p) < length (loops p))"

lemma fold_start_thread:
  "fold (start_thread spawn cb) is p =
     p\<lparr>thread_names := thread_names p @ map (\<lambda>i. snprintf (length (pool_name p) + 32) (pool_name p @ dec_int i)) is,
       loops := loops p @ map spawn is, init_calls := init_calls p @ (if cb then map spawn is else [])\<rparr>"
  by (induction "is" arbitrary: p) (simp_all add: start_thread_def)

lemma pool_start_ok:
  assumes "pool_start tid spawn cb (setThreadNum n (new_EventLoopThreadPool tid name)) = Ret p"
  shows "pool_ok p" "loops p = map spawn [0 .. n - 1]" "next_loop p = 0" "baseLoop p = tid"
  using assms
  by (auto simp: pool_start_def fold_start_thread setThreadNum_def new_EventLoopThreadPool_def pool_ok_def Let_def)

lemma getNextLoop_ok:
  assumes "pool_ok p"
  shows "\<exists>p'. getNextLoop (baseLoop p) p = Ret (pool_loops p ! (nat (next_loop p) mod length (pool_loops p)), p') \<and>
    pool_ok p' \<and> loops p' = loops p \<and> baseLoop p' = baseLoop p \<and>
    nat (next_loop p') mod length (pool_loops p) = Suc (nat (next_loop p)) mod length (pool_loops p)"
proof -
  have "nat (next_loop p + 1) = Suc (nat (next_loop p))" using assms unfolding pool_ok_def by linarith
  then show ?thesis using assms
    by (auto simp: getNextLoop_def pool_ok_def pool_loops_def Let_def not_le le_Suc_eq)
qed

fun getNextLoops :: "int \<Rightarrow> nat \<Rightarrow> EventLoopThreadPool \<Rightarrow> (int list \<times> EventLoopThreadPool) outcome" where
  "getNextLoops tid 0 p = Ret ([], p)"
| "getNextLoops tid (Suc k) p = bindo (getNextLoop tid p) (\<lambda>(l, p).
     bindo (getNextLoops tid k p) (\<lambda>(ls, p). Ret (l # ls, p)))"

lemma getNextLoops_ok:
  assumes "pool_ok p"
  shows "\<exists>p'. getNextLoops (baseLoop p) k p =
    Ret (map (\<lambda>i. pool_loops p ! ((nat (next_loop p) + i) mod length (pool_loops p))) [0 ..< k], p') \<and> pool_ok p'"
  using assms
proof (induction k arbitrary: p)
  case (Suc k)
  let ?n = "length (pool_loops p)"
  obtain q where q: "getNextLoop (baseLoop p) p = Ret (pool_loops p ! (nat (next_loop p) mod ?n), q)" "pool_ok q"
    "loops q = loops p" "baseLoop q = baseLoop p" "nat (next_loop q) mod ?n = Suc (nat (next_loop p)) mod ?n"
    using getNextLoop_ok [OF Suc.prems] by blast
  then have same: "pool_loops q = pool_loops p" by (simp add: pool_loops_def)
  from Suc.IH [OF q(2)] obtain r where
    r: "getNextLoops (baseLoop p) k q = Ret (map (\<lambda>i. pool_loops p ! ((nat (next_loop q) + i) mod ?n)) [0 ..< k], r)" "pool_ok r"
    unfolding q(4) same by blast
  have "(nat (next_loop q) + i) mod ?n = (nat (next_loop p) + Suc i) mod ?n" for i
    using q(5) by (metis add_Suc_shift mod_add_left_eq)
  then show ?case using q(1) r
    by (simp add: map_upt_Suc del: upt_Suc)
qed simp

text \<open>A started pool of n > 0 threads hands out its loops in strict rotation: call number k of
  getNextLoop returns the loop of thread k mod n; without threads it always returns the base loop.\<close>

theorem getNextLoop_round_robin:
  assumes "pool_start tid spawn cb (setThreadNum n (new_EventLoopThreadPool tid name)) = Ret p" and "0 \<le> n"
  shows "\<exists>p'. getNextLoops tid k p =
    Ret (map (\<lambda>i. if n = 0 then tid else spawn (int i mod n)) [0 ..< k], p')"
proof -
  note p = pool_start_ok [OF assms(1)]
  obtain p' where p': "getNextLoops tid k p = Ret (map (\<lambda>i. pool_loops p ! (i mod length (pool_loops p))) [0 ..< k], p')"
    using getNextLoops_ok [OF p(1), of k] p(3,4) by auto
  have "pool_loops p ! (i mod length (pool_loops p)) = (if n = 0 then tid else spawn (int i mod n))" for i
  proof (cases "n = 0")
    case False
    then have n: "0 < nat n" using assms(2) by simp
    have "length (pool_loops p) = nat n" using p(2) n by (simp add: pool_loops_def)
    moreover have "[0 .. n - 1] ! (i mod nat n) = int i mod n"
      using n assms(2) by (simp add: nth_upto zmod_int)
    moreover have "loops p = map spawn [0 .. n - 1]" "loops p \<noteq> []" using p(2) n by auto
    ultimately show ?thesis using False n by (simp add: pool_loops_def)
  qed (use p(2,4) in \<open>simp add: pool_loops_def\<close>)
  then show ?thesis using p' by simp
qed

theorem getNextLoop_round_robin_witness:
  "\<exists>p p'. pool_start 1 (\<lambda>i. 100 + i) True (setThreadNum 3 (new_EventLoopThreadPool 1 ''io'')) = Ret p \<and>
     getNextLoops 1 5 p = Ret ([100, 101, 102, 100, 101], p')"
proof -
  obtain p where p: "pool_start 1 (\<lambda>i. 100 + i) True (setThreadNum 3 (new_EventLoopThreadPool 1 ''io'')) = Ret p"
    by (simp add: pool_start_def setThreadNum_def new_EventLoopThreadPool_def Let_def)
  with getNextLoop_round_robin [OF p, of 5] show ?thesis by (auto simp: upt_rec)
qed

text \<open>StartLoop returns only after the new thread has run its initialisation callback and published
  its loop, and it returns that thread's loop.\<close>

theorem startLoop_handshake:
  assumes "elt_reach tid cb t" and "owner t = Started l"
  shows "l = tid \<and> callback_runs t = (if cb then 1 else 0) \<and> thread_pc t \<in> {Looping, Exited}"
  using elt_reach_inv [OF assms(1)] assms(2) by (auto simp: elt_inv_def)

theorem startLoop_handshake_witness:
  "\<exists>t. elt_reach 7 True t \<and> owner t = Started 7 \<and> callback_runs t = 1"
proof -
  let ?t0 = "new_EventLoopThread True"
  let ?t1 = "?t0\<lparr>thread_started := True, thread_pc := Initialising, owner := Waiting\<rparr>"
  let ?t3 = "threadFunc_publish 7 (startLoop_wait ?t1)"
  have "elt_reach 7 True ?t1"
    by (rule elt_reach.step [OF elt_reach.init elt_step.start])
      (simp_all add: new_EventLoopThread_def startLoop_begin_def)
  then have "elt_reach 7 True (startLoop_wait ?t1)"
    by (rule elt_reach.step [OF _ elt_step.wait]) simp
  then have "elt_reach 7 True ?t3"
    by (rule elt_reach.step [OF _ elt_step.publish])
      (simp add: startLoop_wait_def new_EventLoopThread_def)
  then have r: "elt_reach 7 True (startLoop_wait ?t3)"
    by (rule elt_reach.step [OF _ elt_step.wait])
      (simp add: startLoop_wait_def threadFunc_publish_def new_EventLoopThread_def)
  moreover have o: "owner (startLoop_wait ?t3) = Started 7"
    by (simp add: startLoop_wait_def threadFunc_publish_def new_EventLoopThread_def)
  ultimately show ?thesis using startLoop_handshake [OF r o] by auto
qed

end
