(* ===== verification/Sockets.thy ===== *)
theory Sockets
  imports ByteOrder
begin

text \<open>
  \<^verbatim>\<open>muduo/net/SocketsOps.{h,cc}\<close> and \<^verbatim>\<open>muduo/net/InetAddress.{h,cc}\<close>: socket addresses, their
  printed form, and the classification of \<^verbatim>\<open>accept\<close> errors.

  The union of \<^verbatim>\<open>sockaddr_in\<close> and \<^verbatim>\<open>sockaddr_in6\<close> is a datatype whose constructor is the family; ports
  and addresses are in network byte order. IPv4 printing and parsing (\<^verbatim>\<open>inet_ntop\<close>, \<^verbatim>\<open>inet_pton\<close>) are
  defined here, their IPv6 versions are parameters.
\<close>

section \<open>Addresses\<close>

datatype InetAddress =
    Sockaddr_in "16 word" "32 word"
  | Sockaddr_in6 "16 word" "char list" "32 word"

definition kInaddrAny :: "32 word" where "kInaddrAny = 0"
definition kInaddrLoopback :: "32 word" where "kInaddrLoopback = 0x7F000001"

definition in6addr_any :: "char list" where "in6addr_any = replicate 16 (CHR 0x00)"
definition in6addr_loopback :: "char list" where "in6addr_loopback = replicate 15 (CHR 0x00) @ [CHR 0x01]"

definition new_InetAddress :: "16 word \<Rightarrow> bool \<Rightarrow> bool \<Rightarrow> InetAddress" where
  "new_InetAddress portArg loopbackOnly ipv6 =
     (if ipv6 then Sockaddr_in6 (hostToNetwork16 portArg) (if loopbackOnly then in6addr_loopback else in6addr_any) 0
      else Sockaddr_in (hostToNetwork16 portArg) (hostToNetwork32 (if loopbackOnly then kInaddrLoopback else kInaddrAny)))"

fun portNetEndian :: "InetAddress \<Rightarrow> 16 word" where
  "portNetEndian (Sockaddr_in p a) = p"
| "portNetEndian (Sockaddr_in6 p a s) = p"

definition port :: "InetAddress \<Rightarrow> 16 word" where
  "port a = networkToHost16 (portNetEndian a)"

fun ipv4NetEndian :: "InetAddress \<Rightarrow> 32 word outcome" where
  "ipv4NetEndian (Sockaddr_in p a) = Ret a"
| "ipv4NetEndian (Sockaddr_in6 p a s) = Abort (AssertFail ''family() == AF_INET'')"

fun setScopeId :: "32 word \<Rightarrow> InetAddress \<Rightarrow> InetAddress" where
  "setScopeId scope_id (Sockaddr_in6 p a s) = Sockaddr_in6 p a scope_id"
| "setScopeId scope_id (Sockaddr_in p a) = Sockaddr_in p a"

text \<open>\<^verbatim>\<open>resolve\<close> writes only the IPv4 address field; \<open>he\<close> is what \<^verbatim>\<open>gethostbyname_r\<close> found. On a
  \<^verbatim>\<open>sockaddr_in6\<close> that field overlays the flow information, which the model does not keep.\<close>

fun resolve :: "32 word option \<Rightarrow> InetAddress \<Rightarrow> bool \<times> InetAddress" where
  "resolve (Some ip) (Sockaddr_in p a) = (True, Sockaddr_in p ip)"
| "resolve (Some ip) (Sockaddr_in6 p a s) = (True, Sockaddr_in6 p a s)"
| "resolve None out = (False, out)"

section \<open>Printing\<close>

text \<open>\<^verbatim>\<open>inet_ntop(AF_INET, ...)\<close> prints the four bytes as they lie in memory.\<close>

fun join_dots :: "string list \<Rightarrow> string" where
  "join_dots [] = []"
| "join_dots [x] = x"
| "join_dots (x # y # xs) = x @ CHR ''.'' # join_dots (y # xs)"

definition inet_ntop4 :: "32 word \<Rightarrow> string" where
  "inet_ntop4 a = join_dots (map (\<lambda>c. dec_nat (of_char c)) (le_bytes 4 (unat a)))"

definition INET_ADDRSTRLEN :: nat where "INET_ADDRSTRLEN = 16"
definition INET6_ADDRSTRLEN :: nat where "INET6_ADDRSTRLEN = 46"

fun sockets_toIp :: "(char list \<Rightarrow> string) \<Rightarrow> nat \<Rightarrow> InetAddress \<Rightarrow> string outcome" where
  "sockets_toIp ntop6 n (Sockaddr_in p a) =
     require (n \<ge> INET_ADDRSTRLEN) ''size >= INET_ADDRSTRLEN'' (Ret (inet_ntop4 a))"
| "sockets_toIp ntop6 n (Sockaddr_in6 p a s) =
     require (n \<ge> INET6_ADDRSTRLEN) ''size >= INET6_ADDRSTRLEN'' (Ret (ntop6 a))"

fun sockets_toIpPort :: "(char list \<Rightarrow> string) \<Rightarrow> nat \<Rightarrow> InetAddress \<Rightarrow> string outcome" where
  "sockets_toIpPort ntop6 n (Sockaddr_in6 p a s) =
     bindo (sockets_toIp ntop6 (n - 1) (Sockaddr_in6 p a s)) (\<lambda>ip.
       let buf = CHR ''['' # ip; end = length buf
       in require (n > end) ''size > end''
            (Ret (buf @ snprintf (n - end) ('']:'' @ dec_nat (unat (networkToHost16 p))))))"
| "sockets_toIpPort ntop6 n (Sockaddr_in p a) =
     bindo (sockets_toIp ntop6 n (Sockaddr_in p a)) (\<lambda>buf.
       let end = length buf
       in require (n > end) ''size > end''
            (Ret (buf @ snprintf (n - end) ('':'' @ dec_nat (unat (networkToHost16 p))))))"

definition toIp :: "(char list \<Rightarrow> string) \<Rightarrow> InetAddress \<Rightarrow> string outcome" where
  "toIp ntop6 a = sockets_toIp ntop6 64 a"

definition toIpPort :: "(char list \<Rightarrow> string) \<Rightarrow> InetAddress \<Rightarrow> string outcome" where
  "toIpPort ntop6 a = sockets_toIpPort ntop6 64 a"

section \<open>Parsing\<close>

fun split_at :: "'a \<Rightarrow> 'a list \<Rightarrow> 'a list list" where
  "split_at d [] = [[]]"
| "split_at d (c # cs) =
     (if c = d then [] # split_at d cs
      else case split_at d cs of [] \<Rightarrow> [[c]] | w # ws \<Rightarrow> (c # w) # ws)"

text \<open>\<^verbatim>\<open>inet_pton(AF_INET, ...)\<close>: four decimal numbers up to 255, without leading zeros.\<close>

definition octet :: "string \<Rightarrow> nat option" where
  "octet s = (if s \<noteq> [] \<and> length s \<le> 3 \<and> list_all (\<lambda>c. 48 \<le> (of_char c :: nat) \<and> (of_char c :: nat) \<le> 57) s \<and>
       (length s > 1 \<longrightarrow> hd s \<noteq> CHR ''0'') \<and> dec_val 0 s \<le> 255 then Some (dec_val 0 s) else None)"

definition inet_pton4 :: "string \<Rightarrow> 32 word option" where
  "inet_pton4 s = (case map octet (split_at CHR ''.'' s) of
      [Some a, Some b, Some c, Some d] \<Rightarrow> Some (word_of_nat (le_val (map char_of [a, b, c, d])))
    | _ \<Rightarrow> None)"

text \<open>An address that does not parse leaves the zeroed field (and a log line).\<close>

definition fromIpPort :: "string \<Rightarrow> 16 word \<Rightarrow> InetAddress" where
  "fromIpPort ip p = Sockaddr_in (hostToNetwork16 p) (case inet_pton4 ip of None \<Rightarrow> 0 | Some a \<Rightarrow> a)"

definition fromIpPort6 :: "(string \<Rightarrow> char list option) \<Rightarrow> string \<Rightarrow> 16 word \<Rightarrow> InetAddress" where
  "fromIpPort6 pton6 ip p =
     Sockaddr_in6 (hostToNetwork16 p) (case pton6 ip of None \<Rightarrow> replicate 16 (CHR 0x00) | Some a \<Rightarrow> a) 0"

definition InetAddress_of_string :: "(string \<Rightarrow> char list option) \<Rightarrow> string \<Rightarrow> 16 word \<Rightarrow> bool \<Rightarrow> InetAddress" where
  "InetAddress_of_string pton6 ip p ipv6 =
     (if ipv6 \<or> CHR '':'' \<in> set ip then fromIpPort6 pton6 ip p else fromIpPort ip p)"

section \<open>Socket calls\<close>

text \<open>The result of \<^verbatim>\<open>accept4\<close> is an errno or a descriptor. The expected errors are EAGAIN, ECONNABORTED,
  EINTR, EPROTO, EPERM, EMFILE; every other one is fatal.\<close>

definition sockets_accept :: "int + int \<Rightarrow> (int + int) outcome" where
  "sockets_accept r = (case r of
      Inr connfd \<Rightarrow> Ret (Inr connfd)
    | Inl savedErrno \<Rightarrow>
        if savedErrno \<in> {11, 103, 4, 71, 1, 24} then Ret (Inl savedErrno)
        else if savedErrno \<in> {9, 14, 22, 23, 105, 12, 88, 95} then Abort (Fatal ''unexpected error of ::accept'')
        else Abort (Fatal ''unknown error of ::accept''))"

definition createNonblockingOrDie :: "int + int \<Rightarrow> int outcome" where
  "createNonblockingOrDie r = (case r of Inr sockfd \<Rightarrow> Ret sockfd
     | Inl _ \<Rightarrow> Abort (Fatal ''sockets::createNonblockingOrDie''))"

definition bindOrDie :: "bool \<Rightarrow> unit outcome" where
  "bindOrDie ok = (if ok then Ret () else Abort (Fatal ''sockets::bindOrDie''))"

definition listenOrDie :: "bool \<Rightarrow> unit outcome" where
  "listenOrDie ok = (if ok then Ret () else Abort (Fatal ''sockets::listenOrDie''))"

text \<open>\<open>r\<close> is the result of \<^verbatim>\<open>getsockopt(SO_ERROR)\<close>: its errno or the option value.\<close>

definition getSocketError :: "int + int \<Rightarrow> int" where
  "getSocketError r = (case r of Inl errno \<Rightarrow> errno | Inr optval \<Rightarrow> optval)"

fun isSelfConnect :: "InetAddress \<Rightarrow> InetAddress \<Rightarrow> bool" where
  "isSelfConnect (Sockaddr_in lp la) (Sockaddr_in rp ra) = (lp = rp \<and> la = ra)"
| "isSelfConnect (Sockaddr_in6 lp la ls) (Sockaddr_in6 rp ra rs) = (lp = rp \<and> la = ra)"
| "isSelfConnect _ _ = False"

section \<open>Printed addresses\<close>

lemma split_at_single: "d \<notin> set w \<Longrightarrow> split_at d w = [w]"
  by (induction w) auto

lemma split_at_Cons: "d \<notin> set w \<Longrightarrow> split_at d (w @ d # rest) = w # split_at d rest"
  by (induction w) auto

lemma split_join_dots:
  "xs \<noteq> [] \<Longrightarrow> (\<And>w. w \<in> set xs \<Longrightarrow> CHR ''.'' \<notin> set w) \<Longrightarrow> split_at CHR ''.'' (join_dots xs) = xs"
  by (induction xs rule: join_dots.induct) (auto simp: split_at_single split_at_Cons)

lemma dec_nat_no_dot: "CHR ''.'' \<notin> set (dec_nat n)"
  using dec_nat_digits [of "CHR ''.''" n] by auto

lemma octet_dec_nat:
  assumes "n < 256"
  shows "octet (dec_nat n) = Some n"
proof -
  have "list_all (\<lambda>c. 48 \<le> (of_char c :: nat) \<and> (of_char c :: nat) \<le> 57) (dec_nat n)"
    using dec_nat_digits [of _ n] by (auto simp: list_all_iff)
  moreover have "length (dec_nat n) > 1 \<longrightarrow> hd (dec_nat n) \<noteq> CHR ''0''"
    using hd_dec_nat [of n] by (cases "n = 0") (simp_all add: dec_nat.simps [of 0])
  ultimately show ?thesis using length_dec_nat [of n 3] assms by (simp add: octet_def dec_val_dec_nat)
qed

lemma four_bytes: "length cs = 4 \<Longrightarrow> \<exists>a b c d. cs = [a, b, c, d]"
  by (auto simp: length_Suc_conv eval_nat_numeral)

lemma inet_pton_ntop: "inet_pton4 (inet_ntop4 a) = Some a"
proof -
  obtain w x y z where b: "le_bytes 4 (unat a) = [w, x, y, z]" using four_bytes [of "le_bytes 4 (unat a)"] by auto
  let ?ws = "map (\<lambda>c. dec_nat (of_char c)) [w, x, y, z]"
  have "split_at CHR ''.'' (inet_ntop4 a) = ?ws"
    unfolding inet_ntop4_def b by (rule split_join_dots) (auto simp: dec_nat_no_dot)
  then have "inet_pton4 (inet_ntop4 a) = Some (word_of_nat (le_val [w, x, y, z]))"
    by (simp add: inet_pton4_def octet_dec_nat)
  also have "le_val [w, x, y, z] = unat a"
    using le_val_le_bytes [of 4 "unat a"] unsigned_less [of a, where 'a = nat] b by simp
  finally show ?thesis by simp
qed

lemma length_inet_ntop4: "length (inet_ntop4 a) \<le> 15"
proof -
  obtain w x y z where b: "le_bytes 4 (unat a) = [w, x, y, z]" using four_bytes [of "le_bytes 4 (unat a)"] by auto
  have "length (dec_nat (of_char c)) \<le> 3" for c :: char
    using length_dec_nat [of "of_char c" 3] less_trans [OF of_char_bound [of c], of 1000] by simp
  from add_mono [OF add_mono [OF this [of w] this [of x]] add_mono [OF this [of y] this [of z]]]
  show ?thesis unfolding inet_ntop4_def b by simp
qed

lemma inet_ntop4_no_colon: "CHR '':'' \<notin> set (inet_ntop4 a)"
proof -
  obtain w x y z where b: "le_bytes 4 (unat a) = [w, x, y, z]" using four_bytes [of "le_bytes 4 (unat a)"] by auto
  have "CHR '':'' \<notin> set (dec_nat n)" for n using dec_nat_digits [of "CHR '':''" n] by auto
  then show ?thesis unfolding inet_ntop4_def b by simp
qed

lemma length_port: "length (dec_nat (unat (p :: 16 word))) \<le> 5"
  using length_dec_nat [of "unat p" 5] unsigned_less [of p, where 'a = nat] by simp

text \<open>\<^verbatim>\<open>inet_ntop\<close> of an IPv6 address fits into \<^verbatim>\<open>INET6_ADDRSTRLEN\<close> bytes with its null byte.\<close>

definition ntop6_spec :: "(char list \<Rightarrow> string) \<Rightarrow> bool" where
  "ntop6_spec ntop6 \<longleftrightarrow> (\<forall>a. length (ntop6 a) < INET6_ADDRSTRLEN)"

text \<open>C32: every address prints completely into the 64-byte buffer as address, colon and port (IPv6
  addresses in brackets), and parsing the printed IPv4 address with its port gives the address
  back.\<close>

theorem inet_address_round_trip:
  assumes "ntop6_spec ntop6"
  shows "toIpPort ntop6 (Sockaddr_in p a) = Ret (inet_ntop4 a @ '':'' @ dec_nat (unat (port (Sockaddr_in p a)))) \<and>
    toIpPort ntop6 (Sockaddr_in6 p b s) = Ret (''['' @ ntop6 b @ '']:'' @ dec_nat (unat (port (Sockaddr_in6 p b s)))) \<and>
    (\<exists>ip. toIp ntop6 (Sockaddr_in p a) = Ret ip \<and>
       InetAddress_of_string pton6 ip (port (Sockaddr_in p a)) False = Sockaddr_in p a)"
proof -
  have "hostToNetwork16 (networkToHost16 p) = p"
    using network_host_inverse(3) [of p] by (simp add: hostToNetwork16_def networkToHost16_def)
  then have "InetAddress_of_string pton6 (inet_ntop4 a) (port (Sockaddr_in p a)) False = Sockaddr_in p a"
    by (simp add: InetAddress_of_string_def inet_ntop4_no_colon fromIpPort_def port_def inet_pton_ntop)
  moreover have "length (ntop6 b) < 46" using assms by (simp add: ntop6_spec_def INET6_ADDRSTRLEN_def)
  ultimately show ?thesis using length_inet_ntop4 [of a] length_port [of "networkToHost16 p"]
    by (auto simp: toIpPort_def toIp_def port_def INET_ADDRSTRLEN_def INET6_ADDRSTRLEN_def Let_def snprintf_fits)
qed

lemma loopback_bytes: "le_bytes 4 (unat (hostToNetwork32 kInaddrLoopback)) = [CHR 0x7F, CHR 0x00, CHR 0x00, CHR 0x01]"
proof -
  have "be_val [CHR 0x7F, CHR 0x00, CHR 0x00, CHR 0x01] = 2130706433" by (simp add: be_val_def)
  moreover have "length [CHR 0x7F, CHR 0x00, CHR 0x00, CHR 0x01] = 4" by simp
  ultimately have "be_bytes 4 2130706433 = [CHR 0x7F, CHR 0x00, CHR 0x00, CHR 0x01]"
    by (metis be_bytes_be_val)
  moreover have "unat kInaddrLoopback = 2130706433" by (simp add: kInaddrLoopback_def)
  ultimately show ?thesis by (simp only: unat_hostToNetwork le_bytes_bswap)
qed

theorem inet_address_round_trip_witness:
  "toIpPort (\<lambda>_. ''::1'') (Sockaddr_in (hostToNetwork16 80) (hostToNetwork32 kInaddrLoopback)) = Ret ''127.0.0.1:80''"
proof -
  have "ntop6_spec (\<lambda>_. ''::1'')" by (simp add: ntop6_spec_def INET6_ADDRSTRLEN_def)
  from inet_address_round_trip [OF this, of "hostToNetwork16 80" "hostToNetwork32 kInaddrLoopback"]
  have "toIpPort (\<lambda>_. ''::1'') (Sockaddr_in (hostToNetwork16 80) (hostToNetwork32 kInaddrLoopback)) =
      Ret (inet_ntop4 (hostToNetwork32 kInaddrLoopback) @ '':'' @ dec_nat 80)"
    by (simp add: port_def network_host_inverse)
  also have "inet_ntop4 (hostToNetwork32 kInaddrLoopback) = ''127.0.0.1''"
    unfolding inet_ntop4_def loopback_bytes by code_simp
  also have "dec_nat 80 = ''80''" by code_simp
  finally show ?thesis by simp
qed

end
