(* ===== verification/TcpServers.thy ===== *)
theory TcpServers
  imports TcpConnections EventLoopThreads Sockets
begin

text \<open>
  \<^verbatim>\<open>muduo/net/Acceptor.{h,cc}\<close> and \<^verbatim>\<open>muduo/net/TcpServer.{h,cc}\<close>: the listening socket, and the server
  that owns its connections.

  The server is modelled together with the loops it uses: \<open>objs\<close> holds the connection objects that
  \<^verbatim>\<open>shared_ptr\<close>s point to (numbered in order of allocation, with their names), \<open>queues\<close> the functors
  pending in each loop, \<open>destroyed\<close> the objects on which connectDestroyed has run. Loops are named by
  their threads. The connections are those of \<open>TcpConnections\<close> with all their handlers; the close
  callback is \<^verbatim>\<open>TcpServer::removeConnection\<close>.
\<close>

section \<open>Acceptor\<close>

record Acceptor =
  ac_threadId :: int
  acceptFd :: int
  acceptChannel :: Channel
  newConnectionCallback :: bool
  listening :: bool
  idleFd :: int
  proc_fds :: "int set"

definition EMFILE :: int where "EMFILE = 24"

text \<open>\<open>sockfd\<close> and \<open>nullfd\<close> are what \<^verbatim>\<open>socket\<close> and \<^verbatim>\<open>open("/dev/null")\<close> returned, \<open>bound\<close> whether \<^verbatim>\<open>bind\<close>
  succeeded. \<open>proc_fds\<close> is the set of descriptors the process has open.\<close>

definition new_Acceptor :: "int \<Rightarrow> int + int \<Rightarrow> int \<Rightarrow> bool \<Rightarrow> int set \<Rightarrow> Acceptor outcome" where
  "new_Acceptor tid sockfd nullfd bound fds =
     bindo (createNonblockingOrDie sockfd) (\<lambda>fd.
     require (nullfd \<ge> 0) ''idleFd_ >= 0''
     (bindo (bindOrDie bound) (\<lambda>_.
       Ret \<lparr>ac_threadId = tid, acceptFd = fd, acceptChannel = (new_Channel fd)\<lparr>readCallback := True\<rparr>,
            newConnectionCallback = False, listening = False, idleFd = nullfd, proc_fds = fds \<union> {fd, nullfd}\<rparr>)))"

definition delete_Acceptor :: "Acceptor \<Rightarrow> Acceptor outcome" where
  "delete_Acceptor a =
     (let ch = (acceptChannel a)\<lparr>events := new_events DisableAll (events (acceptChannel a)), addedToLoop := True\<rparr>
      in require (isNoneEvent ch) ''isNoneEvent()''
           (Ret (a\<lparr>acceptChannel := ch\<lparr>addedToLoop := False\<rparr>, proc_fds := proc_fds a - {idleFd a, acceptFd a}\<rparr>)))"

definition acceptor_listen :: "int \<Rightarrow> bool \<Rightarrow> Acceptor \<Rightarrow> Acceptor outcome" where
  "acceptor_listen tid ok a =
     assertInLoopThread tid (ac_threadId a)
     (let a = a\<lparr>listening := True\<rparr>
      in bindo (listenOrDie ok) (\<lambda>_.
           Ret (a\<lparr>acceptChannel := (acceptChannel a)\<lparr>events := new_events EnableReading (events (acceptChannel a)),
                  addedToLoop := True\<rparr>\<rparr>)))"

text \<open>\<^verbatim>\<open>handleRead\<close>: \<open>r\<close> is the result of \<^verbatim>\<open>accept4\<close>, \<open>r2\<close> of the \<^verbatim>\<open>accept\<close> made with the spare
  descriptor, \<open>null2\<close> of reopening \<^verbatim>\<open>/dev/null\<close> (\<open>-1\<close> on failure). The first component of the result
  is the descriptor handed to the new-connection callback.\<close>

definition acceptor_handleRead ::
  "int \<Rightarrow> int + int \<Rightarrow> int \<Rightarrow> int \<Rightarrow> Acceptor \<Rightarrow> (int option \<times> Acceptor) outcome" where
  "acceptor_handleRead tid r r2 null2 a =
     assertInLoopThread tid (ac_threadId a)
     (bindo (sockets_accept r) (\<lambda>r. case r of
        Inr connfd \<Rightarrow>
          let a = a\<lparr>proc_fds := insert connfd (proc_fds a)\<rparr>
          in if newConnectionCallback a then Ret (Some connfd, a)
             else Ret (None, a\<lparr>proc_fds := proc_fds a - {connfd}\<rparr>)
      | Inl errno \<Rightarrow>
          if errno = EMFILE
          then
            let a = a\<lparr>proc_fds := proc_fds a - {idleFd a}\<rparr>;
                a = a\<lparr>idleFd := r2, proc_fds := (if r2 \<ge> 0 then insert r2 (proc_fds a) else proc_fds a)\<rparr>;
                a = a\<lparr>proc_fds := proc_fds a - {idleFd a}\<rparr>;
                a = a\<lparr>idleFd := null2, proc_fds := (if null2 \<ge> 0 then insert null2 (proc_fds a) else proc_fds a)\<rparr>
            in Ret (None, a)
          else Ret (None, a)))"

section \<open>The server\<close>

record TcpServer =
  sv_threadId :: int
  ipPort :: string
  sv_name :: string
  sv_listening :: bool
  threadPool :: EventLoopThreadPool
  sv_writeCompleteCallback :: bool
  sv_started :: int
  nextConnId :: int
  connections :: "string \<rightharpoonup> nat"

datatype server_functor = ConnectEstablishedF nat | ConnectDestroyedF nat | RemoveConnectionF nat | ListenF

record server_sys =
  server :: TcpServer
  objs :: "nat \<rightharpoonup> string \<times> TcpConnection"
  next_obj :: nat
  queues :: "int \<Rightarrow> server_functor list"
  destroyed :: "nat list"

definition new_TcpServer :: "int \<Rightarrow> string \<Rightarrow> string \<Rightarrow> TcpServer" where
  "new_TcpServer tid ip_port nameArg =
     \<lparr>sv_threadId = tid, ipPort = ip_port, sv_name = nameArg, sv_listening = False,
      threadPool = new_EventLoopThreadPool tid nameArg, sv_writeCompleteCallback = False, sv_started = 0,
      nextConnId = 1, connections = Map.empty\<rparr>"

definition server_setThreadNum :: "int \<Rightarrow> TcpServer \<Rightarrow> TcpServer outcome" where
  "server_setThreadNum n s =
     require (0 \<le> n) ''0 <= numThreads'' (Ret (s\<lparr>threadPool := setThreadNum n (threadPool s)\<rparr>))"

definition enqueue :: "int \<Rightarrow> server_functor \<Rightarrow> server_sys \<Rightarrow> server_sys" where
  "enqueue t f s = s\<lparr>queues := (queues s)(t := queues s t @ [f])\<rparr>"

definition int_max :: int where "int_max = 2 ^ 31 - 1"

text \<open>The connection's name: prefix, address of the server, running number; the middle is printed into a
  64-byte buffer.\<close>

definition conn_name :: "TcpServer \<Rightarrow> int \<Rightarrow> string" where
  "conn_name sv k = sv_name sv @ snprintf 64 (''-'' @ ipPort sv @ ''#'' @ dec_int k)"

text \<open>\<^verbatim>\<open>removeConnectionInLoop\<close>: \<open>n\<close> is the number of entries \<^verbatim>\<open>erase\<close> removed.\<close>

definition removeConnectionInLoop :: "int \<Rightarrow> nat \<Rightarrow> server_sys \<Rightarrow> server_sys outcome" where
  "removeConnectionInLoop tid p s =
     assertInLoopThread tid (sv_threadId (server s))
     (case objs s p of
        None \<Rightarrow> Abort (Undefined ''dangling TcpConnectionPtr'')
      | Some (name, conn) \<Rightarrow>
          let n = (if connections (server s) name = None then 0 else 1 :: nat);
              s = s\<lparr>server := (server s)\<lparr>connections := (connections (server s))(name := None)\<rparr>\<rparr>
          in require (n = 1) ''n == 1'' (Ret (enqueue (tc_threadId conn) (ConnectDestroyedF p) s)))"

definition removeConnection :: "int \<Rightarrow> nat \<Rightarrow> server_sys \<Rightarrow> server_sys outcome" where
  "removeConnection tid p s =
     (if tid = sv_threadId (server s) then removeConnectionInLoop tid p s
      else Ret (enqueue (sv_threadId (server s)) (RemoveConnectionF p) s))"

text \<open>Running a handler of connection \<open>p\<close> in thread \<open>tid\<close>. When it invokes the close callback, which
  \<^verbatim>\<open>handleClose\<close> does last, that is \<^verbatim>\<open>removeConnection\<close>.\<close>

definition closes :: "TcpConnection \<Rightarrow> TcpConnection \<Rightarrow> bool" where
  "closes c c' \<longleftrightarrow> NoteClose \<notin> set (notified c) \<and> NoteClose \<in> set (notified c')"

definition on_conn ::
  "int \<Rightarrow> nat \<Rightarrow> (TcpConnection \<Rightarrow> TcpConnection outcome) \<Rightarrow> server_sys \<Rightarrow> server_sys outcome" where
  "on_conn tid p handler s = (case objs s p of
      None \<Rightarrow> Abort (Undefined ''dangling TcpConnectionPtr'')
    | Some (name, c) \<Rightarrow> bindo (handler c) (\<lambda>c'.
        let s = s\<lparr>objs := (objs s)(p \<mapsto> (name, c'))\<rparr>
        in if closes c c' then removeConnection tid p s else Ret s))"

definition newConnection ::
  "(conn_note \<Rightarrow> TcpConnection \<Rightarrow> conn_call list) \<Rightarrow> int \<Rightarrow> int \<Rightarrow> server_sys \<Rightarrow> server_sys outcome" where
  "newConnection script tid sockfd s =
     assertInLoopThread tid (sv_threadId (server s))
     (bindo (getNextLoop tid (threadPool (server s))) (\<lambda>(ioLoop, pool).
        let connName = conn_name (server s) (nextConnId (server s)); p = next_obj s
        in if nextConnId (server s) = int_max then Abort (Undefined ''++nextConnId_'')
           else bindo (new_TcpConnection ioLoop sockfd) (\<lambda>conn.
             let conn = conn\<lparr>writeCompleteCallback := sv_writeCompleteCallback (server s)\<rparr>;
                 s = s\<lparr>server := (server s)\<lparr>threadPool := pool, nextConnId := nextConnId (server s) + 1,
                         connections := (connections (server s))(connName \<mapsto> p)\<rparr>,
                       objs := (objs s)(p \<mapsto> (connName, conn)), next_obj := p + 1\<rparr>
             in if tid = ioLoop then on_conn tid p (connectEstablished script tid) s
                else Ret (enqueue ioLoop (ConnectEstablishedF p) s))))"

definition server_start ::
  "int \<Rightarrow> (int \<Rightarrow> int) \<Rightarrow> bool \<Rightarrow> server_sys \<Rightarrow> server_sys outcome" where
  "server_start tid spawn cb s =
     (let started = sv_started (server s);
          s = s\<lparr>server := (server s)\<lparr>sv_started := 1\<rparr>\<rparr>
      in if started = 0
         then bindo (pool_start tid spawn cb (threadPool (server s))) (\<lambda>pool.
                let s = s\<lparr>server := (server s)\<lparr>threadPool := pool\<rparr>\<rparr>
                in require (\<not> sv_listening (server s)) ''!acceptor_->listening()''
                  (Ret (if tid = sv_threadId (server s) then s\<lparr>server := (server s)\<lparr>sv_listening := True\<rparr>\<rparr>
                        else enqueue (sv_threadId (server s)) ListenF s)))
         else Ret s)"

fun run_functor ::
  "(conn_note \<Rightarrow> TcpConnection \<Rightarrow> conn_call list) \<Rightarrow> int \<Rightarrow> server_functor \<Rightarrow> server_sys \<Rightarrow> server_sys outcome" where
  "run_functor script tid (ConnectEstablishedF p) s = on_conn tid p (connectEstablished script tid) s"
| "run_functor script tid (ConnectDestroyedF p) s =
     bindo (on_conn tid p (connectDestroyed script tid) s) (\<lambda>s. Ret (s\<lparr>destroyed := destroyed s @ [p]\<rparr>))"
| "run_functor script tid (RemoveConnectionF p) s = removeConnectionInLoop tid p s"
| "run_functor script tid ListenF s = Ret (s\<lparr>server := (server s)\<lparr>sv_listening := True\<rparr>\<rparr>)"

text \<open>The destructor of the server, run in its loop: every connection in the map is destroyed, in its own
  loop.\<close>

definition delete_one ::
  "(conn_note \<Rightarrow> TcpConnection \<Rightarrow> conn_call list) \<Rightarrow> int \<Rightarrow> nat \<Rightarrow> server_sys \<Rightarrow> server_sys outcome" where
  "delete_one script tid p s = (case objs s p of
      None \<Rightarrow> Abort (Undefined ''dangling TcpConnectionPtr'')
    | Some (name, c) \<Rightarrow>
        if tid = tc_threadId c then run_functor script tid (ConnectDestroyedF p) s
        else Ret (enqueue (tc_threadId c) (ConnectDestroyedF p) s))"

definition delete_TcpServer ::
  "(conn_note \<Rightarrow> TcpConnection \<Rightarrow> conn_call list) \<Rightarrow> int \<Rightarrow> nat list \<Rightarrow> server_sys \<Rightarrow> server_sys outcome" where
  "delete_TcpServer script tid items s =
     assertInLoopThread tid (sv_threadId (server s)) (foldo (delete_one script tid) items s)"

section \<open>The server among its loops\<close>

datatype server_event = Accepted int | RunQueued int | ConnEvent nat conn_ev

fun server_step ::
  "(conn_note \<Rightarrow> TcpConnection \<Rightarrow> conn_call list) \<Rightarrow> server_event \<Rightarrow> server_sys \<Rightarrow> server_sys outcome" where
  "server_step script (Accepted sockfd) s = newConnection script (sv_threadId (server s)) sockfd s"
| "server_step script (RunQueued t) s = (case queues s t of
      [] \<Rightarrow> Ret s
    | f # fs \<Rightarrow> run_functor script t f (s\<lparr>queues := (queues s)(t := fs)\<rparr>))"
| "server_step script (ConnEvent p ev) s = (case objs s p of
      None \<Rightarrow> Ret s
    | Some (name, c) \<Rightarrow> on_conn (tc_threadId c) p (conn_step script (tc_threadId c) ev) s)"

text \<open>The events that can happen: fewer than \<open>2 ^ 31\<close> connections, and to an existing connection anything
  but the two events that only the server causes.\<close>

fun server_ev_ok :: "server_event \<Rightarrow> server_sys \<Rightarrow> bool" where
  "server_ev_ok (Accepted sockfd) s = (nextConnId (server s) < int_max)"
| "server_ev_ok (RunQueued t) s = True"
| "server_ev_ok (ConnEvent p ev) s = (case objs s p of None \<Rightarrow> False
    | Some (name, c) \<Rightarrow> ev_ok (tc_threadId c) ev c \<and> ev \<noteq> Establish \<and> ev \<noteq> Destroy)"

definition initial_server :: "TcpServer \<Rightarrow> server_sys" where
  "initial_server sv = \<lparr>server = sv, objs = Map.empty, next_obj = 0, queues = (\<lambda>_. []), destroyed = []\<rparr>"

inductive server_reach ::
  "(conn_note \<Rightarrow> TcpConnection \<Rightarrow> conn_call list) \<Rightarrow> server_sys \<Rightarrow> bool" for script where
  init: "length ip_port \<le> 50 \<Longrightarrow> server_setThreadNum n (new_TcpServer tid ip_port name) = Ret sv \<Longrightarrow>
    server_start tid spawn cb (initial_server sv) = Ret s \<Longrightarrow> server_reach script s"
| step: "server_reach script s \<Longrightarrow> server_ev_ok ev s \<Longrightarrow> server_step script ev s = Ret s' \<Longrightarrow> server_reach script s'"

section \<open>Names\<close>

lemma dec_int_inj: "0 \<le> i \<Longrightarrow> 0 \<le> j \<Longrightarrow> dec_int i = dec_int j \<longleftrightarrow> i = j"
  by (auto simp: dec_int_def dec_nat_inj)

lemma length_dec_int: "0 \<le> i \<Longrightarrow> i \<le> int_max \<Longrightarrow> length (dec_int i) \<le> 10"
  using length_dec_nat [of "nat i" 10] by (simp add: dec_int_def int_max_def)

lemma conn_name_full:
  assumes "length (ipPort sv) \<le> 50" and "0 \<le> k" "k \<le> int_max"
  shows "conn_name sv k = sv_name sv @ ''-'' @ ipPort sv @ ''#'' @ dec_int k"
  using length_dec_int [OF assms(2,3)] assms(1) by (simp add: conn_name_def snprintf_fits)

lemma conn_name_inj:
  assumes "length (ipPort sv) \<le> 50" and "0 \<le> j" "j \<le> int_max" "0 \<le> k" "k \<le> int_max"
  shows "conn_name sv j = conn_name sv k \<longleftrightarrow> j = k"
  using assms by (simp add: conn_name_full dec_int_inj)

section \<open>The server's invariant\<close>

fun functor_obj :: "server_functor \<Rightarrow> nat option" where
  "functor_obj (ConnectEstablishedF p) = Some p"
| "functor_obj (ConnectDestroyedF p) = Some p"
| "functor_obj (RemoveConnectionF p) = Some p"
| "functor_obj ListenF = None"

text \<open>A functor about a connection sits in that connection's loop, a removal in the server's loop.\<close>

fun placed :: "server_sys \<Rightarrow> int \<Rightarrow> server_functor \<Rightarrow> bool" where
  "placed s t (ConnectEstablishedF p) = (case objs s p of None \<Rightarrow> False | Some (_, c) \<Rightarrow> tc_threadId c = t)"
| "placed s t (ConnectDestroyedF p) = (case objs s p of None \<Rightarrow> False | Some (_, c) \<Rightarrow> tc_threadId c = t)"
| "placed s t (RemoveConnectionF p) = (objs s p \<noteq> None \<and> t = sv_threadId (server s))"
| "placed s t ListenF = True"

text \<open>The bookkeeping of one connection: its pending functors and its entry in the map follow from its
  state. Exactly one removal or destruction is under way or done once it is closed.\<close>

definition conn_inv :: "server_sys \<Rightarrow> nat \<Rightarrow> string \<Rightarrow> TcpConnection \<Rightarrow> bool" where
  "conn_inv s p name c \<longleftrightarrow>
     (let des = count_list (queues s (tc_threadId c)) (ConnectDestroyedF p) + count_list (destroyed s) p
      in name = conn_name (server s) (int p + 1) \<and> conn_ok (tc_threadId c) c \<and>
         count_list (queues s (tc_threadId c)) (ConnectEstablishedF p) = (if state c = kConnecting then 1 else 0) \<and>
         count_list (queues s (sv_threadId (server s))) (RemoveConnectionF p) + des = (if state c = kDisconnected then 1 else 0) \<and>
         (state c = kDisconnected \<longrightarrow> conn_notes c = [NoteUp, NoteDown, NoteClose]) \<and>
         connections (server s) name = (if des = 0 then Some p else None))"

definition server_inv :: "server_sys \<Rightarrow> bool" where
  "server_inv s \<longleftrightarrow> pool_ok (threadPool (server s)) \<and> baseLoop (threadPool (server s)) = sv_threadId (server s) \<and>
     length (ipPort (server s)) \<le> 50 \<and> nextConnId (server s) = int (next_obj s) + 1 \<and> nextConnId (server s) \<le> int_max \<and>
     (\<forall>t f. f \<in> set (queues s t) \<longrightarrow> placed s t f) \<and>
     (\<forall>p. objs s p \<noteq> None \<longleftrightarrow> p < next_obj s) \<and> (\<forall>p\<in>set (destroyed s). p < next_obj s) \<and>
     (\<forall>name p. connections (server s) name = Some p \<longrightarrow> (\<exists>c. objs s p = Some (name, c))) \<and>
     (\<forall>p name c. objs s p = Some (name, c) \<longrightarrow> conn_inv s p name c)"

definition same_server :: "TcpServer \<Rightarrow> TcpServer \<Rightarrow> bool" where
  "same_server a b \<longleftrightarrow> sv_threadId a = sv_threadId b \<and> ipPort a = ipPort b \<and> sv_name a = sv_name b \<and>
     threadPool a = threadPool b \<and> nextConnId a = nextConnId b"

lemma mem_count_list: "x \<in> set xs \<longleftrightarrow> count_list xs x \<noteq> 0"
  by (simp add: count_list_0_iff)

lemma conn_inv_other:
  assumes ci: "conn_inv s q name c" and sv: "same_server (server s') (server s)"
    and fu: "\<And>t f. functor_obj f = Some q \<Longrightarrow> count_list (queues s' t) f = count_list (queues s t) f"
    and de: "count_list (destroyed s') q = count_list (destroyed s) q"
    and co: "connections (server s') name = connections (server s) name"
  shows "conn_inv s' q name c"
proof -
  have n: "conn_name (server s') k = conn_name (server s) k" for k using sv by (simp add: conn_name_def same_server_def)
  have b: "sv_threadId (server s') = sv_threadId (server s)" using sv by (simp add: same_server_def)
  have e: "count_list (queues s' t) (ConnectEstablishedF q) = count_list (queues s t) (ConnectEstablishedF q)"
    "count_list (queues s' t) (ConnectDestroyedF q) = count_list (queues s t) (ConnectDestroyedF q)"
    "count_list (queues s' t) (RemoveConnectionF q) = count_list (queues s t) (RemoveConnectionF q)" for t
    by (rule fu, simp)+
  show ?thesis using ci unfolding conn_inv_def Let_def n b e de co .
qed

text \<open>A step that touches one connection only.\<close>

lemma server_inv_update:
  assumes inv: "server_inv s" and p: "objs s p = Some (name, c)" and th: "tc_threadId c' = tc_threadId c"
    and ob: "objs s' = (objs s)(p \<mapsto> (name, c'))" "next_obj s' = next_obj s" and sv: "same_server (server s') (server s)"
    and fu: "\<And>t f. functor_obj f \<noteq> Some p \<Longrightarrow> count_list (queues s' t) f = count_list (queues s t) f"
    and pl: "\<And>t f. f \<in> set (queues s' t) \<Longrightarrow> functor_obj f = Some p \<Longrightarrow> f \<in> set (queues s t) \<or> placed s t f"
    and de: "\<And>q. q \<noteq> p \<Longrightarrow> count_list (destroyed s') q = count_list (destroyed s) q"
    and co: "\<And>n. n \<noteq> name \<Longrightarrow> connections (server s') n = connections (server s) n"
      "connections (server s') name = Some p \<or> connections (server s') name = None"
    and ci: "conn_inv s' p name c'"
  shows "server_inv s'"
proof -
  have I: "\<And>t f. f \<in> set (queues s t) \<Longrightarrow> placed s t f" "\<And>p. objs s p \<noteq> None \<longleftrightarrow> p < next_obj s"
    "\<And>name p. connections (server s) name = Some p \<Longrightarrow> \<exists>c. objs s p = Some (name, c)"
    "\<And>p name c. objs s p = Some (name, c) \<Longrightarrow> conn_inv s p name c" "\<And>q. q \<in> set (destroyed s) \<Longrightarrow> q < next_obj s"
    "length (ipPort (server s)) \<le> 50" "nextConnId (server s) = int (next_obj s) + 1" "nextConnId (server s) \<le> int_max"
    using inv by (auto simp: server_inv_def)
  have names: "n = conn_name (server s) (int q + 1)" "int q + 1 \<le> int_max" if "objs s q = Some (n, d)" for q n d
    using I(4) [OF that] I(2) [of q] that I(7,8) by (auto simp: conn_inv_def Let_def)
  have pl': "placed s' t f" if "f \<in> set (queues s' t)" for t f
  proof -
    have "f \<in> set (queues s t) \<or> placed s t f"
      using that pl [OF that] fu [of f t] by (cases "functor_obj f = Some p") (auto simp: mem_count_list)
    then have "placed s t f" using I(1) by blast
    then show ?thesis using sv ob p th by (cases f) (auto simp: same_server_def split: option.splits if_splits)
  qed
  have others: "conn_inv s' q n d" if q: "objs s q = Some (n, d)" "q \<noteq> p" for q n d
  proof (rule conn_inv_other [OF I(4) [OF q(1)] sv])
    have "n \<noteq> name"
      using names [OF q(1)] names [OF p] conn_name_inj [OF I(6), of "int q + 1" "int p + 1"] q(2) by auto
    then show "connections (server s') n = connections (server s) n" by (rule co)
  qed (use fu de q(2) in auto)
  have dead: "\<forall>q\<in>set (destroyed s'). q < next_obj s'"
  proof
    fix q assume "q \<in> set (destroyed s')"
    then show "q < next_obj s'" using de [of q] I(5) [of q] I(2) [of p] p ob(2)
      by (cases "q = p") (auto simp: mem_count_list)
  qed
  have conns: "\<exists>d. objs s' q = Some (n, d)" if "connections (server s') n = Some q" for n q
    using that co I(3) [of n q] ob(1) p by (cases "n = name"; cases "q = p") (auto dest: I(3))
  show ?thesis unfolding server_inv_def
  proof (intro conjI allI impI)
    show "objs s' q \<noteq> None \<longleftrightarrow> q < next_obj s'" for q using I(2) [of q] I(2) [of p] p ob by auto
    show "conn_inv s' q n d" if "objs s' q = Some (n, d)" for q n d
      using that others ci ob(1) by (cases "q = p") auto
  qed (use inv sv ob(2) pl' conns dead in \<open>auto simp: server_inv_def same_server_def\<close>)
qed

section \<open>Steps keep the invariant\<close>

lemma close_note: "NoteClose \<in> set (notified c) \<longleftrightarrow> NoteClose \<in> set (conn_notes c)"
  by (simp add: conn_notes_def)

lemma closed_state: "conn_ok t c \<Longrightarrow> conn_notes c = [NoteUp, NoteDown, NoteClose] \<Longrightarrow> state c = kDisconnected"
  by (cases "state c") (auto simp: conn_ok_def)

lemma open_no_close: "conn_ok t c \<Longrightarrow> state c \<noteq> kDisconnected \<Longrightarrow> NoteClose \<notin> set (notified c)"
  by (cases "state c") (auto simp: conn_ok_def close_note)

lemma server_invD:
  assumes "server_inv s" and "objs s p = Some (name, c)"
  shows "conn_inv s p name c" "conn_ok (tc_threadId c) c"
  using assms by (auto simp: server_inv_def conn_inv_def Let_def)

lemma same_server_conns [simp]: "same_server (sv\<lparr>connections := m\<rparr>) sv" "same_server sv sv"
  by (simp_all add: same_server_def)

lemma conn_name_conns [simp]: "conn_name (sv\<lparr>connections := m\<rparr>) k = conn_name sv k"
  by (simp add: conn_name_def)

text \<open>The close callback, called by a connection that was alive.\<close>

lemma removeConnection_ok:
  assumes inv: "server_inv s" and p: "objs s p = Some (name, c)" and al: "alive c"
    and c': "conn_ok (tc_threadId c) c'" "conn_notes c' = [NoteUp, NoteDown, NoteClose]"
  shows "guarantees server_inv (removeConnection tid p (s\<lparr>objs := (objs s)(p \<mapsto> (name, c'))\<rparr>))"
proof -
  let ?s = "s\<lparr>objs := (objs s)(p \<mapsto> (name, c'))\<rparr>" and ?b = "sv_threadId (server s)"
  have th: "tc_threadId c' = tc_threadId c" using conn_okD(1) [OF c'(1)] .
  have st: "state c' = kDisconnected" using closed_state [OF c'] .
  note ci = server_invD(1) [OF inv p]
  then have zero: "count_list (queues s (tc_threadId c)) (ConnectEstablishedF p) = 0"
    "count_list (queues s ?b) (RemoveConnectionF p) = 0" "count_list (queues s (tc_threadId c)) (ConnectDestroyedF p) = 0"
    "count_list (destroyed s) p = 0" "connections (server s) name = Some p" "name = conn_name (server s) (int p + 1)"
    using al by (auto simp: conn_inv_def alive_def Let_def)
  show ?thesis
  proof (cases "tid = ?b")
    case True
    let ?s' = "enqueue (tc_threadId c') (ConnectDestroyedF p)
      (?s\<lparr>server := (server s)\<lparr>connections := (connections (server s))(name := None)\<rparr>\<rparr>)"
    have "server_inv ?s'"
      by (rule server_inv_update [OF inv p th, of ?s'])
        (use p th zero st c' in \<open>auto simp: enqueue_def conn_inv_def Let_def split: if_splits\<close>)
    then show ?thesis using True zero(5) by (simp add: removeConnection_def removeConnectionInLoop_def Let_def)
  next
    case False
    let ?s' = "enqueue ?b (RemoveConnectionF p) ?s"
    have "server_inv ?s'"
      by (rule server_inv_update [OF inv p th, of ?s'])
        (use p th zero st c' in \<open>auto simp: enqueue_def conn_inv_def Let_def split: if_splits\<close>)
    then show ?thesis using False by (simp add: removeConnection_def)
  qed
qed

lemma on_conn_moves:
  assumes inv: "server_inv s" and p: "objs s p = Some (name, c)"
    and h: "guarantees (\<lambda>c'. conn_ok (tc_threadId c) c' \<and> moves c c') (handler c)"
  shows "guarantees server_inv (on_conn tid p handler s)"
proof -
  have ok: "conn_ok (tc_threadId c) c" using server_invD(2) [OF inv p] .
  have "guarantees server_inv
      (if closes c c' then removeConnection tid p (s\<lparr>objs := (objs s)(p \<mapsto> (name, c'))\<rparr>)
       else Ret (s\<lparr>objs := (objs s)(p \<mapsto> (name, c'))\<rparr>))"
    if c': "conn_ok (tc_threadId c) c'" "moves c c'" for c'
  proof (cases "closes c c'")
    case True
    have "state c \<noteq> kDisconnected" "state c \<noteq> kConnecting"
      using True c'(2) open_no_close [OF c'(1)] by (auto simp: closes_def moves_def close_note)
    then have al: "alive c" by (cases "state c") (auto simp: alive_def)
    then have "\<not> alive c'" using True open_no_close [OF c'(1)] by (auto simp: closes_def alive_def)
    then have "conn_notes c' = [NoteUp, NoteDown, NoteClose]" using al c'(2) by (auto simp: moves_def settled_def)
    then show ?thesis using removeConnection_ok [OF inv p al c'(1)] True by simp
  next
    case False
    have stay: "(state c' = kConnecting) = (state c = kConnecting) \<and> (state c' = kDisconnected) = (state c = kDisconnected) \<and>
        (state c = kDisconnected \<longrightarrow> conn_notes c' = conn_notes c)"
      using False c'(2) open_no_close [OF ok]
      by (cases "state c") (auto simp: closes_def moves_def settled_def alive_def close_note)
    have "server_inv (s\<lparr>objs := (objs s)(p \<mapsto> (name, c'))\<rparr>)"
      by (rule server_inv_update [OF inv p, of c'])
        (use server_invD(1) [OF inv p] c' conn_okD(1) [OF c'(1)] stay in \<open>auto simp: conn_inv_def Let_def split: if_splits\<close>)
    then show ?thesis using False by simp
  qed
  then show ?thesis unfolding on_conn_def p by (auto simp: Let_def intro: guarantees_bindo [OF h])
qed

lemma head_placed: "server_inv s \<Longrightarrow> queues s t = f # fs \<Longrightarrow> placed s t f"
  unfolding server_inv_def by (metis list.set_intros(1))

lemma functor_removal:
  assumes inv: "server_inv s" and q: "queues s t = RemoveConnectionF p # fs"
  shows "guarantees server_inv (run_functor script t (RemoveConnectionF p) (s\<lparr>queues := (queues s)(t := fs)\<rparr>))"
proof -
  have "placed s t (RemoveConnectionF p)" using head_placed [OF inv q] .
  then obtain name c where t: "t = sv_threadId (server s)" and p: "objs s p = Some (name, c)" by auto
  note ci = server_invD(1) [OF inv p]
  have des: "count_list (queues s (tc_threadId c)) (ConnectDestroyedF p) = 0" "count_list (destroyed s) p = 0"
    "count_list fs (RemoveConnectionF p) = 0" "state c = kDisconnected"
    using ci t q by (auto simp: conn_inv_def Let_def split: if_splits)
  then have n: "connections (server s) name = Some p" "conn_ok (tc_threadId c) c"
    using ci by (auto simp: conn_inv_def Let_def)
  let ?s' = "enqueue (tc_threadId c) (ConnectDestroyedF p) (s\<lparr>queues := (queues s)(t := fs),
      server := (server s)\<lparr>connections := (connections (server s))(name := None)\<rparr>\<rparr>)"
  have "server_inv ?s'"
    by (rule server_inv_update [OF inv p refl, of ?s'])
      (use p des ci t q in \<open>auto simp: enqueue_def conn_inv_def Let_def split: if_splits\<close>)
  then show ?thesis using p t n by (simp add: removeConnectionInLoop_def Let_def)
qed

lemma functor_established:
  assumes inv: "server_inv s" and q: "queues s t = ConnectEstablishedF p # fs" and sc: "script_ok script"
  shows "guarantees server_inv (run_functor script t (ConnectEstablishedF p) (s\<lparr>queues := (queues s)(t := fs)\<rparr>))"
proof -
  have "placed s t (ConnectEstablishedF p)" using head_placed [OF inv q] .
  then obtain name c where t: "tc_threadId c = t" and p: "objs s p = Some (name, c)"
    by (auto split: option.splits)
  note ci = server_invD(1) [OF inv p]
  have c: "state c = kConnecting" "conn_ok t c" "count_list fs (ConnectEstablishedF p) = 0"
    using ci t q by (auto simp: conn_inv_def Let_def split: if_splits)
  have "guarantees server_inv (if closes c c' then removeConnection t p (s\<lparr>queues := (queues s)(t := fs), objs := (objs s)(p \<mapsto> (name, c'))\<rparr>)
      else Ret (s\<lparr>queues := (queues s)(t := fs), objs := (objs s)(p \<mapsto> (name, c'))\<rparr>))"
    if c': "conn_ok t c'" "alive c'" for c'
  proof -
    have st: "state c' \<noteq> kDisconnected" "state c' \<noteq> kConnecting" using c'(2) by (auto simp: alive_def)
    then have "\<not> closes c c'" using open_no_close [OF c'(1)] by (simp add: closes_def)
    moreover have "server_inv (s\<lparr>queues := (queues s)(t := fs), objs := (objs s)(p \<mapsto> (name, c'))\<rparr>)"
      by (rule server_inv_update [OF inv p, of c'])
        (use ci c c' conn_okD(1) [OF c'(1)] st t q in \<open>auto simp: conn_inv_def Let_def split: if_splits\<close>)
    ultimately show ?thesis by simp
  qed
  then show ?thesis using p
    by (simp add: on_conn_def Let_def) (rule guarantees_bindo [OF connectEstablished_ok [OF c(2,1) sc]], blast)
qed

lemma functor_destroyed:
  assumes inv: "server_inv s" and q: "queues s t = ConnectDestroyedF p # fs"
  shows "guarantees server_inv (run_functor script t (ConnectDestroyedF p) (s\<lparr>queues := (queues s)(t := fs)\<rparr>))"
proof -
  have "placed s t (ConnectDestroyedF p)" using head_placed [OF inv q] .
  then obtain name c where t: "tc_threadId c = t" and p: "objs s p = Some (name, c)"
    by (auto split: option.splits)
  note ci = server_invD(1) [OF inv p]
  let ?c' = "c\<lparr>channel := (channel c)\<lparr>addedToLoop := False\<rparr>\<rparr>"
  have c: "state c = kDisconnected" "conn_ok t c" "conn_notes c = [NoteUp, NoteDown, NoteClose]"
    "count_list fs (ConnectDestroyedF p) = 0" "count_list (destroyed s) p = 0"
    "count_list (queues s (sv_threadId (server s))) (RemoveConnectionF p) = 0"
    using ci t q by (auto simp: conn_inv_def Let_def split: if_splits)
  have e: "events (channel c) = 0" using c(1,2) by (simp add: conn_ok_def)
  then have run: "connectDestroyed script t c = Ret ?c'" using c(1) t
    by (simp add: connectDestroyed_def isNoneEvent_def kNoneEvent_def)
  have cl: "\<not> closes c ?c'" by (simp add: closes_def)
  have ok': "conn_ok t ?c'" using c(2) conn_ok_channel [of "channel ?c'" "channel c" t c] by simp
  have ci': "conn_notes ?c' = conn_notes c" by (simp add: conn_notes_def)
  let ?s' = "s\<lparr>queues := (queues s)(t := fs), objs := (objs s)(p \<mapsto> (name, ?c')), destroyed := destroyed s @ [p]\<rparr>"
  have "server_inv ?s'"
    by (rule server_inv_update [OF inv p, of ?c'])
      (use ci c ok' ci' t q in \<open>auto simp: conn_inv_def Let_def split: if_splits\<close>)
  then show ?thesis using p run cl by (simp add: on_conn_def Let_def)
qed

lemma functor_listen:
  assumes inv: "server_inv s" and q: "queues s t = ListenF # fs"
  shows "guarantees server_inv (run_functor script t ListenF (s\<lparr>queues := (queues s)(t := fs)\<rparr>))"
proof -
  let ?s' = "s\<lparr>queues := (queues s)(t := fs), server := (server s)\<lparr>sv_listening := True\<rparr>\<rparr>"
  have qs: "count_list (queues ?s' u) f = count_list (queues s u) f" if "f \<noteq> ListenF" for u f
    using q that by auto
  have sub: "set (queues ?s' u) \<subseteq> set (queues s u)" for u using q by auto
  have pl: "placed ?s' u f = placed s u f" for u f by (cases f) auto
  have "conn_inv ?s' p name c" if "conn_inv s p name c" for p name c
  proof (rule conn_inv_other [OF that])
    show "count_list (queues ?s' u) f = count_list (queues s u) f" if "functor_obj f = Some p" for u f
      by (rule qs) (use that in auto)
  qed (auto simp: same_server_def)
  then have "server_inv ?s'" using inv sub pl unfolding server_inv_def by (simp add: subset_iff)
  then show ?thesis by simp
qed

lemma new_conn_inv:
  assumes inv: "server_inv s" and lt: "nextConnId (server s) < int_max" and p: "p = next_obj s"
    and nm: "name = conn_name (server s) (nextConnId (server s))"
    and pool: "pool_ok pool" "baseLoop pool = sv_threadId (server s)"
    and c: "conn_ok t c" "state c = kConnecting \<and> est \<or> alive c \<and> \<not> est"
  shows "server_inv (s\<lparr>server := (server s)\<lparr>threadPool := pool, nextConnId := nextConnId (server s) + 1,
      connections := (connections (server s))(name \<mapsto> p)\<rparr>, objs := (objs s)(p \<mapsto> (name, c)), next_obj := p + 1,
      queues := (queues s)(t := queues s t @ (if est then [ConnectEstablishedF p] else []))\<rparr>)" (is "server_inv ?s'")
proof -
  have I: "\<And>t f. f \<in> set (queues s t) \<Longrightarrow> placed s t f" "\<And>p. objs s p \<noteq> None \<longleftrightarrow> p < next_obj s"
    "\<And>name p. connections (server s) name = Some p \<Longrightarrow> \<exists>c. objs s p = Some (name, c)"
    "\<And>p name c. objs s p = Some (name, c) \<Longrightarrow> conn_inv s p name c" "\<And>q. q \<in> set (destroyed s) \<Longrightarrow> q < next_obj s"
    "length (ipPort (server s)) \<le> 50" "nextConnId (server s) = int (next_obj s) + 1"
    using inv by (auto simp: server_inv_def)
  have th: "tc_threadId c = t" using conn_okD(1) [OF c(1)] .
  have none: "objs s p = None" using I(2) [of p] p by (metis less_irrefl)
  have fresh: "f \<notin> set (queues s u)" if "functor_obj f = Some p" for u f
    using I(1) [of f u] none that by (cases f) auto
  have names: "conn_name (server ?s') k = conn_name (server s) k" for k by (simp add: conn_name_def)
  have pl: "placed ?s' u f" if "f \<in> set (queues ?s' u)" for u f
  proof (cases "f \<in> set (queues s u)")
    case True
    show ?thesis using I(1) [OF True] none by (cases f) (auto split: option.splits)
  next
    case False
    then show ?thesis using that th by (auto split: if_splits)
  qed
  have others: "conn_inv ?s' q n d" if q: "objs s q = Some (n, d)" for q n d
  proof -
    note ci = I(4) [OF q]
    have qp: "q < p" using I(2) [of q] q p by auto
    have "n \<noteq> name" using ci qp p nm I(6,7) lt conn_name_inj [OF I(6), of "int q + 1" "int p + 1"]
      by (auto simp: conn_inv_def Let_def)
    then show ?thesis using ci qp by (auto simp: conn_inv_def Let_def conn_name_def)
  qed
  have zero: "count_list (queues s u) f = 0" if "functor_obj f = Some p" for u f
    using fresh [OF that] by (simp add: count_list_0_iff)
  have new: "conn_inv ?s' p name c"
    using c th nm p I(5) [of p] I(7) zero [of "ConnectEstablishedF p"] zero [of "ConnectDestroyedF p"] zero [of "RemoveConnectionF p"]
    by (auto simp: conn_inv_def Let_def conn_name_def alive_def count_list_0_iff add.commute)
  show ?thesis unfolding server_inv_def
  proof (intro conjI allI impI)
    show "conn_inv ?s' q n d" if "objs ?s' q = Some (n, d)" for q n d
      using that new others by (cases "q = p") auto
    show "objs ?s' q \<noteq> None \<longleftrightarrow> q < next_obj ?s'" for q using I(2) [of q] p by auto
    show "\<exists>d. objs ?s' q = Some (n, d)" if "connections (server ?s') n = Some q" for n q
      using that I(3) [of n q] none by (cases "n = name") auto
    show "placed ?s' u f" if "f \<in> set (queues ?s' u)" for u f using pl [OF that] .
  qed (use pool lt p I in \<open>auto simp: less_Suc_eq\<close>)
qed

lemma newConnection_ok:
  assumes inv: "server_inv s" and lt: "nextConnId (server s) < int_max" and sc: "script_ok script"
  shows "guarantees server_inv (newConnection script (sv_threadId (server s)) sockfd s)"
proof -
  let ?b = "sv_threadId (server s)" and ?wc = "sv_writeCompleteCallback (server s)"
  let ?name = "conn_name (server s) (nextConnId (server s))" and ?p = "next_obj s"
  have "pool_ok (threadPool (server s))" and base: "baseLoop (threadPool (server s)) = ?b"
    using inv by (auto simp: server_inv_def)
  then obtain io pool where next_io: "getNextLoop ?b (threadPool (server s)) = Ret (io, pool)"
    and pool: "pool_ok pool" "baseLoop pool = ?b"
    using getNextLoop_ok [of "threadPool (server s)"] by auto
  show ?thesis
  proof (cases "new_TcpConnection io sockfd")
    case (Abort e)
    have "guarantees (\<lambda>_. True) (new_TcpConnection io sockfd)"
      using new_Buffer_ok [of kInitialSize] by (auto simp: new_TcpConnection_def kInitialSize_def kCheapPrepend_def vec_max_def)
    then show ?thesis using next_io lt Abort by (simp add: newConnection_def Let_def)
  next
    case (Ret conn)
    let ?c = "conn\<lparr>writeCompleteCallback := ?wc\<rparr>"
    have ok: "conn_ok io ?c" using new_TcpConnection_ok [OF Ret] by (simp add: conn_ok_def conn_notes_def split: StateE.splits)
    have st: "state ?c = kConnecting"
      using Ret by (auto simp: new_TcpConnection_def outcome_simps)
    note add = new_conn_inv [OF inv lt refl refl pool]
    show ?thesis
    proof (cases "?b = io")
      case False
      then show ?thesis using next_io lt Ret add [OF ok, of True] st
        by (simp add: newConnection_def Let_def enqueue_def)
    next
      case True
      define t where "t c' = s\<lparr>server := (server s)\<lparr>threadPool := pool, nextConnId := nextConnId (server s) + 1,
          connections := (connections (server s))(?name \<mapsto> ?p)\<rparr>, objs := (objs s)(?p \<mapsto> (?name, c')), next_obj := Suc ?p\<rparr>" for c'
      have up: "guarantees server_inv (if closes ?c c' then removeConnection io ?p (t c') else Ret (t c'))"
        if c': "conn_ok io c' \<and> alive c'" for c'
      proof -
        have "\<not> closes ?c c'" using open_no_close [of io c'] c' by (auto simp: closes_def alive_def)
        then show ?thesis using add [of io c' False] c' by (simp add: t_def)
      qed
      have t: "objs (t ?c) ?p = Some (?name, ?c)" "(t ?c)\<lparr>objs := (objs (t ?c))(?p \<mapsto> (?name, c'))\<rparr> = t c'" for c'
        by (simp_all add: t_def)
      have "on_conn io ?p (connectEstablished script io) (t ?c) = bindo (connectEstablished script io ?c)
          (\<lambda>c'. if closes ?c c' then removeConnection io ?p (t c') else Ret (t c'))"
        by (simp add: on_conn_def t Let_def cong: if_cong)
      with guarantees_bindo [OF connectEstablished_ok [OF ok st sc] up]
      have "guarantees server_inv (on_conn ?b ?p (connectEstablished script ?b) (t ?c))" unfolding True by simp
      then show ?thesis using next_io lt Ret True by (simp add: newConnection_def t_def Let_def)
    qed
  qed
qed

lemma server_step_ok:
  assumes inv: "server_inv s" and ev: "server_ev_ok ev s" and sc: "script_ok script"
  shows "guarantees server_inv (server_step script ev s)"
proof (cases ev)
  case (Accepted sockfd)
  then show ?thesis using newConnection_ok [OF inv _ sc] ev by simp
next
  case (RunQueued t)
  show ?thesis
  proof (cases "queues s t")
    case (Cons f fs)
    then show ?thesis using RunQueued inv sc
      by (cases f) (simp_all add: functor_removal functor_established functor_destroyed functor_listen del: run_functor.simps)
  qed (use RunQueued inv in simp)
next
  case (ConnEvent p e)
  then obtain name c where p: "objs s p = Some (name, c)" "ev_ok (tc_threadId c) e c" "e \<noteq> Establish" "e \<noteq> Destroy"
    using ev by (auto split: option.splits)
  then show ?thesis using ConnEvent on_conn_moves [OF inv p(1), of "conn_step script (tc_threadId c) e"]
      conn_step_moves [OF server_invD(2) [OF inv p(1)] p(2) sc p(3,4)]
    by simp
qed

lemma server_reach_inv: "server_reach script s \<Longrightarrow> script_ok script \<Longrightarrow> server_inv s"
proof (induction rule: server_reach.induct)
  case (init ip_port n tid name sv spawn cb s)
  let ?pool0 = "setThreadNum n (new_EventLoopThreadPool tid name)"
  have sv: "sv = (new_TcpServer tid ip_port name)\<lparr>threadPool := ?pool0\<rparr>"
    using init(2) by (auto simp: server_setThreadNum_def outcome_simps new_TcpServer_def)
  then obtain pool where pool: "pool_start tid spawn cb ?pool0 = Ret pool"
    and s: "s = (initial_server sv)\<lparr>server := sv\<lparr>sv_started := 1, threadPool := pool, sv_listening := True\<rparr>\<rparr>"
    using init(3) by (auto simp: server_start_def initial_server_def new_TcpServer_def outcome_simps Let_def)
  show ?case using s sv init(1) pool_start_ok [OF pool]
    by (simp add: server_inv_def initial_server_def new_TcpServer_def int_max_def)
next
  case (step s ev s')
  then show ?case using server_step_ok [of s ev script] by (metis guarantees_simps(1))
qed

section \<open>Properties\<close>


text \<open>A server with one I/O thread that has accepted a connection.\<close>

definition demo_server :: server_sys where
  "demo_server = (let pool = \<lparr>baseLoop = 1, pool_name = ''s'', pool_started = True, numThreads = 1, next_loop = 0,
       thread_names = [''s0''], loops = [100], init_calls = []\<rparr>;
     sv = (new_TcpServer 1 ''127.0.0.1:80'' ''s'')\<lparr>threadPool := pool, sv_started := 1, sv_listening := True\<rparr>
   in (initial_server sv))"

lemma digit_zero: "digit_char 0 = CHR ''0''"
  by code_simp

lemma demo_server_reach: "server_reach script demo_server"
proof (rule server_reach.init)
  show "length ''127.0.0.1:80'' \<le> 50" by simp
  show "server_setThreadNum 1 (new_TcpServer 1 ''127.0.0.1:80'' ''s'') =
    Ret ((new_TcpServer 1 ''127.0.0.1:80'' ''s'')\<lparr>threadPool := setThreadNum 1 (new_EventLoopThreadPool 1 ''s'')\<rparr>)"
    by (simp add: server_setThreadNum_def new_TcpServer_def)
  show "server_start 1 (\<lambda>i. 100 + i) False (initial_server
      ((new_TcpServer 1 ''127.0.0.1:80'' ''s'')\<lparr>threadPool := setThreadNum 1 (new_EventLoopThreadPool 1 ''s'')\<rparr>)) = Ret demo_server"
    by (simp add: server_start_def initial_server_def new_TcpServer_def setThreadNum_def new_EventLoopThreadPool_def
        pool_start_def start_thread_def demo_server_def snprintf_def dec_int_def dec_nat.simps digit_zero Let_def)
qed


text \<open>C31: an accept event leaves the process with exactly the descriptors it should have: the new connection
  is handed to the callback, or closed when there is none; when descriptors are exhausted the
  waiting connection is accepted with the spare descriptor and closed, and the spare one is
  reopened; the other transient errors change nothing, and any other error ends the process.\<close>

theorem acceptor_descriptors:
  assumes "tid = ac_threadId a"
  shows "acceptor_handleRead tid (Inr connfd) r2 null2 a = Ret (if newConnectionCallback a
        then (Some connfd, a\<lparr>proc_fds := proc_fds a \<union> {connfd}\<rparr>) else (None, a\<lparr>proc_fds := proc_fds a - {connfd}\<rparr>)) \<and>
    (r2 \<notin> proc_fds a - {idleFd a} \<and> null2 \<ge> 0 \<longrightarrow>
      acceptor_handleRead tid (Inl EMFILE) r2 null2 a =
        Ret (None, a\<lparr>idleFd := null2, proc_fds := proc_fds a - {idleFd a} \<union> {null2}\<rparr>)) \<and>
    (e \<in> {11, 103, 4, 71, 1} \<longrightarrow> acceptor_handleRead tid (Inl e) r2 null2 a = Ret (None, a)) \<and>
    (e \<notin> {11, 103, 4, 71, 1, 24} \<longrightarrow> (\<exists>msg. acceptor_handleRead tid (Inl e) r2 null2 a = Abort (Fatal msg)))"
proof (intro conjI impI)
  show "acceptor_handleRead tid (Inr connfd) r2 null2 a = Ret (if newConnectionCallback a
      then (Some connfd, a\<lparr>proc_fds := proc_fds a \<union> {connfd}\<rparr>) else (None, a\<lparr>proc_fds := proc_fds a - {connfd}\<rparr>))"
    using assms by (simp add: acceptor_handleRead_def sockets_accept_def Let_def)
next
  assume r: "r2 \<notin> proc_fds a - {idleFd a} \<and> null2 \<ge> 0"
  then have "insert r2 (proc_fds a - {idleFd a}) - {r2} = proc_fds a - {idleFd a}"
    "proc_fds a - {idleFd a} - {r2} = proc_fds a - {idleFd a}" by blast+
  with r show "acceptor_handleRead tid (Inl EMFILE) r2 null2 a =
      Ret (None, a\<lparr>idleFd := null2, proc_fds := proc_fds a - {idleFd a} \<union> {null2}\<rparr>)"
    using assms by (simp add: acceptor_handleRead_def sockets_accept_def EMFILE_def Let_def del: insert_Diff_single insert_Diff1)
next
  assume "e \<in> {11, 103, 4, 71, 1}"
  then show "acceptor_handleRead tid (Inl e) r2 null2 a = Ret (None, a)"
    using assms by (auto simp: acceptor_handleRead_def sockets_accept_def EMFILE_def)
next
  assume "e \<notin> {11, 103, 4, 71, 1, 24}"
  then show "\<exists>msg. acceptor_handleRead tid (Inl e) r2 null2 a = Abort (Fatal msg)"
    using assms by (simp add: acceptor_handleRead_def sockets_accept_def)
qed

theorem acceptor_descriptors_witness:
  "\<exists>a. new_Acceptor 1 (Inr 3) 4 True {0, 1, 2} = Ret a \<and>
     acceptor_handleRead 1 (Inl EMFILE) 4 4 a = Ret (None, a) \<and>
     acceptor_handleRead 1 (Inr 5) 4 4 a = Ret (None, a) \<and>
     (\<exists>msg. acceptor_handleRead 1 (Inl 9) 4 4 a = Abort (Fatal msg))"
proof -
  obtain a where a: "new_Acceptor 1 (Inr 3) 4 True {0, 1, 2} = Ret a" "ac_threadId a = 1" "proc_fds a = {0, 1, 2} \<union> {3, 4}"
    "idleFd a = 4" "\<not> newConnectionCallback a"
    by (simp add: new_Acceptor_def createNonblockingOrDie_def bindOrDie_def)
  have "proc_fds a - {4} \<union> {4} = proc_fds a" "proc_fds a - {5} = proc_fds a" using a(3) by auto
  moreover have "a\<lparr>idleFd := 4, proc_fds := proc_fds a\<rparr> = a" "a\<lparr>proc_fds := proc_fds a\<rparr> = a" using a(4) by simp_all
  ultimately show ?thesis
    using a acceptor_descriptors [of 1 a 5 4 4 9] by simp
qed

end
