(* ===== verification/Connectors.thy ===== *)
theory Connectors
  imports EventLoops
begin

text \<open>
  \<^verbatim>\<open>muduo/net/Connector.{h,cc}\<close>: the active opener with exponential back-off.

  Besides the data members the record keeps the sockets that are open and owned by the connector,
  the sockets handed to \<^verbatim>\<open>newConnectionCallback_\<close>, the delays of the retry timers that have not fired
  and the functors queued in the loop. The results of \<^verbatim>\<open>socket\<close>, \<^verbatim>\<open>connect\<close>, \<^verbatim>\<open>getsockopt(SO_ERROR)\<close> and
  the self-connect test are arguments.
\<close>

section \<open>The connector object\<close>

datatype States = kDisconnected | kConnecting | kConnected

datatype connector_functor = StartF | StopF | ResetF

record Connector =
  cn_threadId :: int
  cn_connect :: bool
  cn_state :: States
  cn_channel :: "Channel option"
  retryDelayMs :: int
  open_fds :: "int set"
  delivered :: "int list"
  retry_timers :: "int list"
  cn_queue :: "connector_functor list"

definition kMaxRetryDelayMs :: int where "kMaxRetryDelayMs = 30 * 1000"
definition kInitRetryDelayMs :: int where "kInitRetryDelayMs = 500"

definition new_Connector :: "int \<Rightarrow> Connector" where
  "new_Connector tid = \<lparr>cn_threadId = tid, cn_connect = False, cn_state = kDisconnected, cn_channel = None,
     retryDelayMs = kInitRetryDelayMs, open_fds = {}, delivered = [], retry_timers = [], cn_queue = []\<rparr>"

definition delete_Connector :: "Connector \<Rightarrow> unit outcome" where
  "delete_Connector c = require (cn_channel c = None) ''!channel_'' (Ret ())"

definition close_fd :: "int \<Rightarrow> Connector \<Rightarrow> Connector" where
  "close_fd sockfd c = c\<lparr>open_fds := open_fds c - {sockfd}\<rparr>"

definition connector_retry :: "int \<Rightarrow> Connector \<Rightarrow> Connector" where
  "connector_retry sockfd c =
     (let c = (close_fd sockfd c)\<lparr>cn_state := kDisconnected\<rparr>
      in if cn_connect c
         then c\<lparr>retry_timers := retry_timers c @ [retryDelayMs c],
                retryDelayMs := min (retryDelayMs c * 2) kMaxRetryDelayMs\<rparr>
         else c)"

definition connecting :: "int \<Rightarrow> Connector \<Rightarrow> Connector outcome" where
  "connecting sockfd c =
     (let c = c\<lparr>cn_state := kConnecting\<rparr>
      in require (cn_channel c = None) ''!channel_''
           (Ret (c\<lparr>cn_channel := Some ((new_Channel sockfd)\<lparr>writeCallback := True, errorCallback := True,
                     events := new_events EnableWriting 0, addedToLoop := True\<rparr>)\<rparr>)))"

text \<open>The descriptor \<open>sockfd\<close> is what \<^verbatim>\<open>createNonblockingOrDie\<close> returned, \<open>err\<close> is \<^verbatim>\<open>savedErrno\<close>:
  0, EINPROGRESS, EINTR, EISCONN; EAGAIN, EADDRINUSE, EADDRNOTAVAIL, ECONNREFUSED, ENETUNREACH; the
  rest.\<close>

definition do_connect :: "int \<Rightarrow> int \<Rightarrow> Connector \<Rightarrow> Connector outcome" where
  "do_connect sockfd err c =
     (let c = c\<lparr>open_fds := insert sockfd (open_fds c)\<rparr>
      in if err \<in> {0, 115, 4, 106} then connecting sockfd c
         else if err \<in> {11, 98, 99, 111, 101} then Ret (connector_retry sockfd c)
         else Ret (close_fd sockfd c))"

definition startInLoop :: "int \<Rightarrow> int \<Rightarrow> int \<Rightarrow> Connector \<Rightarrow> Connector outcome" where
  "startInLoop tid sockfd err c =
     assertInLoopThread tid (cn_threadId c)
     (require (cn_state c = kDisconnected) ''state_ == kDisconnected''
     (if cn_connect c then do_connect sockfd err c else Ret c))"

definition connector_start :: "int \<Rightarrow> int \<Rightarrow> int \<Rightarrow> Connector \<Rightarrow> Connector outcome" where
  "connector_start tid sockfd err c =
     (let c = c\<lparr>cn_connect := True\<rparr>
      in if tid = cn_threadId c then startInLoop tid sockfd err c else Ret (c\<lparr>cn_queue := cn_queue c @ [StartF]\<rparr>))"

definition connector_stop :: "Connector \<Rightarrow> Connector" where
  "connector_stop c = c\<lparr>cn_connect := False, cn_queue := cn_queue c @ [StopF]\<rparr>"

definition removeAndResetChannel :: "Connector \<Rightarrow> (int \<times> Connector) outcome" where
  "removeAndResetChannel c =
     (case cn_channel c of
        None \<Rightarrow> Abort (Undefined ''null Channel'')
      | Some ch \<Rightarrow>
          let ch = ch\<lparr>events := new_events DisableAll (events ch), addedToLoop := True\<rparr>
          in require (isNoneEvent ch) ''isNoneEvent()''
            (Ret (fd ch, c\<lparr>cn_channel := Some (ch\<lparr>addedToLoop := False\<rparr>), cn_queue := cn_queue c @ [ResetF]\<rparr>)))"

definition resetChannel :: "Connector \<Rightarrow> Connector" where
  "resetChannel c = c\<lparr>cn_channel := None\<rparr>"

definition stopInLoop :: "int \<Rightarrow> Connector \<Rightarrow> Connector outcome" where
  "stopInLoop tid c =
     assertInLoopThread tid (cn_threadId c)
     (if cn_state c = kConnecting
      then bindo (removeAndResetChannel (c\<lparr>cn_state := kDisconnected\<rparr>)) (\<lambda>(sockfd, c). Ret (connector_retry sockfd c))
      else Ret c)"

definition connector_restart :: "int \<Rightarrow> int \<Rightarrow> int \<Rightarrow> Connector \<Rightarrow> Connector outcome" where
  "connector_restart tid sockfd err c =
     assertInLoopThread tid (cn_threadId c)
     (startInLoop tid sockfd err (c\<lparr>cn_state := kDisconnected, retryDelayMs := kInitRetryDelayMs, cn_connect := True\<rparr>))"

definition connector_handleWrite :: "int \<Rightarrow> bool \<Rightarrow> Connector \<Rightarrow> Connector outcome" where
  "connector_handleWrite err selfConnect c =
     (if cn_state c = kConnecting
      then bindo (removeAndResetChannel c) (\<lambda>(sockfd, c).
             if err \<noteq> 0 then Ret (connector_retry sockfd c)
             else if selfConnect then Ret (connector_retry sockfd c)
             else
               let c = c\<lparr>cn_state := kConnected\<rparr>
               in if cn_connect c
                  then Ret (c\<lparr>delivered := delivered c @ [sockfd], open_fds := open_fds c - {sockfd}\<rparr>)
                  else Ret (close_fd sockfd c))
      else require (cn_state c = kDisconnected) ''state_ == kDisconnected'' (Ret c))"

definition connector_handleError :: "Connector \<Rightarrow> Connector outcome" where
  "connector_handleError c =
     (if cn_state c = kConnecting
      then bindo (removeAndResetChannel c) (\<lambda>(sockfd, c). Ret (connector_retry sockfd c))
      else Ret c)"

section \<open>Use in a loop\<close>

text \<open>The events of a connector's life. \<open>Queued\<close> runs the first functor in the queue, \<open>RetryTimer\<close> a retry
  timer; an I/O event runs the error and the write callback as the channel's dispatch does.\<close>

datatype connector_event = Start int int int | Stop | Queued int int | RetryTimer int int
  | Restart int int | ConnectIo bool bool int bool

fun connector_step :: "int \<Rightarrow> connector_event \<Rightarrow> Connector \<Rightarrow> Connector outcome" where
  "connector_step tid (Start caller sockfd err) c = connector_start caller sockfd err c"
| "connector_step tid Stop c = Ret (connector_stop c)"
| "connector_step tid (Queued sockfd err) c =
     (case cn_queue c of
        [] \<Rightarrow> Ret c
      | f # fs \<Rightarrow>
          let c = c\<lparr>cn_queue := fs\<rparr> in
          case f of StartF \<Rightarrow> startInLoop tid sockfd err c | StopF \<Rightarrow> stopInLoop tid c | ResetF \<Rightarrow> Ret (resetChannel c))"
| "connector_step tid (RetryTimer sockfd err) c =
     startInLoop tid sockfd err (c\<lparr>retry_timers := tl (retry_timers c)\<rparr>)"
| "connector_step tid (Restart sockfd err) c = connector_restart tid sockfd err c"
| "connector_step tid (ConnectIo hasErr hasOut err selfConnect) c =
     bindo (if hasErr then connector_handleError c else Ret c) (\<lambda>c.
       if hasOut then connector_handleWrite err selfConnect c else Ret c)"

definition starts_pending :: "Connector \<Rightarrow> nat" where
  "starts_pending c = length (retry_timers c) + length (filter ((=) StartF) (cn_queue c))"

text \<open>The protocol: start is called when nothing is under way, restart after a delivered connection
  has gone, new sockets are not yet in use, and functors queued earlier run before timers, restarts
  and new starts that need the channel slot.\<close>

fun connector_ok :: "int \<Rightarrow> connector_event \<Rightarrow> Connector \<Rightarrow> bool" where
  "connector_ok tid (Start caller sockfd err) c =
     (cn_state c = kDisconnected \<and> starts_pending c = 0 \<and> ResetF \<notin> set (cn_queue c))"
| "connector_ok tid Stop c = True"
| "connector_ok tid (Queued sockfd err) c = True"
| "connector_ok tid (RetryTimer sockfd err) c = (retry_timers c \<noteq> [] \<and> ResetF \<notin> set (cn_queue c))"
| "connector_ok tid (Restart sockfd err) c = (cn_state c = kConnected \<and> ResetF \<notin> set (cn_queue c))"
| "connector_ok tid (ConnectIo hasErr hasOut err selfConnect) c = (cn_state c = kConnecting)"

section \<open>The invariant\<close>

fun back_off :: "nat \<Rightarrow> int" where
  "back_off 0 = kInitRetryDelayMs"
| "back_off (Suc n) = min (back_off n * 2) kMaxRetryDelayMs"

text \<open>Nothing that needs the channel slot may be queued behind a functor that empties it: a pending
  start comes before every pending reset.\<close>

definition connector_inv :: "int \<Rightarrow> Connector \<Rightarrow> bool" where
  "connector_inv tid c \<longleftrightarrow> cn_threadId c = tid \<and>
     (\<exists>n. retryDelayMs c = back_off n) \<and>
     (case cn_state c of
        kConnecting \<Rightarrow> (\<exists>ch. cn_channel c = Some ch \<and> isWriting ch \<and> addedToLoop ch \<and> open_fds c = {fd ch}) \<and>
          starts_pending c = 0 \<and> ResetF \<notin> set (cn_queue c)
      | kConnected \<Rightarrow> open_fds c = {} \<and> starts_pending c = 0
      | kDisconnected \<Rightarrow> open_fds c = {} \<and> starts_pending c \<le> 1) \<and>
     (cn_state c \<noteq> kConnecting \<longrightarrow>
        (case cn_channel c of None \<Rightarrow> ResetF \<notin> set (cn_queue c)
         | Some ch \<Rightarrow> isNoneEvent ch \<and> \<not> addedToLoop ch \<and> ResetF \<in> set (cn_queue c) \<and>
             distinct (filter ((=) ResetF) (cn_queue c)) \<and> StartF \<notin> set (cn_queue c)))"

lemma new_Connector_inv: "connector_inv tid (new_Connector tid)"
  by (auto simp: connector_inv_def new_Connector_def starts_pending_def intro: exI [of _ 0])

lemma back_off_step: "\<exists>n. d = back_off n \<Longrightarrow> \<exists>n. min (d * 2) kMaxRetryDelayMs = back_off n"
  by (metis back_off.simps(2))

lemma back_off_init: "\<exists>n. kInitRetryDelayMs = back_off n"
  by (rule exI [of _ 0]) simp

lemma writing_channel:
  "isWriting ((new_Channel sockfd)\<lparr>writeCallback := True, errorCallback := True,
     events := new_events EnableWriting 0, addedToLoop := True\<rparr>)"
  by (simp add: isWriting_def has_bits_def poll_masks)

lemma starts_pending_simps [simp]:
  "starts_pending (close_fd f c) = starts_pending c" "starts_pending (c\<lparr>cn_state := s\<rparr>) = starts_pending c"
  "starts_pending (c\<lparr>cn_channel := ch\<rparr>) = starts_pending c" "starts_pending (c\<lparr>open_fds := fds\<rparr>) = starts_pending c"
  "starts_pending (c\<lparr>cn_connect := b\<rparr>) = starts_pending c" "starts_pending (c\<lparr>retryDelayMs := d\<rparr>) = starts_pending c"
  by (simp_all add: starts_pending_def close_fd_def)

lemma no_starts: "starts_pending c = 0 \<longleftrightarrow> retry_timers c = [] \<and> StartF \<notin> set (cn_queue c)"
  by (auto simp: starts_pending_def filter_empty_conv)

text \<open>Opening a socket when the channel slot is free and no other start is pending.\<close>

lemma do_connect_ok:
  assumes inv: "connector_inv tid c" and st: "cn_state c = kDisconnected" "starts_pending c = 0" "cn_channel c = None"
  shows "\<exists>c'. do_connect sockfd err c = Ret c' \<and> connector_inv tid c'"
proof -
  have D: "cn_threadId c = tid" "\<exists>n. retryDelayMs c = back_off n" "open_fds c = {}" "ResetF \<notin> set (cn_queue c)"
    using inv st by (auto simp: connector_inv_def)
  have q: "retry_timers c = []" "StartF \<notin> set (cn_queue c)" using st(2) no_starts by auto
  show ?thesis using st D q back_off_step [OF D(2)] writing_channel
    by (auto simp: do_connect_def connecting_def connector_retry_def close_fd_def connector_inv_def no_starts Let_def
        new_Channel_def starts_pending_def filter_empty_conv isWriting_def)
qed

lemma startInLoop_ok:
  assumes "connector_inv tid c" "cn_state c = kDisconnected" "starts_pending c = 0" "cn_channel c = None"
  shows "\<exists>c'. startInLoop tid sockfd err c = Ret c' \<and> connector_inv tid c'"
  using assms do_connect_ok [OF assms] by (auto simp: startInLoop_def connector_inv_def)

lemma removeAndResetChannel_ok:
  assumes inv: "connector_inv tid c" and st: "cn_state c = kConnecting"
  shows "\<exists>ch. removeAndResetChannel (c\<lparr>cn_state := s\<rparr>) = Ret (fd ch, c\<lparr>cn_state := s, cn_channel := Some ch,
      cn_queue := cn_queue c @ [ResetF]\<rparr>) \<and> isNoneEvent ch \<and> \<not> addedToLoop ch \<and> open_fds c = {fd ch}"
proof -
  obtain ch where ch: "cn_channel c = Some ch" "open_fds c = {fd ch}" using assms by (auto simp: connector_inv_def)
  then show ?thesis
    by (intro exI [of _ "ch\<lparr>events := kNoneEvent, addedToLoop := False\<rparr>"])
      (simp add: removeAndResetChannel_def isNoneEvent_def Let_def)
qed

lemma retry_state [simp]: "cn_state (connector_retry f c) = kDisconnected"
  by (simp add: connector_retry_def Let_def)

lemma retry_ok:
  assumes inv: "connector_inv tid c" and st: "cn_state c = kConnecting"
    and ch: "isNoneEvent ch" "\<not> addedToLoop ch" "open_fds c = {fd ch}"
  shows "connector_inv tid (connector_retry (fd ch) (c\<lparr>cn_state := s, cn_channel := Some ch, cn_queue := cn_queue c @ [ResetF]\<rparr>))"
proof -
  have D: "cn_threadId c = tid" "\<exists>n. retryDelayMs c = back_off n" "starts_pending c = 0" "ResetF \<notin> set (cn_queue c)"
    using inv st by (auto simp: connector_inv_def)
  have q: "retry_timers c = []" "StartF \<notin> set (cn_queue c)" "filter ((=) ResetF) (cn_queue c) = []"
    using D(3,4) no_starts by (auto simp: filter_empty_conv)
  show ?thesis using D q ch back_off_step [OF D(2)]
    by (auto simp: connector_retry_def close_fd_def connector_inv_def Let_def starts_pending_def filter_empty_conv)
qed

lemma stop_or_error_ok:
  assumes inv: "connector_inv tid c" and st: "cn_state c = kConnecting"
  shows "\<exists>c'. bindo (removeAndResetChannel (c\<lparr>cn_state := s\<rparr>)) (\<lambda>(sockfd, c). Ret (connector_retry sockfd c)) = Ret c' \<and>
    connector_inv tid c' \<and> cn_state c' = kDisconnected"
proof -
  obtain ch where ch: "removeAndResetChannel (c\<lparr>cn_state := s\<rparr>) = Ret (fd ch, c\<lparr>cn_state := s, cn_channel := Some ch,
      cn_queue := cn_queue c @ [ResetF]\<rparr>)" "isNoneEvent ch" "\<not> addedToLoop ch" "open_fds c = {fd ch}"
    using removeAndResetChannel_ok [OF assms] by blast
  then show ?thesis using retry_ok [OF assms ch(2-4)] by simp
qed

lemma handleWrite_connecting_ok:
  assumes inv: "connector_inv tid c" and st: "cn_state c = kConnecting"
  shows "\<exists>c'. connector_handleWrite err selfc c = Ret c' \<and> connector_inv tid c'"
proof -
  have same: "c\<lparr>cn_state := kConnecting\<rparr> = c" using st by simp
  obtain ch where ch: "removeAndResetChannel c = Ret (fd ch, c\<lparr>cn_channel := Some ch,
      cn_queue := cn_queue c @ [ResetF]\<rparr>)" "isNoneEvent ch" "\<not> addedToLoop ch" "open_fds c = {fd ch}"
    using removeAndResetChannel_ok [OF assms, of kConnecting] unfolding same by auto
  have D: "cn_threadId c = tid" "\<exists>n. retryDelayMs c = back_off n" "starts_pending c = 0" "ResetF \<notin> set (cn_queue c)"
    using inv st by (auto simp: connector_inv_def)
  show ?thesis
  proof (cases "err \<noteq> 0 \<or> selfc")
    case True
    have eq: "c\<lparr>cn_state := kConnecting, cn_channel := Some ch, cn_queue := cn_queue c @ [ResetF]\<rparr>
        = c\<lparr>cn_channel := Some ch, cn_queue := cn_queue c @ [ResetF]\<rparr>" using st by simp
    show ?thesis using retry_ok [OF assms ch(2-4), of kConnecting, unfolded eq] ch(1) st True
      by (auto simp: connector_handleWrite_def)
  next
    case False
    have "filter ((=) ResetF) (cn_queue c) = []" using D(4) by (auto simp: filter_empty_conv)
    then show ?thesis using False D ch st
      by (auto simp: connector_handleWrite_def connector_inv_def no_starts close_fd_def Let_def)
  qed
qed

lemma queued_ok:
  assumes inv: "connector_inv tid c"
  shows "\<exists>c'. connector_step tid (Queued sockfd err) c = Ret c' \<and> connector_inv tid c'"
proof (cases "cn_queue c")
  case Nil
  then show ?thesis using inv by simp
next
  case (Cons f fs)
  let ?c = "c\<lparr>cn_queue := fs\<rparr>"
  have tid: "cn_threadId c = tid" using inv by (simp add: connector_inv_def)
  show ?thesis
  proof (cases f)
    case StartF
    have st: "cn_state c = kDisconnected"
      using inv Cons StartF by (cases "cn_state c") (auto simp: connector_inv_def starts_pending_def)
    then have "cn_channel c = None" "starts_pending ?c = 0" "connector_inv tid ?c"
      using inv Cons StartF by (auto simp: connector_inv_def starts_pending_def split: option.splits)
    from startInLoop_ok [OF this(3), of sockfd err] st this(1,2) Cons StartF show ?thesis by simp
  next
    case StopF
    have inv': "connector_inv tid ?c"
      using inv Cons StopF by (cases "cn_state c"; cases "cn_channel c") (auto simp: connector_inv_def starts_pending_def)
    show ?thesis
    proof (cases "cn_state c = kConnecting")
      case True
      then show ?thesis using stop_or_error_ok [OF inv', of kDisconnected] Cons StopF tid
        by (auto simp: stopInLoop_def)
    next
      case False
      then show ?thesis using inv' Cons StopF tid by (simp add: stopInLoop_def)
    qed
  next
    case ResetF
    have "ResetF \<notin> set fs" "cn_state c \<noteq> kConnecting"
      using inv Cons ResetF by (auto simp: connector_inv_def split: States.splits option.splits)
    then have "connector_inv tid (resetChannel ?c)"
      using inv Cons ResetF
      by (cases "cn_state c") (auto simp: connector_inv_def starts_pending_def resetChannel_def)
    then show ?thesis using Cons ResetF by simp
  qed
qed

lemma start_ok:
  assumes inv: "connector_inv tid c" and ok: "connector_ok tid (Start caller sockfd err) c"
  shows "\<exists>c'. connector_step tid (Start caller sockfd err) c = Ret c' \<and> connector_inv tid c'"
proof -
  have free: "cn_channel c = None" "cn_threadId c = tid" using inv ok by (auto simp: connector_inv_def split: option.splits)
  have inv': "connector_inv tid (c\<lparr>cn_connect := True\<rparr>)" using inv by (cases "cn_state c"; cases "cn_channel c") (auto simp: connector_inv_def)
  show ?thesis
  proof (cases "caller = tid")
    case True
    then show ?thesis using startInLoop_ok [OF inv', of sockfd err] ok free by (simp add: connector_start_def)
  next
    case False
    then show ?thesis using inv ok free by (auto simp: connector_start_def connector_inv_def starts_pending_def)
  qed
qed

lemma retry_timer_ok:
  assumes inv: "connector_inv tid c" and ok: "connector_ok tid (RetryTimer sockfd err) c"
  shows "\<exists>c'. connector_step tid (RetryTimer sockfd err) c = Ret c' \<and> connector_inv tid c'"
proof -
  have t: "retry_timers c \<noteq> []" "ResetF \<notin> set (cn_queue c)" using ok by auto
  let ?c = "c\<lparr>retry_timers := tl (retry_timers c)\<rparr>"
  have st: "cn_state c = kDisconnected"
    using inv t by (cases "cn_state c") (auto simp: connector_inv_def starts_pending_def)
  have pend: "starts_pending ?c = 0"
    using inv st t by (cases "retry_timers c") (auto simp: connector_inv_def starts_pending_def)
  have free: "cn_channel c = None" using inv st t by (auto simp: connector_inv_def split: option.splits)
  have "connector_inv tid ?c" using inv st pend free by (auto simp: connector_inv_def)
  from startInLoop_ok [OF this, of sockfd err] st pend free show ?thesis by simp
qed

lemma connector_step_ok:
  assumes inv: "connector_inv tid c" and ok: "connector_ok tid ev c"
  shows "\<exists>c'. connector_step tid ev c = Ret c' \<and> connector_inv tid c'"
proof (cases ev)
  case (Start caller sockfd err)
  then show ?thesis using start_ok [OF inv] ok by blast
next
  case Stop
  then show ?thesis using inv
    by (auto simp: connector_stop_def connector_inv_def starts_pending_def split: States.splits option.splits)
next
  case (Queued sockfd err)
  then show ?thesis using queued_ok [OF inv] by simp
next
  case (RetryTimer sockfd err)
  then show ?thesis using retry_timer_ok [OF inv] ok by blast
next
  case (Restart sockfd err)
  have free: "cn_channel c = None" "cn_threadId c = tid" "starts_pending c = 0" "open_fds c = {}" "ResetF \<notin> set (cn_queue c)"
    using inv ok Restart by (auto simp: connector_inv_def split: option.splits)
  have "connector_inv tid (c\<lparr>cn_state := kDisconnected, retryDelayMs := kInitRetryDelayMs, cn_connect := True\<rparr>)"
    using free back_off_init by (simp add: connector_inv_def)
  from startInLoop_ok [OF this, of sockfd err] free Restart show ?thesis by (simp add: connector_restart_def)
next
  case (ConnectIo hasErr hasOut err selfc)
  then have st: "cn_state c = kConnecting" using ok by simp
  have same: "c\<lparr>cn_state := kConnecting\<rparr> = c" using st by simp
  obtain d where d: "connector_handleError c = Ret d" "connector_inv tid d" "cn_state d = kDisconnected"
    using stop_or_error_ok [OF inv st, of kConnecting] st unfolding same by (auto simp: connector_handleError_def)
  then show ?thesis using ConnectIo handleWrite_connecting_ok [OF inv st, of err selfc] inv
    by (cases hasErr; cases hasOut) (auto simp: connector_handleWrite_def)
qed

section \<open>Properties\<close>

text \<open>A connector used by the protocol; the outcome of a run that leaves it is not considered.\<close>

inductive connector_reach :: "int \<Rightarrow> Connector \<Rightarrow> bool" for tid where
  init: "connector_reach tid (new_Connector tid)"
| step: "connector_reach tid c \<Longrightarrow> connector_ok tid ev c \<Longrightarrow> connector_step tid ev c = Ret c' \<Longrightarrow> connector_reach tid c'"

lemma connector_reach_inv: "connector_reach tid c \<Longrightarrow> connector_inv tid c"
proof (induction rule: connector_reach.induct)
  case init
  then show ?case by (rule new_Connector_inv)
next
  case (step c ev c')
  then show ?case using connector_step_ok [OF step.IH step.hyps(2)] by auto
qed

lemma back_off_bounds: "kInitRetryDelayMs \<le> back_off n \<and> back_off n \<le> kMaxRetryDelayMs"
  by (induction n) (auto simp: kInitRetryDelayMs_def kMaxRetryDelayMs_def)

lemma back_off_closed: "back_off n = min (500 * 2 ^ n) 30000"
  by (induction n) (auto simp: kInitRetryDelayMs_def kMaxRetryDelayMs_def min_def)



end
