(* ===== verification/TcpClients.thy ===== *)
theory TcpClients
  imports TcpServers Connectors
begin

text \<open>
  \<^verbatim>\<open>muduo/net/TcpClient.{h,cc}\<close>: a connector and the connection it produced.

  The client is modelled with the loop it lives in, like the server: \<open>cl_objs\<close> are the connection
  objects, \<open>cl_posted\<close> the functors queued in the loop that concern connections. What
  \<^verbatim>\<open>Connector::restart\<close> gets from \<^verbatim>\<open>socket\<close> and \<^verbatim>\<open>connect\<close> is an argument of the operation that calls it.
\<close>

section \<open>The client\<close>

datatype client_functor = DestroyF nat | SetCloseCallbackF nat

record TcpClient =
  cl_threadId :: int
  connector :: Connector
  cl_name :: string
  cl_retry :: bool
  cl_connect :: bool
  cl_nextConnId :: int
  connection :: "nat option"

record client_sys =
  client :: TcpClient
  cl_objs :: "nat \<rightharpoonup> string \<times> TcpConnection"
  cl_next_obj :: nat
  cl_posted :: "client_functor list"

definition new_TcpClient :: "int \<Rightarrow> string \<Rightarrow> TcpClient" where
  "new_TcpClient tid nameArg =
     \<lparr>cl_threadId = tid, connector = new_Connector tid, cl_name = nameArg, cl_retry = False, cl_connect = True,
      cl_nextConnId = 1, connection = None\<rparr>"

definition enableRetry :: "TcpClient \<Rightarrow> TcpClient" where
  "enableRetry c = c\<lparr>cl_retry := True\<rparr>"

definition post_functor :: "client_functor \<Rightarrow> client_sys \<Rightarrow> client_sys" where
  "post_functor f s = s\<lparr>cl_posted := cl_posted s @ [f]\<rparr>"

text \<open>The name of a connection; the part after the client's name is printed into a 32-byte buffer.\<close>

definition client_conn_name :: "TcpClient \<Rightarrow> string \<Rightarrow> int \<Rightarrow> string" where
  "client_conn_name c peerIpPort k = cl_name c @ snprintf 32 ('':'' @ peerIpPort @ ''#'' @ dec_int k)"

definition client_connect :: "int \<Rightarrow> int \<Rightarrow> int \<Rightarrow> TcpClient \<Rightarrow> TcpClient outcome" where
  "client_connect tid sockfd err c =
     (let c = c\<lparr>cl_connect := True\<rparr>
      in bindo (connector_start tid sockfd err (connector c)) (\<lambda>k. Ret (c\<lparr>connector := k\<rparr>)))"

definition client_disconnect :: "int \<Rightarrow> client_sys \<Rightarrow> client_sys outcome" where
  "client_disconnect tid s =
     (let s = s\<lparr>client := (client s)\<lparr>cl_connect := False\<rparr>\<rparr>
      in case connection (client s) of
           None \<Rightarrow> Ret s
         | Some p \<Rightarrow> (case cl_objs s p of
             None \<Rightarrow> Abort (Undefined ''dangling TcpConnectionPtr'')
           | Some (name, conn) \<Rightarrow> bindo (shutdown tid conn) (\<lambda>conn. Ret (s\<lparr>cl_objs := (cl_objs s)(p \<mapsto> (name, conn))\<rparr>))))"

definition client_stop :: "TcpClient \<Rightarrow> TcpClient" where
  "client_stop c = c\<lparr>cl_connect := False, connector := connector_stop (connector c)\<rparr>"

definition client_newConnection ::
  "(conn_note \<Rightarrow> TcpConnection \<Rightarrow> conn_call list) \<Rightarrow> int \<Rightarrow> int \<Rightarrow> string \<Rightarrow> client_sys \<Rightarrow> client_sys outcome" where
  "client_newConnection script tid sockfd peerIpPort s =
     assertInLoopThread tid (cl_threadId (client s))
     (let connName = client_conn_name (client s) peerIpPort (cl_nextConnId (client s)); p = cl_next_obj s
      in if cl_nextConnId (client s) = int_max then Abort (Undefined ''++nextConnId_'')
         else bindo (new_TcpConnection (cl_threadId (client s)) sockfd) (\<lambda>conn.
           let s = s\<lparr>client := (client s)\<lparr>cl_nextConnId := cl_nextConnId (client s) + 1, connection := Some p\<rparr>,
                 cl_next_obj := p + 1\<rparr>
           in bindo (connectEstablished script tid conn) (\<lambda>conn.
                Ret (s\<lparr>cl_objs := (cl_objs s)(p \<mapsto> (connName, conn))\<rparr>))))"

text \<open>\<^verbatim>\<open>TcpClient::removeConnection\<close>, the close callback of the connection; \<open>sockfd\<close> and \<open>err\<close> are used by the
  restart.\<close>

definition client_removeConnection :: "int \<Rightarrow> int \<Rightarrow> int \<Rightarrow> nat \<Rightarrow> client_sys \<Rightarrow> client_sys outcome" where
  "client_removeConnection tid sockfd err p s =
     assertInLoopThread tid (cl_threadId (client s))
     (case cl_objs s p of
        None \<Rightarrow> Abort (Undefined ''dangling TcpConnectionPtr'')
      | Some (name, conn) \<Rightarrow>
          require (cl_threadId (client s) = tc_threadId conn) ''loop_ == conn->getLoop()''
          (require (connection (client s) = Some p) ''connection_ == conn''
          (let s = post_functor (DestroyF p) (s\<lparr>client := (client s)\<lparr>connection := None\<rparr>\<rparr>)
           in if cl_retry (client s) \<and> cl_connect (client s)
              then bindo (connector_restart tid sockfd err (connector (client s))) (\<lambda>k.
                     Ret (s\<lparr>client := (client s)\<lparr>connector := k\<rparr>\<rparr>))
              else Ret s)))"

text \<open>\<^verbatim>\<open>detail::removeConnection\<close>, the close callback once the client is gone.\<close>

definition detail_removeConnection :: "nat \<Rightarrow> client_sys \<Rightarrow> client_sys" where
  "detail_removeConnection p s = post_functor (DestroyF p) s"

text \<open>The destructor: \<open>unique\<close> is whether the client holds the last reference. Replacing the close callback
  is a functor unless it runs in the loop's thread.\<close>

definition delete_TcpClient :: "int \<Rightarrow> bool \<Rightarrow> client_sys \<Rightarrow> client_sys outcome" where
  "delete_TcpClient tid unique s = (case connection (client s) of
      Some p \<Rightarrow> (case cl_objs s p of
          None \<Rightarrow> Abort (Undefined ''dangling TcpConnectionPtr'')
        | Some (name, conn) \<Rightarrow>
            require (cl_threadId (client s) = tc_threadId conn) ''loop_ == conn->getLoop()''
            (let s = (if tid = cl_threadId (client s) then s else post_functor (SetCloseCallbackF p) s)
             in Ret (if unique then s\<lparr>cl_objs := (cl_objs s)(p \<mapsto> (name, forceClose conn))\<rparr> else s)))
    | None \<Rightarrow> Ret (s\<lparr>client := (client s)\<lparr>connector := connector_stop (connector (client s))\<rparr>\<rparr>))"

section \<open>Properties\<close>

lemma client_conn_name_full:
  assumes "length peer \<le> 19" and "0 \<le> k" "k \<le> int_max"
  shows "client_conn_name c peer k = cl_name c @ '':'' @ peer @ ''#'' @ dec_int k"
  using length_dec_int [OF assms(2,3)] assms(1) by (simp add: client_conn_name_def snprintf_fits)

text \<open>The running number in the names of a client's connections survives only for short peer addresses:
  up to 19 characters names are unique, from 30 characters on (many IPv6 peers) the 32-byte buffer
  cuts the number off and every connection to the peer gets the same name.\<close>

theorem client_names:
  assumes "0 \<le> j" "j \<le> int_max" "0 \<le> k" "k \<le> int_max"
  shows "(length peer \<le> 19 \<longrightarrow> (client_conn_name c peer j = client_conn_name c peer k \<longleftrightarrow> j = k)) \<and>
    (length peer \<ge> 30 \<longrightarrow> client_conn_name c peer j = client_conn_name c peer k)"
proof (intro conjI impI)
  assume "length peer \<le> 19"
  then show "client_conn_name c peer j = client_conn_name c peer k \<longleftrightarrow> j = k"
    using assms by (simp add: client_conn_name_full dec_int_inj)
qed (simp add: client_conn_name_def snprintf_def)

theorem client_names_witness:
  "client_conn_name (new_TcpClient 1 ''c'') ''[2001:db8:85a3:8d3:1319:8a2e:370:7348]:443'' 1 =
   client_conn_name (new_TcpClient 1 ''c'') ''[2001:db8:85a3:8d3:1319:8a2e:370:7348]:443'' 2 \<and>
   client_conn_name (new_TcpClient 1 ''c'') ''10.0.0.1:80'' 1 \<noteq> client_conn_name (new_TcpClient 1 ''c'') ''10.0.0.1:80'' 2"
  using client_names [of 1 2 "''[2001:db8:85a3:8d3:1319:8a2e:370:7348]:443''" "new_TcpClient 1 ''c''"]
    client_names [of 1 2 "''10.0.0.1:80''" "new_TcpClient 1 ''c''"]
  by (simp add: int_max_def)

text \<open>The connector after it has delivered a connection and its queued reset has run.\<close>

definition delivered_one :: "Connector \<Rightarrow> bool" where
  "delivered_one k \<longleftrightarrow> cn_state k = Connectors.kConnected \<and> cn_channel k = None"



end
