(* ===== verification/Http.thy ===== *)
theory Http
  imports TcpConnections "HOL-Library.List_Lexorder" "HOL-Library.Char_ord"
begin

text \<open>
  \<^verbatim>\<open>muduo/net/http\<close>: requests (\<^verbatim>\<open>HttpRequest.h\<close>), the incremental parser (\<^verbatim>\<open>HttpContext.{h,cc}\<close>), responses
  (\<^verbatim>\<open>HttpResponse.{h,cc}\<close>) and the server's message callback (\<^verbatim>\<open>HttpServer.{h,cc}\<close>).

  A \<^verbatim>\<open>std::map\<close> with string keys is an association list sorted by key, as it is iterated. The parsing
  loop is a partial function with values in \<open>option\<close>, where \<open>None\<close> means that the \<^verbatim>\<open>while\<close> loop never
  ends. \<open>http_lines\<close> is a reference parser on the plain byte string; the loop over the buffer is
  shown to agree with it, and the properties are proved for it.
\<close>

section \<open>Sorted maps\<close>

fun map_set :: "'k::linorder \<Rightarrow> 'v \<Rightarrow> ('k \<times> 'v) list \<Rightarrow> ('k \<times> 'v) list" where
  "map_set k v [] = [(k, v)]"
| "map_set k v ((k', v') # m) =
     (if k < k' then (k, v) # (k', v') # m else if k = k' then (k, v) # m else (k', v') # map_set k v m)"

lemma map_of_map_set [simp]: "map_of (map_set k v m) = (map_of m)(k \<mapsto> v)"
  by (induction k v m rule: map_set.induct) auto

section \<open>Requests\<close>

datatype Method = kInvalid | kGet | kPost | kHead | kPut | kDelete
datatype Version = kUnknown | kHttp10 | kHttp11

record HttpRequest =
  req_method :: Method
  req_version :: Version
  path :: string
  query :: string
  receiveTime :: int
  headers :: "(string \<times> string) list"

definition new_HttpRequest :: HttpRequest where
  "new_HttpRequest = \<lparr>req_method = kInvalid, req_version = kUnknown, path = [], query = [], receiveTime = 0, headers = []\<rparr>"

definition setMethod :: "string \<Rightarrow> HttpRequest \<Rightarrow> (bool \<times> HttpRequest) outcome" where
  "setMethod m r =
     require (req_method r = kInvalid) ''method_ == kInvalid''
     (let r = r\<lparr>req_method :=
            (if m = ''GET'' then kGet else if m = ''POST'' then kPost else if m = ''HEAD'' then kHead
             else if m = ''PUT'' then kPut else if m = ''DELETE'' then kDelete else kInvalid)\<rparr>
      in Ret (req_method r \<noteq> kInvalid, r))"

definition methodString :: "HttpRequest \<Rightarrow> string" where
  "methodString r = (case req_method r of kGet \<Rightarrow> ''GET'' | kPost \<Rightarrow> ''POST'' | kHead \<Rightarrow> ''HEAD'' | kPut \<Rightarrow> ''PUT''
     | kDelete \<Rightarrow> ''DELETE'' | kInvalid \<Rightarrow> ''UNKNOWN'')"

text \<open>\<^verbatim>\<open>addHeader(start, colon, end)\<close> on the line and the offset of the colon.\<close>

definition addHeader :: "string \<Rightarrow> nat \<Rightarrow> HttpRequest \<Rightarrow> HttpRequest" where
  "addHeader line colon r =
     (let field = take colon line;
          value = dropWhile isspace (drop (colon + 1) line);
          value = rev (dropWhile isspace (rev value))
      in r\<lparr>headers := map_set field value (headers r)\<rparr>)"

definition getHeader :: "string \<Rightarrow> HttpRequest \<Rightarrow> string" where
  "getHeader field r = (case map_of (headers r) field of None \<Rightarrow> [] | Some v \<Rightarrow> v)"

section \<open>The parser\<close>

datatype HttpRequestParseState = kExpectRequestLine | kExpectHeaders | kExpectBody | kGotAll

record HttpContext =
  parse_state :: HttpRequestParseState
  request :: HttpRequest

definition new_HttpContext :: HttpContext where
  "new_HttpContext = \<lparr>parse_state = kExpectRequestLine, request = new_HttpRequest\<rparr>"

definition gotAll :: "HttpContext \<Rightarrow> bool" where
  "gotAll c \<longleftrightarrow> parse_state c = kGotAll"

definition HttpContext_reset :: "HttpContext \<Rightarrow> HttpContext" where
  "HttpContext_reset c = \<lparr>parse_state = kExpectRequestLine, request = new_HttpRequest\<rparr>"

text \<open>\<open>line\<close> is the range \<^verbatim>\<open>[begin, end)\<close>.\<close>

definition processRequestLine :: "string \<Rightarrow> HttpRequest \<Rightarrow> (bool \<times> HttpRequest) outcome" where
  "processRequestLine line r =
     (let space = std_find line CHR '' '' in
      if space \<noteq> length line
      then bindo (setMethod (take space line) r) (\<lambda>(valid, r).
        if valid
        then
          let start = drop (space + 1) line;
              space = std_find start CHR '' ''
          in if space \<noteq> length start
             then
               let url = take space start;
                   question = std_find url CHR ''?'';
                   r = (if question \<noteq> length url then r\<lparr>path := take question url, query := drop question url\<rparr>
                        else r\<lparr>path := url\<rparr>);
                   start = drop (space + 1) start
               in if length start = 8 \<and> take 7 start = ''HTTP/1.''
                  then if start ! 7 = CHR ''1'' then Ret (True, r\<lparr>req_version := kHttp11\<rparr>)
                       else if start ! 7 = CHR ''0'' then Ret (True, r\<lparr>req_version := kHttp10\<rparr>)
                       else Ret (False, r)
                  else Ret (False, r)
             else Ret (False, r)
        else Ret (False, r))
      else Ret (False, r))"

text \<open>The \<^verbatim>\<open>while (hasMore)\<close> loop. The states \<open>kExpectBody\<close> and \<open>kGotAll\<close> match no branch that changes
  anything.\<close>

partial_function (option) parse_loop ::
  "bool \<Rightarrow> bool \<Rightarrow> int \<Rightarrow> HttpContext \<Rightarrow> Buffer \<Rightarrow> (bool \<times> HttpContext \<times> Buffer) outcome option" where
  "parse_loop ok hasMore time ctx buf =
     (if hasMore
      then case parse_state ctx of
          kExpectRequestLine \<Rightarrow>
            (case findCRLF buf of
               Some crlf \<Rightarrow>
                 (case processRequestLine (buf_slice (peek buf) crlf buf) (request ctx) of
                    Abort e \<Rightarrow> Some (Abort e)
                  | Ret (ok, req) \<Rightarrow>
                      if ok
                      then (case retrieveUntil (crlf + 2) buf of
                              Abort e \<Rightarrow> Some (Abort e)
                            | Ret buf \<Rightarrow> parse_loop ok True time
                                (ctx\<lparr>request := req\<lparr>receiveTime := time\<rparr>, parse_state := kExpectHeaders\<rparr>) buf)
                      else parse_loop ok False time (ctx\<lparr>request := req\<rparr>) buf)
             | None \<Rightarrow> parse_loop ok False time ctx buf)
        | kExpectHeaders \<Rightarrow>
            (case findCRLF buf of
               Some crlf \<Rightarrow>
                 (let line = buf_slice (peek buf) crlf buf;
                      colon = std_find line CHR '':''
                  in case retrieveUntil (crlf + 2) buf of
                       Abort e \<Rightarrow> Some (Abort e)
                     | Ret buf \<Rightarrow>
                         if colon \<noteq> length line
                         then parse_loop ok True time (ctx\<lparr>request := addHeader line colon (request ctx)\<rparr>) buf
                         else parse_loop ok False time (ctx\<lparr>parse_state := kGotAll\<rparr>) buf)
             | None \<Rightarrow> parse_loop ok False time ctx buf)
        | kExpectBody \<Rightarrow> parse_loop ok True time ctx buf
        | kGotAll \<Rightarrow> parse_loop ok True time ctx buf
      else Some (Ret (ok, ctx, buf)))"

definition parseRequest ::
  "int \<Rightarrow> HttpContext \<Rightarrow> Buffer \<Rightarrow> (bool \<times> HttpContext \<times> Buffer) outcome option" where
  "parseRequest time ctx buf = parse_loop True True time ctx buf"

section \<open>Responses\<close>

datatype HttpStatusCode = kUnknownStatus | k200Ok | k301MovedPermanently | k400BadRequest | k404NotFound

fun status_value :: "HttpStatusCode \<Rightarrow> int" where
  "status_value kUnknownStatus = 0"
| "status_value k200Ok = 200"
| "status_value k301MovedPermanently = 301"
| "status_value k400BadRequest = 400"
| "status_value k404NotFound = 404"

record HttpResponse =
  resp_headers :: "(string \<times> string) list"
  statusCode :: HttpStatusCode
  statusMessage :: string
  closeConnection :: bool
  body :: string

definition new_HttpResponse :: "bool \<Rightarrow> HttpResponse" where
  "new_HttpResponse close = \<lparr>resp_headers = [], statusCode = kUnknownStatus, statusMessage = [], closeConnection = close, body = []\<rparr>"

definition resp_addHeader :: "string \<Rightarrow> string \<Rightarrow> HttpResponse \<Rightarrow> HttpResponse" where
  "resp_addHeader k v r = r\<lparr>resp_headers := map_set k v (resp_headers r)\<rparr>"

definition setContentType :: "string \<Rightarrow> HttpResponse \<Rightarrow> HttpResponse" where
  "setContentType contentType r = resp_addHeader ''Content-Type'' contentType r"

definition append_header :: "string \<times> string \<Rightarrow> Buffer \<Rightarrow> Buffer outcome" where
  "append_header header b = foldo Buffer_append [fst header, '': '', snd header, kCRLF] b"

definition appendToBuffer :: "HttpResponse \<Rightarrow> Buffer \<Rightarrow> Buffer outcome" where
  "appendToBuffer r b =
     bindo (foldo Buffer_append [snprintf 32 (''HTTP/1.1 '' @ dec_int (status_value (statusCode r)) @ '' ''),
                                 statusMessage r, kCRLF] b) (\<lambda>b.
     bindo (if closeConnection r then Buffer_append (''Connection: close'' @ kCRLF) b
            else foldo Buffer_append [snprintf 32 (''Content-Length: '' @ dec_nat (length (body r)) @ kCRLF),
                                      ''Connection: Keep-Alive'' @ kCRLF] b) (\<lambda>b.
     bindo (foldo append_header (resp_headers r) b) (\<lambda>b.
     foldo Buffer_append [kCRLF, body r] b)))"

section \<open>The server's callbacks\<close>

definition defaultHttpCallback :: "HttpRequest \<Rightarrow> HttpResponse \<Rightarrow> HttpResponse" where
  "defaultHttpCallback req resp =
     resp\<lparr>statusCode := k404NotFound, statusMessage := ''Not Found'', closeConnection := True\<rparr>"

definition wants_close :: "HttpRequest \<Rightarrow> bool" where
  "wants_close req =
     (let connection = getHeader ''Connection'' req
      in connection = ''close'' \<or> req_version req = kHttp10 \<and> connection \<noteq> ''Keep-Alive'')"

definition onRequest ::
  "(HttpRequest \<Rightarrow> HttpResponse \<Rightarrow> HttpResponse) \<Rightarrow> int \<Rightarrow> (char list \<Rightarrow> int + nat) \<Rightarrow> HttpRequest \<Rightarrow>
    TcpConnection \<Rightarrow> TcpConnection outcome" where
  "onRequest httpCallback tid wr req conn =
     (let response = httpCallback req (new_HttpResponse (wants_close req))
      in bindo (new_Buffer kInitialSize) (\<lambda>buf.
         bindo (appendToBuffer response buf) (\<lambda>buf.
         bindo (send_Buffer tid buf wr conn) (\<lambda>(buf, conn).
         if closeConnection response then shutdown tid conn else Ret conn))))"

text \<open>\<^verbatim>\<open>onConnection\<close> stores a fresh context in the connection when it goes up.\<close>

definition onConnection :: "TcpConnection \<Rightarrow> HttpContext option \<Rightarrow> HttpContext option" where
  "onConnection conn context = (if state conn = kConnected then Some new_HttpContext else context)"

definition bad_request :: string where
  "bad_request = ''HTTP/1.1 400 Bad Request'' @ kCRLF @ kCRLF"

text \<open>\<^verbatim>\<open>onMessage\<close> reads from the connection's input buffer; \<open>None\<close> again means that parsing never ends.\<close>

definition onMessage ::
  "(HttpRequest \<Rightarrow> HttpResponse \<Rightarrow> HttpResponse) \<Rightarrow> int \<Rightarrow> (char list \<Rightarrow> int + nat) \<Rightarrow> int \<Rightarrow>
    HttpContext \<Rightarrow> TcpConnection \<Rightarrow> (HttpContext \<times> TcpConnection) outcome option" where
  "onMessage httpCallback tid wr time ctx conn =
     map_option (\<lambda>m. bindo m (\<lambda>(ok, ctx, buf).
       let conn = conn\<lparr>inputBuffer := buf\<rparr>
       in bindo (if ok then Ret conn
                 else bindo (send tid bad_request wr conn) (\<lambda>conn. shutdown tid conn)) (\<lambda>conn.
          if gotAll ctx
          then bindo (onRequest httpCallback tid wr (request ctx) conn) (\<lambda>conn. Ret (HttpContext_reset ctx, conn))
          else Ret (ctx, conn))))
       (parseRequest time ctx (inputBuffer conn))"

section \<open>A reference parser on byte strings\<close>

text \<open>The next line and what follows its CRLF.\<close>

definition next_line :: "string \<Rightarrow> (string \<times> string) option" where
  "next_line s = (let i = std_search s kCRLF in if i = length s then None else Some (take i s, drop (i + 2) s))"

lemma next_line_shorter: "next_line s = Some (line, rest) \<Longrightarrow> length rest < length s"
  using std_search_le [of s kCRLF] by (auto simp: next_line_def Let_def split: if_splits)

function http_lines :: "int \<Rightarrow> HttpContext \<Rightarrow> string \<Rightarrow> (bool \<times> HttpContext \<times> string) outcome" where
  "http_lines time ctx s =
     (case next_line s of
        None \<Rightarrow> Ret (True, ctx, s)
      | Some (line, rest) \<Rightarrow>
          (case parse_state ctx of
             kExpectRequestLine \<Rightarrow>
               (case processRequestLine line (request ctx) of
                  Abort e \<Rightarrow> Abort e
                | Ret (ok, req) \<Rightarrow>
                    if ok then http_lines time (ctx\<lparr>request := req\<lparr>receiveTime := time\<rparr>, parse_state := kExpectHeaders\<rparr>) rest
                    else Ret (False, ctx\<lparr>request := req\<rparr>, s))
           | kExpectHeaders \<Rightarrow>
               if std_find line CHR '':'' \<noteq> length line
               then http_lines time (ctx\<lparr>request := addHeader line (std_find line CHR '':'') (request ctx)\<rparr>) rest
               else Ret (True, ctx\<lparr>parse_state := kGotAll\<rparr>, rest)
           | _ \<Rightarrow> Ret (True, ctx, s)))"
  by pat_completeness auto
termination
  by (relation "measure (\<lambda>(time, ctx, s). length s)") (auto dest: next_line_shorter)

declare http_lines.simps [simp del]

definition parsing :: "HttpContext \<Rightarrow> bool" where
  "parsing ctx \<longleftrightarrow> parse_state ctx = kExpectRequestLine \<or> parse_state ctx = kExpectHeaders"

text \<open>Reading a line from the buffer is reading it from its content.\<close>

lemma buffer_line:
  assumes ok: "buffer_ok b"
  shows "case next_line (content b) of
      None \<Rightarrow> findCRLF b = None
    | Some (line, rest) \<Rightarrow> \<exists>crlf b'. findCRLF b = Some crlf \<and> buf_slice (peek b) crlf b = line \<and>
        retrieveUntil (crlf + 2) b = Ret b' \<and> buffer_ok b' \<and> content b' = rest"
proof -
  let ?i = "std_search (content b) kCRLF"
  have lc: "length (content b) = beginWrite b - peek b" and le: "peek b \<le> beginWrite b"
    using ok by (simp_all add: length_content buffer_okD pointers)
  have f: "findCRLF b = (if ?i = length (content b) then None else Some (peek b + ?i))"
    using lc le by (auto simp: findCRLF_def content_def [symmetric] Let_def)
  show ?thesis
  proof (cases "?i = length (content b)")
    case False
    then have lt: "?i < length (content b)" using std_search_le [of "content b" kCRLF] by simp
    then have room: "?i + 2 \<le> length (content b)" using std_search_room [OF lt] by simp
    obtain b' where b': "retrieve (?i + 2) b = Ret b'" "buffer_ok b'" "content b' = drop (?i + 2) (content b)"
      using retrieve_ok [OF ok, of "?i + 2"] room length_content [OF ok] by auto
    have "peek b + ?i + 2 \<le> beginWrite b" using room lc le by linarith
    then have "retrieveUntil (peek b + ?i + 2) b = Ret b'"
      using b'(1) by (simp add: retrieveUntil_def)
    moreover have "buf_slice (peek b) (peek b + ?i) b = take ?i (content b)"
      using lt lc by (simp add: content_def buf_slice_def min_def)
    ultimately show ?thesis using False f b' by (simp add: next_line_def Let_def)
  qed (simp add: next_line_def f)
qed

text \<open>The loop over the buffer agrees with the reference parser, and ends.\<close>

lemma parse_loop_off: "parse_loop k False time c d = Some (Ret (k, c, d))"
  by (simp add: parse_loop.simps)

text \<open>What one round does with a line.\<close>

lemma parse_loop_header:
  assumes "parse_state ctx = kExpectHeaders" and "findCRLF b = Some crlf" "buf_slice (peek b) crlf b = ln" "retrieveUntil (crlf + 2) b = Ret b'"
  shows "parse_loop True True time ctx b = (if std_find ln CHR '':'' \<noteq> length ln
    then parse_loop True True time (ctx\<lparr>request := addHeader ln (std_find ln CHR '':'') (request ctx)\<rparr>) b'
    else Some (Ret (True, ctx\<lparr>parse_state := kGotAll\<rparr>, b')))"
  using assms by (simp add: parse_loop.simps [of True True time ctx b] parse_loop_off Let_def)

lemma parse_loop_request_line:
  assumes "parse_state ctx = kExpectRequestLine" and "findCRLF b = Some crlf" "buf_slice (peek b) crlf b = ln" "retrieveUntil (crlf + 2) b = Ret b'"
  shows "parse_loop True True time ctx b = (case processRequestLine ln (request ctx) of
      Abort e \<Rightarrow> Some (Abort e)
    | Ret (ok, req) \<Rightarrow> if ok then parse_loop True True time (ctx\<lparr>request := req\<lparr>receiveTime := time\<rparr>, parse_state := kExpectHeaders\<rparr>) b'
        else Some (Ret (False, ctx\<lparr>request := req\<rparr>, b)))"
  using assms by (simp add: parse_loop.simps [of True True time ctx b] parse_loop_off split: outcome.split prod.split)

lemma parse_loop_lines:
  assumes "buffer_ok b" and "parsing ctx"
  shows "case http_lines time ctx (content b) of
      Abort e \<Rightarrow> parse_loop True True time ctx b = Some (Abort e)
    | Ret (ok, ctx', rest) \<Rightarrow> \<exists>b'. parse_loop True True time ctx b = Some (Ret (ok, ctx', b')) \<and> buffer_ok b' \<and> content b' = rest"
  using assms
proof (induction "length (content b)" arbitrary: b ctx rule: less_induct)
  case less
  note line = buffer_line [OF less.prems(1)] and lines = http_lines.simps [of _ _ "content b"]
  show ?case
  proof (cases "next_line (content b)")
    case None
    then show ?thesis using line less.prems by (auto simp: lines parse_loop.simps [of True True time ctx b] parse_loop_off parsing_def)
  next
    case (Some lr)
    then obtain ln rest where lr: "next_line (content b) = Some (ln, rest)" by (cases lr) auto
    then obtain crlf b' where c: "findCRLF b = Some crlf" "buf_slice (peek b) crlf b = ln"
      "retrieveUntil (crlf + 2) b = Ret b'" "buffer_ok b'" "content b' = rest"
      using line by auto
    have "length (content b') < length (content b)" using next_line_shorter [OF lr] c(5) by simp
    note IH = less.hyps [OF this c(4)]
    show ?thesis
    proof (cases "parse_state ctx = kExpectHeaders")
      case True
      let ?ctx = "ctx\<lparr>request := addHeader ln (std_find ln CHR '':'') (request ctx)\<rparr>"
      have "parsing ?ctx" using True by (simp add: parsing_def)
      from IH [OF this] show ?thesis using True lr c(4,5) unfolding parse_loop_header [OF True c(1,2,3)]
        by (cases "std_find ln CHR '':'' = length ln") (simp_all add: lines)
    next
      case False
      then have st: "parse_state ctx = kExpectRequestLine" using less.prems by (simp add: parsing_def)
      have "parsing (ctx\<lparr>request := req\<lparr>receiveTime := time\<rparr>, parse_state := kExpectHeaders\<rparr>)" for req by (simp add: parsing_def)
      note IH = IH [OF this] and loop = parse_loop_request_line [OF st c(1,2,3)]
      show ?thesis
      proof (cases "processRequestLine ln (request ctx)")
        case (Ret r)
        obtain ok req where r: "r = (ok, req)" by (cases r)
        show ?thesis using Ret r IH [of req] st lr c(5) less.prems(1) unfolding loop [of time, unfolded Ret r outcome.case prod.case]
          by (cases ok) (simp_all add: lines)
      qed (use st lr in \<open>simp add: lines loop\<close>)
    qed
  qed
qed

lemma parse_loop_stuck:
  assumes "\<not> parsing ctx"
  shows "parse_loop ok True time ctx b = None"
proof (rule ccontr)
  assume "parse_loop ok True time ctx b \<noteq> None"
  then obtain y where ret: "parse_loop ok True time ctx b = Some y" by auto
  have "True \<longrightarrow> parsing ctx"
  proof (rule parse_loop.raw_induct [where P = "\<lambda>ok hasMore time ctx b y. hasMore \<longrightarrow> parsing ctx", OF _ ret])
    fix f :: "bool \<Rightarrow> bool \<Rightarrow> int \<Rightarrow> HttpContext \<Rightarrow> Buffer \<Rightarrow> (bool \<times> HttpContext \<times> Buffer) outcome option"
    fix ok hasMore time ctx b y
    assume IH: "\<And>ok hasMore time ctx b y. f ok hasMore time ctx b = Some y \<Longrightarrow> hasMore \<longrightarrow> parsing ctx"
    from IH [of ok True time ctx b] have "f ok True time ctx b \<noteq> Some y" if "\<not> parsing ctx" for y using that by blast
    moreover assume "(if hasMore then case parse_state ctx of
          kExpectRequestLine \<Rightarrow>
            (case findCRLF b of
               Some crlf \<Rightarrow>
                 (case processRequestLine (buf_slice (peek b) crlf b) (request ctx) of
                    Abort e \<Rightarrow> Some (Abort e)
                  | Ret (ok, req) \<Rightarrow>
                      if ok
                      then (case retrieveUntil (crlf + 2) b of
                              Abort e \<Rightarrow> Some (Abort e)
                            | Ret buf \<Rightarrow> f ok True time
                                (ctx\<lparr>request := req\<lparr>receiveTime := time\<rparr>, parse_state := kExpectHeaders\<rparr>) buf)
                      else f ok False time (ctx\<lparr>request := req\<rparr>) b)
             | None \<Rightarrow> f ok False time ctx b)
        | kExpectHeaders \<Rightarrow>
            (case findCRLF b of
               Some crlf \<Rightarrow>
                 (let line = buf_slice (peek b) crlf b;
                      colon = std_find line CHR '':''
                  in case retrieveUntil (crlf + 2) b of
                       Abort e \<Rightarrow> Some (Abort e)
                     | Ret buf \<Rightarrow>
                         if colon \<noteq> length line
                         then f ok True time (ctx\<lparr>request := addHeader line colon (request ctx)\<rparr>) buf
                         else f ok False time (ctx\<lparr>parse_state := kGotAll\<rparr>) buf)
             | None \<Rightarrow> f ok False time ctx b)
        | kExpectBody \<Rightarrow> f ok True time ctx b
        | kGotAll \<Rightarrow> f ok True time ctx b
      else Some (Ret (ok, ctx, b))) = Some y"
    ultimately show "hasMore \<longrightarrow> parsing ctx"
      by (cases "parse_state ctx") (auto simp: parsing_def)
  qed
  with assms show False by simp
qed

section \<open>Chunks\<close>

lemma std_search_append:
  assumes "std_search xs pat < length xs"
  shows "std_search (xs @ ys) pat = std_search xs pat"
  using assms
proof (induction xs)
  case (Cons x xs)
  show ?case
  proof (cases "take (length pat) (x # xs) = pat")
    case True
    then have "take (length pat) (x # xs @ ys) = pat"
      by (metis append_Cons length_take min.absorb_iff2 min_def take_append append_Nil2 diff_is_0_eq' take0 linear)
    with True show ?thesis by simp
  next
    case False
    then have lt: "std_search xs pat < length xs" using Cons.prems by simp
    have "take (length pat) (x # xs @ ys) \<noteq> pat"
    proof
      assume m: "take (length pat) (x # xs @ ys) = pat"
      have "length pat \<le> length (x # xs)" using std_search_room [OF lt] by simp
      then have "take (length pat) ((x # xs) @ ys) = take (length pat) (x # xs)" by (simp only: take_append) simp
      with m False show False by simp
    qed
    then show ?thesis using False Cons.IH [OF lt] by simp
  qed
qed simp

lemma next_line_append:
  "next_line s = Some (line, rest) \<Longrightarrow> next_line (s @ ys) = Some (line, rest @ ys)"
proof -
  assume n: "next_line s = Some (line, rest)"
  then have lt: "std_search s kCRLF < length s"
    using std_search_le [of s kCRLF] by (auto simp: next_line_def Let_def split: if_splits)
  with n std_search_append [OF lt] std_search_room [OF lt] show ?thesis
    by (auto simp: next_line_def Let_def)
qed

lemma http_lines_append:
  assumes "http_lines time ctx s = Ret (True, ctx', rest)" and "parsing ctx'"
  shows "http_lines time ctx (s @ ys) = http_lines time ctx' (rest @ ys)"
  using assms
proof (induction time ctx s rule: http_lines.induct)
  case (1 time ctx s)
  show ?case
  proof (cases "next_line s")
    case None
    then show ?thesis using "1.prems" by (simp add: http_lines.simps [of time ctx s])
  next
    case (Some lr)
    obtain line rest1 where lr: "lr = (line, rest1)" by (cases lr)
    note app = next_line_append [OF Some [unfolded lr], of ys]
    show ?thesis using "1.prems" "1.IH" [OF Some lr [symmetric]] Some lr app
      by (auto simp: http_lines.simps [of time ctx s] http_lines.simps [of time ctx "s @ ys"] parsing_def
          split: HttpRequestParseState.splits outcome.splits prod.splits if_splits)
  qed
qed

section \<open>Printing requests\<close>

definition crlf_free :: "string \<Rightarrow> bool" where
  "crlf_free s \<longleftrightarrow> CHR 0x0D \<notin> set s"

definition trimmed :: "string \<Rightarrow> bool" where
  "trimmed v \<longleftrightarrow> v = [] \<or> \<not> isspace (hd v) \<and> \<not> isspace (last v)"

definition version_string :: "Version \<Rightarrow> string" where
  "version_string v = ''HTTP/1.'' @ (if v = kHttp11 then ''1'' else ''0'')"

definition header_line :: "string \<times> string \<Rightarrow> string" where
  "header_line h = fst h @ '': '' @ snd h"

definition print_request :: "HttpRequest \<Rightarrow> string" where
  "print_request r = methodString r @ '' '' @ path r @ query r @ '' '' @ version_string (req_version r) @ kCRLF @
     concat (map (\<lambda>h. header_line h @ kCRLF) (headers r)) @ kCRLF"

text \<open>What a request must satisfy to be printable: known method and version, no blanks or line ends in the
  target, the query with its question mark, and header fields in map order.\<close>

definition wf_request :: "HttpRequest \<Rightarrow> bool" where
  "wf_request r \<longleftrightarrow> req_method r \<noteq> kInvalid \<and> req_version r \<noteq> kUnknown \<and>
     crlf_free (path r) \<and> crlf_free (query r) \<and> CHR '' '' \<notin> set (path r) \<and> CHR '' '' \<notin> set (query r) \<and>
     CHR ''?'' \<notin> set (path r) \<and> (query r = [] \<or> hd (query r) = CHR ''?'') \<and>
     sorted_wrt (<) (map fst (headers r)) \<and>
     (\<forall>h\<in>set (headers r). crlf_free (fst h) \<and> CHR '':'' \<notin> set (fst h) \<and> crlf_free (snd h) \<and> trimmed (snd h))"

lemma next_line_print:
  assumes "crlf_free line"
  shows "next_line (line @ kCRLF @ rest) = Some (line, rest)"
proof -
  have "std_search (line @ kCRLF @ rest) kCRLF = length line"
    using assms by (induction line) (auto simp: kCRLF_def crlf_free_def)
  then show ?thesis by (simp add: next_line_def kCRLF_def)
qed

lemma dropWhile_trimmed: "trimmed v \<Longrightarrow> dropWhile isspace v = v \<and> dropWhile isspace (rev v) = rev v"
proof
  assume t: "trimmed v"
  then show "dropWhile isspace v = v" by (cases v) (auto simp: trimmed_def)
  from t show "dropWhile isspace (rev v) = rev v" by (cases v rule: rev_cases) (auto simp: trimmed_def)
qed

lemma addHeader_print:
  assumes "CHR '':'' \<notin> set k" and "trimmed v"
  shows "std_find (header_line (k, v)) CHR '':'' = length k"
    and "addHeader (header_line (k, v)) (length k) r = r\<lparr>headers := map_set k v (headers r)\<rparr>"
  using assms dropWhile_trimmed [OF assms(2)] std_find_append [OF assms(1), of "CHR '' '' # v"]
  by (auto simp: header_line_def addHeader_def isspace_def Let_def)

lemma http_headers:
  assumes "\<forall>h\<in>set hs. crlf_free (fst h) \<and> CHR '':'' \<notin> set (fst h) \<and> crlf_free (snd h) \<and> trimmed (snd h)"
    and "parse_state ctx = kExpectHeaders"
  shows "http_lines time ctx (concat (map (\<lambda>h. header_line h @ kCRLF) hs) @ kCRLF @ rest) =
    Ret (True, ctx\<lparr>parse_state := kGotAll, request := (request ctx)\<lparr>headers := fold (\<lambda>(k, v). map_set k v) hs (headers (request ctx))\<rparr>\<rparr>, rest)"
  using assms
proof (induction hs arbitrary: ctx)
  case Nil
  have "next_line (kCRLF @ rest) = Some ([], rest)" using next_line_print [of "[]" rest] by (simp add: crlf_free_def)
  then show ?case using Nil by (simp add: http_lines.simps [of time ctx "kCRLF @ rest"])
next
  case (Cons h hs)
  obtain k v where h: "h = (k, v)" by (cases h)
  let ?rest = "concat (map (\<lambda>h. header_line h @ kCRLF) hs) @ kCRLF @ rest"
  have free: "crlf_free (header_line (k, v))" and kv: "CHR '':'' \<notin> set k" "trimmed v"
    using Cons.prems(1) h by (auto simp: crlf_free_def header_line_def)
  have nl: "next_line (header_line (k, v) @ kCRLF @ ?rest) = Some (header_line (k, v), ?rest)"
    by (rule next_line_print [OF free])
  have ne: "length k \<noteq> length (header_line (k, v))" by (simp add: header_line_def)
  have "http_lines time ctx (header_line (k, v) @ kCRLF @ ?rest) =
      http_lines time (ctx\<lparr>request := (request ctx)\<lparr>headers := map_set k v (headers (request ctx))\<rparr>\<rparr>) ?rest"
    using nl Cons.prems(2) addHeader_print [OF kv] ne
    by (simp add: http_lines.simps [of time ctx "header_line (k, v) @ kCRLF @ ?rest"])
  also have "\<dots> = Ret (True, ctx\<lparr>parse_state := kGotAll, request := (request ctx)\<lparr>headers :=
      fold (\<lambda>(k, v). map_set k v) hs (map_set k v (headers (request ctx)))\<rparr>\<rparr>, rest)"
    using Cons.IH [of "ctx\<lparr>request := (request ctx)\<lparr>headers := map_set k v (headers (request ctx))\<rparr>\<rparr>"] Cons.prems by simp
  finally show ?case using h by simp
qed

lemma fold_map_set_sorted:
  assumes "sorted_wrt (<) (map fst (m @ hs))"
  shows "fold (\<lambda>(k, v). map_set k v) hs m = m @ hs"
  using assms
proof (induction hs arbitrary: m)
  case (Cons h hs)
  have last: "map_set k v m = m @ [(k, v)]" if "\<forall>x\<in>set m. fst x < k" for k v and m :: "('a \<times> 'b) list"
    using that by (induction k v m rule: map_set.induct) auto
  obtain k v where h: "h = (k, v)" by (cases h)
  have "map_set k v m = m @ [(k, v)]" using Cons.prems h by (intro last) (auto simp: sorted_wrt_append)
  then show ?case using Cons.IH [of "m @ [(k, v)]"] Cons.prems h by simp
qed simp

lemma length_version [simp]: "length (version_string v) = 8" "take 7 (version_string v) = ''HTTP/1.''"
  "version_string v ! 7 = (if v = kHttp11 then CHR ''1'' else CHR ''0'')"
  by (simp_all add: version_string_def)

lemma processRequestLine_print:
  assumes wf: "wf_request r"
  shows "processRequestLine (methodString r @ '' '' @ path r @ query r @ '' '' @ version_string (req_version r)) new_HttpRequest =
    Ret (True, new_HttpRequest\<lparr>req_method := req_method r, path := path r, query := query r, req_version := req_version r\<rparr>)"
proof -
  let ?url = "path r @ query r" and ?ver = "version_string (req_version r)"
  have m: "CHR '' '' \<notin> set (methodString r)" "setMethod (methodString r) new_HttpRequest = Ret (True, new_HttpRequest\<lparr>req_method := req_method r\<rparr>)"
    using wf by (cases "req_method r"; simp add: wf_request_def methodString_def setMethod_def new_HttpRequest_def)+
  have u: "CHR '' '' \<notin> set ?url" using wf by (simp add: wf_request_def)
  have f1: "std_find (methodString r @ CHR '' '' # ?url @ CHR '' '' # ?ver) CHR '' '' = length (methodString r)"
    using std_find_append [OF m(1)] .
  have f2: "std_find (path r @ query r @ CHR '' '' # ?ver) CHR '' '' = length ?url"
    using std_find_append [OF u, of ?ver] by simp
  have q: "(if std_find ?url CHR ''?'' \<noteq> length ?url
      then s\<lparr>path := take (std_find ?url CHR ''?'') ?url, query := drop (std_find ?url CHR ''?'') ?url\<rparr>
      else s\<lparr>path := ?url\<rparr>) = s\<lparr>path := path r, query := query r\<rparr>" if "query s = []" for s :: HttpRequest
  proof (cases "query r")
    case Nil
    then have "std_find ?url CHR ''?'' = length ?url" using wf by (simp add: wf_request_def std_find_eq_length_iff)
    then show ?thesis using Nil that by simp
  next
    case (Cons c qs)
    then have "c = CHR ''?''" using wf by (simp add: wf_request_def)
    then have "std_find ?url CHR ''?'' = length (path r)"
      using wf Cons std_find_append [of "CHR ''?''" "path r" qs] by (simp add: wf_request_def)
    then show ?thesis using Cons by simp
  qed
  have v: "req_version r = kHttp11 \<or> req_version r = kHttp10" using wf by (cases "req_version r") (auto simp: wf_request_def)
  have qn: "query (new_HttpRequest\<lparr>req_method := req_method r\<rparr>) = []" by (simp add: new_HttpRequest_def)
  show ?thesis using f1 f2 m(2) v
    by (auto simp: processRequestLine_def Let_def q [OF qn, simplified])
qed

lemma http_lines_print:
  assumes wf: "wf_request r"
  shows "http_lines (receiveTime r) new_HttpContext (print_request r @ rest) =
    Ret (True, \<lparr>parse_state = kGotAll, request = r\<rparr>, rest)"
proof -
  let ?line = "methodString r @ '' '' @ path r @ query r @ '' '' @ version_string (req_version r)"
  let ?hs = "concat (map (\<lambda>h. header_line h @ kCRLF) (headers r)) @ kCRLF @ rest"
  have "crlf_free (methodString r)" by (simp add: crlf_free_def methodString_def split: Method.split)
  moreover have "crlf_free (version_string v)" for v by (simp add: crlf_free_def version_string_def)
  ultimately have free: "crlf_free ?line" using wf by (simp add: crlf_free_def wf_request_def)
  have nl: "next_line (?line @ kCRLF @ ?hs) = Some (?line, ?hs)" by (rule next_line_print [OF free])
  have p: "print_request r @ rest = ?line @ kCRLF @ ?hs" by (simp add: print_request_def)
  let ?ctx = "\<lparr>parse_state = kExpectHeaders, request = r\<lparr>headers := []\<rparr>\<rparr>"
  have req: "new_HttpRequest\<lparr>req_method := req_method r, path := path r, query := query r, req_version := req_version r, receiveTime := receiveTime r\<rparr>
      = r\<lparr>headers := []\<rparr>"
    by (simp add: new_HttpRequest_def)
  have "http_lines (receiveTime r) new_HttpContext (?line @ kCRLF @ ?hs) = http_lines (receiveTime r) ?ctx ?hs"
    using nl processRequestLine_print [OF wf] req
    by (simp add: http_lines.simps [of _ _ "?line @ kCRLF @ ?hs", simplified] new_HttpContext_def)
  also have "\<dots> = Ret (True, \<lparr>parse_state = kGotAll, request = r\<rparr>, rest)"
    using http_headers [of "headers r" ?ctx "receiveTime r" rest] fold_map_set_sorted [of "[]" "headers r"] wf
    by (simp add: wf_request_def)
  finally show ?thesis unfolding p .
qed

section \<open>Rendering responses\<close>

definition render_response :: "HttpResponse \<Rightarrow> string" where
  "render_response r =
     ''HTTP/1.1 '' @ dec_int (status_value (statusCode r)) @ '' '' @ statusMessage r @ kCRLF @
     (if closeConnection r then ''Connection: close'' @ kCRLF
      else ''Content-Length: '' @ dec_nat (length (body r)) @ kCRLF @ ''Connection: Keep-Alive'' @ kCRLF) @
     concat (map (\<lambda>h. header_line h @ kCRLF) (resp_headers r)) @ kCRLF @ body r"

text \<open>The buffer holds the Content-Length line only for bodies below \<open>10 ^ 13\<close> bytes.\<close>

definition small_response :: "HttpResponse \<Rightarrow> bool" where
  "small_response r \<longleftrightarrow> length (body r) < 10 ^ 13 \<and> length (statusMessage r) \<le> vec_max \<and>
     (\<forall>h\<in>set (resp_headers r). length (fst h) \<le> vec_max \<and> length (snd h) \<le> vec_max)"

lemma append_chunks:
  assumes "buffer_ok b" and "\<forall>x\<in>set xs. length x \<le> vec_max"
  shows "guarantees (\<lambda>b'. buffer_ok b' \<and> content b' = content b @ concat xs) (foldo Buffer_append xs b)"
  using assms
proof (induction xs arbitrary: b)
  case (Cons x xs)
  have "guarantees (\<lambda>b'. buffer_ok b' \<and> content b' = content b @ x) (Buffer_append x b)"
    using Cons.prems by (intro append_rest_ok) auto
  then show ?case
    by (simp, rule guarantees_bindo) (use Cons in \<open>fastforce elim: guarantees_mono\<close>)
qed simp

lemma append_headers:
  assumes "buffer_ok b" and "\<forall>h\<in>set hs. length (fst h) \<le> vec_max \<and> length (snd h) \<le> vec_max"
  shows "guarantees (\<lambda>b'. buffer_ok b' \<and> content b' = content b @ concat (map (\<lambda>h. header_line h @ kCRLF) hs)) (foldo append_header hs b)"
  using assms
proof (induction hs arbitrary: b)
  case (Cons h hs)
  have "guarantees (\<lambda>b'. buffer_ok b' \<and> content b' = content b @ header_line h @ kCRLF) (append_header h b)"
    using append_chunks [of b "[fst h, '': '', snd h, kCRLF]"] Cons.prems
    by (simp add: append_header_def header_line_def vec_max_def del: foldo.simps)
  then show ?case
    by (simp, rule guarantees_bindo) (use Cons in \<open>fastforce elim: guarantees_mono\<close>)
qed simp

lemma status_digits: "length (dec_int (status_value c)) \<le> 3"
proof -
  have "0 \<le> status_value c" "nat (status_value c) < 10 ^ 3" by (cases c; simp)+
  then show ?thesis using length_dec_nat [of "nat (status_value c)" 3] by (simp add: dec_int_def)
qed

lemma status_line_fits:
  "snprintf 32 (''HTTP/1.1 '' @ dec_int (status_value c) @ '' '') = ''HTTP/1.1 '' @ dec_int (status_value c) @ '' ''"
  using status_digits [of c] by (intro snprintf_fits) simp

lemma appendToBuffer_ok:
  assumes ok: "buffer_ok b" and small: "small_response r"
  shows "guarantees (\<lambda>b'. buffer_ok b' \<and> content b' = content b @ render_response r) (appendToBuffer r b)"
proof -
  have len: "length (dec_nat (length (body r))) \<le> 13"
    using length_dec_nat [of "length (body r)" 13] small by (simp add: small_response_def)
  then have cl: "snprintf 32 (''Content-Length: '' @ dec_nat (length (body r)) @ kCRLF) =
      ''Content-Length: '' @ dec_nat (length (body r)) @ kCRLF"
    by (intro snprintf_fits) (simp add: kCRLF_def)
  have short: "length (snprintf 32 s) \<le> vec_max" for s by (simp add: snprintf_def vec_max_def)
  have bnd: "length (body r) \<le> vec_max" "length (statusMessage r) \<le> vec_max"
    "\<forall>h\<in>set (resp_headers r). length (fst h) \<le> vec_max \<and> length (snd h) \<le> vec_max"
    using small by (auto simp: small_response_def vec_max_def)
  let ?status = "''HTTP/1.1 '' @ dec_int (status_value (statusCode r)) @ '' '' @ statusMessage r @ kCRLF"
  let ?conn = "if closeConnection r then ''Connection: close'' @ kCRLF
      else ''Content-Length: '' @ dec_nat (length (body r)) @ kCRLF @ ''Connection: Keep-Alive'' @ kCRLF"
  have s1: "guarantees (\<lambda>b'. buffer_ok b' \<and> content b' = content b @ ?status)
      (foldo Buffer_append [snprintf 32 (''HTTP/1.1 '' @ dec_int (status_value (statusCode r)) @ '' ''), statusMessage r, kCRLF] b)"
    using append_chunks [OF ok, of "[snprintf 32 (''HTTP/1.1 '' @ dec_int (status_value (statusCode r)) @ '' ''), statusMessage r, kCRLF]"]
      short bnd status_digits [of "statusCode r"] by (simp add: status_line_fits [simplified] vec_max_def del: foldo.simps)
  have s2: "guarantees (\<lambda>b''. buffer_ok b'' \<and> content b'' = content b' @ ?conn)
      (if closeConnection r then Buffer_append (''Connection: close'' @ kCRLF) b'
       else foldo Buffer_append [snprintf 32 (''Content-Length: '' @ dec_nat (length (body r)) @ kCRLF),
                                      ''Connection: Keep-Alive'' @ kCRLF] b')" if "buffer_ok b'" for b'
    using append_rest_ok [OF that, of "''Connection: close'' @ kCRLF"]
      append_chunks [OF that, of "[snprintf 32 (''Content-Length: '' @ dec_nat (length (body r)) @ kCRLF), ''Connection: Keep-Alive'' @ kCRLF]"]
      short len by (simp add: cl [simplified] vec_max_def del: foldo.simps)
  have s4: "guarantees (\<lambda>b''. buffer_ok b'' \<and> content b'' = content b' @ kCRLF @ body r) (foldo Buffer_append [kCRLF, body r] b')"
    if "buffer_ok b'" for b'
    using append_chunks [OF that, of "[kCRLF, body r]"] bnd by (simp add: vec_max_def del: foldo.simps)
  show ?thesis unfolding appendToBuffer_def
  proof (rule guarantees_bindo [OF s1], elim conjE)
    fix b1 assume b1: "buffer_ok b1" "content b1 = content b @ ?status"
    show "guarantees (\<lambda>b'. buffer_ok b' \<and> content b' = content b @ render_response r)
      (bindo (if closeConnection r then Buffer_append (''Connection: close'' @ kCRLF) b1
              else foldo Buffer_append [snprintf 32 (''Content-Length: '' @ dec_nat (length (body r)) @ kCRLF),
                                      ''Connection: Keep-Alive'' @ kCRLF] b1)
        (\<lambda>b. bindo (foldo append_header (resp_headers r) b) (foldo Buffer_append [kCRLF, body r])))"
    proof (rule guarantees_bindo [OF s2 [OF b1(1)]], elim conjE)
      fix b2 assume b2: "buffer_ok b2" "content b2 = content b1 @ ?conn"
      show "guarantees (\<lambda>b'. buffer_ok b' \<and> content b' = content b @ render_response r)
        (bindo (foldo append_header (resp_headers r) b2) (foldo Buffer_append [kCRLF, body r]))"
      proof (rule guarantees_bindo [OF append_headers [OF b2(1) bnd(3)]], elim conjE)
        fix b3 assume b3: "buffer_ok b3" "content b3 = content b2 @ concat (map (\<lambda>h. header_line h @ kCRLF) (resp_headers r))"
        show "guarantees (\<lambda>b'. buffer_ok b' \<and> content b' = content b @ render_response r) (foldo Buffer_append [kCRLF, body r] b3)"
          by (rule guarantees_mono [OF s4 [OF b3(1)]]) (use b1(2) b2(2) b3(2) in \<open>simp add: render_response_def\<close>)
      qed
    qed
  qed
qed

section \<open>Answering a request\<close>

definition answered :: "(char list \<Rightarrow> int + nat) \<Rightarrow> HttpResponse \<Rightarrow> TcpConnection \<Rightarrow> TcpConnection \<Rightarrow> bool" where
  "answered wr resp c c' \<longleftrightarrow>
     (stream c' = stream c @ render_response resp \<or>
      stream c' = stream c \<and> (\<exists>e\<in>{EPIPE, ECONNRESET}. wr (render_response resp) = Inl e)) \<and>
     state c' = (if closeConnection resp then kDisconnecting else kConnected)"

lemma shutdown_answered:
  assumes "conn_ok tid d" and "state d = kConnected"
  shows "guarantees (\<lambda>c'. conn_ok tid c' \<and> inputBuffer c' = inputBuffer d \<and> stream c' = stream d \<and> state c' = kDisconnecting) (shutdown tid d)"
  using assms conn_okD(1) [OF assms(1)]
  by (auto simp: shutdown_def shutdownInLoop_def stream_def conn_ok_def conn_notes_def Let_def)

lemma onRequest_ok:
  assumes ok: "conn_ok tid c" and st: "state c = kConnected" and wr: "write_spec wr"
    and resp: "resp = cb r (new_HttpResponse (wants_close r))" and small: "small_response resp"
  shows "guarantees (\<lambda>c'. conn_ok tid c' \<and> inputBuffer c' = inputBuffer c \<and> answered wr resp c c') (onRequest cb tid wr r c)"
  unfolding onRequest_def Let_def resp [symmetric]
proof (rule guarantees_bindo)
  let ?Q = "\<lambda>c'. conn_ok tid c' \<and> inputBuffer c' = inputBuffer c \<and> answered wr resp c c'"
  have al: "alive c" using st by (simp add: alive_def)
  have fin: "guarantees ?Q (if closeConnection resp then shutdown tid d else Ret d)"
    if "conn_ok tid d \<and> state d = state c \<and> same_shell d c \<and> (stream d = stream c @ render_response resp \<or>
      stream d = stream c \<and> (\<exists>e\<in>{EPIPE, ECONNRESET}. wr (render_response resp) = Inl e))" for d
    using that st shutdown_answered [of tid d] by (auto simp: same_shell_def answered_def elim!: guarantees_mono)
  have snd: "guarantees ?Q (bindo (send_Buffer tid buf wr c) (\<lambda>(buf, d). if closeConnection resp then shutdown tid d else Ret d))"
    if buf: "buffer_ok buf \<and> content buf = render_response resp" for buf
  proof -
    have len: "length (render_response resp) \<le> vec_max"
      using buf length_content [of buf] buffer_okD [of buf] by auto
    from guarantees_bindo [OF sendInLoop_ok [OF ok al wr len] fin]
    show ?thesis using buf st conn_okD(1) [OF ok] by (simp add: send_Buffer_def bindo_assoc)
  qed
  show "guarantees (\<lambda>b. buffer_ok b \<and> content b = []) (new_Buffer kInitialSize)"
    using new_Buffer_ok [of kInitialSize] by (auto simp: kInitialSize_def kCheapPrepend_def vec_max_def)
  show "guarantees ?Q (bindo (appendToBuffer resp buf) (\<lambda>buf. bindo (send_Buffer tid buf wr c)
      (\<lambda>(buf, conn). if closeConnection resp then shutdown tid conn else Ret conn)))"
    if "buffer_ok buf \<and> content buf = []" for buf
    by (rule guarantees_bindo [OF appendToBuffer_ok [OF _ small]]) (use that snd in auto)
qed

text \<open>The message callback, by what the reference parser makes of the readable bytes.\<close>

lemma onMessage_incomplete:
  assumes "conn_ok tid c" and "parsing ctx" and "http_lines time ctx (content (inputBuffer c)) = Ret (True, ctx', rest)" and "\<not> gotAll ctx'"
  shows "\<exists>b. onMessage cb tid wr time ctx c = Some (Ret (ctx', c\<lparr>inputBuffer := b\<rparr>)) \<and> buffer_ok b \<and> content b = rest"
  using parse_loop_lines [OF conn_okD(2) [OF assms(1)] assms(2), of time] assms(3,4) by (auto simp: onMessage_def parseRequest_def)

lemma onMessage_complete:
  assumes ok: "conn_ok tid c" and st: "state c = kConnected" and wr: "write_spec wr" and "parsing ctx"
    and lines: "http_lines time ctx (content (inputBuffer c)) = Ret (True, \<lparr>parse_state = kGotAll, request = r\<rparr>, rest)"
    and resp: "resp = cb r (new_HttpResponse (wants_close r))" "small_response resp"
  shows "\<exists>m. onMessage cb tid wr time ctx c = Some m \<and>
    guarantees (\<lambda>(ctx', c'). ctx' = new_HttpContext \<and> conn_ok tid c' \<and> content (inputBuffer c') = rest \<and> answered wr resp c c') m"
proof -
  obtain b where b: "parseRequest time ctx (inputBuffer c) = Some (Ret (True, \<lparr>parse_state = kGotAll, request = r\<rparr>, b))" "buffer_ok b" "content b = rest"
    using parse_loop_lines [OF conn_okD(2) [OF ok] assms(4), of time] lines by (auto simp: parseRequest_def)
  let ?c = "c\<lparr>inputBuffer := b\<rparr>"
  have "conn_ok tid ?c" using ok b(2) st by (simp add: conn_ok_alive alive_def conn_notes_def)
  from onRequest_ok [where cb = cb, OF this _ wr resp] st
  have "guarantees (\<lambda>(ctx', c'). ctx' = new_HttpContext \<and> conn_ok tid c' \<and> content (inputBuffer c') = rest \<and> answered wr resp c c')
      (bindo (onRequest cb tid wr r ?c) (\<lambda>conn. Ret (HttpContext_reset \<lparr>parse_state = kGotAll, request = r\<rparr>, conn)))"
    by (intro guarantees_bindo [where P = "\<lambda>c'. conn_ok tid c' \<and> inputBuffer c' = b \<and> answered wr resp ?c c'"])
      (auto simp: HttpContext_reset_def new_HttpContext_def b(3) answered_def stream_def)
  then show ?thesis using b(1) by (simp add: onMessage_def gotAll_def)
qed

section \<open>Properties\<close>

lemma demo_buffer_ok:
  "length cs \<le> 1000 \<Longrightarrow> buffer_ok (demo_buffer cs)" "content (demo_buffer cs) = cs"
  by (simp_all add: demo_buffer_def buffer_ok_def kCheapPrepend_def vec_max_def content_def buf_slice_def peek_def beginWrite_def)

definition demo_request :: HttpRequest where
  "demo_request = \<lparr>req_method = kGet, req_version = kHttp11, path = ''/index'', query = ''?q=1'', receiveTime = 7,
     headers = [(''Accept'', ''*/*''), (''Host'', ''a b'')]\<rparr>"

lemma demo_request_wf: "wf_request demo_request"
  by (simp add: wf_request_def demo_request_def crlf_free_def trimmed_def isspace_def less_char_def)

text \<open>C33: the parsing loop ends on every input exactly when it is entered before the request is complete; in
  the states kExpectBody and kGotAll it spins forever.\<close>

theorem http_parse_terminates:
  assumes "buffer_ok b"
  shows "(\<exists>r. parseRequest time ctx b = Some r) \<longleftrightarrow>
    parse_state ctx = kExpectRequestLine \<or> parse_state ctx = kExpectHeaders"
proof (cases "parsing ctx")
  case True
  then show ?thesis using parse_loop_lines [OF assms True, of time]
    by (auto simp: parseRequest_def parsing_def split: outcome.splits)
next
  case False
  then show ?thesis using parse_loop_stuck [OF False] by (simp add: parseRequest_def parsing_def)
qed

theorem http_parse_terminates_witness:
  "(\<exists>r. parseRequest 0 new_HttpContext (demo_buffer ''GET'') = Some r) \<and>
   \<not> (\<exists>r. parseRequest 0 (new_HttpContext\<lparr>parse_state := kGotAll\<rparr>) (demo_buffer ''GET'') = Some r)"
  using http_parse_terminates [OF demo_buffer_ok(1), of "''GET''" 0 new_HttpContext]
    http_parse_terminates [OF demo_buffer_ok(1), of "''GET''" 0 "new_HttpContext\<lparr>parse_state := kGotAll\<rparr>"]
  by (simp add: new_HttpContext_def)

text \<open>C8: any well-formed request, printed and followed by arbitrary further bytes, is parsed back from a
  fresh context exactly, and the further bytes stay in the buffer.\<close>

theorem http_request_round_trip:
  assumes "wf_request r" and "buffer_ok b" and "content b = print_request r @ rest"
  shows "\<exists>b'. parseRequest (receiveTime r) new_HttpContext b = Some (Ret (True, \<lparr>parse_state = kGotAll, request = r\<rparr>, b')) \<and>
    buffer_ok b' \<and> content b' = rest"
  using parse_loop_lines [OF assms(2), of new_HttpContext "receiveTime r"] http_lines_print [OF assms(1), of rest] assms(3)
  by (simp add: parsing_def new_HttpContext_def parseRequest_def)

theorem http_request_round_trip_witness:
  "\<exists>b'. parseRequest 7 new_HttpContext (demo_buffer (print_request demo_request @ ''tail'')) =
      Some (Ret (True, \<lparr>parse_state = kGotAll, request = demo_request\<rparr>, b')) \<and> content b' = ''tail''"
proof -
  have "length (print_request demo_request @ ''tail'') \<le> 1000"
    by (simp add: print_request_def demo_request_def methodString_def version_string_def header_line_def kCRLF_def)
  from http_request_round_trip [OF demo_request_wf demo_buffer_ok(1) [OF this] demo_buffer_ok(2)]
  show ?thesis by (auto simp: demo_request_def)
qed

text \<open>C23: a request may arrive in pieces: if parsing a first piece neither failed nor completed the request,
  parsing the leftover with further bytes appended gives the result, context and remaining bytes of
  parsing everything at once (with the same receive time).\<close>

theorem http_parse_chunks:
  assumes "buffer_ok b" and "parse_state ctx = kExpectRequestLine \<or> parse_state ctx = kExpectHeaders"
    and "parseRequest time ctx b = Some (Ret (True, ctx1, b1))" and "\<not> gotAll ctx1"
    and "length ys \<le> vec_max" and "Buffer_append ys b1 = Ret b2" and "Buffer_append ys b = Ret b3"
  shows "\<exists>m1 m2. parseRequest time ctx1 b2 = Some m1 \<and> parseRequest time ctx b3 = Some m2 \<and>
    map_outcome (\<lambda>(ok, c, d). (ok, c, content d)) m1 = map_outcome (\<lambda>(ok, c, d). (ok, c, content d)) m2"
proof -
  have p: "parsing ctx" using assms(2) by (simp add: parsing_def)
  note first = parse_loop_lines [OF assms(1) p, of time]
  then have l: "http_lines time ctx (content b) = Ret (True, ctx1, content b1)" and b1: "buffer_ok b1"
    using assms(3) by (auto simp: parseRequest_def split: outcome.splits)
  have p1: "parsing ctx1"
  proof -
    have "parse_state c' \<noteq> kExpectBody" if "http_lines time c s = Ret (k, c', rest)" "parsing c" for c s k c' rest
      using that
    proof (induction time c s rule: http_lines.induct)
      case (1 time c s)
      then show ?case
        by (cases "next_line s") (auto simp: http_lines.simps [of time c s] parsing_def
            split: HttpRequestParseState.splits outcome.splits prod.splits if_splits)
    qed
    from this [OF l p] assms(4) show ?thesis by (cases "parse_state ctx1") (auto simp: parsing_def gotAll_def)
  qed
  have b2: "buffer_ok b2" "content b2 = content b1 @ ys" using append_rest_ok [OF b1 assms(5)] assms(6) by auto
  have b3: "buffer_ok b3" "content b3 = content b @ ys" using append_rest_ok [OF assms(1,5)] assms(7) by auto
  have "http_lines time ctx (content b3) = http_lines time ctx1 (content b2)"
    using http_lines_append [OF l p1] b2(2) b3(2) by simp
  with parse_loop_lines [OF b2(1) p1, of time] parse_loop_lines [OF b3(1) p, of time]
  show ?thesis unfolding parseRequest_def by (auto split: outcome.splits)
qed

theorem http_parse_chunks_witness:
  "\<exists>b2 m. Buffer_append (''/1.1'' @ kCRLF @ kCRLF) (demo_buffer ''GET / HTTP'') = Ret b2 \<and> parseRequest 0 new_HttpContext b2 = Some m"
proof -
  let ?b = "demo_buffer ''GET / HTTP''" and ?ys = "''/1.1'' @ kCRLF @ kCRLF"
  have ok: "buffer_ok ?b" by (rule demo_buffer_ok(1)) simp
  have "findCRLF ?b = None" by (simp add: findCRLF_def demo_buffer_def buf_slice_def peek_def beginWrite_def kCRLF_def)
  then have first: "parseRequest 0 new_HttpContext ?b = Some (Ret (True, new_HttpContext, ?b))"
    by (simp add: parseRequest_def parse_loop.simps new_HttpContext_def)
  obtain b2 where b2: "Buffer_append ?ys ?b = Ret b2"
    using Buffer_append_ok [OF ok, of ?ys] by (auto simp: demo_buffer_def vec_max_def)
  have "length ?ys \<le> vec_max" by (simp add: vec_max_def)
  from http_parse_chunks [OF ok _ first _ this b2 b2] b2 show ?thesis
    by (auto simp: new_HttpContext_def gotAll_def)
qed

text \<open>When a complete request has arrived on a live connection, the message callback answers it: the bytes
  of the response, status line, headers and body, are appended to the connection's output stream
  (unless the peer is already gone), a closing response shuts the connection down, and the context
  is ready for the next request.\<close>

theorem http_answers_request:
  assumes "conn_ok tid c" and "state c = kConnected" and "write_spec wr" and "wf_request r"
    and "content (inputBuffer c) = print_request r @ rest"
    and "resp = cb r (new_HttpResponse (wants_close r))" and "small_response resp"
  shows "\<exists>m. onMessage cb tid wr (receiveTime r) new_HttpContext c = Some m \<and>
    guarantees (\<lambda>(ctx', c'). ctx' = new_HttpContext \<and> content (inputBuffer c') = rest \<and>
      (stream c' = stream c @ render_response resp \<or>
       stream c' = stream c \<and> (\<exists>e\<in>{EPIPE, ECONNRESET}. wr (render_response resp) = Inl e)) \<and>
      state c' = (if closeConnection resp then kDisconnecting else kConnected)) m"
proof -
  have "parsing new_HttpContext" by (simp add: parsing_def new_HttpContext_def)
  from onMessage_complete [where cb = cb, OF assms(1,2,3) this _ assms(6,7), of "receiveTime r" rest] http_lines_print [OF assms(4), of rest] assms(5)
  show ?thesis by (auto simp: answered_def elim!: guarantees_mono)
qed

theorem http_answers_request_witness:
  "\<exists>m. onMessage defaultHttpCallback 1 (\<lambda>d. Inr (length d)) 7 new_HttpContext
      (demo_up\<lparr>inputBuffer := demo_buffer (print_request demo_request)\<rparr>) = Some m \<and>
    guarantees (\<lambda>(ctx', c'). stream c' = stream demo_up @ ''HTTP/1.1 404 Not Found'' @ kCRLF @ ''Connection: close'' @ kCRLF @ kCRLF) m"
proof -
  let ?c = "demo_up\<lparr>inputBuffer := demo_buffer (print_request demo_request)\<rparr>"
  let ?resp = "defaultHttpCallback demo_request (new_HttpResponse (wants_close demo_request))"
  have len: "length (print_request demo_request) \<le> 1000"
    by (simp add: print_request_def demo_request_def methodString_def version_string_def header_line_def kCRLF_def)
  have ok: "conn_ok 1 ?c" using demo_up_ok demo_buffer_ok(1) [OF len] by (simp add: conn_ok_alive conn_notes_def)
  have st: "state ?c = kConnected" by (simp add: demo_up_def)
  have wr: "write_spec (\<lambda>d. Inr (length d))" by (simp add: write_spec_def)
  have co: "content (inputBuffer ?c) = print_request demo_request @ []" by (simp add: demo_buffer_ok(2))
  have sm: "small_response ?resp" by (simp add: small_response_def defaultHttpCallback_def new_HttpResponse_def vec_max_def)
  have "dec_int 404 = ''404''" by code_simp
  then have rn: "render_response ?resp = ''HTTP/1.1 404 Not Found'' @ kCRLF @ ''Connection: close'' @ kCRLF @ kCRLF"
    by (simp add: render_response_def defaultHttpCallback_def new_HttpResponse_def)
  have t: "receiveTime demo_request = 7" by (simp add: demo_request_def)
  from http_answers_request [where cb = defaultHttpCallback, OF ok st wr demo_request_wf co refl sm] show ?thesis
    unfolding t rn by (auto simp: stream_def elim!: guarantees_mono)
qed

end
