(* ===== verification/HttpSession.thy ===== *)
theory HttpSession
  imports Http
begin

text \<open>
  A session of \<^verbatim>\<open>muduo/net/http/HttpServer.cc\<close> on one connection: \<^verbatim>\<open>TcpConnection::handleRead\<close> with \<^verbatim>\<open>HttpServer::onMessage\<close> as the message callback,
  and \<^verbatim>\<open>handleWrite\<close>, over any sequence of read and write events. Requests may be cut into pieces in any way; a request is sent after the
  one before it is complete (\<^verbatim>\<open>onMessage\<close> handles one request per event).
\<close>

section \<open>Events of the connection\<close>

definition http_handleRead ::
  "(HttpRequest \<Rightarrow> HttpResponse \<Rightarrow> HttpResponse) \<Rightarrow> int \<Rightarrow> (nat list \<Rightarrow> int + char list) \<Rightarrow> (char list \<Rightarrow> int + nat) \<Rightarrow> int \<Rightarrow>
    HttpContext \<times> TcpConnection \<Rightarrow> (HttpContext \<times> TcpConnection) outcome option" where
  "http_handleRead cb tid readv wr time s = (case s of (ctx, c) \<Rightarrow>
     (case assertInLoopThread tid (tc_threadId c) (readFd readv (inputBuffer c)) of
        Abort e \<Rightarrow> Some (Abort e)
      | Ret (n, savedErrno, b) \<Rightarrow>
          let c = c\<lparr>inputBuffer := b\<rparr>
          in if n > 0 then onMessage cb tid wr time ctx c
             else Some (bindo (if n = 0 then handleClose (\<lambda>_ _. []) tid c else handleError c) (\<lambda>c. Ret (ctx, c)))))"

text \<open>The bytes a read event delivers are in the socket; \<open>wr\<close> is the system call \<^verbatim>\<open>write\<close> during the event.\<close>

datatype http_event = HttpRead int "char list" "char list \<Rightarrow> int + nat" | HttpWrite "char list \<Rightarrow> int + nat"

fun http_step :: "(HttpRequest \<Rightarrow> HttpResponse \<Rightarrow> HttpResponse) \<Rightarrow> int \<Rightarrow> http_event \<Rightarrow> HttpContext \<times> TcpConnection \<Rightarrow> (HttpContext \<times> TcpConnection) outcome option" where
  "http_step cb tid (HttpRead time bytes wr) s = http_handleRead cb tid (\<lambda>vec. Inr (take (sum_list vec) bytes)) wr time s"
| "http_step cb tid (HttpWrite wr) s = Some (bindo (handleWrite tid wr (snd s)) (\<lambda>c. Ret (fst s, c)))"

fun http_run :: "(HttpRequest \<Rightarrow> HttpResponse \<Rightarrow> HttpResponse) \<Rightarrow> int \<Rightarrow> http_event list \<Rightarrow> HttpContext \<times> TcpConnection \<Rightarrow> (HttpContext \<times> TcpConnection) outcome option" where
  "http_run cb tid [] s = Some (Ret s)"
| "http_run cb tid (e # es) s =
     (case http_step cb tid e s of
        None \<Rightarrow> None
      | Some (Abort x) \<Rightarrow> Some (Abort x)
      | Some (Ret s) \<Rightarrow> http_run cb tid es s)"

fun delivered :: "http_event list \<Rightarrow> string" where
  "delivered [] = []"
| "delivered (HttpRead time bytes wr # es) = bytes @ delivered es"
| "delivered (HttpWrite wr # es) = delivered es"

text \<open>When the request line is complete, after \<open>acc\<close> was received before.\<close>

fun line_time :: "string \<Rightarrow> http_event list \<Rightarrow> int" where
  "line_time acc [] = 0"
| "line_time acc (HttpRead time bytes wr # es) = (if next_line (acc @ bytes) = None then line_time (acc @ bytes) es else time)"
| "line_time acc (HttpWrite wr # es) = line_time acc es"

definition wr_ok :: "(char list \<Rightarrow> int + nat) \<Rightarrow> bool" where
  "wr_ok wr \<longleftrightarrow> write_spec wr \<and> (\<forall>data e. wr data = Inl e \<longrightarrow> e \<noteq> EPIPE \<and> e \<noteq> ECONNRESET)"

fun event_ok :: "http_event \<Rightarrow> bool" where
  "event_ok (HttpRead time bytes wr) \<longleftrightarrow> bytes \<noteq> [] \<and> length bytes \<le> 65536 \<and> wr_ok wr"
| "event_ok (HttpWrite wr) \<longleftrightarrow> wr_ok wr"

text \<open>The response to a request whose pieces arrived with the events.\<close>

definition response_to :: "(HttpRequest \<Rightarrow> HttpResponse \<Rightarrow> HttpResponse) \<Rightarrow> HttpRequest \<times> http_event list \<Rightarrow> HttpResponse" where
  "response_to cb x = (let r = (fst x)\<lparr>receiveTime := line_time [] (snd x)\<rparr> in cb r (new_HttpResponse (wants_close r)))"

section \<open>Parsing prefixes of a request\<close>

lemma http_lines_time:
  "parse_state ctx \<noteq> kExpectRequestLine \<Longrightarrow> http_lines t ctx s = http_lines t' ctx s"
proof (induction t ctx s rule: http_lines.induct)
  case (1 t ctx s)
  then show ?case
    by (cases "next_line s") (auto simp: http_lines.simps [of t ctx s] http_lines.simps [of t' ctx s] split: HttpRequestParseState.splits)
qed

text \<open>A result that is not a request for more bytes does not change when more bytes follow.\<close>

lemma http_lines_final:
  assumes "parsing ctx" and "\<not> (\<exists>ctx' rest. http_lines t ctx s = Ret (True, ctx', rest) \<and> parsing ctx')"
  shows "case http_lines t ctx s of
      Abort e \<Rightarrow> http_lines t ctx (s @ ys) = Abort e
    | Ret (ok, ctx', rest) \<Rightarrow> http_lines t ctx (s @ ys) = Ret (ok, ctx', rest @ ys)"
  using assms
proof (induction t ctx s rule: http_lines.induct)
  case (1 t ctx s)
  show ?case
  proof (cases "next_line s")
    case None
    then show ?thesis using "1.prems" by (auto simp: http_lines.simps [of t ctx s])
  next
    case (Some lr)
    obtain line rest1 where lr: "lr = (line, rest1)" by (cases lr)
    note app = next_line_append [OF Some [unfolded lr], of ys]
    show ?thesis using "1.prems" "1.IH" [OF Some lr [symmetric]] Some lr app
      by (auto simp: http_lines.simps [of t ctx s] http_lines.simps [of t ctx "s @ ys"] parsing_def
          split: HttpRequestParseState.splits outcome.splits prod.splits if_splits)
  qed
qed

lemma print_request_time [simp]: "print_request (r\<lparr>receiveTime := t\<rparr>) = print_request r" "wf_request (r\<lparr>receiveTime := t\<rparr>) = wf_request r"
  by (simp_all add: print_request_def methodString_def wf_request_def)

lemma parsing_new [simp]: "parsing new_HttpContext" "parse_state new_HttpContext = kExpectRequestLine"
  by (simp_all add: parsing_def new_HttpContext_def)

lemma http_lines_prefix:
  assumes wf: "wf_request r" and p: "print_request r = p @ q" "q \<noteq> []"
  shows "\<exists>ctx' rest. http_lines t new_HttpContext p = Ret (True, ctx', rest) \<and> parsing ctx'"
proof (rule ccontr)
  assume "\<not> ?thesis"
  from http_lines_final [OF parsing_new(1) this, of q] http_lines_print [of "r\<lparr>receiveTime := t\<rparr>" "[]"] wf p show False
    by (auto split: outcome.splits)
qed

lemma http_lines_headers: "http_lines t ctx s = Ret (True, ctx', rest) \<Longrightarrow> parse_state ctx = kExpectHeaders \<Longrightarrow> parse_state ctx' \<noteq> kExpectRequestLine"
proof (induction t ctx s rule: http_lines.induct)
  case (1 t ctx s)
  show ?case
  proof (cases "next_line s")
    case None
    then show ?thesis using "1.prems" by (simp add: http_lines.simps [of t ctx s])
  next
    case (Some lr)
    obtain line rest1 where lr: "lr = (line, rest1)" by (cases lr)
    show ?thesis using "1.prems" "1.IH" [OF Some lr [symmetric]] Some lr
      by (auto simp: http_lines.simps [of t ctx s] split: if_splits)
  qed
qed

lemma http_lines_past_line:
  assumes "http_lines t new_HttpContext s = Ret (True, ctx', rest)" and "parsing ctx'" and "next_line s \<noteq> None"
  shows "parse_state ctx' = kExpectHeaders"
proof -
  obtain line rest1 where "next_line s = Some (line, rest1)" using assms(3) by auto
  with assms(1,2) obtain ctx where "http_lines t ctx rest1 = Ret (True, ctx', rest)" "parse_state ctx = kExpectHeaders"
    by (auto simp: http_lines.simps [of t new_HttpContext s] parsing_def split: outcome.splits prod.splits if_splits)
  with http_lines_headers assms(2) show ?thesis by (auto simp: parsing_def)
qed

text \<open>The context and the readable bytes after the proper prefix \<open>p\<close> of a request, whose line is complete at \<open>\<tau>\<close>.\<close>

definition receiving :: "int \<Rightarrow> string \<Rightarrow> http_event list \<Rightarrow> HttpContext \<Rightarrow> string \<Rightarrow> bool" where
  "receiving \<tau> p es ctx s \<longleftrightarrow>
     (if next_line p = None then ctx = new_HttpContext \<and> s = p \<and> \<tau> = line_time p es
      else http_lines \<tau> new_HttpContext p = Ret (True, ctx, s) \<and> parse_state ctx = kExpectHeaders)"

lemma receiving_parsing: "receiving \<tau> p es ctx s \<Longrightarrow> parsing ctx"
  by (auto simp: receiving_def parsing_def split: if_splits)

lemma next_line_prefix: "next_line (p @ xs) = None \<Longrightarrow> next_line p = None"
  using next_line_append [of p _ _ xs] by (cases "next_line p") auto

lemma receiving_lines:
  assumes "receiving \<tau> p (HttpRead t xs wr # es) ctx s"
  shows "http_lines t ctx (s @ xs) = http_lines \<tau> new_HttpContext (p @ xs)"
proof (cases "next_line p = None")
  case True
  then show ?thesis using assms
    by (cases "next_line (p @ xs) = None") (auto simp: receiving_def http_lines.simps [of _ _ "p @ xs"])
next
  case False
  then have h: "http_lines \<tau> new_HttpContext p = Ret (True, ctx, s)" "parse_state ctx = kExpectHeaders" using assms by (auto simp: receiving_def)
  have "http_lines \<tau> new_HttpContext (p @ xs) = http_lines \<tau> ctx (s @ xs)"
    by (rule http_lines_append [OF h(1)]) (simp add: parsing_def h(2))
  then show ?thesis using http_lines_time [of ctx t _ \<tau>] h(2) by simp
qed

lemma receiving_more:
  assumes wf: "wf_request r" and q: "print_request r = (p @ xs) @ q" "q \<noteq> []" and rc: "receiving \<tau> p (HttpRead t xs wr # es) ctx s"
  shows "\<exists>ctx' s'. http_lines t ctx (s @ xs) = Ret (True, ctx', s') \<and> \<not> gotAll ctx' \<and> receiving \<tau> (p @ xs) es ctx' s'"
proof -
  obtain ctx' s' where l: "http_lines \<tau> new_HttpContext (p @ xs) = Ret (True, ctx', s')" "parsing ctx'"
    using http_lines_prefix [OF wf q] by blast
  have "receiving \<tau> (p @ xs) es ctx' s'"
  proof (cases "next_line (p @ xs) = None")
    case True
    then show ?thesis using rc l next_line_prefix [OF True] by (auto simp: receiving_def http_lines.simps [of _ _ "p @ xs"])
  next
    case False
    then show ?thesis using l http_lines_past_line [OF l False] by (auto simp: receiving_def)
  qed
  moreover have "\<not> gotAll ctx'" using l(2) by (auto simp: parsing_def gotAll_def)
  ultimately show ?thesis using l(1) receiving_lines [OF rc] by auto
qed

lemma receiving_last:
  assumes "wf_request r" and "print_request r = p @ xs" and "receiving \<tau> p (HttpRead t xs wr # es) ctx s"
  shows "http_lines t ctx (s @ xs) = Ret (True, \<lparr>parse_state = kGotAll, request = r\<lparr>receiveTime := \<tau>\<rparr>\<rparr>, [])"
  using receiving_lines [OF assms(3)] http_lines_print [of "r\<lparr>receiveTime := \<tau>\<rparr>" "[]"] assms(1,2) by simp

section \<open>Events of one request\<close>

text \<open>What a read event does: the bytes are appended, or the vector cannot grow.\<close>

lemma http_read:
  assumes ok: "conn_ok tid c" and xs: "xs \<noteq> []" "length xs \<le> 65536"
  shows "http_step cb tid (HttpRead t xs wr) (ctx, c) = Some (Abort (Throw ''length_error'')) \<or>
    (\<exists>b. http_step cb tid (HttpRead t xs wr) (ctx, c) = onMessage cb tid wr t ctx (c\<lparr>inputBuffer := b\<rparr>) \<and>
       buffer_ok b \<and> content b = content (inputBuffer c) @ xs)"
proof -
  let ?readv = "\<lambda>vec. Inr (take (sum_list vec) xs) :: int + char list" and ?w = "writableBytes (inputBuffer c)"
  have "readv_spec ?readv" by (auto simp: readv_spec_def)
  moreover have "?readv (if ?w < 65536 then [?w, 65536] else [?w]) = Inr xs" using xs(2) by simp
  ultimately have "(\<exists>b. readFd ?readv (inputBuffer c) = Ret (int (length xs), None, b) \<and> buffer_ok b \<and> content b = content (inputBuffer c) @ xs)
      \<or> readFd ?readv (inputBuffer c) = Abort (Throw ''length_error'')"
    using readFd_cases [OF conn_okD(2) [OF ok]] by blast
  then show ?thesis using xs(1) conn_okD(1) [OF ok] by (auto simp: http_handleRead_def)
qed

definition replied :: "int \<Rightarrow> string \<Rightarrow> HttpResponse \<Rightarrow> HttpContext \<times> TcpConnection \<Rightarrow> bool" where
  "replied tid out resp s \<longleftrightarrow> fst s = new_HttpContext \<and> conn_ok tid (snd s) \<and> content (inputBuffer (snd s)) = [] \<and>
     stream (snd s) = out @ render_response resp \<and> state (snd s) = (if closeConnection resp then kDisconnecting else kConnected)"

lemma http_write:
  assumes "conn_ok tid c" and "wr_ok wr"
  shows "\<exists>m. http_step cb tid (HttpWrite wr) (ctx, c) = Some m \<and> guarantees (\<lambda>s. fst s = ctx \<and> conn_ok tid (snd s) \<and> state (snd s) = state c \<and>
    inputBuffer (snd s) = inputBuffer c \<and> stream (snd s) = stream c) m"
  using handleWrite_ok [OF assms(1), of wr] assms(2) by (auto simp: wr_ok_def same_shell_def intro: guarantees_bindo)

lemma answered_ok: "answered wr resp c c' \<Longrightarrow> wr_ok wr \<Longrightarrow> stream c' = stream c @ render_response resp \<and> state c' = (if closeConnection resp then kDisconnecting else kConnected)"
  by (auto simp: answered_def wr_ok_def)

definition before_reply :: "int \<Rightarrow> string \<Rightarrow> HttpResponse \<Rightarrow> int \<Rightarrow> string \<Rightarrow> http_event list \<Rightarrow> HttpContext \<times> TcpConnection \<Rightarrow> bool" where
  "before_reply tid out resp \<tau> p es s \<longleftrightarrow> conn_ok tid (snd s) \<and>
     (if delivered es = [] then replied tid out resp s
      else receiving \<tau> p es (fst s) (content (inputBuffer (snd s))) \<and> stream (snd s) = out \<and> state (snd s) = kConnected)"

lemma before_reply_read:
  assumes wf: "wf_request r" and ev: "event_ok (HttpRead t xs wr)" and all: "p @ delivered (HttpRead t xs wr # es) = print_request r"
    and resp: "resp = cb (r\<lparr>receiveTime := \<tau>\<rparr>) (new_HttpResponse (wants_close (r\<lparr>receiveTime := \<tau>\<rparr>)))" "small_response resp"
    and now: "before_reply tid out resp \<tau> p (HttpRead t xs wr # es) (ctx, c)"
  shows "\<exists>m. http_step cb tid (HttpRead t xs wr) (ctx, c) = Some m \<and> guarantees (before_reply tid out resp \<tau> (p @ xs) es) m"
proof -
  have xs: "xs \<noteq> []" "length xs \<le> 65536" "wr_ok wr" "write_spec wr" using ev by (auto simp: wr_ok_def)
  have B: "conn_ok tid c" "receiving \<tau> p (HttpRead t xs wr # es) ctx (content (inputBuffer c))" "stream c = out" "state c = kConnected"
    using now xs(1) by (simp_all add: before_reply_def)
  from http_read [OF B(1) xs(1,2), of cb t wr ctx] show ?thesis
  proof (elim disjE exE conjE)
    fix b assume b: "http_step cb tid (HttpRead t xs wr) (ctx, c) = onMessage cb tid wr t ctx (c\<lparr>inputBuffer := b\<rparr>)"
      "buffer_ok b" "content b = content (inputBuffer c) @ xs"
    let ?c = "c\<lparr>inputBuffer := b\<rparr>"
    have ok: "conn_ok tid ?c" "state ?c = kConnected" using B b(2) by (simp_all add: conn_ok_alive alive_def conn_notes_def)
    note pc = receiving_parsing [OF B(2)]
    show ?thesis
    proof (cases "delivered es = []")
      case True
      have "http_lines t ctx (content (inputBuffer ?c)) = Ret (True, \<lparr>parse_state = kGotAll, request = r\<lparr>receiveTime := \<tau>\<rparr>\<rparr>, [])"
        using receiving_last [OF wf _ B(2)] all True b(3) by simp
      from onMessage_complete [where cb = cb, OF ok xs(4) pc this resp] b(1) True B(3) show ?thesis
        by (auto simp: before_reply_def replied_def stream_def dest!: answered_ok [OF _ xs(3)] elim!: guarantees_mono)
    next
      case False
      obtain ctx' s' where l: "http_lines t ctx (content (inputBuffer ?c)) = Ret (True, ctx', s')" "\<not> gotAll ctx'" "receiving \<tau> (p @ xs) es ctx' s'"
        using receiving_more [OF wf _ False B(2)] all b(3) by auto
      from onMessage_incomplete [OF ok(1) pc l(1,2), of cb wr] obtain b' where
        "http_step cb tid (HttpRead t xs wr) (ctx, c) = Some (Ret (ctx', c\<lparr>inputBuffer := b'\<rparr>))" "buffer_ok b'" "content b' = s'" using b(1) by auto
      with l(3) B False show ?thesis by (simp add: before_reply_def conn_ok_alive alive_def conn_notes_def stream_def)
    qed
  qed simp
qed

lemma before_reply_write:
  assumes "wr_ok wr" and "before_reply tid out resp \<tau> p (HttpWrite wr # es) (ctx, c)"
  shows "\<exists>m. http_step cb tid (HttpWrite wr) (ctx, c) = Some m \<and> guarantees (before_reply tid out resp \<tau> p es) m"
  using http_write [of tid c wr cb ctx] assms
  by (auto simp: before_reply_def replied_def receiving_def split: if_splits elim!: guarantees_mono)

lemma request_events:
  assumes "wf_request r" and "list_all event_ok es" and "p @ delivered es = print_request r"
    and "resp = cb (r\<lparr>receiveTime := \<tau>\<rparr>) (new_HttpResponse (wants_close (r\<lparr>receiveTime := \<tau>\<rparr>)))" and "small_response resp"
    and "before_reply tid out resp \<tau> p es s"
  shows "\<exists>m. http_run cb tid es s = Some m \<and> guarantees (replied tid out resp) m"
  using assms(2,3,6)
proof (induction es arbitrary: p s)
  case Nil
  then show ?case by (simp add: before_reply_def)
next
  case (Cons e es)
  obtain ctx c where s: "s = (ctx, c)" by (cases s)
  have "\<exists>q m. http_step cb tid e s = Some m \<and> guarantees (before_reply tid out resp \<tau> q es) m \<and> q @ delivered es = print_request r"
  proof (cases e)
    case (HttpRead t xs wr)
    with before_reply_read [where cb = cb and r = r, OF assms(1) _ _ assms(4,5), of t xs wr p es tid out ctx c] Cons.prems s show ?thesis
      by (intro exI [of _ "p @ xs"]) auto
  next
    case (HttpWrite wr)
    with before_reply_write [of wr tid out resp \<tau> p es ctx c cb] Cons.prems s show ?thesis by auto
  qed
  then obtain q m where m: "http_step cb tid e s = Some m" "guarantees (before_reply tid out resp \<tau> q es) m" "q @ delivered es = print_request r" by blast
  show ?case
  proof (cases m)
    case (Ret s')
    with Cons.IH [OF _ m(3), of s'] m Cons.prems(1) show ?thesis by simp
  qed (use m in simp)
qed

lemma http_run_append:
  "http_run cb tid (es @ fs) s = (case http_run cb tid es s of None \<Rightarrow> None | Some (Abort x) \<Rightarrow> Some (Abort x) | Some (Ret s) \<Rightarrow> http_run cb tid fs s)"
  by (induction es arbitrary: s) (auto split: option.splits outcome.splits)

section \<open>Properties\<close>


text \<open>Two requests, the first cut inside its first line and answered piecewise, to a callback that keeps the connection open.\<close>

definition hello :: "HttpRequest \<Rightarrow> HttpResponse \<Rightarrow> HttpResponse" where
  "hello req resp = resp\<lparr>statusCode := k200Ok, statusMessage := ''OK'', body := ''hi'', closeConnection := False\<rparr>"

definition demo_events :: "int \<Rightarrow> HttpRequest \<times> http_event list" where
  "demo_events t = (demo_request, [HttpRead t (take 9 (print_request demo_request)) two_bytes, HttpWrite two_bytes,
     HttpRead (t + 1) (drop 9 (print_request demo_request)) two_bytes, HttpWrite two_bytes])"

lemma demo_events_ok:
  "wf_request (fst (demo_events t)) \<and> list_all event_ok (snd (demo_events t)) \<and> delivered (snd (demo_events t)) = print_request (fst (demo_events t))"
proof -
  have "wr_ok two_bytes" by (simp add: wr_ok_def two_bytes_spec) (simp add: two_bytes_def)
  moreover have "length (print_request demo_request) = 51"
    by (simp add: print_request_def demo_request_def methodString_def version_string_def header_line_def kCRLF_def)
  ultimately show ?thesis using demo_request_wf by (auto simp: demo_events_def simp flip: length_0_conv)
qed


end
