(* ===== verification/Reactors.thy ===== *)
theory Reactors
  imports EventLoops
begin

text \<open>
  \<^verbatim>\<open>muduo/net/EventLoop.cc\<close> with its poller and its channels: one iteration of \<^verbatim>\<open>loop()\<close> over the models of \<open>EventLoops\<close>, \<open>Pollers\<close> and
  \<open>Channels\<close> together.

  A callback or functor is the list of calls it makes: calls of a channel, which go through \<^verbatim>\<open>EventLoop::updateChannel\<close> and
  \<^verbatim>\<open>removeChannel\<close> to the poller, \<^verbatim>\<open>queueInLoop\<close>, \<^verbatim>\<open>quit\<close>, and the reading of the event descriptor by the wakeup channel. In one iteration a
  channel is handled once and runs each callback at most once, so that the calls are a function of the channel and the kind of callback. Other
  threads are the subject of \<open>EventLoops\<close>.
\<close>

section \<open>The loop with its poller\<close>

datatype loop_call = ChannelCall "(interest_call + unit) \<times> nat" | QueueInLoop nat | QuitLoop | ReadWakeup

record 'p reactor =
  rx_loop :: EventLoop
  rx_chans :: "store \<times> 'p"
  rx_calls :: "(nat \<times> callback) list"
  rx_ran :: "nat list"

type_synonym 'p poller_call = "nat \<Rightarrow> store \<times> 'p \<Rightarrow> (store \<times> 'p) outcome"

fun loop_effect :: "int \<Rightarrow> loop_call \<Rightarrow> EventLoop \<Rightarrow> EventLoop" where
  "loop_effect tid (ChannelCall x) l = l"
| "loop_effect tid (QueueInLoop f) l = queueInLoop tid f l"
| "loop_effect tid QuitLoop l = quit_loop tid l"
| "loop_effect tid ReadWakeup l = el_handleRead l"

definition reactor_call :: "'p poller_call \<Rightarrow> 'p poller_call \<Rightarrow> int \<Rightarrow> loop_call \<Rightarrow> 'p reactor \<Rightarrow> 'p reactor outcome" where
  "reactor_call upd rem tid a r =
     (case a of
        ChannelCall x \<Rightarrow>
          bindo (client_op (\<lambda>c. EventLoop_updateChannel upd tid c (rx_loop r)) (\<lambda>c. EventLoop_removeChannel rem tid c (rx_loop r)) x (rx_chans r))
            (\<lambda>s. Ret (r\<lparr>rx_chans := s\<rparr>))
      | _ \<Rightarrow> Ret (r\<lparr>rx_loop := loop_effect tid a (rx_loop r)\<rparr>))"

definition put_channel :: "nat \<Rightarrow> Channel \<Rightarrow> 'p reactor \<Rightarrow> 'p reactor" where
  "put_channel c ch r = r\<lparr>rx_chans := ((fst (rx_chans r))(c := ch), snd (rx_chans r))\<rparr>"

definition reactor_callback ::
  "'p poller_call \<Rightarrow> 'p poller_call \<Rightarrow> int \<Rightarrow> (nat \<Rightarrow> callback \<Rightarrow> loop_call list) \<Rightarrow> nat \<Rightarrow> callback \<Rightarrow> Channel \<times> 'p reactor
    \<Rightarrow> (Channel \<times> 'p reactor) outcome" where
  "reactor_callback upd rem tid acts c cb s =
     (let r = put_channel c (fst s) (snd s)
      in bindo (foldo (reactor_call upd rem tid) (acts c cb) (r\<lparr>rx_calls := rx_calls r @ [(c, cb)]\<rparr>)) (\<lambda>r. Ret (fst (rx_chans r) c, r)))"

text \<open>\<open>locked c\<close> is whether the owner that the channel is tied to still exists.\<close>

definition reactor_handle ::
  "'p poller_call \<Rightarrow> 'p poller_call \<Rightarrow> int \<Rightarrow> (nat \<Rightarrow> bool) \<Rightarrow> (nat \<Rightarrow> callback \<Rightarrow> loop_call list) \<Rightarrow> nat \<Rightarrow> 'p reactor \<Rightarrow> 'p reactor outcome" where
  "reactor_handle upd rem tid locked acts c r =
     bindo (handleEvent (locked c) (reactor_callback upd rem tid acts c) (fst (rx_chans r) c, r)) (\<lambda>(ch, r). Ret (put_channel c ch r))"

definition reactor_functors :: "'p poller_call \<Rightarrow> 'p poller_call \<Rightarrow> int \<Rightarrow> (nat \<Rightarrow> loop_call list) \<Rightarrow> 'p reactor \<Rightarrow> 'p reactor outcome" where
  "reactor_functors upd rem tid facts r =
     (let functors = pendingFunctors (rx_loop r)
      in bindo (foldo (\<lambda>f r. foldo (reactor_call upd rem tid) (facts f) (r\<lparr>rx_ran := rx_ran r @ [f]\<rparr>)) functors
                 (r\<lparr>rx_loop := (rx_loop r)\<lparr>callingPendingFunctors := True, pendingFunctors := []\<rparr>\<rparr>)) (\<lambda>r.
         Ret (r\<lparr>rx_loop := (rx_loop r)\<lparr>callingPendingFunctors := False\<rparr>\<rparr>)))"

definition reactor_iteration ::
  "(int \<Rightarrow> store \<times> 'p \<Rightarrow> (nat list \<times> store \<times> 'p) outcome) \<Rightarrow> 'p poller_call \<Rightarrow> 'p poller_call \<Rightarrow> int \<Rightarrow> (nat \<Rightarrow> bool) \<Rightarrow>
    (nat \<Rightarrow> callback \<Rightarrow> loop_call list) \<Rightarrow> (nat \<Rightarrow> loop_call list) \<Rightarrow> 'p reactor \<Rightarrow> 'p reactor outcome" where
  "reactor_iteration poll_op upd rem tid locked acts facts r =
     bindo (poll_op kPollTimeMs (rx_chans r)) (\<lambda>(active, s).
     let l = (rx_loop r)\<lparr>activeChannels := active, iteration := iteration (rx_loop r) + 1, el_eventHandling := True\<rparr>
     in bindo (foldo (\<lambda>c r. reactor_handle upd rem tid locked acts c (r\<lparr>rx_loop := (rx_loop r)\<lparr>currentActiveChannel := Some c\<rparr>\<rparr>)) active
                (r\<lparr>rx_loop := l, rx_chans := s\<rparr>)) (\<lambda>r.
        reactor_functors upd rem tid facts (r\<lparr>rx_loop := (rx_loop r)\<lparr>currentActiveChannel := None, el_eventHandling := False\<rparr>\<rparr>)))"

section \<open>What an iteration should do\<close>

fun channel_calls :: "loop_call list \<Rightarrow> ((interest_call + unit) \<times> nat) list" where
  "channel_calls [] = []"
| "channel_calls (ChannelCall x # as) = x # channel_calls as"
| "channel_calls (_ # as) = channel_calls as"

fun queued_functors :: "loop_call list \<Rightarrow> nat list" where
  "queued_functors [] = []"
| "queued_functors (QueueInLoop f # as) = f # queued_functors as"
| "queued_functors (_ # as) = queued_functors as"

definition watch_steps :: "(nat \<Rightarrow> int) \<Rightarrow> ((interest_call + unit) \<times> nat) list \<Rightarrow> watch_state \<Rightarrow> watch_state" where
  "watch_steps fdof xs w = foldl (\<lambda>w x. watch_step fdof x w) w xs"

text \<open>The callbacks that the received events call for, in order.\<close>

definition expected_calls :: "(nat \<Rightarrow> bool) \<Rightarrow> store \<Rightarrow> (events \<times> nat) list \<Rightarrow> (nat \<times> callback) list" where
  "expected_calls locked h evs =
     concat (map (\<lambda>(ev, c). if tied (h c) \<and> \<not> locked c then [] else map (Pair c) (dispatched ((h c)\<lparr>revents := ev\<rparr>))) evs)"

text \<open>Callbacks keep to the rules of the channels, and remove from the poller only their own channel or one that is not active in this iteration.\<close>

fun legal_calls :: "(nat \<Rightarrow> int) \<Rightarrow> (nat \<Rightarrow> callback \<Rightarrow> loop_call list) \<Rightarrow> nat list \<Rightarrow> (nat \<times> callback) list \<Rightarrow> watch_state \<Rightarrow> bool" where
  "legal_calls fdof acts active [] w \<longleftrightarrow> True"
| "legal_calls fdof acts active ((c, cb) # cs) w \<longleftrightarrow>
     legal_script fdof (channel_calls (acts c cb)) w
     \<and> (\<forall>(x, d)\<in>set (channel_calls (acts c cb)). x = Inr () \<longrightarrow> d = c \<or> d \<notin> set active)
     \<and> legal_calls fdof acts active cs (watch_steps fdof (channel_calls (acts c cb)) w)"

definition calls_effect :: "(nat \<Rightarrow> int) \<Rightarrow> (nat \<Rightarrow> callback \<Rightarrow> loop_call list) \<Rightarrow> (nat \<times> callback) list \<Rightarrow> watch_state \<Rightarrow> watch_state" where
  "calls_effect fdof acts cs = watch_steps fdof (concat (map (\<lambda>(c, cb). channel_calls (acts c cb)) cs))"

text \<open>Functors keep to the rules too; they do not read the event descriptor.\<close>

definition legal_functors :: "(nat \<Rightarrow> int) \<Rightarrow> (nat \<Rightarrow> loop_call list) \<Rightarrow> nat list \<Rightarrow> watch_state \<Rightarrow> bool" where
  "legal_functors fdof facts fs w \<longleftrightarrow>
     legal_script fdof (channel_calls (concat (map facts fs))) w \<and> (\<forall>f\<in>set fs. ReadWakeup \<notin> set (facts f))"

lemma channel_calls_append [simp]: "channel_calls (xs @ ys) = channel_calls xs @ channel_calls ys"
  by (induction xs rule: channel_calls.induct) auto

lemma queued_functors_append [simp]: "queued_functors (xs @ ys) = queued_functors xs @ queued_functors ys"
  by (induction xs rule: queued_functors.induct) auto

lemma watch_steps_simps [simp]: "watch_steps fdof [] w = w" "watch_steps fdof (x # xs) w = watch_steps fdof xs (watch_step fdof x w)"
  "watch_steps fdof (xs @ ys) w = watch_steps fdof ys (watch_steps fdof xs w)"
  by (simp_all add: watch_steps_def)

lemma legal_script_append: "legal_script fdof (xs @ ys) w \<longleftrightarrow> legal_script fdof xs w \<and> legal_script fdof ys (watch_steps fdof xs w)"
  by (induction xs arbitrary: w) auto

lemma calls_effect_simps [simp]: "calls_effect fdof acts [] w = w"
  "calls_effect fdof acts ((c, cb) # cs) w = calls_effect fdof acts cs (watch_steps fdof (channel_calls (acts c cb)) w)"
  "calls_effect fdof acts (cs @ ds) w = calls_effect fdof acts ds (calls_effect fdof acts cs w)"
  by (simp_all add: calls_effect_def)

lemma legal_calls_append:
  "legal_calls fdof acts active (xs @ ys) w \<longleftrightarrow> legal_calls fdof acts active xs w \<and> legal_calls fdof acts active ys (calls_effect fdof acts xs w)"
proof (induction xs arbitrary: w)
  case (Cons x xs)
  obtain c cb where x: "x = (c, cb)" by fastforce
  show ?case using Cons.IH by (simp only: x append_Cons legal_calls.simps calls_effect_simps conj_assoc)
qed simp

section \<open>The effect on the loop object\<close>

text \<open>Calls made in the loop's own thread.\<close>

lemma loop_effect_members:
  "threadId (loop_effect tid a l) = threadId l" "activeChannels (loop_effect tid a l) = activeChannels l"
  "currentActiveChannel (loop_effect tid a l) = currentActiveChannel l" "el_eventHandling (loop_effect tid a l) = el_eventHandling l"
  "callingPendingFunctors (loop_effect tid a l) = callingPendingFunctors l" "iteration (loop_effect tid a l) = iteration l"
  "pendingFunctors (loop_effect tid a l) = pendingFunctors l @ queued_functors [a]"
  by (cases a; simp add: el_handleRead_def quit_loop_def queueInLoop_def wakeup_def Let_def)+

lemma loop_effects [simp]:
  "threadId (fold (loop_effect tid) as l) = threadId l" "activeChannels (fold (loop_effect tid) as l) = activeChannels l"
  "currentActiveChannel (fold (loop_effect tid) as l) = currentActiveChannel l" "el_eventHandling (fold (loop_effect tid) as l) = el_eventHandling l"
  "callingPendingFunctors (fold (loop_effect tid) as l) = callingPendingFunctors l" "iteration (fold (loop_effect tid) as l) = iteration l"
  by (induction as arbitrary: l) (simp_all add: loop_effect_members)

lemma pending_effects [simp]: "pendingFunctors (fold (loop_effect tid) as l) = pendingFunctors l @ queued_functors as"
proof (induction as arbitrary: l)
  case (Cons a as)
  have "queued_functors (a # as) = queued_functors [a] @ queued_functors as" using queued_functors_append [of "[a]" as] by simp
  then show ?case using Cons by (simp add: loop_effect_members)
qed simp

lemma wakeups_pos_kept: "ReadWakeup \<notin> set as \<Longrightarrow> 0 < wakeups l \<Longrightarrow> 0 < wakeups (fold (loop_effect tid) as l)"
proof (induction as arbitrary: l)
  case (Cons a as)
  then have "0 < wakeups (loop_effect tid a l)" by (cases a) (auto simp: quit_loop_def queueInLoop_def wakeup_def Let_def)
  then show ?case using Cons by simp
qed simp

text \<open>A functor that queues another one leaves a wakeup behind.\<close>

lemma queued_wakes:
  assumes "callingPendingFunctors l" and "ReadWakeup \<notin> set as" and "queued_functors as \<noteq> []"
  shows "0 < wakeups (fold (loop_effect tid) as l)"
  using assms
proof (induction as arbitrary: l)
  case (Cons a as)
  show ?case
  proof (cases a)
    case (QueueInLoop f)
    have "0 < wakeups (queueInLoop tid f l)" using Cons.prems(1) by (simp add: queueInLoop_def wakeup_def Let_def eventfd_max_def)
    then show ?thesis using wakeups_pos_kept Cons.prems(2) QueueInLoop by simp
  next
    case QuitLoop
    then show ?thesis using Cons by (simp add: quit_loop_def wakeup_def Let_def)
  qed (use Cons in auto)
qed simp

lemma fold_effect_current:
  "fold (loop_effect tid) as (l\<lparr>currentActiveChannel := x\<rparr>) = (fold (loop_effect tid) as l)\<lparr>currentActiveChannel := x\<rparr>"
proof (induction as arbitrary: l)
  case (Cons a as)
  have "loop_effect tid a (l\<lparr>currentActiveChannel := x\<rparr>) = (loop_effect tid a l)\<lparr>currentActiveChannel := x\<rparr>"
    by (cases a) (auto simp: el_handleRead_def quit_loop_def queueInLoop_def wakeup_def isInLoopThread_def Let_def)
  then show ?case using Cons by simp
qed simp

section \<open>Pollers that report events\<close>

text \<open>What an iteration needs beyond the registration: the poller looks at nothing of a channel but its descriptor, interest and index, and waiting stores
  the received events in the channels it hands out.\<close>

locale multiplexer = poller invar registered watched update_op remove_op
  for invar :: "store \<times> 'p \<Rightarrow> bool"
    and registered :: "'p \<Rightarrow> int \<rightharpoonup> nat"
    and watched :: "'p \<Rightarrow> int \<Rightarrow> events"
    and update_op :: "nat \<Rightarrow> store \<times> 'p \<Rightarrow> (store \<times> 'p) outcome"
    and remove_op :: "nat \<Rightarrow> store \<times> 'p \<Rightarrow> (store \<times> 'p) outcome" +
  fixes poll_op :: "int \<Rightarrow> store \<times> 'p \<Rightarrow> (nat list \<times> store \<times> 'p) outcome"
    and reported :: "int \<Rightarrow> 'p \<Rightarrow> (events \<times> nat) list"
  assumes touch_ok: "invar (h, p) \<Longrightarrow> \<forall>d. fd (h' d) = fd (h d) \<and> events (h' d) = events (h d) \<and> index (h' d) = index (h d) \<Longrightarrow> invar (h', p)"
    and poll_ok: "invar (h, p) \<Longrightarrow>
      \<exists>p'. poll_op t (h, p) = Ret (map snd (reported t p), store_revents (reported t p) h, p') \<and> invar (store_revents (reported t p) h, p')
        \<and> registered p' = registered p \<and> watched p' = watched p \<and> distinct (map snd (reported t p))"

definition same_slots :: "Channel \<Rightarrow> Channel \<Rightarrow> bool" where
  "same_slots c d \<longleftrightarrow> same_dispatch c d \<and> tied c = tied d"

lemma same_slots_simps [simp]: "same_slots c c" "same_slots (c\<lparr>eventHandling := b\<rparr>) d = same_slots c d" "same_slots c (d\<lparr>eventHandling := b\<rparr>) = same_slots c d"
  by (simp_all add: same_slots_def same_dispatch_def)

lemma same_slots_trans: "same_slots a b \<Longrightarrow> same_slots b c \<Longrightarrow> same_slots a c"
  by (simp add: same_slots_def same_dispatch_def)

lemma same_slots_dispatched: "same_slots c d \<Longrightarrow> dispatched c = dispatched d \<and> tied c = tied d"
  by (simp add: same_slots_def same_dispatch_def dispatched_def)

lemma put_channel_simps [simp]:
  "rx_loop (put_channel c ch r) = rx_loop r" "rx_calls (put_channel c ch r) = rx_calls r" "rx_ran (put_channel c ch r) = rx_ran r"
  "rx_chans (put_channel c ch r) = ((fst (rx_chans r))(c := ch), snd (rx_chans r))"
  by (simp_all add: put_channel_def)

lemma put_channel_same [simp]: "put_channel c (fst (rx_chans r) c) r = r"
  by (simp add: put_channel_def)

text \<open>What calls of callbacks and functors do to a reactor: \<open>as\<close> are the calls, \<open>cs\<close> the callbacks and \<open>fs\<close> the functors that were begun.\<close>

definition moves :: "int \<Rightarrow> 'p reactor \<Rightarrow> loop_call list \<Rightarrow> (nat \<times> callback) list \<Rightarrow> nat list \<Rightarrow> 'p reactor \<Rightarrow> bool" where
  "moves tid r as cs fs r' \<longleftrightarrow> rx_loop r' = fold (loop_effect tid) as (rx_loop r) \<and> rx_calls r' = rx_calls r @ cs \<and> rx_ran r' = rx_ran r @ fs
     \<and> (\<forall>d. same_slots (fst (rx_chans r') d) (fst (rx_chans r) d))"

lemma moves_refl [simp]: "moves tid r [] [] [] r"
  by (simp add: moves_def)

lemma moves_trans: "moves tid r as cs fs r1 \<Longrightarrow> moves tid r1 bs ds gs r2 \<Longrightarrow> moves tid r (as @ bs) (cs @ ds) (fs @ gs) r2"
  by (auto simp: moves_def intro: same_slots_trans)

lemma moves_loop [simp]:
  assumes "moves tid r as cs fs r'"
  shows "threadId (rx_loop r') = threadId (rx_loop r)" "activeChannels (rx_loop r') = activeChannels (rx_loop r)"
    "currentActiveChannel (rx_loop r') = currentActiveChannel (rx_loop r)" "el_eventHandling (rx_loop r') = el_eventHandling (rx_loop r)"
  using assms by (simp_all add: moves_def)

context multiplexer
begin

lemma agrees_touch:
  assumes "agrees fdof (h, p) w" and "\<And>d. fd (h' d) = fd (h d) \<and> events (h' d) = events (h d) \<and> index (h' d) = index (h d)"
  shows "agrees fdof (h', p) w"
  using assms touch_ok [of h p h'] by (auto simp: agrees_def)

lemma agrees_put:
  assumes "agrees fdof (rx_chans r) w" and "ch = (fst (rx_chans r) c)\<lparr>eventHandling := b\<rparr>"
  shows "agrees fdof (rx_chans (put_channel c ch r)) w"
  unfolding put_channel_simps by (rule agrees_touch [of _ "fst (rx_chans r)"]) (use assms in auto)

text \<open>The loop lets a legal call through to the poller.\<close>

definition may_call :: "int \<Rightarrow> EventLoop \<Rightarrow> ((interest_call + unit) \<times> nat) list \<Rightarrow> bool" where
  "may_call tid l xs \<longleftrightarrow> threadId l = tid
     \<and> (el_eventHandling l \<longrightarrow> (\<forall>(x, d)\<in>set xs. x = Inr () \<longrightarrow> currentActiveChannel l = Some d \<or> d \<notin> set (activeChannels l)))"

lemma client_op_through_loop:
  assumes "may_call tid l [x]"
  shows "client_op (\<lambda>c. EventLoop_updateChannel update_op tid c l) (\<lambda>c. EventLoop_removeChannel remove_op tid c l) x s = client_op update_op remove_op x s"
  using assms by (cases s) (auto simp: may_call_def client_op_def Channel_interest_def Channel_update_def Channel_remove_def EventLoop_updateChannel_def
      EventLoop_removeChannel_def require_def split: prod.splits sum.splits)

lemma call_ok:
  assumes "agrees fdof (rx_chans r) w" and "legal_script fdof (channel_calls [a]) w" and "may_call tid (rx_loop r) (channel_calls [a])"
  shows "\<exists>r'. reactor_call update_op remove_op tid a r = Ret r' \<and> agrees fdof (rx_chans r') (watch_steps fdof (channel_calls [a]) w) \<and> moves tid r [a] [] [] r'"
proof (cases a)
  case (ChannelCall x)
  obtain h p where hp: "rx_chans r = (h, p)" by fastforce
  have lg: "legal_call fdof x w" using assms(2) ChannelCall by simp
  obtain h' p' where s': "client_op update_op remove_op x (h, p) = Ret (h', p')" "agrees fdof (h', p') (watch_step fdof x w)"
    using client_op_simulates [OF assms(1) [unfolded hp] lg] by (metis surj_pair)
  have "same_slots (h' d) (h d)" for d using client_op_others(4) [OF assms(1) [unfolded hp] lg s'(1)] by (simp add: same_slots_def)
  then show ?thesis using s' client_op_through_loop [of tid "rx_loop r" x "rx_chans r"] assms(3) ChannelCall hp
    by (auto simp: reactor_call_def moves_def)
qed (use assms in \<open>auto simp: reactor_call_def moves_def\<close>)

lemma calls_ok:
  assumes "agrees fdof (rx_chans r) w" and "legal_script fdof (channel_calls as) w" and "may_call tid (rx_loop r) (channel_calls as)"
  shows "\<exists>r'. foldo (reactor_call update_op remove_op tid) as r = Ret r' \<and> agrees fdof (rx_chans r') (watch_steps fdof (channel_calls as) w) \<and> moves tid r as [] [] r'"
  using assms
proof (induction as arbitrary: r w)
  case (Cons a as)
  have split: "channel_calls (a # as) = channel_calls [a] @ channel_calls as" using channel_calls_append [of "[a]" as] by simp
  have lg: "legal_script fdof (channel_calls [a]) w" "legal_script fdof (channel_calls as) (watch_steps fdof (channel_calls [a]) w)"
    and may: "may_call tid (rx_loop r) (channel_calls [a])" "may_call tid (rx_loop r) (channel_calls as)"
    using Cons.prems(2,3) unfolding split by (auto simp: legal_script_append may_call_def)
  obtain r1 where r1: "reactor_call update_op remove_op tid a r = Ret r1" "agrees fdof (rx_chans r1) (watch_steps fdof (channel_calls [a]) w)" "moves tid r [a] [] [] r1"
    using call_ok [OF Cons.prems(1) lg(1) may(1)] by blast
  have "may_call tid (rx_loop r1) (channel_calls as)" using may(2) r1(3) by (simp add: may_call_def)
  then obtain r2 where "foldo (reactor_call update_op remove_op tid) as r1 = Ret r2"
      "agrees fdof (rx_chans r2) (watch_steps fdof (channel_calls as) (watch_steps fdof (channel_calls [a]) w))" "moves tid r1 as [] [] r2"
    using Cons.IH [OF r1(2) lg(2)] by blast
  then show ?case using r1 moves_trans [OF r1(3), of as "[]" "[]" r2] unfolding split by simp
qed simp

text \<open>Callbacks of one channel, while it is the current one.\<close>

lemma callback_ok:
  assumes "agrees fdof (rx_chans (put_channel c ch r)) w" and "legal_calls fdof acts (activeChannels (rx_loop r)) [(c, cb)] w"
    and "threadId (rx_loop r) = tid" and "currentActiveChannel (rx_loop r) = Some c"
  shows "\<exists>r'. reactor_callback update_op remove_op tid acts c cb (ch, r) = Ret (fst (rx_chans r') c, r')
    \<and> agrees fdof (rx_chans r') (calls_effect fdof acts [(c, cb)] w) \<and> moves tid (put_channel c ch r) (acts c cb) [(c, cb)] [] r'"
proof -
  let ?r = "(put_channel c ch r)\<lparr>rx_calls := rx_calls r @ [(c, cb)]\<rparr>"
  have "may_call tid (rx_loop ?r) (channel_calls (acts c cb))" using assms(2-4) by (auto simp: may_call_def)
  moreover have "agrees fdof (rx_chans ?r) w" "legal_script fdof (channel_calls (acts c cb)) w" using assms(1,2) by simp_all
  ultimately obtain r' where r': "foldo (reactor_call update_op remove_op tid) (acts c cb) ?r = Ret r'"
      "agrees fdof (rx_chans r') (watch_steps fdof (channel_calls (acts c cb)) w)" "moves tid ?r (acts c cb) [] [] r'"
    using calls_ok by blast
  then have "moves tid (put_channel c ch r) (acts c cb) [(c, cb)] [] r'" by (simp add: moves_def)
  then show ?thesis using r' by (simp add: reactor_callback_def)
qed

lemma callbacks_ok:
  assumes "agrees fdof (rx_chans (put_channel c ch r)) w" and "legal_calls fdof acts (activeChannels (rx_loop r)) (map (Pair c) cbs) w"
    and "threadId (rx_loop r) = tid" and "currentActiveChannel (rx_loop r) = Some c"
  shows "\<exists>ch' r'. foldo (reactor_callback update_op remove_op tid acts c) cbs (ch, r) = Ret (ch', r')
    \<and> agrees fdof (rx_chans (put_channel c ch' r')) (calls_effect fdof acts (map (Pair c) cbs) w)
    \<and> moves tid (put_channel c ch r) (concat (map (acts c) cbs)) (map (Pair c) cbs) [] (put_channel c ch' r')"
  using assms
proof (induction cbs arbitrary: ch r w)
  case (Cons cb cbs)
  have lg: "legal_calls fdof acts (activeChannels (rx_loop r)) [(c, cb)] w"
      "legal_calls fdof acts (activeChannels (rx_loop r)) (map (Pair c) cbs) (calls_effect fdof acts [(c, cb)] w)"
    using Cons.prems(2) legal_calls_append [of fdof acts _ "[(c, cb)]" "map (Pair c) cbs" w] by simp_all
  obtain r1 where r1: "reactor_callback update_op remove_op tid acts c cb (ch, r) = Ret (fst (rx_chans r1) c, r1)"
      "agrees fdof (rx_chans r1) (calls_effect fdof acts [(c, cb)] w)" "moves tid (put_channel c ch r) (acts c cb) [(c, cb)] [] r1"
    using callback_ok [OF Cons.prems(1) lg(1) Cons.prems(3,4)] by blast
  obtain ch' r' where r': "foldo (reactor_callback update_op remove_op tid acts c) cbs (fst (rx_chans r1) c, r1) = Ret (ch', r')"
      "agrees fdof (rx_chans (put_channel c ch' r')) (calls_effect fdof acts (map (Pair c) cbs) (calls_effect fdof acts [(c, cb)] w))"
      "moves tid r1 (concat (map (acts c) cbs)) (map (Pair c) cbs) [] (put_channel c ch' r')"
    using Cons.IH [of "fst (rx_chans r1) c" r1] r1(2,3) lg(2) Cons.prems(3,4) by (simp add: put_channel_same del: put_channel_simps) fastforce
  then show ?case using r1(1) moves_trans [OF r1(3) r'(3)] by auto
qed (auto)

definition channel_events :: "(nat \<Rightarrow> bool) \<Rightarrow> nat \<Rightarrow> Channel \<Rightarrow> (nat \<times> callback) list" where
  "channel_events locked c ch = (if tied ch \<and> \<not> locked c then [] else map (Pair c) (dispatched ch))"

lemma handle_ok:
  assumes ag: "agrees fdof (rx_chans r) w" and lg: "legal_calls fdof acts (activeChannels (rx_loop r)) (channel_events locked c (fst (rx_chans r) c)) w"
    and l: "threadId (rx_loop r) = tid" "currentActiveChannel (rx_loop r) = Some c"
  defines "cs \<equiv> channel_events locked c (fst (rx_chans r) c)"
  shows "\<exists>r'. reactor_handle update_op remove_op tid locked acts c r = Ret r' \<and> agrees fdof (rx_chans r') (calls_effect fdof acts cs w)
    \<and> moves tid r (concat (map (\<lambda>(c, cb). acts c cb) cs)) cs [] r'"
proof (cases "tied (fst (rx_chans r) c) \<and> \<not> locked c")
  case True
  then show ?thesis using ag by (simp add: reactor_handle_def handleEvent_def cs_def channel_events_def)
next
  case False
  let ?ch = "fst (rx_chans r) c" and ?run = "reactor_callback update_op remove_op tid acts c"
  let ?r = "put_channel c (?ch\<lparr>eventHandling := True\<rparr>) r"
  have cs: "cs = map (Pair c) (dispatched ?ch)" using False by (auto simp: cs_def channel_events_def)
  have ag1: "agrees fdof (rx_chans ?r) w" by (rule agrees_put [OF ag refl])
  have mv: "moves tid r [] [] [] ?r" by (simp add: moves_def)
  have pre: "\<exists>ch' r'. foldo ?run cbs (?ch\<lparr>eventHandling := True\<rparr>, r) = Ret (ch', r')
      \<and> agrees fdof (rx_chans (put_channel c ch' r')) (calls_effect fdof acts (map (Pair c) cbs) w)
      \<and> moves tid ?r (concat (map (acts c) cbs)) (map (Pair c) cbs) [] (put_channel c ch' r')" if "dispatched ?ch = cbs @ more" for cbs more
    using that lg l by (intro callbacks_ok [OF ag1]) (auto simp: cs [unfolded cs_def] legal_calls_append)
  have run: "handleEventWithGuard ?run (?ch, r) = bindo (foldo ?run (dispatched ?ch) (?ch\<lparr>eventHandling := True\<rparr>, r))
      (\<lambda>s. Ret ((fst s)\<lparr>eventHandling := False\<rparr>, snd s))"
  proof (rule handleEventWithGuard_runs)
    fix cbs more s'
    assume d: "dispatched ?ch = cbs @ more" and f: "foldo ?run cbs (?ch\<lparr>eventHandling := True\<rparr>, r) = Ret s'"
    obtain ch' r' where "s' = (ch', r')" "moves tid ?r (concat (map (acts c) cbs)) (map (Pair c) cbs) [] (put_channel c ch' r')"
      using pre [OF d] f by auto
    then have "same_slots (fst s') ?ch" unfolding moves_def by (metis fst_conv fun_upd_same put_channel_simps(4) same_slots_simps(3))
    then show "same_dispatch (fst s') ?ch" by (simp add: same_slots_def)
  qed
  obtain ch' r' where r': "foldo ?run (dispatched ?ch) (?ch\<lparr>eventHandling := True\<rparr>, r) = Ret (ch', r')"
      "agrees fdof (rx_chans (put_channel c ch' r')) (calls_effect fdof acts cs w)"
      "moves tid ?r (concat (map (acts c) (dispatched ?ch))) cs [] (put_channel c ch' r')"
    using pre [of "dispatched ?ch" "[]"] cs by auto
  let ?r' = "put_channel c (ch'\<lparr>eventHandling := False\<rparr>) r'"
  have "?r' = put_channel c (ch'\<lparr>eventHandling := False\<rparr>) (put_channel c ch' r')" by (simp add: put_channel_def)
  then have "agrees fdof (rx_chans ?r') (calls_effect fdof acts cs w)" using agrees_put [OF r'(2), where c = c and b = False] by simp
  moreover have "moves tid (put_channel c ch' r') [] [] [] ?r'" by (simp add: moves_def)
  then have "moves tid r (concat (map (acts c) (dispatched ?ch))) cs [] ?r'"
    using moves_trans [OF mv moves_trans [OF r'(3), of "[]" "[]" "[]" ?r']] by simp
  moreover have "concat (map (\<lambda>(c, cb). acts c cb) cs) = concat (map (acts c) (dispatched ?ch))" by (simp add: cs comp_def)
  ultimately show ?thesis using False run r'(1) by (auto simp: reactor_handle_def handleEvent_def)
qed

text \<open>All active channels, in the order of the poller.\<close>

lemma handles_ok:
  assumes "agrees fdof (rx_chans r) w" and "threadId (rx_loop r) = tid"
    and "legal_calls fdof acts (activeChannels (rx_loop r)) (concat (map (\<lambda>c. channel_events locked c (fst (rx_chans r) c)) active)) w"
  defines "cs \<equiv> concat (map (\<lambda>c. channel_events locked c (fst (rx_chans r) c)) active)"
  shows "\<exists>r'. foldo (\<lambda>c r. reactor_handle update_op remove_op tid locked acts c (r\<lparr>rx_loop := (rx_loop r)\<lparr>currentActiveChannel := Some c\<rparr>\<rparr>)) active r = Ret r'
    \<and> agrees fdof (rx_chans r') (calls_effect fdof acts cs w)
    \<and> moves tid (r\<lparr>rx_loop := (rx_loop r)\<lparr>currentActiveChannel := None\<rparr>\<rparr>) (concat (map (\<lambda>(c, cb). acts c cb) cs)) cs []
        (r'\<lparr>rx_loop := (rx_loop r')\<lparr>currentActiveChannel := None\<rparr>\<rparr>)"
  using assms(1-3) unfolding cs_def
proof (induction active arbitrary: r w)
  case (Cons c active)
  let ?cur = "\<lambda>x r. r\<lparr>rx_loop := (rx_loop r)\<lparr>currentActiveChannel := x\<rparr>\<rparr>"
  let ?cs = "channel_events locked c (fst (rx_chans r) c)"
  let ?more = "\<lambda>r. concat (map (\<lambda>c. channel_events locked c (fst (rx_chans r) c)) active)"
  have lg: "legal_calls fdof acts (activeChannels (rx_loop r)) ?cs w"
      "legal_calls fdof acts (activeChannels (rx_loop r)) (?more r) (calls_effect fdof acts ?cs w)"
    using Cons.prems(3) by (simp_all add: legal_calls_append)
  obtain r1 where r1: "reactor_handle update_op remove_op tid locked acts c (?cur (Some c) r) = Ret r1" "agrees fdof (rx_chans r1) (calls_effect fdof acts ?cs w)"
      "moves tid (?cur (Some c) r) (concat (map (\<lambda>(c, cb). acts c cb) ?cs)) ?cs [] r1"
    using handle_ok [of fdof "?cur (Some c) r" w acts locked c tid] Cons.prems(1,2) lg(1) by auto
  have "channel_events locked d (fst (rx_chans r1) d) = channel_events locked d (fst (rx_chans r) d)" for d
    using r1(3) same_slots_dispatched [of "fst (rx_chans r1) d" "fst (rx_chans r) d"] by (simp add: moves_def channel_events_def)
  then have more: "?more r1 = ?more r" by simp
  have m1: "moves tid (?cur None r) (concat (map (\<lambda>(c, cb). acts c cb) ?cs)) ?cs [] (?cur None r1)"
    using r1(3) by (simp add: moves_def fold_effect_current)
  have "threadId (rx_loop r1) = tid" "activeChannels (rx_loop r1) = activeChannels (rx_loop r)" using r1(3) Cons.prems(2) by simp_all
  then obtain r2 where r2: "foldo (\<lambda>c r. reactor_handle update_op remove_op tid locked acts c (?cur (Some c) r)) active r1 = Ret r2"
      "agrees fdof (rx_chans r2) (calls_effect fdof acts (?more r) (calls_effect fdof acts ?cs w))"
      "moves tid (?cur None r1) (concat (map (\<lambda>(c, cb). acts c cb) (?more r))) (?more r) [] (?cur None r2)"
    using Cons.IH [OF r1(2)] lg(2) unfolding more by auto
  then show ?case using r1(1) moves_trans [OF m1 r2(3)] by auto
qed simp

lemma functors_ok:
  assumes "agrees fdof (rx_chans r) w" and "threadId (rx_loop r) = tid" and "\<not> el_eventHandling (rx_loop r)"
    and "legal_script fdof (channel_calls (concat (map facts fs))) w"
  shows "\<exists>r'. foldo (\<lambda>f r. foldo (reactor_call update_op remove_op tid) (facts f) (r\<lparr>rx_ran := rx_ran r @ [f]\<rparr>)) fs r = Ret r'
    \<and> agrees fdof (rx_chans r') (watch_steps fdof (channel_calls (concat (map facts fs))) w) \<and> moves tid r (concat (map facts fs)) [] fs r'"
  using assms
proof (induction fs arbitrary: r w)
  case (Cons f fs)
  let ?r = "r\<lparr>rx_ran := rx_ran r @ [f]\<rparr>"
  have lg: "legal_script fdof (channel_calls (facts f)) w" "legal_script fdof (channel_calls (concat (map facts fs))) (watch_steps fdof (channel_calls (facts f)) w)"
    using Cons.prems(4) by (simp_all add: legal_script_append)
  have "may_call tid (rx_loop ?r) (channel_calls (facts f))" using Cons.prems(2,3) by (simp add: may_call_def)
  then obtain r1 where r1: "foldo (reactor_call update_op remove_op tid) (facts f) ?r = Ret r1"
      "agrees fdof (rx_chans r1) (watch_steps fdof (channel_calls (facts f)) w)" "moves tid ?r (facts f) [] [] r1"
    using calls_ok [of fdof ?r w] Cons.prems(1) lg(1) by auto
  have m1: "moves tid r (facts f) [] [f] r1" using r1(3) by (simp add: moves_def)
  have "threadId (rx_loop r1) = tid" "\<not> el_eventHandling (rx_loop r1)" using r1(3) Cons.prems(2,3) by simp_all
  then obtain r2 where r2: "foldo (\<lambda>f r. foldo (reactor_call update_op remove_op tid) (facts f) (r\<lparr>rx_ran := rx_ran r @ [f]\<rparr>)) fs r1 = Ret r2"
      "agrees fdof (rx_chans r2) (watch_steps fdof (channel_calls (concat (map facts fs))) (watch_steps fdof (channel_calls (facts f)) w))"
      "moves tid r1 (concat (map facts fs)) [] fs r2"
    using Cons.IH [OF r1(2)] lg(2) by blast
  then show ?case using r1(1) moves_trans [OF m1 r2(3)] by auto
qed simp

lemma agrees_revents:
  assumes "agrees fdof (h, p) w" and "invar (store_revents evs h, p')" and "registered p' = registered p" and "watched p' = watched p"
  shows "agrees fdof (store_revents evs h, p') w"
  using assms by (auto simp: agrees_def store_revents_def split: option.splits)

lemma expected_calls_store:
  assumes "distinct (map snd evs)"
  shows "expected_calls locked h evs = concat (map (\<lambda>c. channel_events locked c (store_revents evs h c)) (map snd evs))"
proof -
  have "map_of (map (\<lambda>(ev, c). (c, ev)) evs) c = Some ev" if "(ev, c) \<in> set evs" for ev c
    using that assms by (intro map_of_is_SomeI) (force simp: comp_def split_beta image_iff)+
  then have "store_revents evs h c = (h c)\<lparr>revents := ev\<rparr>" if "(ev, c) \<in> set evs" for ev c using that by (simp add: store_revents_def)
  then show ?thesis unfolding expected_calls_def map_map comp_def
    by (intro arg_cong [of _ _ concat] map_cong refl) (auto simp: channel_events_def)
qed

text \<open>Polling and handling of the active channels; between them and the functors the loop object is as the handlers' calls left it.\<close>

lemma events_phase:
  assumes ag: "agrees fdof (rx_chans r) w" and tid: "threadId (rx_loop r) = tid"
    and evs: "evs = reported kPollTimeMs (snd (rx_chans r))" and cs: "cs = expected_calls locked (fst (rx_chans r)) evs"
    and lc: "legal_calls fdof acts (map snd evs) cs w"
  shows "\<exists>s r2. poll_op kPollTimeMs (rx_chans r) = Ret (map snd evs, s)
    \<and> foldo (\<lambda>c r. reactor_handle update_op remove_op tid locked acts c (r\<lparr>rx_loop := (rx_loop r)\<lparr>currentActiveChannel := Some c\<rparr>\<rparr>)) (map snd evs)
        (r\<lparr>rx_loop := (rx_loop r)\<lparr>activeChannels := map snd evs, iteration := iteration (rx_loop r) + 1, el_eventHandling := True\<rparr>, rx_chans := s\<rparr>) = Ret r2
    \<and> agrees fdof (rx_chans r2) (calls_effect fdof acts cs w) \<and> rx_calls r2 = rx_calls r @ cs \<and> rx_ran r2 = rx_ran r
    \<and> pendingFunctors (rx_loop r2) = pendingFunctors (rx_loop r) @ queued_functors (concat (map (\<lambda>(c, cb). acts c cb) cs))
    \<and> threadId (rx_loop r2) = tid \<and> iteration (rx_loop r2) = iteration (rx_loop r) + 1"
proof -
  obtain h p where hp: "rx_chans r = (h, p)" by fastforce
  have "invar (h, p)" using ag hp by (simp add: agrees_def)
  from poll_ok [OF this, of kPollTimeMs] obtain p' where poll: "poll_op kPollTimeMs (h, p) = Ret (map snd evs, store_revents evs h, p')"
      "invar (store_revents evs h, p')" "registered p' = registered p" "watched p' = watched p" "distinct (map snd evs)"
    unfolding evs hp by auto
  define l1 where "l1 = (rx_loop r)\<lparr>activeChannels := map snd evs, iteration := iteration (rx_loop r) + 1, el_eventHandling := True\<rparr>"
  define r1 where "r1 = r\<lparr>rx_loop := l1, rx_chans := (store_revents evs h, p')\<rparr>"
  have cs1: "cs = concat (map (\<lambda>c. channel_events locked c (fst (rx_chans r1) c)) (map snd evs))"
    using expected_calls_store [OF poll(5)] by (simp add: cs hp r1_def)
  have ag1: "agrees fdof (rx_chans r1) w" using agrees_revents [OF ag [unfolded hp] poll(2-4)] by (simp add: r1_def)
  obtain r2 where r2: "foldo (\<lambda>c r. reactor_handle update_op remove_op tid locked acts c (r\<lparr>rx_loop := (rx_loop r)\<lparr>currentActiveChannel := Some c\<rparr>\<rparr>))
        (map snd evs) r1 = Ret r2" "agrees fdof (rx_chans r2) (calls_effect fdof acts cs w)"
      "moves tid (r1\<lparr>rx_loop := (rx_loop r1)\<lparr>currentActiveChannel := None\<rparr>\<rparr>) (concat (map (\<lambda>(c, cb). acts c cb) cs)) cs []
        (r2\<lparr>rx_loop := (rx_loop r2)\<lparr>currentActiveChannel := None\<rparr>\<rparr>)"
    using handles_ok [OF ag1, of tid acts locked "map snd evs"] lc tid unfolding cs1 [symmetric] by (auto simp: r1_def l1_def)
  have l2: "(rx_loop r2)\<lparr>currentActiveChannel := None\<rparr> = fold (loop_effect tid) (concat (map (\<lambda>(c, cb). acts c cb) cs)) (l1\<lparr>currentActiveChannel := None\<rparr>)"
    using r2(3) by (simp add: moves_def r1_def)
  have "pendingFunctors (rx_loop r2) = pendingFunctors (rx_loop r) @ queued_functors (concat (map (\<lambda>(c, cb). acts c cb) cs))"
      "threadId (rx_loop r2) = tid" "iteration (rx_loop r2) = iteration (rx_loop r) + 1"
    using arg_cong [OF l2, of pendingFunctors] arg_cong [OF l2, of threadId] arg_cong [OF l2, of iteration] tid by (simp_all add: l1_def)
  moreover have "rx_calls r2 = rx_calls r @ cs" "rx_ran r2 = rx_ran r" using r2(3) by (simp_all add: moves_def r1_def)
  ultimately show ?thesis using poll(1) r2(1,2) unfolding hp r1_def l1_def by blast
qed

text \<open>The functors; those they queue wait for the next iteration, which a wakeup brings about at once.\<close>

lemma functors_phase:
  assumes "agrees fdof (rx_chans r) w" and "threadId (rx_loop r) = tid" and "\<not> el_eventHandling (rx_loop r)"
    and fs: "fs = pendingFunctors (rx_loop r)" and lf: "legal_functors fdof facts fs w"
  shows "\<exists>r'. reactor_functors update_op remove_op tid facts r = Ret r'
    \<and> agrees fdof (rx_chans r') (watch_steps fdof (channel_calls (concat (map facts fs))) w)
    \<and> rx_calls r' = rx_calls r \<and> rx_ran r' = rx_ran r @ fs
    \<and> pendingFunctors (rx_loop r') = queued_functors (concat (map facts fs))
    \<and> (pendingFunctors (rx_loop r') \<noteq> [] \<longrightarrow> 0 < wakeups (rx_loop r'))
    \<and> threadId (rx_loop r') = tid \<and> iteration (rx_loop r') = iteration (rx_loop r)
    \<and> \<not> el_eventHandling (rx_loop r') \<and> currentActiveChannel (rx_loop r') = currentActiveChannel (rx_loop r) \<and> \<not> callingPendingFunctors (rx_loop r')"
proof -
  define r4 where "r4 = r\<lparr>rx_loop := (rx_loop r)\<lparr>callingPendingFunctors := True, pendingFunctors := []\<rparr>\<rparr>"
  obtain r5 where r5: "foldo (\<lambda>f r. foldo (reactor_call update_op remove_op tid) (facts f) (r\<lparr>rx_ran := rx_ran r @ [f]\<rparr>)) fs r4 = Ret r5"
      "agrees fdof (rx_chans r5) (watch_steps fdof (channel_calls (concat (map facts fs))) w)" "moves tid r4 (concat (map facts fs)) [] fs r5"
    using functors_ok [of fdof r4 w tid facts fs] assms by (auto simp: r4_def legal_functors_def)
  have "ReadWakeup \<notin> set (concat (map facts fs))" using lf by (auto simp: legal_functors_def)
  then have "queued_functors (concat (map facts fs)) \<noteq> [] \<longrightarrow> 0 < wakeups (rx_loop r5)"
    using queued_wakes [of "rx_loop r4" "concat (map facts fs)" tid] r5(3) by (simp add: moves_def r4_def)
  moreover have "reactor_functors update_op remove_op tid facts r = Ret (r5\<lparr>rx_loop := (rx_loop r5)\<lparr>callingPendingFunctors := False\<rparr>\<rparr>)"
    using r5(1) by (simp add: reactor_functors_def fs r4_def)
  ultimately show ?thesis using r5(2,3) assms(2,3) by (auto simp: moves_def r4_def)
qed

lemma iteration_ok:
  assumes ag: "agrees fdof (rx_chans r) w" and tid: "threadId (rx_loop r) = tid"
    and evs: "evs = reported kPollTimeMs (snd (rx_chans r))" and cs: "cs = expected_calls locked (fst (rx_chans r)) evs"
    and fs: "fs = pendingFunctors (rx_loop r) @ queued_functors (concat (map (\<lambda>(c, cb). acts c cb) cs))"
    and lc: "legal_calls fdof acts (map snd evs) cs w" and lf: "legal_functors fdof facts fs (calls_effect fdof acts cs w)"
  shows "\<exists>r'. reactor_iteration poll_op update_op remove_op tid locked acts facts r = Ret r'
    \<and> agrees fdof (rx_chans r') (watch_steps fdof (channel_calls (concat (map facts fs))) (calls_effect fdof acts cs w))
    \<and> rx_calls r' = rx_calls r @ cs \<and> rx_ran r' = rx_ran r @ fs
    \<and> pendingFunctors (rx_loop r') = queued_functors (concat (map facts fs))
    \<and> (pendingFunctors (rx_loop r') \<noteq> [] \<longrightarrow> 0 < wakeups (rx_loop r'))
    \<and> threadId (rx_loop r') = tid \<and> iteration (rx_loop r') = iteration (rx_loop r) + 1
    \<and> \<not> el_eventHandling (rx_loop r') \<and> currentActiveChannel (rx_loop r') = None \<and> \<not> callingPendingFunctors (rx_loop r')"
proof -
  from events_phase [OF ag tid evs cs lc] obtain s r2 where
    r2: "poll_op kPollTimeMs (rx_chans r) = Ret (map snd evs, s)"
      "foldo (\<lambda>c r. reactor_handle update_op remove_op tid locked acts c (r\<lparr>rx_loop := (rx_loop r)\<lparr>currentActiveChannel := Some c\<rparr>\<rparr>)) (map snd evs)
        (r\<lparr>rx_loop := (rx_loop r)\<lparr>activeChannels := map snd evs, iteration := iteration (rx_loop r) + 1, el_eventHandling := True\<rparr>, rx_chans := s\<rparr>) = Ret r2"
      "agrees fdof (rx_chans r2) (calls_effect fdof acts cs w)" "rx_calls r2 = rx_calls r @ cs" "rx_ran r2 = rx_ran r" "pendingFunctors (rx_loop r2) = fs"
      "threadId (rx_loop r2) = tid" "iteration (rx_loop r2) = iteration (rx_loop r) + 1"
    unfolding fs by blast
  define r3 where "r3 = r2\<lparr>rx_loop := (rx_loop r2)\<lparr>currentActiveChannel := None, el_eventHandling := False\<rparr>\<rparr>"
  have "reactor_iteration poll_op update_op remove_op tid locked acts facts r = reactor_functors update_op remove_op tid facts r3"
    using r2(1,2) by (simp add: reactor_iteration_def r3_def Let_def)
  with functors_phase [of fdof r3 _ tid fs facts, OF _ _ _ _ lf] r2 show ?thesis by (simp add: r3_def)
qed

end

section \<open>Both pollers report events\<close>

definition epoll_reported :: "('k \<Rightarrow> nat \<Rightarrow> int \<Rightarrow> int + (events \<times> nat) list) \<Rightarrow> int \<Rightarrow> 'k EPollPoller \<Rightarrow> (events \<times> nat) list" where
  "epoll_reported epoll_wait t p = (case epoll_wait (ep_kernel p) (ep_events p) t of Inl _ \<Rightarrow> [] | Inr evs \<Rightarrow> evs)"

lemma store_revents_Nil [simp]: "store_revents [] h = h"
  by (simp add: store_revents_def fun_eq_iff)

text \<open>The behaviour of the waiting call is part of the invariant, as that of the other calls is.\<close>

lemma poller_with_spec:
  assumes "poller invar reg wat u rm"
  shows "poller (\<lambda>s. invar s \<and> P) reg wat u rm"
proof
  fix h0 p c ev h a
  assume i: "invar (h0, p) \<and> P"
  show "\<exists>h' p'. u c (h, p) = Ret (h', p') \<and> (invar (h', p') \<and> P) \<and> frame (reg p) c h h' \<and> reg p' = (reg p)(fd (h0 c) \<mapsto> c) \<and> wat p' = (wat p)(fd (h0 c) := ev)"
    if "admissible (reg p) h0 c ev" "h = h0(c := (h0 c)\<lparr>events := ev, addedToLoop := a\<rparr>)"
    using poller.update_ok [OF assms conjunct1 [OF i] that] i by auto
  show "\<exists>h' p'. rm c (h, p) = Ret (h', p') \<and> (invar (h', p') \<and> P) \<and> frame (reg p) c h h' \<and> reg p' = (reg p)(fd (h0 c) := None) \<and> wat p' = (wat p)(fd (h0 c) := 0)"
    if "reg p (fd (h0 c)) = Some c" "events (h0 c) = 0" "h = h0(c := (h0 c)\<lparr>addedToLoop := a\<rparr>)"
    using poller.remove_ok [OF assms conjunct1 [OF i] that] i by auto
next
  fix h p c ch
  assume "invar (h, p) \<and> P" and "\<forall>f. reg p f \<noteq> Some c"
  then show "invar (h(c := ch), p) \<and> P" using poller.create_ok [OF assms] by blast
qed

interpretation epoll_mx: multiplexer "\<lambda>s. epoll_invar epoll_ctl watching tid s \<and> epoll_wait_spec epoll_wait watching" ep_channels "epoll_watched watching"
  "EPoll_updateChannel epoll_ctl tid" "EPoll_removeChannel epoll_ctl tid" "EPoll_poll epoll_wait" "epoll_reported epoll_wait"
  for epoll_ctl watching tid epoll_wait
proof (intro multiplexer.intro multiplexer_axioms.intro)
  fix h p t
  assume i: "epoll_invar epoll_ctl watching tid (h, p) \<and> epoll_wait_spec epoll_wait watching"
  show "epoll_invar epoll_ctl watching tid (h', p) \<and> epoll_wait_spec epoll_wait watching"
    if "\<forall>d. fd (h' d) = fd (h d) \<and> events (h' d) = events (h d) \<and> index (h' d) = index (h d)" for h'
    using i that by (simp add: epoll_invar_def epoll_slot_def)
  show "\<exists>p'. EPoll_poll epoll_wait t (h, p) = Ret (map snd (epoll_reported epoll_wait t p), store_revents (epoll_reported epoll_wait t p) h, p')
      \<and> (epoll_invar epoll_ctl watching tid (store_revents (epoll_reported epoll_wait t p) h, p') \<and> epoll_wait_spec epoll_wait watching)
      \<and> ep_channels p' = ep_channels p \<and> epoll_watched watching p' = epoll_watched watching p \<and> distinct (map snd (epoll_reported epoll_wait t p))"
  proof (cases "epoll_wait (ep_kernel p) (ep_events p) t")
    case (Inl e)
    then show ?thesis using i by (simp add: EPoll_poll_def epoll_reported_def)
  next
    case (Inr evs)
    then have "distinct (map snd evs)" using i by (auto simp: epoll_wait_spec_def)
    with EPoll_poll_ok [OF conjunct1 [OF i] conjunct2 [OF i] Inr] epoll_invar_revents [of epoll_ctl watching tid h p] i Inr show ?thesis
      by (fastforce simp: epoll_reported_def epoll_watched_def fun_eq_iff)
  qed
qed (rule poller_with_spec, rule epoll.poller_axioms)

definition poll_reported :: "(pollfd list \<Rightarrow> int \<Rightarrow> int + nat \<times> pollfd list) \<Rightarrow> int \<Rightarrow> PollPoller \<Rightarrow> (events \<times> nat) list" where
  "poll_reported poll_call t p = (case poll_call (pollfds p) t of Inl _ \<Rightarrow> [] | Inr (n, fds) \<Rightarrow> ready fds (pp_channels p))"

interpretation poll_mx: multiplexer "\<lambda>s. poll_invar tid s \<and> poll_spec poll_call" pp_channels poll_watched
  "Poll_updateChannel tid" "Poll_removeChannel tid" "Poll_poll poll_call" "poll_reported poll_call"
  for tid poll_call
proof (intro multiplexer.intro multiplexer_axioms.intro)
  fix h p t
  assume i: "poll_invar tid (h, p) \<and> poll_spec poll_call"
  show "poll_invar tid (h', p) \<and> poll_spec poll_call"
    if "\<forall>d. fd (h' d) = fd (h d) \<and> events (h' d) = events (h d) \<and> index (h' d) = index (h d)" for h'
    using i that by (simp add: poll_invar_def poll_slot_def)
  show "\<exists>p'. Poll_poll poll_call t (h, p) = Ret (map snd (poll_reported poll_call t p), store_revents (poll_reported poll_call t p) h, p')
      \<and> (poll_invar tid (store_revents (poll_reported poll_call t p) h, p') \<and> poll_spec poll_call)
      \<and> pp_channels p' = pp_channels p \<and> poll_watched p' = poll_watched p \<and> distinct (map snd (poll_reported poll_call t p))"
  proof (cases "poll_call (pollfds p) t")
    case (Inl e)
    then show ?thesis using i by (simp add: Poll_poll_def poll_reported_def)
  next
    case (Inr x)
    then obtain n fds where x: "poll_call (pollfds p) t = Inr (n, fds)" by (cases x) auto
    let ?evs = "ready fds (pp_channels p)" and ?p = "p\<lparr>pollfds := fds\<rparr>"
    have ok: "Poll_poll poll_call t (h, p) = Ret (map snd ?evs, store_revents ?evs h, ?p)" "poll_invar tid (store_revents ?evs h, ?p)"
      "distinct (map snd ?evs)" using Poll_poll_ok [OF conjunct1 [OF i] conjunct2 [OF i] x] by simp_all
    moreover have "poll_watched ?p = poll_watched p"
      using poll_watched_eq [OF ok(2)] poll_watched_eq [of tid h p] i
      by (auto simp: fun_eq_iff store_revents_def split: option.splits)
    ultimately show ?thesis using i x by (simp add: poll_reported_def)
  qed
qed (rule poller_with_spec, rule poll.poller_axioms)

section \<open>Iterations of the loop\<close>

definition round_calls :: "(nat \<Rightarrow> bool) \<Rightarrow> (events \<times> nat) list \<Rightarrow> 'p reactor \<Rightarrow> (nat \<times> callback) list" where
  "round_calls locked evs r = expected_calls locked (fst (rx_chans r)) evs"

definition round_functors :: "(nat \<Rightarrow> callback \<Rightarrow> loop_call list) \<Rightarrow> (nat \<times> callback) list \<Rightarrow> 'p reactor \<Rightarrow> nat list" where
  "round_functors acts cs r = pendingFunctors (rx_loop r) @ queued_functors (concat (map (\<lambda>(c, cb). acts c cb) cs))"

text \<open>The callbacks and functors of the next iteration keep to the rules, and what is watched after it.\<close>

definition legal_round ::
  "(nat \<Rightarrow> int) \<Rightarrow> (nat \<Rightarrow> bool) \<Rightarrow> (nat \<Rightarrow> callback \<Rightarrow> loop_call list) \<Rightarrow> (nat \<Rightarrow> loop_call list) \<Rightarrow> (events \<times> nat) list \<Rightarrow> 'p reactor \<Rightarrow> watch_state \<Rightarrow> bool" where
  "legal_round fdof locked acts facts evs r w \<longleftrightarrow>
     (let cs = round_calls locked evs r
      in legal_calls fdof acts (map snd evs) cs w \<and> legal_functors fdof facts (round_functors acts cs r) (calls_effect fdof acts cs w))"

definition after_round ::
  "(nat \<Rightarrow> int) \<Rightarrow> (nat \<Rightarrow> bool) \<Rightarrow> (nat \<Rightarrow> callback \<Rightarrow> loop_call list) \<Rightarrow> (nat \<Rightarrow> loop_call list) \<Rightarrow> (events \<times> nat) list \<Rightarrow> 'p reactor \<Rightarrow> watch_state \<Rightarrow> watch_state" where
  "after_round fdof locked acts facts evs r w =
     (let cs = round_calls locked evs r
      in watch_steps fdof (channel_calls (concat (map facts (round_functors acts cs r)))) (calls_effect fdof acts cs w))"

text \<open>A loop that was just constructed, with channels that were just constructed and given their callbacks.\<close>

definition new_channels :: "(nat \<Rightarrow> int) \<Rightarrow> store \<Rightarrow> bool" where
  "new_channels fdof h \<longleftrightarrow> (\<forall>c. fd (h c) = fdof c \<and> events (h c) = 0 \<and> index (h c) = -1)"

inductive reactor_run ::
  "(ctl_op \<Rightarrow> int \<Rightarrow> events \<times> nat \<Rightarrow> 'k \<Rightarrow> int \<times> 'k) \<Rightarrow> ('k \<Rightarrow> int \<rightharpoonup> events \<times> nat) \<Rightarrow> int \<Rightarrow> (nat \<Rightarrow> int) \<Rightarrow> 'k EPollPoller reactor \<Rightarrow> watch_state \<Rightarrow> bool"
  for epoll_ctl watching tid fdof where
  start: "new_EPollPoller tid (Inr k) = Ret p \<Longrightarrow> watching k = Map.empty \<Longrightarrow> new_EventLoop False tid = Ret l \<Longrightarrow> new_channels fdof h \<Longrightarrow>
    reactor_run epoll_ctl watching tid fdof \<lparr>rx_loop = l, rx_chans = (h, p), rx_calls = [], rx_ran = []\<rparr> no_watch"
| call: "reactor_run epoll_ctl watching tid fdof r w \<Longrightarrow> legal_script fdof (channel_calls as) w \<Longrightarrow>
    foldo (reactor_call (EPoll_updateChannel epoll_ctl tid) (EPoll_removeChannel epoll_ctl tid) tid) as r = Ret r' \<Longrightarrow>
    reactor_run epoll_ctl watching tid fdof r' (watch_steps fdof (channel_calls as) w)"
| iterate: "reactor_run epoll_ctl watching tid fdof r w \<Longrightarrow> epoll_wait_spec epoll_wait watching \<Longrightarrow>
    evs = epoll_reported epoll_wait kPollTimeMs (snd (rx_chans r)) \<Longrightarrow> legal_round fdof locked acts facts evs r w \<Longrightarrow>
    reactor_iteration (EPoll_poll epoll_wait) (EPoll_updateChannel epoll_ctl tid) (EPoll_removeChannel epoll_ctl tid) tid locked acts facts r = Ret r' \<Longrightarrow>
    reactor_run epoll_ctl watching tid fdof r' (after_round fdof locked acts facts evs r w)"

lemma epoll_mx_agrees: "epoll_mx.agrees epoll_ctl watching tid epoll_wait fdof s w \<longleftrightarrow> epoll.agrees epoll_ctl watching tid fdof s w \<and> epoll_wait_spec epoll_wait watching"
  by (cases s) (auto simp: epoll_mx.agrees_def epoll.agrees_def)

text \<open>A waiting call that reports nothing, for the calls made outside of an iteration.\<close>

lemma silent_wait_spec: "epoll_wait_spec (\<lambda>_ _ _. Inl 4) watching"
  by (simp add: epoll_wait_spec_def)

lemma reactor_run_inv:
  assumes "epoll_ctl_spec epoll_ctl watching" and "reactor_run epoll_ctl watching tid fdof r w"
  shows "epoll.agrees epoll_ctl watching tid fdof (rx_chans r) w \<and> threadId (rx_loop r) = tid \<and> \<not> el_eventHandling (rx_loop r)"
  using assms(2)
proof (induction rule: reactor_run.induct)
  case (start k p l h)
  have "epoll.agrees epoll_ctl watching tid fdof (fresh_channels fdof, p) no_watch"
    using epoll_fresh_agrees [OF assms(1) start(2), of tid fdof] start(1) by auto
  then have "epoll.agrees epoll_ctl watching tid fdof (h, p) no_watch"
    using start(4) epoll_mx.agrees_touch [of epoll_ctl watching tid "\<lambda>_ _ _. Inl 4" fdof "fresh_channels fdof" p no_watch h]
    by (simp add: epoll_mx_agrees silent_wait_spec new_channels_def fresh_channels_def new_Channel_def)
  then show ?case using start(3) by (auto simp: new_EventLoop_def)
next
  case (call r w as r')
  then have "epoll_mx.may_call tid (rx_loop r) (channel_calls as)" by (simp add: epoll_mx.may_call_def)
  with epoll_mx.calls_ok [of epoll_ctl watching tid "\<lambda>_ _ _. Inl 4" fdof r w as tid] call show ?case
    by (auto simp: epoll_mx_agrees silent_wait_spec)
next
  case (iterate r w epoll_wait evs locked acts facts r')
  with epoll_mx.iteration_ok [of epoll_ctl watching tid epoll_wait fdof r w tid evs _ locked _ acts facts] show ?case
    by (auto simp: epoll_mx_agrees legal_round_def after_round_def round_calls_def round_functors_def Let_def)
qed

text \<open>C4: The reactor, that is, the event loop with its epoll poller and channels: in every state it reaches by iterations and by calls of its channels, if the callbacks
  and functors of the next iteration make only legal channel calls, and callbacks remove only their own channel or one that is not active, then
  the iteration fails no assertion of loop, poller or channel; it runs exactly the callbacks that the events reported by the kernel call for, in the order of
  the report, then exactly the functors that were pending or were queued by these callbacks, in order; functors queued by functors are left
  for the next iteration, with a wakeup that ends its wait; and afterwards the kernel watches exactly what all these calls asked for.\<close>

theorem reactor_iterates:
  assumes "epoll_ctl_spec epoll_ctl watching" and "reactor_run epoll_ctl watching tid fdof r w" and "epoll_wait_spec epoll_wait watching"
    and "epoll_wait (ep_kernel (snd (rx_chans r))) (ep_events (snd (rx_chans r))) kPollTimeMs = Inr evs" and "legal_round fdof locked acts facts evs r w"
  shows "\<exists>r'. reactor_iteration (EPoll_poll epoll_wait) (EPoll_updateChannel epoll_ctl tid) (EPoll_removeChannel epoll_ctl tid) tid locked acts facts r = Ret r'
    \<and> rx_calls r' = rx_calls r @ round_calls locked evs r
    \<and> rx_ran r' = rx_ran r @ round_functors acts (round_calls locked evs r) r
    \<and> pendingFunctors (rx_loop r') = queued_functors (concat (map facts (round_functors acts (round_calls locked evs r) r)))
    \<and> (pendingFunctors (rx_loop r') \<noteq> [] \<longrightarrow> 0 < wakeups (rx_loop r'))
    \<and> ep_channels (snd (rx_chans r')) = ws_reg (after_round fdof locked acts facts evs r w)
    \<and> epoll_watched watching (snd (rx_chans r')) = interest_of (after_round fdof locked acts facts evs r w)"
proof -
  have inv: "epoll_mx.agrees epoll_ctl watching tid epoll_wait fdof (rx_chans r) w" "threadId (rx_loop r) = tid"
    using reactor_run_inv [OF assms(1,2)] assms(3) by (simp_all add: epoll_mx_agrees)
  have evs: "evs = epoll_reported epoll_wait kPollTimeMs (snd (rx_chans r))" using assms(4) by (simp add: epoll_reported_def)
  have legal: "legal_calls fdof acts (map snd evs) (expected_calls locked (fst (rx_chans r)) evs) w"
    "legal_functors fdof facts (round_functors acts (expected_calls locked (fst (rx_chans r)) evs) r) (calls_effect fdof acts (expected_calls locked (fst (rx_chans r)) evs) w)"
    using assms(5) by (simp_all add: legal_round_def round_calls_def Let_def)
  from epoll_mx.iteration_ok [OF inv evs refl round_functors_def legal] obtain r' where
    r': "reactor_iteration (EPoll_poll epoll_wait) (EPoll_updateChannel epoll_ctl tid) (EPoll_removeChannel epoll_ctl tid) tid locked acts facts r = Ret r'"
      "epoll_mx.agrees epoll_ctl watching tid epoll_wait fdof (rx_chans r') (after_round fdof locked acts facts evs r w)"
      "rx_calls r' = rx_calls r @ round_calls locked evs r" "rx_ran r' = rx_ran r @ round_functors acts (round_calls locked evs r) r"
      "pendingFunctors (rx_loop r') = queued_functors (concat (map facts (round_functors acts (round_calls locked evs r) r)))"
      "pendingFunctors (rx_loop r') \<noteq> [] \<longrightarrow> 0 < wakeups (rx_loop r')"
    unfolding after_round_def round_calls_def Let_def by blast
  from r'(2) have "ep_channels (snd (rx_chans r')) = ws_reg (after_round fdof locked acts facts evs r w)"
    "epoll_watched watching (snd (rx_chans r')) = interest_of (after_round fdof locked acts facts evs r w)"
    by (cases "rx_chans r'"; simp add: epoll_mx.agrees_def)+
  with r' show ?thesis by blast
qed

text \<open>Two channels: the first reads, asks for writing and queues a functor, which queues another; the second removes itself.\<close>

definition demo_chans :: store where
  "demo_chans c = (new_Channel (int c + 5))\<lparr>readCallback := True, writeCallback := True\<rparr>"

definition demo_reactor :: "(int \<rightharpoonup> events \<times> nat) EPollPoller reactor" where
  "demo_reactor = \<lparr>rx_loop = \<lparr>looping = False, quit = False, el_eventHandling = False, callingPendingFunctors = False, iteration = 0, threadId = 7, wakeups = 0,
       activeChannels = [], currentActiveChannel = None, pendingFunctors = []\<rparr>,
     rx_chans = (demo_chans, \<lparr>ep_threadId = 7, ep_channels = Map.empty, ep_events = 16, ep_kernel = Map.empty\<rparr>), rx_calls = [], rx_ran = []\<rparr>"

definition demo_ready :: "(int \<rightharpoonup> events \<times> nat) \<Rightarrow> nat \<Rightarrow> int \<Rightarrow> int + (events \<times> nat) list" where
  "demo_ready k n t = Inr (take n (filter (\<lambda>(ev, c). map_option snd (k (int c + 5)) = Some c) [(POLLIN, 0), (POLLOUT, 1)]))"

definition demo_acts :: "nat \<Rightarrow> callback \<Rightarrow> loop_call list" where
  "demo_acts c cb = (if c = 0 then [ChannelCall (Inl EnableWriting, 0), QueueInLoop 9] else [ChannelCall (Inl DisableAll, 1), ChannelCall (Inr (), 1)])"

definition demo_facts :: "nat \<Rightarrow> loop_call list" where
  "demo_facts f = (if f = 9 then [QueueInLoop 10] else [])"

definition demo_setup :: "loop_call list" where
  "demo_setup = [ChannelCall (Inl EnableReading, 0), ChannelCall (Inl EnableWriting, 1)]"

text \<open>A kernel that reports fixed events of the channels it watches.\<close>

lemma filtered_wait_spec:
  fixes xs :: "(events \<times> nat) list"
  assumes "distinct (map snd xs)"
  defines "live k \<equiv> filter (\<lambda>(ev, c). map_option snd (k (int c + 5)) = Some c) xs"
  shows "epoll_wait_spec (\<lambda>k n t. Inr (take n (live k))) id"
proof -
  have "distinct (map snd (take n (live k)))" for n k
    unfolding take_map [symmetric] live_def using assms by (intro distinct_take distinct_map_filter)
  moreover have "\<exists>f e. k f = Some (e, c)" if "(ev, c) \<in> set (take n (live k))" for k ev c n
    using in_set_takeD [OF that] by (auto simp: live_def map_option_eq_Some)
  ultimately show ?thesis by (auto simp: epoll_wait_spec_def)
qed

lemma demo_ready_spec: "epoll_wait_spec demo_ready id"
  using filtered_wait_spec [of "[(POLLIN, 0), (POLLOUT, 1)]"] unfolding demo_ready_def [abs_def] by simp

lemma demo_setup_run:
  "\<exists>r. foldo (reactor_call (EPoll_updateChannel map_ctl 7) (EPoll_removeChannel map_ctl 7) 7) demo_setup demo_reactor = Ret r
    \<and> demo_ready (ep_kernel (snd (rx_chans r))) (ep_events (snd (rx_chans r))) kPollTimeMs = Inr [(POLLIN, 0), (POLLOUT, 1)]
    \<and> rx_calls r = [] \<and> rx_ran r = [] \<and> pendingFunctors (rx_loop r) = []
    \<and> round_calls (\<lambda>_. True) [(POLLIN, 0), (POLLOUT, 1)] r = [(0, CbRead), (1, CbWrite)]"
  by (simp add: demo_setup_def demo_reactor_def reactor_call_def client_op_def Channel_interest_def Channel_update_def EventLoop_updateChannel_def
      EPoll_updateChannel_def EPoll_update_def demo_chans_def new_Channel_def poll_masks epoll_indices demo_ready_def
      round_calls_def expected_calls_def dispatched_def has_bits_def Let_def)

lemma demo_reactor_run:
  assumes "foldo (reactor_call (EPoll_updateChannel map_ctl 7) (EPoll_removeChannel map_ctl 7) 7) demo_setup demo_reactor = Ret r"
  shows "reactor_run map_ctl id 7 (\<lambda>c. int c + 5) r (watch_steps (\<lambda>c. int c + 5) (channel_calls demo_setup) no_watch)"
proof (rule reactor_run.call [OF _ _ assms])
  have "new_EPollPoller 7 (Inr Map.empty) = Ret (snd (rx_chans demo_reactor))" "new_EventLoop False 7 = Ret (rx_loop demo_reactor)"
    "new_channels (\<lambda>c. int c + 5) demo_chans"
    by (simp_all add: new_EPollPoller_def kInitEventListSize_def demo_reactor_def new_EventLoop_def new_channels_def demo_chans_def new_Channel_def)
  from reactor_run.start [OF this(1) _ this(2,3), of id map_ctl] show "reactor_run map_ctl id 7 (\<lambda>c. int c + 5) demo_reactor no_watch"
    by (simp add: demo_reactor_def)
  show "legal_script (\<lambda>c. int c + 5) (channel_calls demo_setup) no_watch"
    by (simp add: demo_setup_def no_watch_def legal_call_def watch_step_def poll_masks)
qed

theorem reactor_iterates_witness:
  "\<exists>r w r'. reactor_run map_ctl id 7 (\<lambda>c. int c + 5) r w
    \<and> reactor_iteration (EPoll_poll demo_ready) (EPoll_updateChannel map_ctl 7) (EPoll_removeChannel map_ctl 7) 7 (\<lambda>_. True) demo_acts demo_facts r = Ret r'
    \<and> rx_calls r' = [(0, CbRead), (1, CbWrite)] \<and> rx_ran r' = [9] \<and> pendingFunctors (rx_loop r') = [10] \<and> 0 < wakeups (rx_loop r')
    \<and> ep_channels (snd (rx_chans r')) 5 = Some 0 \<and> ep_channels (snd (rx_chans r')) 6 = None"
proof -
  obtain r where r: "foldo (reactor_call (EPoll_updateChannel map_ctl 7) (EPoll_removeChannel map_ctl 7) 7) demo_setup demo_reactor = Ret r"
    "demo_ready (ep_kernel (snd (rx_chans r))) (ep_events (snd (rx_chans r))) kPollTimeMs = Inr [(POLLIN, 0), (POLLOUT, 1)]"
    "rx_calls r = []" "rx_ran r = []" "pendingFunctors (rx_loop r) = []" "round_calls (\<lambda>_. True) [(POLLIN, 0), (POLLOUT, 1)] r = [(0, CbRead), (1, CbWrite)]"
    using demo_setup_run by blast
  let ?w = "watch_steps (\<lambda>c. int c + 5) (channel_calls demo_setup) no_watch"
  have fs: "round_functors demo_acts [(0, CbRead), (1, CbWrite)] r = [9]" using r(5) by (simp add: round_functors_def demo_acts_def)
  have "legal_round (\<lambda>c. int c + 5) (\<lambda>_. True) demo_acts demo_facts [(POLLIN, 0), (POLLOUT, 1)] r ?w"
    unfolding legal_round_def Let_def r(6) fs
    by (simp add: legal_functors_def demo_acts_def demo_facts_def demo_setup_def no_watch_def legal_call_def watch_step_def calls_effect_def poll_masks)
  from reactor_iterates [OF map_ctl_spec demo_reactor_run [OF r(1)] demo_ready_spec r(2) this] obtain r' where
    r': "reactor_iteration (EPoll_poll demo_ready) (EPoll_updateChannel map_ctl 7) (EPoll_removeChannel map_ctl 7) 7 (\<lambda>_. True) demo_acts demo_facts r = Ret r'"
      "rx_calls r' = [(0, CbRead), (1, CbWrite)]" "rx_ran r' = [9]" "pendingFunctors (rx_loop r') = [10]" "0 < wakeups (rx_loop r')"
      "ep_channels (snd (rx_chans r')) = ws_reg (after_round (\<lambda>c. int c + 5) (\<lambda>_. True) demo_acts demo_facts [(POLLIN, 0), (POLLOUT, 1)] r ?w)"
    unfolding r(3,4,6) fs by (auto simp: demo_facts_def)
  have "ep_channels (snd (rx_chans r')) 5 = Some 0 \<and> ep_channels (snd (rx_chans r')) 6 = None"
    unfolding r'(6) after_round_def Let_def r(6) fs
    by (simp add: demo_acts_def demo_facts_def demo_setup_def no_watch_def calls_effect_def watch_step_def)
  with demo_reactor_run [OF r(1)] r' show ?thesis by blast
qed

end
