(* ===== verification/BufferCalls.thy ===== *)
theory BufferCalls
  imports NetBuffer
begin

text \<open>
  The whole mutating interface of \<^verbatim>\<open>muduo/net/Buffer.h\<close>, one constructor per member function, over the operations of \<open>NetBuffer\<close>: the class
  invariant is a type of the reachable buffers, every call keeps it, and a call on a buffer of this type goes wrong only in the assertion
  that guards it. What the calls do and return is what they do and return on a plain byte string.
\<close>

section \<open>Calls of the class\<close>

datatype buffer_call =
  CallAppend "char list" | CallAppendPiece "char list \<times> int"
| CallAppend64 "64 word" | CallAppend32 "32 word" | CallAppend16 "16 word" | CallAppend8 "8 word"
| CallEnsure nat | CallHasWritten nat | CallUnwrite nat
| CallRetrieve nat | CallRetrieveUntil nat | CallRetrieveAll | CallRetrieveAsString nat | CallRetrieveAllAsString
| CallRetrieve64 | CallRetrieve32 | CallRetrieve16 | CallRetrieve8
| CallRead64 | CallRead32 | CallRead16 | CallRead8
| CallPrepend "char list" | CallPrepend64 "64 word" | CallPrepend32 "32 word" | CallPrepend16 "16 word" | CallPrepend8 "8 word"
| CallShrink nat | CallReadFd "nat list \<Rightarrow> int + char list"

datatype buffer_result = NoResult | StringResult string | IntResult nat | CountResult int "int option"

definition no_result :: "Buffer outcome \<Rightarrow> (buffer_result \<times> Buffer) outcome" where
  "no_result m = bindo m (\<lambda>b. Ret (NoResult, b))"

fun buffer_exec :: "buffer_call \<Rightarrow> Buffer \<Rightarrow> (buffer_result \<times> Buffer) outcome" where
  "buffer_exec (CallAppend xs) b = no_result (Buffer_append xs b)"
| "buffer_exec (CallAppendPiece p) b = no_result (append_StringPiece p b)"
| "buffer_exec (CallAppend64 x) b = no_result (appendInt64 x b)"
| "buffer_exec (CallAppend32 x) b = no_result (appendInt32 x b)"
| "buffer_exec (CallAppend16 x) b = no_result (appendInt16 x b)"
| "buffer_exec (CallAppend8 x) b = no_result (appendInt8 x b)"
| "buffer_exec (CallEnsure n) b = no_result (ensureWritableBytes n b)"
| "buffer_exec (CallHasWritten n) b = no_result (hasWritten n b)"
| "buffer_exec (CallUnwrite n) b = no_result (unwrite n b)"
| "buffer_exec (CallRetrieve n) b = no_result (retrieve n b)"
| "buffer_exec (CallRetrieveUntil e) b = no_result (retrieveUntil e b)"
| "buffer_exec CallRetrieveAll b = Ret (NoResult, retrieveAll b)"
| "buffer_exec (CallRetrieveAsString n) b = bindo (retrieveAsString n b) (\<lambda>(s, b). Ret (StringResult s, b))"
| "buffer_exec CallRetrieveAllAsString b = bindo (retrieveAllAsString b) (\<lambda>(s, b). Ret (StringResult s, b))"
| "buffer_exec CallRetrieve64 b = no_result (retrieveInt64 b)"
| "buffer_exec CallRetrieve32 b = no_result (retrieveInt32 b)"
| "buffer_exec CallRetrieve16 b = no_result (retrieveInt16 b)"
| "buffer_exec CallRetrieve8 b = no_result (retrieveInt8 b)"
| "buffer_exec CallRead64 b = bindo (readInt64 b) (\<lambda>(v, b). Ret (IntResult (unat v), b))"
| "buffer_exec CallRead32 b = bindo (readInt32 b) (\<lambda>(v, b). Ret (IntResult (unat v), b))"
| "buffer_exec CallRead16 b = bindo (readInt16 b) (\<lambda>(v, b). Ret (IntResult (unat v), b))"
| "buffer_exec CallRead8 b = bindo (readInt8 b) (\<lambda>(v, b). Ret (IntResult (unat v), b))"
| "buffer_exec (CallPrepend xs) b = no_result (prepend xs b)"
| "buffer_exec (CallPrepend64 x) b = no_result (prependInt64 x b)"
| "buffer_exec (CallPrepend32 x) b = no_result (prependInt32 x b)"
| "buffer_exec (CallPrepend16 x) b = no_result (prependInt16 x b)"
| "buffer_exec (CallPrepend8 x) b = no_result (prependInt8 x b)"
| "buffer_exec (CallShrink n) b = no_result (shrink n b)"
| "buffer_exec (CallReadFd readv) b = bindo (readFd readv b) (\<lambda>(n, savedErrno, b). Ret (CountResult n savedErrno, b))"

text \<open>What the caller has to ensure, by the documentation and the assertions at the head of the functions.\<close>

fun buffer_pre :: "buffer_call \<Rightarrow> Buffer \<Rightarrow> bool" where
  "buffer_pre (CallHasWritten n) b \<longleftrightarrow> n \<le> writableBytes b"
| "buffer_pre (CallUnwrite n) b \<longleftrightarrow> n \<le> readableBytes b"
| "buffer_pre (CallRetrieve n) b \<longleftrightarrow> n \<le> readableBytes b"
| "buffer_pre (CallRetrieveUntil e) b \<longleftrightarrow> readerIndex b \<le> e \<and> e \<le> writerIndex b"
| "buffer_pre (CallRetrieveAsString n) b \<longleftrightarrow> n \<le> readableBytes b"
| "buffer_pre CallRetrieve64 b \<longleftrightarrow> 8 \<le> readableBytes b"
| "buffer_pre CallRetrieve32 b \<longleftrightarrow> 4 \<le> readableBytes b"
| "buffer_pre CallRetrieve16 b \<longleftrightarrow> 2 \<le> readableBytes b"
| "buffer_pre CallRetrieve8 b \<longleftrightarrow> 1 \<le> readableBytes b"
| "buffer_pre CallRead64 b \<longleftrightarrow> 8 \<le> readableBytes b"
| "buffer_pre CallRead32 b \<longleftrightarrow> 4 \<le> readableBytes b"
| "buffer_pre CallRead16 b \<longleftrightarrow> 2 \<le> readableBytes b"
| "buffer_pre CallRead8 b \<longleftrightarrow> 1 \<le> readableBytes b"
| "buffer_pre (CallPrepend xs) b \<longleftrightarrow> length xs \<le> prependableBytes b"
| "buffer_pre (CallPrepend64 x) b \<longleftrightarrow> 8 \<le> prependableBytes b"
| "buffer_pre (CallPrepend32 x) b \<longleftrightarrow> 4 \<le> prependableBytes b"
| "buffer_pre (CallPrepend16 x) b \<longleftrightarrow> 2 \<le> prependableBytes b"
| "buffer_pre (CallPrepend8 x) b \<longleftrightarrow> 1 \<le> prependableBytes b"
| "buffer_pre _ b \<longleftrightarrow> True"

text \<open>Arguments that are objects of the address space, a string piece within its array, and, for \<^verbatim>\<open>shrink\<close>, readable bytes that a 32-bit
  string piece can describe.\<close>

fun call_sane :: "buffer_call \<Rightarrow> Buffer \<Rightarrow> bool" where
  "call_sane (CallAppend xs) b \<longleftrightarrow> length xs \<le> vec_max"
| "call_sane (CallAppendPiece p) b \<longleftrightarrow> 0 \<le> snd p \<and> snd p < 2 ^ 31 \<and> nat (snd p) \<le> length (fst p)"
| "call_sane (CallEnsure n) b \<longleftrightarrow> n \<le> vec_max"
| "call_sane (CallShrink n) b \<longleftrightarrow> readableBytes b < 2 ^ 31 \<and> n < 2 ^ 62"
| "call_sane (CallReadFd readv) b \<longleftrightarrow> readv_spec readv"
| "call_sane _ b \<longleftrightarrow> True"

inductive buffer_built :: "Buffer \<Rightarrow> bool" where
  new: "n + kCheapPrepend \<le> vec_max \<Longrightarrow> new_Buffer n = Ret b \<Longrightarrow> buffer_built b"
| call: "buffer_built b \<Longrightarrow> call_sane x b \<Longrightarrow> buffer_exec x b = Ret (res, b') \<Longrightarrow> buffer_built b'"

section \<open>The same calls on a byte string\<close>

definition quiet :: "(string \<Rightarrow> bool) \<Rightarrow> buffer_result \<Rightarrow> string \<Rightarrow> bool" where
  "quiet P res cs \<longleftrightarrow> res = NoResult \<and> P cs"

text \<open>What a call returns and leaves of the readable bytes. Bytes that the caller declared as written are whatever the caller put there.\<close>

fun call_effect :: "buffer_call \<Rightarrow> string \<Rightarrow> buffer_result \<Rightarrow> string \<Rightarrow> bool" where
  "call_effect (CallAppend xs) cs = quiet (\<lambda>cs'. cs' = cs @ xs)"
| "call_effect (CallAppendPiece p) cs = quiet (\<lambda>cs'. cs' = cs @ take (nat (snd p)) (fst p))"
| "call_effect (CallAppend64 x) cs = quiet (\<lambda>cs'. cs' = cs @ be_bytes 8 (unat x))"
| "call_effect (CallAppend32 x) cs = quiet (\<lambda>cs'. cs' = cs @ be_bytes 4 (unat x))"
| "call_effect (CallAppend16 x) cs = quiet (\<lambda>cs'. cs' = cs @ be_bytes 2 (unat x))"
| "call_effect (CallAppend8 x) cs = quiet (\<lambda>cs'. cs' = cs @ be_bytes 1 (unat x))"
| "call_effect (CallEnsure n) cs = quiet (\<lambda>cs'. cs' = cs)"
| "call_effect (CallHasWritten n) cs = quiet (\<lambda>cs'. length cs' = length cs + n \<and> take (length cs) cs' = cs)"
| "call_effect (CallUnwrite n) cs = quiet (\<lambda>cs'. n \<le> length cs \<and> cs' = take (length cs - n) cs)"
| "call_effect (CallRetrieve n) cs = quiet (\<lambda>cs'. n \<le> length cs \<and> cs' = drop n cs)"
| "call_effect (CallRetrieveUntil e) cs = quiet (\<lambda>cs'. \<exists>n\<le>length cs. cs' = drop n cs)"
| "call_effect CallRetrieveAll cs = quiet (\<lambda>cs'. cs' = [])"
| "call_effect (CallRetrieveAsString n) cs = (\<lambda>res cs'. n \<le> length cs \<and> res = StringResult (take n cs) \<and> cs' = drop n cs)"
| "call_effect CallRetrieveAllAsString cs = (\<lambda>res cs'. res = StringResult cs \<and> cs' = [])"
| "call_effect CallRetrieve64 cs = quiet (\<lambda>cs'. 8 \<le> length cs \<and> cs' = drop 8 cs)"
| "call_effect CallRetrieve32 cs = quiet (\<lambda>cs'. 4 \<le> length cs \<and> cs' = drop 4 cs)"
| "call_effect CallRetrieve16 cs = quiet (\<lambda>cs'. 2 \<le> length cs \<and> cs' = drop 2 cs)"
| "call_effect CallRetrieve8 cs = quiet (\<lambda>cs'. 1 \<le> length cs \<and> cs' = drop 1 cs)"
| "call_effect CallRead64 cs = (\<lambda>res cs'. 8 \<le> length cs \<and> res = IntResult (be_val (take 8 cs)) \<and> cs' = drop 8 cs)"
| "call_effect CallRead32 cs = (\<lambda>res cs'. 4 \<le> length cs \<and> res = IntResult (be_val (take 4 cs)) \<and> cs' = drop 4 cs)"
| "call_effect CallRead16 cs = (\<lambda>res cs'. 2 \<le> length cs \<and> res = IntResult (be_val (take 2 cs)) \<and> cs' = drop 2 cs)"
| "call_effect CallRead8 cs = (\<lambda>res cs'. 1 \<le> length cs \<and> res = IntResult (be_val (take 1 cs)) \<and> cs' = drop 1 cs)"
| "call_effect (CallPrepend xs) cs = quiet (\<lambda>cs'. cs' = xs @ cs)"
| "call_effect (CallPrepend64 x) cs = quiet (\<lambda>cs'. cs' = be_bytes 8 (unat x) @ cs)"
| "call_effect (CallPrepend32 x) cs = quiet (\<lambda>cs'. cs' = be_bytes 4 (unat x) @ cs)"
| "call_effect (CallPrepend16 x) cs = quiet (\<lambda>cs'. cs' = be_bytes 2 (unat x) @ cs)"
| "call_effect (CallPrepend8 x) cs = quiet (\<lambda>cs'. cs' = be_bytes 1 (unat x) @ cs)"
| "call_effect (CallShrink n) cs = quiet (\<lambda>cs'. cs' = cs)"
| "call_effect (CallReadFd readv) cs = (\<lambda>res cs'.
     (\<exists>vec e. readv vec = Inl e \<and> res = CountResult (- 1) (Some e) \<and> cs' = cs) \<or>
     (\<exists>vec bytes. readv vec = Inr bytes \<and> res = CountResult (int (length bytes)) None \<and> cs' = cs @ bytes))"

text \<open>Sequences of calls with their results, on a buffer and on a byte string.\<close>

fun buffer_trace :: "(buffer_call \<times> buffer_result) list \<Rightarrow> Buffer \<Rightarrow> Buffer \<Rightarrow> bool" where
  "buffer_trace [] b b' \<longleftrightarrow> b' = b"
| "buffer_trace ((x, res) # xs) b b' \<longleftrightarrow> call_sane x b \<and> (\<exists>b1. buffer_exec x b = Ret (res, b1) \<and> buffer_trace xs b1 b')"

fun string_trace :: "(buffer_call \<times> buffer_result) list \<Rightarrow> string \<Rightarrow> string \<Rightarrow> bool" where
  "string_trace [] cs cs' \<longleftrightarrow> cs' = cs"
| "string_trace ((x, res) # xs) cs cs' \<longleftrightarrow> (\<exists>cs1. call_effect x cs res cs1 \<and> string_trace xs cs1 cs')"

section \<open>Outcomes of guarded calls\<close>

definition guarded :: "bool \<Rightarrow> (buffer_result \<Rightarrow> string \<Rightarrow> bool) \<Rightarrow> (buffer_result \<times> Buffer) outcome \<Rightarrow> bool" where
  "guarded pre P m \<longleftrightarrow>
     (if pre then (\<exists>res b'. m = Ret (res, b') \<and> buffer_ok b' \<and> P res (content b')) \<or> m = Abort (Throw ''length_error'')
      else \<exists>msg. m = Abort (AssertFail msg))"

lemma guardedI:
  assumes "pre \<Longrightarrow> (\<exists>b'. m = Ret b' \<and> buffer_ok b' \<and> P (content b')) \<or> m = Abort (Throw ''length_error'')"
    and "\<not> pre \<Longrightarrow> \<exists>msg. m = Abort (AssertFail msg)"
  shows "guarded pre (quiet P) (no_result m)"
  using assms by (cases m) (auto simp: guarded_def no_result_def quiet_def)

named_theorems guards \<open>the outcomes of the operations of the buffer\<close>

lemma guarded_append [guards]: "buffer_ok b \<Longrightarrow> length xs \<le> vec_max \<Longrightarrow> guarded True (quiet (\<lambda>cs'. cs' = content b @ xs)) (no_result (Buffer_append xs b))"
  using Buffer_append_cases [of b xs] by (intro guardedI) auto

lemma guarded_ensure [guards]: "buffer_ok b \<Longrightarrow> n \<le> vec_max \<Longrightarrow> guarded True (quiet (\<lambda>cs'. cs' = content b)) (no_result (ensureWritableBytes n b))"
  using ensureWritableBytes_cases [of b n] by (intro guardedI) (auto simp: made_room_def)

lemma guarded_hasWritten [guards]:
  assumes "buffer_ok b"
  shows "guarded (n \<le> writableBytes b) (quiet (\<lambda>cs'. length cs' = length (content b) + n \<and> take (length (content b)) cs' = content b)) (no_result (hasWritten n b))"
proof (rule guardedI)
  assume le: "n \<le> writableBytes b"
  then have n: "writerIndex b + n \<le> length (buffer b)" "wadd (writerIndex b) n = writerIndex b + n" "readerIndex b \<le> writerIndex b"
    using buffer_okD [OF assms] by (auto intro: wadd_le_vec_max)
  let ?b = "b\<lparr>writerIndex := writerIndex b + n\<rparr>"
  have ok: "buffer_ok ?b" using assms n by (simp add: buffer_ok_def)
  have "content ?b = content b @ buf_slice (writerIndex b) (writerIndex b + n) b"
    using n buf_slice_split [of "readerIndex b" "writerIndex b" "writerIndex b + n" b] by (simp add: content_def pointers buf_slice_def)
  then show "(\<exists>b'. hasWritten n b = Ret b' \<and> buffer_ok b' \<and> length (content b') = length (content b) + n \<and> take (length (content b)) (content b') = content b)
      \<or> hasWritten n b = Abort (Throw ''length_error'')"
    using le n ok by (simp add: hasWritten_def length_buf_slice)
qed (simp add: hasWritten_def)

lemma guarded_unwrite [guards]:
  "buffer_ok b \<Longrightarrow> guarded (n \<le> readableBytes b) (quiet (\<lambda>cs'. n \<le> length (content b) \<and> cs' = take (length (content b) - n) (content b))) (no_result (unwrite n b))"
  using unwrite_ok [of b n] by (intro guardedI) (auto simp: length_content unwrite_def)

lemma guarded_retrieve [guards]:
  "buffer_ok b \<Longrightarrow> guarded (n \<le> readableBytes b) (quiet (\<lambda>cs'. n \<le> length (content b) \<and> cs' = drop n (content b))) (no_result (retrieve n b))"
  using retrieve_ok [of b n] by (intro guardedI) (auto simp: length_content retrieve_def)

lemma guarded_prepend [guards]:
  "buffer_ok b \<Longrightarrow> guarded (length xs \<le> prependableBytes b) (quiet (\<lambda>cs'. cs' = xs @ content b)) (no_result (prepend xs b))"
  using prepend_ok [of b xs] by (intro guardedI) (auto simp: prepend_def)

lemma guarded_retrieveAll [guards]: "buffer_ok b \<Longrightarrow> guarded True (quiet (\<lambda>cs'. cs' = [])) (Ret (NoResult, retrieveAll b))"
  by (simp add: guarded_def quiet_def retrieveAll_ok)

lemma guarded_retrieveUntil [guards]:
  assumes ok: "buffer_ok b"
  shows "guarded (readerIndex b \<le> e \<and> e \<le> writerIndex b) (quiet (\<lambda>cs'. \<exists>n\<le>length (content b). cs' = drop n (content b))) (no_result (retrieveUntil e b))"
proof (rule guardedI)
  assume e: "readerIndex b \<le> e \<and> e \<le> writerIndex b"
  then have n: "e - readerIndex b \<le> readableBytes b" by (auto simp: readableBytes_ok [OF ok] intro: diff_le_mono)
  from retrieve_ok [OF ok n] e n show "(\<exists>b'. retrieveUntil e b = Ret b' \<and> buffer_ok b' \<and> (\<exists>n\<le>length (content b). content b' = drop n (content b)))
      \<or> retrieveUntil e b = Abort (Throw ''length_error'')"
    by (auto simp: retrieveUntil_def pointers length_content [OF ok])
qed (auto simp: retrieveUntil_def require_def pointers)

lemma guarded_retrieveAsString [guards]:
  assumes ok: "buffer_ok b"
  shows "guarded (n \<le> readableBytes b) (\<lambda>res cs'. n \<le> length (content b) \<and> res = StringResult (take n (content b)) \<and> cs' = drop n (content b))
    (bindo (retrieveAsString n b) (\<lambda>(s, b). Ret (StringResult s, b)))"
  using retrieve_ok [OF ok, of n] content_take [OF ok, of n] length_content [OF ok] by (auto simp: guarded_def retrieveAsString_def require_def Let_def)

lemma guarded_retrieveInt [guards]:
  assumes "buffer_ok b"
  shows "guarded (8 \<le> readableBytes b) (quiet (\<lambda>cs'. 8 \<le> length (content b) \<and> cs' = drop 8 (content b))) (no_result (retrieveInt64 b))"
    "guarded (4 \<le> readableBytes b) (quiet (\<lambda>cs'. 4 \<le> length (content b) \<and> cs' = drop 4 (content b))) (no_result (retrieveInt32 b))"
    "guarded (2 \<le> readableBytes b) (quiet (\<lambda>cs'. 2 \<le> length (content b) \<and> cs' = drop 2 (content b))) (no_result (retrieveInt16 b))"
    "guarded (1 \<le> readableBytes b) (quiet (\<lambda>cs'. 1 \<le> length (content b) \<and> cs' = drop 1 (content b))) (no_result (retrieveInt8 b))"
  unfolding retrieveInt64_def retrieveInt32_def retrieveInt16_def retrieveInt8_def by (rule guarded_retrieve [OF assms])+

text \<open>Reading an integer is peeking at it and then retrieving its bytes.\<close>

lemma guarded_read:
  assumes ok: "buffer_ok b" and p: "k \<le> readableBytes b \<Longrightarrow> p = Ret v" "\<not> k \<le> readableBytes b \<Longrightarrow> \<exists>msg. p = Abort (AssertFail msg)"
    and v: "k \<le> readableBytes b \<Longrightarrow> f v = be_val (take k (content b))"
  shows "guarded (k \<le> readableBytes b) (\<lambda>res cs'. k \<le> length (content b) \<and> res = IntResult (be_val (take k (content b))) \<and> cs' = drop k (content b))
    (bindo (bindo p (\<lambda>v. bindo (retrieve k b) (\<lambda>b. Ret (v, b)))) (\<lambda>(v, b). Ret (IntResult (f v), b)))"
proof (cases "k \<le> readableBytes b")
  case True
  with retrieve_ok [OF ok True] p(1) v show ?thesis by (auto simp: guarded_def length_content [OF ok])
next
  case False
  with p(2) show ?thesis by (auto simp: guarded_def)
qed

lemma be_val_fits: "length cs = k \<Longrightarrow> (256::nat) ^ k = 2 ^ LENGTH('a::len) \<Longrightarrow> unat (word_of_nat (be_val cs) :: 'a word) = be_val cs"
  using le_val_bound [of "rev cs"] by (simp add: unat_of_nat be_val_def)

lemma guarded_readInt [guards]:
  assumes ok: "buffer_ok b"
  shows "guarded (8 \<le> readableBytes b) (\<lambda>res cs'. 8 \<le> length (content b) \<and> res = IntResult (be_val (take 8 (content b))) \<and> cs' = drop 8 (content b))
      (bindo (readInt64 b) (\<lambda>(v, b). Ret (IntResult (unat v), b)))"
    "guarded (4 \<le> readableBytes b) (\<lambda>res cs'. 4 \<le> length (content b) \<and> res = IntResult (be_val (take 4 (content b))) \<and> cs' = drop 4 (content b))
      (bindo (readInt32 b) (\<lambda>(v, b). Ret (IntResult (unat v), b)))"
    "guarded (2 \<le> readableBytes b) (\<lambda>res cs'. 2 \<le> length (content b) \<and> res = IntResult (be_val (take 2 (content b))) \<and> cs' = drop 2 (content b))
      (bindo (readInt16 b) (\<lambda>(v, b). Ret (IntResult (unat v), b)))"
    "guarded (1 \<le> readableBytes b) (\<lambda>res cs'. 1 \<le> length (content b) \<and> res = IntResult (be_val (take 1 (content b))) \<and> cs' = drop 1 (content b))
      (bindo (readInt8 b) (\<lambda>(v, b). Ret (IntResult (unat v), b)))"
proof -
  note peeks = peek_network_bytes [OF ok] and len = length_content [OF ok]
  note defs = readInt64_def readInt32_def readInt16_def readInt8_def retrieveInt64_def retrieveInt32_def retrieveInt16_def retrieveInt8_def
    and none = peekInt64_def peekInt32_def peekInt16_def peekInt8_def
  show "guarded (8 \<le> readableBytes b) (\<lambda>res cs'. 8 \<le> length (content b) \<and> res = IntResult (be_val (take 8 (content b))) \<and> cs' = drop 8 (content b))
      (bindo (readInt64 b) (\<lambda>(v, b). Ret (IntResult (unat v), b)))"
    unfolding defs by (rule guarded_read [OF ok peeks(1)]) (simp_all add: none be_val_fits [of _ 8] len)
  show "guarded (4 \<le> readableBytes b) (\<lambda>res cs'. 4 \<le> length (content b) \<and> res = IntResult (be_val (take 4 (content b))) \<and> cs' = drop 4 (content b))
      (bindo (readInt32 b) (\<lambda>(v, b). Ret (IntResult (unat v), b)))"
    unfolding defs by (rule guarded_read [OF ok peeks(2)]) (simp_all add: none be_val_fits [of _ 4] len)
  show "guarded (2 \<le> readableBytes b) (\<lambda>res cs'. 2 \<le> length (content b) \<and> res = IntResult (be_val (take 2 (content b))) \<and> cs' = drop 2 (content b))
      (bindo (readInt16 b) (\<lambda>(v, b). Ret (IntResult (unat v), b)))"
    unfolding defs by (rule guarded_read [OF ok peeks(3)]) (simp_all add: none be_val_fits [of _ 2] len)
  show "guarded (1 \<le> readableBytes b) (\<lambda>res cs'. 1 \<le> length (content b) \<and> res = IntResult (be_val (take 1 (content b))) \<and> cs' = drop 1 (content b))
      (bindo (readInt8 b) (\<lambda>(v, b). Ret (IntResult (unat v), b)))"
    unfolding defs by (rule guarded_read [OF ok peeks(4)]) (simp_all add: none be_val_fits [of _ 1] len del: One_nat_def)
qed

lemma guarded_appendInt [guards]:
  assumes "buffer_ok b"
  shows "guarded True (quiet (\<lambda>cs'. cs' = content b @ be_bytes 8 (unat x))) (no_result (appendInt64 x b))"
    "guarded True (quiet (\<lambda>cs'. cs' = content b @ be_bytes 4 (unat y))) (no_result (appendInt32 y b))"
    "guarded True (quiet (\<lambda>cs'. cs' = content b @ be_bytes 2 (unat z))) (no_result (appendInt16 z b))"
    "guarded True (quiet (\<lambda>cs'. cs' = content b @ be_bytes 1 (unat u))) (no_result (appendInt8 u b))"
  unfolding append_network_bytes by (rule guarded_append [OF assms], simp add: vec_max_def)+

lemma guarded_prependInt [guards]:
  assumes "buffer_ok b"
  shows "guarded (8 \<le> prependableBytes b) (quiet (\<lambda>cs'. cs' = be_bytes 8 (unat x) @ content b)) (no_result (prependInt64 x b))"
    "guarded (4 \<le> prependableBytes b) (quiet (\<lambda>cs'. cs' = be_bytes 4 (unat y) @ content b)) (no_result (prependInt32 y b))"
    "guarded (2 \<le> prependableBytes b) (quiet (\<lambda>cs'. cs' = be_bytes 2 (unat z) @ content b)) (no_result (prependInt16 z b))"
    "guarded (1 \<le> prependableBytes b) (quiet (\<lambda>cs'. cs' = be_bytes 1 (unat u) @ content b)) (no_result (prependInt8 u b))"
  using guarded_prepend [OF assms, of "be_bytes 8 (unat x)"] guarded_prepend [OF assms, of "be_bytes 4 (unat y)"]
    guarded_prepend [OF assms, of "be_bytes 2 (unat z)"] guarded_prepend [OF assms, of "be_bytes 1 (unat u)"]
  by (simp_all add: append_network_bytes)

lemma guarded_piece [guards]:
  assumes "buffer_ok b" and "0 \<le> snd p" and "snd p < 2 ^ 31" and "nat (snd p) \<le> length (fst p)"
  shows "guarded True (quiet (\<lambda>cs'. cs' = content b @ take (nat (snd p)) (fst p))) (no_result (append_StringPiece p b))"
proof -
  have "nat (snd p mod 2 ^ 64) = nat (snd p)" using assms(2,3) by simp
  with assms(4) have "append_StringPiece p b = Buffer_append (take (nat (snd p)) (fst p)) b" by (simp add: append_StringPiece_def)
  moreover have "nat (snd p) < 2 ^ 31" using assms(2,3) by (simp add: nat_less_iff)
  then have "length (take (nat (snd p)) (fst p)) \<le> vec_max" unfolding length_take vec_max_def by (intro min.coboundedI2) simp
  ultimately show ?thesis using guarded_append [OF assms(1)] by metis
qed

lemma guarded_readFd [guards]:
  assumes "buffer_ok b" and "readv_spec readv"
  shows "guarded True (\<lambda>res cs'. (\<exists>vec e. readv vec = Inl e \<and> res = CountResult (- 1) (Some e) \<and> cs' = content b) \<or>
      (\<exists>vec bytes. readv vec = Inr bytes \<and> res = CountResult (int (length bytes)) None \<and> cs' = content b @ bytes))
    (bindo (readFd readv b) (\<lambda>(n, savedErrno, b). Ret (CountResult n savedErrno, b)))"
proof (cases "readv (if writableBytes b < 65536 then [writableBytes b, 65536] else [writableBytes b])")
  case (Inl e)
  with readFd_error [of readv b e] assms(1) show ?thesis by (auto simp: guarded_def)
next
  case (Inr bytes)
  from readFd_cases [OF assms Inr] Inr show ?thesis by (auto simp: guarded_def)
qed

lemma guarded_shrink [guards]:
  "buffer_ok b \<Longrightarrow> readableBytes b < 2 ^ 31 \<Longrightarrow> n < 2 ^ 62 \<Longrightarrow> guarded True (quiet (\<lambda>cs'. cs' = content b)) (no_result (shrink n b))"
  using shrink_ok [of b n] by (intro guardedI) auto

lemma guarded_retrieveAllAsString [guards]:
  "buffer_ok b \<Longrightarrow> guarded True (\<lambda>res cs'. res = StringResult (content b) \<and> cs' = []) (bindo (retrieveAllAsString b) (\<lambda>(s, b). Ret (StringResult s, b)))"
  using guarded_retrieveAsString [of b "readableBytes b"] by (simp add: retrieveAllAsString_def length_content [symmetric])

lemma buffer_exec_guarded: "buffer_ok b \<Longrightarrow> call_sane x b \<Longrightarrow> guarded (buffer_pre x b) (call_effect x (content b)) (buffer_exec x b)"
  by (cases x) (simp_all only: buffer_exec.simps buffer_pre.simps call_effect.simps call_sane.simps guards)

lemma buffer_exec_ret:
  assumes "buffer_ok b" and "call_sane x b" and "buffer_exec x b = Ret (res, b')"
  shows "buffer_ok b' \<and> call_effect x (content b) res (content b')"
  using buffer_exec_guarded [OF assms(1,2)] assms(3) by (auto simp: guarded_def split: if_splits)

lemma buffer_built_ok: "buffer_built b \<Longrightarrow> buffer_ok b"
proof (induction rule: buffer_built.induct)
  case (new n b)
  then show ?case using new_Buffer_ok [of n] by auto
next
  case (call b x res b')
  with buffer_exec_ret show ?case by blast
qed

lemma buffer_trace_simulates: "buffer_ok b \<Longrightarrow> buffer_trace xs b b' \<Longrightarrow> string_trace xs (content b) (content b')"
proof (induction xs b b' rule: buffer_trace.induct)
  case (2 x res xs b b')
  then obtain b1 where "call_sane x b" "buffer_exec x b = Ret (res, b1)" "buffer_trace xs b1 b'" by auto
  with 2 buffer_exec_ret [of b x res b1] show ?case by auto
qed simp

section \<open>Properties\<close>

text \<open>C26: the class invariant of Buffer is a type: every buffer built by the constructor and any calls of its mutating member functions (swap only
  exchanges two such buffers) has its
  indices in order and within its vector, and on such a buffer a call whose precondition holds returns a buffer of the same kind or throws
  the vector's length_error, and never fails an inner assertion or leaves the vector; a call whose precondition does not hold is stopped by
  an assertion.\<close>

theorem buffer_type_safe:
  assumes "buffer_built b" and "call_sane x b"
  shows "readerIndex b \<le> writerIndex b \<and> writerIndex b \<le> length (buffer b) \<and> length (buffer b) \<le> vec_max \<and>
    (if buffer_pre x b then (\<exists>res b'. buffer_exec x b = Ret (res, b') \<and> buffer_built b') \<or> buffer_exec x b = Abort (Throw ''length_error'')
     else \<exists>msg. buffer_exec x b = Abort (AssertFail msg))"
  using buffer_exec_guarded [OF buffer_built_ok [OF assms(1)] assms(2)] buffer_built.call [OF assms] buffer_built_ok [OF assms(1)]
  by (auto simp: guarded_def buffer_ok_def split: if_splits)

text \<open>A buffer of two writable bytes to which three are appended.\<close>

lemma demo_built: "buffer_built \<lparr>buffer = replicate 8 (CHR 0x00) @ ''abc'', readerIndex = 8, writerIndex = 11\<rparr>" (is "buffer_built ?b")
proof -
  have "bindo (new_Buffer 2) (buffer_exec (CallAppend ''abc'')) = Ret (NoResult, ?b)" by (simp add: buffer_eval no_result_def)
  then obtain b0 where b0: "new_Buffer 2 = Ret b0" "buffer_exec (CallAppend ''abc'') b0 = Ret (NoResult, ?b)" by (auto simp: bindo_eq_Ret)
  have "buffer_built b0" by (rule buffer_built.new [OF _ b0(1)]) (simp add: vec_max_def kCheapPrepend_def)
  then show ?thesis by (rule buffer_built.call [OF _ _ b0(2)]) (simp add: vec_max_def)
qed

theorem buffer_type_safe_witness:
  "\<exists>b res b'. buffer_built b \<and> content b = ''abc'' \<and> buffer_exec (CallRetrieveUntil 9) b = Ret (res, b') \<and> buffer_built b'
    \<and> (\<exists>msg. buffer_exec CallRead32 b = Abort (AssertFail msg))"
proof -
  let ?b = "\<lparr>buffer = replicate 8 (CHR 0x00) @ ''abc'', readerIndex = 8, writerIndex = 11\<rparr>"
  have "content ?b = ''abc''" by (simp add: buffer_eval)
  moreover have "\<exists>res b'. buffer_exec (CallRetrieveUntil 9) ?b = Ret (res, b') \<and> buffer_built b'"
    using buffer_type_safe [OF demo_built, of "CallRetrieveUntil 9"] by (simp add: buffer_eval retrieveUntil_def no_result_def)
  moreover have "\<exists>msg. buffer_exec CallRead32 ?b = Abort (AssertFail msg)"
    using buffer_type_safe [OF demo_built, of CallRead32] by (simp add: buffer_eval)
  ultimately show ?thesis using demo_built by blast
qed



end
