(* ===== verification/Inspectors.thy ===== *)
theory Inspectors
  imports Http
begin

text \<open>
  \<^verbatim>\<open>muduo/net/inspect/Inspector.{h,cc}\<close>: the HTTP inspector of a running process.

  A command's callback is a function from method and arguments to the text of the page, or to the failure of computing it; an empty \<^verbatim>\<open>std::function\<close> is
  \<open>None\<close>. Each operation is one critical section. The \<^verbatim>\<open>std::map\<close>s are association lists sorted by key, as in \<^verbatim>\<open>Http\<close>. The
  bytes of the icon are an argument.
\<close>

section \<open>Splitting a path\<close>

function split_loop :: "string \<Rightarrow> nat \<Rightarrow> string list" where
  "split_loop str start =
     (if CHR ''/'' \<in> set (drop start str)
      then let pos = start + std_find (drop start str) CHR ''/''
           in (if pos > start then [take (pos - start) (drop start str)] else []) @ split_loop str (pos + 1)
      else if start < length str then [drop start str] else [])"
  by pat_completeness auto

termination
proof (relation "measure (\<lambda>(s, k). length s - k)")
  fix str :: string and start pos
  assume a: "CHR ''/'' \<in> set (drop start str)" and p: "pos = start + std_find (drop start str) CHR ''/''"
  from a have "start < length str" by (cases "start < length str") auto
  then show "((str, pos + 1), str, start) \<in> measure (\<lambda>(s, k). length s - k)" using p by auto
qed simp

declare split_loop.simps [simp del]

definition split :: "string \<Rightarrow> string list" where
  "split str = split_loop str 0"

section \<open>The registry\<close>

type_synonym callback = "Method \<Rightarrow> string list \<Rightarrow> string outcome"

record Inspector =
  modules :: "(string \<times> (string \<times> callback option) list) list"
  helps :: "(string \<times> (string \<times> string) list) list"

definition new_Inspector :: Inspector where
  "new_Inspector = \<lparr>modules = [], helps = []\<rparr>"

text \<open>\<^verbatim>\<open>m[k1][k2] = v\<close> creates the inner map if needed.\<close>

definition map_set2 :: "string \<Rightarrow> string \<Rightarrow> 'v \<Rightarrow> (string \<times> (string \<times> 'v) list) list \<Rightarrow> (string \<times> (string \<times> 'v) list) list" where
  "map_set2 k1 k2 v m = map_set k1 (map_set k2 v (case map_of m k1 of None \<Rightarrow> [] | Some l \<Rightarrow> l)) m"

definition map_erase :: "'k \<Rightarrow> ('k \<times> 'v) list \<Rightarrow> ('k \<times> 'v) list" where
  "map_erase k m = filter (\<lambda>x. fst x \<noteq> k) m"

definition Inspector_add :: "string \<Rightarrow> string \<Rightarrow> callback option \<Rightarrow> string \<Rightarrow> Inspector \<Rightarrow> Inspector" where
  "Inspector_add module command cb help ins =
     ins\<lparr>modules := map_set2 module command cb (modules ins), helps := map_set2 module command help (helps ins)\<rparr>"

definition Inspector_remove :: "string \<Rightarrow> string \<Rightarrow> Inspector \<Rightarrow> Inspector" where
  "Inspector_remove module command ins =
     (case map_of (modules ins) module of
        None \<Rightarrow> ins
      | Some l \<Rightarrow> ins\<lparr>modules := map_set module (map_erase command l) (modules ins),
           helps := map_set module (map_erase command (case map_of (helps ins) module of None \<Rightarrow> [] | Some h \<Rightarrow> h)) (helps ins)\<rparr>)"

section \<open>Requests\<close>

definition help_line :: "string \<Rightarrow> string \<times> string \<Rightarrow> string" where
  "help_line module it =
     (let len = length module + length (fst it)
      in ''/'' @ module @ ''/'' @ fst it @ replicate (if len \<ge> 25 then 1 else 25 - len) CHR '' '' @ snd it @ [CHR 0x0A])"

definition help_page :: "Inspector \<Rightarrow> string" where
  "help_page ins = concat (map (\<lambda>(module, l). concat (map (help_line module) l)) (helps ins))"

definition reply :: "string \<Rightarrow> string \<Rightarrow> HttpResponse \<Rightarrow> HttpResponse" where
  "reply contentType text resp = (setContentType contentType (resp\<lparr>statusCode := k200Ok, statusMessage := ''OK''\<rparr>))\<lparr>body := text\<rparr>"

definition Inspector_onRequest :: "string \<Rightarrow> Inspector \<Rightarrow> HttpRequest \<Rightarrow> HttpResponse \<Rightarrow> HttpResponse outcome" where
  "Inspector_onRequest favicon ins req resp =
     (if path req = ''/'' then Ret (reply ''text/plain'' (help_page ins) resp)
      else
        let result = split (path req)
        in bindo
             (case result of
                [] \<Rightarrow> Ret (False, resp)
              | [module] \<Rightarrow> Ret (if module = ''favicon.ico'' then (True, reply ''image/png'' favicon resp) else (False, resp))
              | module # command # args \<Rightarrow>
                  (case map_of (modules ins) module of
                     None \<Rightarrow> Ret (False, resp)
                   | Some commList \<Rightarrow>
                       (case map_of commList command of
                          None \<Rightarrow> Ret (False, resp)
                        | Some None \<Rightarrow> Ret (False, resp)
                        | Some (Some cb) \<Rightarrow> bindo (cb (req_method req) args) (\<lambda>text. Ret (True, reply ''text/plain'' text resp)))))
             (\<lambda>(ok, resp). Ret (if \<not> ok then resp\<lparr>statusCode := k404NotFound, statusMessage := ''Not Found''\<rparr> else resp)))"

section \<open>Splitting is taking the segments that are not empty\<close>

fun segments :: "string \<Rightarrow> string list" where
  "segments [] = [[]]"
| "segments (c # cs) = (if c = CHR ''/'' then [] # segments cs else (c # hd (segments cs)) # tl (segments cs))"

lemma segments_nonempty [simp]: "segments s \<noteq> []"
  by (cases s) auto

lemma segments_plain: "CHR ''/'' \<notin> set s \<Longrightarrow> segments s = [s]"
  by (induction s) auto

lemma segments_slash: "CHR ''/'' \<notin> set s \<Longrightarrow> segments (s @ CHR ''/'' # t) = s # segments t"
  by (induction s) auto

lemma split_loop_segments: "split_loop str start = filter (\<lambda>x. x \<noteq> []) (segments (drop start str))"
proof (induction str start rule: split_loop.induct)
  case (1 str start)
  let ?d = "drop start str" and ?k = "std_find (drop start str) CHR ''/''"
  show ?case
  proof (cases "CHR ''/'' \<in> set ?d")
    case True
    have k: "?k < length ?d" "?d ! ?k = CHR ''/''" using True std_find_less_iff [of ?d] std_find_nth by auto
    then have d: "?d = take ?k ?d @ CHR ''/'' # drop (start + ?k + 1) str"
      using id_take_nth_drop [OF k(1)] by (simp add: add.commute add.left_commute)
    have "CHR ''/'' \<notin> set (take ?k ?d)"
      using std_find_first [of _ ?d "CHR ''/''"] k(1) by (auto simp: in_set_conv_nth)
    then have "segments ?d = take ?k ?d # segments (drop (start + ?k + 1) str)"
      using segments_slash [of "take ?k ?d" "drop (start + ?k + 1) str"] d by metis
    moreover have "take ?k ?d = [] \<longleftrightarrow> \<not> 0 < ?k" using k(1) by auto
    ultimately show ?thesis using 1 [OF True refl] True by (simp add: split_loop.simps [of str start] Let_def)
  next
    case False
    then show ?thesis by (simp add: split_loop.simps [of str start] segments_plain)
  qed
qed

lemma split_segments: "split s = filter (\<lambda>x. x \<noteq> []) (segments s)"
  by (simp add: split_def split_loop_segments)

definition path_of :: "string list \<Rightarrow> string" where
  "path_of segs = concat (map (\<lambda>x. CHR ''/'' # x) segs)"

definition segment_ok :: "string \<Rightarrow> bool" where
  "segment_ok x \<longleftrightarrow> x \<noteq> [] \<and> CHR ''/'' \<notin> set x"

lemma segments_path: "list_all segment_ok segs \<Longrightarrow> CHR ''/'' \<notin> set x \<Longrightarrow> segments (x @ path_of segs) = x # segs"
  by (induction segs arbitrary: x) (simp_all add: path_of_def segments_plain segments_slash segment_ok_def)

lemma split_path: "list_all segment_ok segs \<Longrightarrow> split (path_of segs) = segs"
  using segments_path [of segs "[]"] by (simp add: split_segments filter_id_conv list_all_iff segment_ok_def)

section \<open>The registry as a finite map\<close>

text \<open>What the dispatcher relies on: lookup after registering and unregistering.\<close>

locale command_table =
  fixes lookup :: "'t \<Rightarrow> 'k \<rightharpoonup> 'v"
    and register :: "'k \<Rightarrow> 'v \<times> 'h \<Rightarrow> 't \<Rightarrow> 't"
    and unregister :: "'k \<Rightarrow> 't \<Rightarrow> 't"
  assumes lookup_register: "lookup (register k vh t) = (lookup t)(k \<mapsto> fst vh)"
    and lookup_unregister: "lookup (unregister k t) = (lookup t)(k := None)"
begin

text \<open>A sequence of calls, \<open>Some\<close> to register and \<open>None\<close> to unregister.\<close>

definition run_call :: "'k \<times> ('v \<times> 'h) option \<Rightarrow> 't \<Rightarrow> 't" where
  "run_call c t = (case snd c of None \<Rightarrow> unregister (fst c) t | Some vh \<Rightarrow> register (fst c) vh t)"

lemma lookup_fold: "lookup (fold run_call cs t) = fold (\<lambda>c m. m(fst c := map_option fst (snd c))) cs (lookup t)"
  by (induction cs arbitrary: t) (auto simp: run_call_def lookup_register lookup_unregister split: option.splits)

end

definition command_of :: "Inspector \<Rightarrow> string \<times> string \<rightharpoonup> callback option" where
  "command_of ins k = (case map_of (modules ins) (fst k) of None \<Rightarrow> None | Some l \<Rightarrow> map_of l (snd k))"

lemma map_of_map_erase [simp]: "map_of (map_erase k m) = (map_of m)(k := None)"
  by (rule ext) (induction m, auto simp: map_erase_def)

definition add_call :: "string \<times> string \<Rightarrow> callback option \<times> string \<Rightarrow> Inspector \<Rightarrow> Inspector" where
  "add_call k vh = Inspector_add (fst k) (snd k) (fst vh) (snd vh)"

definition remove_call :: "string \<times> string \<Rightarrow> Inspector \<Rightarrow> Inspector" where
  "remove_call k = Inspector_remove (fst k) (snd k)"

interpretation ins: command_table command_of add_call remove_call
proof
  fix k vh t
  show "command_of (add_call k vh t) = (command_of t)(k \<mapsto> fst vh)"
    by (rule ext) (cases k, auto simp: command_of_def add_call_def Inspector_add_def map_set2_def split: option.splits)
next
  fix k t
  show "command_of (remove_call k t) = (command_of t)(k := None)"
    by (rule ext) (cases k, auto simp: command_of_def remove_call_def Inspector_remove_def split: option.splits)
qed

text \<open>The calls, and the map they stand for.\<close>

fun inspector_call :: "(string \<times> string) \<times> (callback option \<times> string) option \<Rightarrow> Inspector \<Rightarrow> Inspector" where
  "inspector_call (k, Some vh) = add_call k vh"
| "inspector_call (k, None) = remove_call k"

definition registered :: "((string \<times> string) \<times> (callback option \<times> string) option) list \<Rightarrow> string \<times> string \<rightharpoonup> callback option" where
  "registered cs = fold (\<lambda>c m. m(fst c := map_option fst (snd c))) cs Map.empty"

lemma command_of_calls: "command_of (fold inspector_call cs new_Inspector) = registered cs"
proof -
  have "inspector_call = ins.run_call"
  proof
    fix c :: "(string \<times> string) \<times> (callback option \<times> string) option"
    show "inspector_call c = ins.run_call c"
      by (cases c rule: inspector_call.cases) (auto simp: ins.run_call_def)
  qed
  moreover have "command_of new_Inspector = Map.empty" by (auto simp: command_of_def new_Inspector_def)
  ultimately show ?thesis using ins.lookup_fold [of cs new_Inspector] by (simp add: registered_def)
qed

lemma Inspector_onRequest_command:
  assumes "path req \<noteq> ''/''" and "split (path req) = m # c # args"
  shows "Inspector_onRequest favicon ins req resp =
      (case command_of ins (m, c) of
         Some (Some cb) \<Rightarrow> bindo (cb (req_method req) args) (\<lambda>text. Ret (reply ''text/plain'' text resp))
       | _ \<Rightarrow> Ret (resp\<lparr>statusCode := k404NotFound, statusMessage := ''Not Found''\<rparr>))"
proof -
  have "bindo (bindo r (\<lambda>text. Ret (True, f text))) (\<lambda>(ok, resp). Ret (if \<not> ok then g resp else resp)) = bindo r (\<lambda>text. Ret (f text))"
    for r :: "string outcome" and f g :: "_ \<Rightarrow> HttpResponse" by (cases r) auto
  then show ?thesis using assms by (auto simp: Inspector_onRequest_def command_of_def Let_def split: option.splits)
qed

text \<open>C37: Inspector: after any sequence of add and remove calls, a request for /module/command/arg1/.../argn runs the callback
  that was registered last under that module and command and not removed since, with exactly
  those arguments, and answers 200 with its text; when none is registered, or for a path with fewer segments
  (other than the index and the icon), the answer is 404 with everything else of the response unchanged.
  Paths are split into their segments that are not empty.\<close>

theorem inspector_dispatch:
  assumes "list_all segment_ok (m # c # args)" and "path req = path_of (m # c # args)"
  shows "Inspector_onRequest favicon (fold inspector_call calls new_Inspector) req resp =
      (case registered calls (m, c) of
         Some (Some cb) \<Rightarrow> bindo (cb (req_method req) args) (\<lambda>text.
           Ret ((setContentType ''text/plain'' (resp\<lparr>statusCode := k200Ok, statusMessage := ''OK''\<rparr>))\<lparr>body := text\<rparr>))
       | _ \<Rightarrow> Ret (resp\<lparr>statusCode := k404NotFound, statusMessage := ''Not Found''\<rparr>))
    \<and> split s = filter (\<lambda>x. x \<noteq> []) (segments s)
    \<and> (split (path req') = [] \<and> path req' \<noteq> ''/'' \<or> split (path req') = [x] \<and> x \<noteq> ''favicon.ico'' \<longrightarrow>
         Inspector_onRequest favicon (fold inspector_call calls new_Inspector) req' resp = Ret (resp\<lparr>statusCode := k404NotFound, statusMessage := ''Not Found''\<rparr>))"
proof -
  let ?ins = "fold inspector_call calls new_Inspector"
  have sp: "split (path req) = m # c # args" using split_path [OF assms(1)] assms(2) by simp
  have "path req \<noteq> ''/''" using assms by (simp add: path_of_def segment_ok_def)
  note d = Inspector_onRequest_command [OF this sp, of favicon ?ins resp]
  moreover have "Inspector_onRequest favicon ?ins req' resp = Ret (resp\<lparr>statusCode := k404NotFound, statusMessage := ''Not Found''\<rparr>)"
    if "split (path req') = [] \<and> path req' \<noteq> ''/'' \<or> split (path req') = [x] \<and> x \<noteq> ''favicon.ico''"
  proof -
    have "path req' \<noteq> ''/''" using that by (auto simp: split_segments)
    then show ?thesis using that by (auto simp: Inspector_onRequest_def Let_def)
  qed
  ultimately show ?thesis unfolding command_of_calls reply_def using split_segments by blast
qed

theorem inspector_dispatch_witness:
  "let calls = [((''proc'', ''pid''), Some (Some (\<lambda>_ args. Ret (''42 '' @ concat args)), ''print pid'')), ((''proc'', ''old''), Some (None, '''')),
                ((''proc'', ''old''), None)];
       req = new_HttpRequest\<lparr>req_method := kGet, path := ''/proc/pid/a/b''\<rparr>
   in \<exists>resp. Inspector_onRequest [] (fold inspector_call calls new_Inspector) req (new_HttpResponse False) = Ret resp \<and> body resp = ''42 ab''"
proof -
  let ?calls = "[((''proc'', ''pid''), Some (Some (\<lambda>_ args. Ret (''42 '' @ concat args)), ''print pid'')), ((''proc'', ''old''), Some (None, '''')),
                ((''proc'', ''old''), None)]"
  let ?req = "new_HttpRequest\<lparr>req_method := kGet, path := ''/proc/pid/a/b''\<rparr>"
  have "list_all segment_ok [''proc'', ''pid'', ''a'', ''b'']" by (simp add: segment_ok_def)
  moreover have "path ?req = path_of [''proc'', ''pid'', ''a'', ''b'']" by (simp add: path_of_def)
  moreover have "registered ?calls (''proc'', ''pid'') = Some (Some (\<lambda>_ args. Ret (''42 '' @ concat args)))" by (simp add: registered_def)
  ultimately show ?thesis using inspector_dispatch [of "''proc''" "''pid''" "[''a'', ''b'']" ?req "[]" ?calls "new_HttpResponse False"]
    by simp
qed

end
