(* ===== verification/Dates.thy ===== *)
theory Dates
  imports Prelude
begin

text \<open>
  \<^verbatim>\<open>muduo/base/Date.{h,cc}\<close> and \<^verbatim>\<open>muduo/base/Timestamp.{h,cc}\<close>: dates as Julian day numbers, and time stamps
  in microseconds.

  Integers are unbounded; the theorems are stated for ranges in which no \<^verbatim>\<open>int\<close> of the code overflows
  (days up to \<open>5 * 10 ^ 8\<close>, that is more than a million years). Division truncates as in C++. The
  reference calendar (\<open>leap\<close>, \<open>month_days\<close>) is the Gregorian one.
\<close>

section \<open>Julian day numbers\<close>

record YearMonthDay =
  year :: int
  month :: int
  day :: int

definition getJulianDayNumber :: "int \<Rightarrow> int \<Rightarrow> int \<Rightarrow> int" where
  "getJulianDayNumber yr mon dy =
     (let a = (14 - mon) sdiv 12;
          y = yr + 4800 - a;
          m = mon + 12 * a - 3
      in dy + (153 * m + 2) sdiv 5 + y * 365 + y sdiv 4 - y sdiv 100 + y sdiv 400 - 32045)"

definition getYearMonthDay :: "int \<Rightarrow> YearMonthDay" where
  "getYearMonthDay julianDayNumber =
     (let a = julianDayNumber + 32044;
          b = (4 * a + 3) sdiv 146097;
          c = a - ((b * 146097) sdiv 4);
          d = (4 * c + 3) sdiv 1461;
          e = c - ((1461 * d) sdiv 4);
          m = (5 * e + 2) sdiv 153
      in \<lparr>year = b * 100 + d - 4800 + (m sdiv 10), month = m + 3 - 12 * (m sdiv 10), day = e - ((153 * m + 2) sdiv 5) + 1\<rparr>)"

definition kJulianDayOf1970_01_01 :: int where
  "kJulianDayOf1970_01_01 = getJulianDayNumber 1970 1 1"

definition kDaysPerWeek :: int where "kDaysPerWeek = 7"

definition weekDay :: "int \<Rightarrow> int" where
  "weekDay julianDayNumber = (julianDayNumber + 1) smod kDaysPerWeek"

definition Date_valid :: "int \<Rightarrow> bool" where
  "Date_valid julianDayNumber \<longleftrightarrow> julianDayNumber > 0"

text \<open>\<^verbatim>\<open>%0wd\<close> and \<^verbatim>\<open>%wd\<close> of \<^verbatim>\<open>printf\<close>.\<close>

definition pad :: "char \<Rightarrow> nat \<Rightarrow> string \<Rightarrow> string" where
  "pad c w s = replicate (w - length s) c @ s"

definition zero_pad :: "nat \<Rightarrow> int \<Rightarrow> string" where
  "zero_pad w i = (if i < 0 then CHR ''-'' # pad CHR ''0'' (w - 1) (dec_nat (nat (- i))) else pad CHR ''0'' w (dec_nat (nat i)))"

definition toIsoString :: "int \<Rightarrow> string" where
  "toIsoString julianDayNumber =
     (let ymd = getYearMonthDay julianDayNumber
      in snprintf 32 (pad CHR '' '' 4 (dec_int (year ymd)) @ ''-'' @ zero_pad 2 (month ymd) @ ''-'' @ zero_pad 2 (day ymd)))"

section \<open>Time stamps\<close>

definition Timestamp_valid :: "int \<Rightarrow> bool" where
  "Timestamp_valid microSecondsSinceEpoch \<longleftrightarrow> microSecondsSinceEpoch > 0"

definition secondsSinceEpoch :: "int \<Rightarrow> int" where
  "secondsSinceEpoch us = us sdiv kMicroSecondsPerSecond"

text \<open>\<open>tv\<close> is what \<^verbatim>\<open>gettimeofday\<close> returned.\<close>

definition Timestamp_now :: "int \<times> int \<Rightarrow> int" where
  "Timestamp_now tv = fst tv * kMicroSecondsPerSecond + snd tv"

definition fromUnixTime :: "int \<Rightarrow> int \<Rightarrow> int" where
  "fromUnixTime t microseconds = t * kMicroSecondsPerSecond * microseconds"

definition fromUnixTime_seconds :: "int \<Rightarrow> int" where
  "fromUnixTime_seconds t = fromUnixTime t 0"

definition Timestamp_toString :: "int \<Rightarrow> string" where
  "Timestamp_toString us =
     (let seconds = us sdiv kMicroSecondsPerSecond;
          microseconds = us smod kMicroSecondsPerSecond
      in snprintf 32 (dec_int seconds @ ''.'' @ zero_pad 6 microseconds))"

lemma fromUnixTime_seconds_zero: "fromUnixTime_seconds t = 0"
  by (simp add: fromUnixTime_seconds_def fromUnixTime_def)

section \<open>The Gregorian calendar\<close>

definition leap :: "int \<Rightarrow> bool" where
  "leap y \<longleftrightarrow> y mod 4 = 0 \<and> (y mod 100 \<noteq> 0 \<or> y mod 400 = 0)"

definition month_days :: "int \<Rightarrow> int \<Rightarrow> int" where
  "month_days y m = (if m = 2 then (if leap y then 29 else 28) else if m \<in> {4, 6, 9, 11} then 30 else 31)"

definition valid_date :: "int \<Rightarrow> int \<Rightarrow> int \<Rightarrow> bool" where
  "valid_date y m d \<longleftrightarrow> 1 \<le> m \<and> m \<le> 12 \<and> 1 \<le> d \<and> d \<le> month_days y m"

text \<open>The range in which the code's arithmetic is exact.\<close>

definition year_range :: "int \<Rightarrow> bool" where
  "year_range y \<longleftrightarrow> - 4799 \<le> y \<and> y \<le> 1300000"

definition day_range :: "int \<Rightarrow> bool" where
  "day_range jd \<longleftrightarrow> - 32044 \<le> jd \<and> jd \<le> 476000000"

lemma sdiv_nonneg: "0 \<le> a \<Longrightarrow> 0 < b \<Longrightarrow> a sdiv b = a div (b :: int)"
  by (simp add: signed_divide_int_def sgn_if)

lemma smod_nonneg: "0 \<le> a \<Longrightarrow> 0 < b \<Longrightarrow> a smod b = a mod (b :: int)"
  by (cases "a = 0") (simp_all add: signed_modulo_int_def sdiv_nonneg minus_div_mult_eq_mod)

text \<open>Day \<open>e\<close> of the year that starts in March, in month \<open>m\<close> counted from March.\<close>

definition march_offset :: "int \<Rightarrow> int" where
  "march_offset m = (153 * m + 2) div 5"

lemma march_cases: "0 \<le> m \<Longrightarrow> m \<le> 11 \<Longrightarrow> m \<in> {0, 1, 2, 3, 4, 5, 6, 7, 8, 9, 10, 11 :: int}"
  by (simp, presburger)

lemma march_month:
  assumes "0 \<le> m" "m \<le> 11" and "march_offset m \<le> e" "e < march_offset (m + 1)"
  shows "(5 * e + 2) div 153 = m"
  using march_cases [OF assms(1,2)] assms(3,4)
  by (elim insertE; simp add: march_offset_def; presburger)

lemma div_between: "0 < k \<Longrightarrow> k * q \<le> x \<Longrightarrow> x < k * q + k \<Longrightarrow> x div k = (q :: int)"
  by (rule int_div_pos_eq [of _ _ _ "x - k * q"]) auto

lemma div_bounds: "0 < k \<Longrightarrow> k * (x div k) \<le> x \<and> x < k * (x div k) + (k :: int)"
  using mult_div_mod_eq [of k x] pos_mod_sign [of k x] pos_mod_bound [of k x] by linarith

lemma mod_between: "k * q \<le> x \<Longrightarrow> x < k * q + k \<Longrightarrow> r = x - k * q \<Longrightarrow> x mod k = (r :: int)"
  by (rule int_mod_pos_eq [of _ _ q]) auto

text \<open>Days since 1 March \<open>- 4800\<close>, from century \<open>b\<close>, year \<open>d\<close> of the century and day \<open>e\<close> of the year.\<close>

definition day_count :: "int \<Rightarrow> int \<Rightarrow> int \<Rightarrow> int" where
  "day_count b d e = 36524 * b + b div 4 + 365 * d + d div 4 + e"

definition day_parts :: "int \<Rightarrow> int \<Rightarrow> int \<Rightarrow> bool" where
  "day_parts b d e \<longleftrightarrow> 0 \<le> b \<and> 0 \<le> d \<and> d \<le> 99 \<and> 0 \<le> e \<and> e \<le> 365 \<and> (e = 365 \<longrightarrow> d mod 4 = 3 \<and> (d = 99 \<longrightarrow> b mod 4 = 3))"

lemma quarter: "4 * (x div 4) = x - x mod (4 :: int)" "0 \<le> x mod (4 :: int)" "x mod 4 \<le> (3 :: int)"
  by (simp_all add: minus_mod_eq_mult_div)

lemma day_parts_unique:
  assumes p: "day_parts b d e"
  defines "a \<equiv> day_count b d e"
  shows "(4 * a + 3) div 146097 = b" and "a - (b * 146097) div 4 = 365 * d + d div 4 + e"
    and "(4 * (365 * d + d div 4 + e) + 3) div 1461 = d" and "365 * d + d div 4 + e - (1461 * d) div 4 = e"
proof -
  note P = p [unfolded day_parts_def]
  let ?c = "365 * d + d div 4 + e"
  have "b * 146097 = b + 4 * (36524 * b)" "1461 * d = d + 4 * (365 * d)" by simp_all
  then have b4: "(b * 146097) div 4 = 36524 * b + b div 4" and d4: "(1461 * d) div 4 = 365 * d + d div 4"
    by (simp_all only: div_mult_self2)
  show "a - (b * 146097) div 4 = ?c" by (simp add: a_def day_count_def b4)
  show "?c - (1461 * d) div 4 = e" by (simp add: d4)
  have c: "4 * ?c = 1461 * d - d mod 4 + 4 * e" using quarter(1) [of d] by simp
  show "(4 * ?c + 3) div 1461 = d"
    by (rule div_between) (use c P quarter [of d] in auto)
  have top: "?c \<le> 36523 \<or> ?c = 36524 \<and> b mod 4 = 3"
  proof (cases "d = 99 \<and> e = 365")
    case True
    then show ?thesis using P by simp
  next
    case False
    have "d div 4 \<le> 24" using P by auto
    then show ?thesis using False P by (cases "d = 99") auto
  qed
  have "0 \<le> d div 4" using P by (simp add: pos_imp_zdiv_nonneg_iff)
  then have "0 \<le> ?c" using P by linarith
  moreover have "4 * a = 146097 * b - b mod 4 + 4 * ?c" using quarter(1) [of b] by (simp add: a_def day_count_def)
  ultimately show "(4 * a + 3) div 146097 = b"
    by (intro div_between) (use top quarter [of b] in auto)
qed

text \<open>Every day has such parts.\<close>

lemma day_parts_exist:
  assumes "0 \<le> a"
  shows "\<exists>b d e. day_parts b d e \<and> a = day_count b d e"
proof -
  define b where "b = (4 * a + 3) div 146097"
  define c where "c = a - (36524 * b + b div 4)"
  define d where "d = (4 * c + 3) div 1461"
  define e where "e = c - (365 * d + d div 4)"
  have b0: "0 \<le> b" using assms by (simp add: b_def)
  have bb: "146097 * b \<le> 4 * a + 3" "4 * a + 3 < 146097 * b + 146097"
    unfolding b_def using div_bounds [of 146097 "4 * a + 3"] by auto
  have c4: "4 * c = 4 * a - 146097 * b + b mod 4" using quarter(1) [of b] by (simp add: c_def)
  have c0: "0 \<le> c" "c \<le> 36524" "c = 36524 \<longrightarrow> b mod 4 = 3"
    using c4 bb quarter(2,3) [of b] by auto
  have dd: "1461 * d \<le> 4 * c + 3" "4 * c + 3 < 1461 * d + 1461"
    unfolding d_def using div_bounds [of 1461 "4 * c + 3"] by auto
  have d0: "0 \<le> d" "d \<le> 99" using dd c0 by auto
  have e4: "4 * e = 4 * c - 1461 * d + d mod 4" using quarter(1) [of d] by (simp add: e_def)
  have e0: "0 \<le> e" "e \<le> 365" "e = 365 \<longrightarrow> d mod 4 = 3" using e4 dd quarter(2,3) [of d] by auto
  have "b mod 4 = 3" if "e = 365" "d = 99"
    using that e4 c0 by simp
  then have "day_parts b d e" using b0 d0 e0 by (simp add: day_parts_def)
  moreover have "a = day_count b d e" by (simp add: day_count_def e_def c_def)
  ultimately show ?thesis by blast
qed

lemma march_offset_bounds:
  assumes "0 \<le> e" and "e \<le> 365"
  shows "\<exists>m. 0 \<le> m \<and> m \<le> 11 \<and> march_offset m \<le> e \<and> e < march_offset (m + 1)"
proof -
  define q where "q = (5 * e + 2) div 153"
  have q: "153 * q \<le> 5 * e + 2" "5 * e + 2 < 153 * q + 153"
    unfolding q_def using div_bounds [of 153 "5 * e + 2"] by auto
  have r: "5 * march_offset q \<le> 153 * q + 2" "153 * (q + 1) + 2 < 5 * march_offset (q + 1) + 5"
    unfolding march_offset_def using div_bounds [of 5 "153 * q + 2"] div_bounds [of 5 "153 * (q + 1) + 2"] by auto
  have "0 \<le> q" "q \<le> 11" using q assms by auto
  moreover have "5 * march_offset q \<le> 5 * e + 4" using q(1) r(1) by linarith
  then have "march_offset q \<le> e" by simp
  moreover have "e < march_offset (q + 1)" using q(2) r(2) unfolding distrib_left by linarith
  ultimately show ?thesis by blast
qed

subsection \<open>The round trips\<close>

text \<open>
  A date in the code's intermediate terms: the year from March \<open>100 b + d\<close>, counted from \<open>- 4800\<close>, and the
  month \<open>q\<close> from March.
\<close>

lemma julian_parts:
  assumes "1 \<le> m" and "m \<le> 12" and "0 \<le> y + 4800 - (14 - m) div 12"
  defines "Y \<equiv> y + 4800 - (14 - m) div 12" and "q \<equiv> m + 12 * ((14 - m) div 12) - 3"
  shows "getJulianDayNumber y m dy + 32044 = day_count (Y div 100) (Y mod 100) (dy - 1 + march_offset q)"
    and "0 \<le> q" and "q \<le> 11" and "0 \<le> Y" and "(14 - m) div 12 = q div 10"
proof -
  have a: "(14 - m) div 12 = (if m \<le> 2 then 1 else 0)" using assms(1,2) by auto
  show q: "0 \<le> q" "q \<le> 11" using assms(1,2) by (auto simp: q_def a)
  show Y: "0 \<le> Y" unfolding Y_def by (rule assms(3))
  show "(14 - m) div 12 = q div 10" using assms(1,2) by (auto simp: q_def a)
  have Y4: "Y div 4 = 25 * (Y div 100) + Y mod 100 div 4"
    using div_mult_self2 [of 4 "Y mod 100" "25 * (Y div 100)"] mod_mult_div_eq [of Y 100] by simp
  have Y400: "Y div 400 = Y div 100 div 4" using zdiv_zmult2_eq [of 4 Y 100] by simp
  have a': "(14 - m) sdiv 12 = (14 - m) div 12" using assms(2) by (intro sdiv_nonneg) auto
  have "365 * Y = 36500 * (Y div 100) + 365 * (Y mod 100)" using mult_div_mod_eq [of 100 Y] by linarith
  moreover have "getJulianDayNumber y m dy = dy + (153 * q + 2) div 5 + Y * 365 + Y div 4 - Y div 100 + Y div 400 - 32045"
    unfolding getJulianDayNumber_def Let_def a' unfolding Y_def [symmetric] q_def [symmetric]
    using Y q by (simp add: sdiv_nonneg)
  ultimately show "getJulianDayNumber y m dy + 32044 = day_count (Y div 100) (Y mod 100) (dy - 1 + march_offset q)"
    by (simp add: day_count_def march_offset_def Y4 Y400)
qed

lemma leap_parts:
  assumes "0 \<le> d" and "d \<le> 99"
  shows "leap (100 * b + d - 4799) \<longleftrightarrow> d mod 4 = 3 \<and> (d = 99 \<longrightarrow> b mod 4 = 3)"
proof -
  have "100 * b + d - 4799 = (d + 1) + 100 * (b - 48)" by simp
  then have h: "(100 * b + d - 4799) mod 100 = (d + 1) mod 100" by (metis mod_mult_self2)
  have "100 * b + d - 4799 = (d + 1) + 4 * (25 * b - 1200)" by simp
  then have f: "(100 * b + d - 4799) mod 4 = (d + 1) mod 4" by (metis mod_mult_self2)
  have q: "(100 * b + 99 - 4799) mod 400 = 100 * ((b + 1) mod 4)"
  proof -
    have "100 * b + 99 - 4799 = 100 * (b + 1) + 400 * (- 12)" by simp
    then have "(100 * b + 99 - 4799) mod 400 = (100 * (b + 1)) mod 400" by (metis mod_mult_self2)
    also have "\<dots> = 100 * ((b + 1) mod 4)" using mult_mod_right [of 100 "b + 1" 4] by simp
    finally show ?thesis .
  qed
  have m: "(x + 1) mod 4 = 0 \<longleftrightarrow> x mod 4 = 3" for x :: int by presburger
  show ?thesis
  proof (cases "d = 99")
    case True
    then show ?thesis using h f q m [of b] by (simp add: leap_def)
  next
    case False
    then have "(d + 1) mod 100 \<noteq> 0" using assms by (simp add: mod_pos_pos_trivial)
    then show ?thesis using h f m [of d] False by (simp add: leap_def)
  qed
qed

text \<open>A date is one of the calendar exactly when its parts are parts of a day.\<close>

lemma valid_parts:
  assumes "0 \<le> b" and "0 \<le> d" and "d \<le> 99" and "0 \<le> q" and "q \<le> 11" and "march_offset q \<le> e"
  shows "day_parts b d e \<and> e < march_offset (q + 1) \<longleftrightarrow>
    e - march_offset q + 1 \<le> month_days (100 * b + d - 4800 + q div 10) (q + 3 - 12 * (q div 10))"
proof (cases "q = 11")
  case True
  have "e \<le> 365 \<and> (e = 365 \<longrightarrow> L) \<longleftrightarrow> e - 336 \<le> (if L then 29 else 28)" for L by (cases L) auto
  moreover have "337 \<le> e" "month_days (100 * b + d - 4800 + q div 10) (q + 3 - 12 * (q div 10)) = (if leap (100 * b + d - 4799) then 29 else 28)"
    using assms(6) True by (simp_all add: march_offset_def month_days_def)
  ultimately show ?thesis using assms(1-3) True unfolding leap_parts [OF assms(2,3), of b]
    by (simp add: march_offset_def day_parts_def; linarith)
next
  case False
  have "march_offset (q + 1) \<le> 337 \<and> 0 \<le> march_offset q \<and>
    month_days (100 * b + d - 4800 + q div 10) (q + 3 - 12 * (q div 10)) = march_offset (q + 1) - march_offset q"
    using march_cases [OF assms(4,5)] False by (elim insertE) (simp_all add: march_offset_def month_days_def)
  then show ?thesis using assms by (auto simp: day_parts_def)
qed

lemma getYearMonthDay_parts:
  assumes p: "day_parts b d e" and q: "0 \<le> q" "q \<le> 11" "march_offset q \<le> e" "e < march_offset (q + 1)"
  shows "getYearMonthDay (day_count b d e - 32044) =
    \<lparr>year = 100 * b + d - 4800 + q div 10, month = q + 3 - 12 * (q div 10), day = e - march_offset q + 1\<rparr>"
proof -
  note P = p [unfolded day_parts_def]
  let ?c = "365 * d + d div 4 + e"
  have n: "0 \<le> b div 4" "0 \<le> d div 4" using P by (simp_all add: pos_imp_zdiv_nonneg_iff)
  then have c: "0 \<le> ?c" using P by linarith
  have a: "0 \<le> day_count b d e" unfolding day_count_def using P n by linarith
  note u = day_parts_unique [OF p] march_month [OF q]
  have "(4 * day_count b d e + 3) sdiv 146097 = b" using a by (simp add: sdiv_nonneg u)
  moreover have "(b * 146097) sdiv 4 = (b * 146097) div 4" using P by (simp add: sdiv_nonneg)
  moreover have "(4 * ?c + 3) sdiv 1461 = d" using c by (subst sdiv_nonneg) (simp_all only: u, simp_all)
  moreover have "(1461 * d) sdiv 4 = (1461 * d) div 4" using P by (simp add: sdiv_nonneg)
  moreover have "(5 * e + 2) sdiv 153 = q" using P by (simp add: sdiv_nonneg u)
  moreover have "q sdiv 10 = q div 10" "(153 * q + 2) sdiv 5 = march_offset q"
    using q by (simp_all add: sdiv_nonneg march_offset_def)
  ultimately show ?thesis unfolding getYearMonthDay_def Let_def
    by (simp only: diff_add_cancel u) (simp add: mult.commute)
qed

lemma julian_of_date:
  assumes "day_range jd"
  shows "let ymd = getYearMonthDay jd in
    valid_date (year ymd) (month ymd) (day ymd) \<and> getJulianDayNumber (year ymd) (month ymd) (day ymd) = jd"
proof -
  have "0 \<le> jd + 32044" using assms by (simp add: day_range_def)
  then obtain b d e where p: "day_parts b d e" and a: "jd + 32044 = day_count b d e"
    using day_parts_exist by blast
  have "0 \<le> e" "e \<le> 365" and bd: "0 \<le> b" "0 \<le> d" "d \<le> 99" using p by (auto simp: day_parts_def)
  then obtain q where q: "0 \<le> q" "q \<le> 11" "march_offset q \<le> e" "e < march_offset (q + 1)"
    using march_offset_bounds by blast
  define y where "y = 100 * b + d - 4800 + q div 10"
  define m where "m = q + 3 - 12 * (q div 10)"
  have jd: "jd = day_count b d e - 32044" using a by simp
  have ymd: "getYearMonthDay jd = \<lparr>year = y, month = m, day = e - march_offset q + 1\<rparr>"
    unfolding jd y_def m_def by (rule getYearMonthDay_parts [OF p q])
  have m: "1 \<le> m" "m \<le> 12" "(14 - m) div 12 = q div 10" "m + 12 * (q div 10) - 3 = q"
    unfolding m_def using march_cases [OF q(1,2)] by (elim insertE; simp)+
  have "0 \<le> y + 4800 - (14 - m) div 12" using bd by (simp add: m(3) y_def)
  from julian_parts(1) [OF m(1,2) this, of "e - march_offset q + 1"]
  have "getJulianDayNumber y m (e - march_offset q + 1) + 32044 = day_count b d e"
    unfolding m(3,4) using bd by (simp add: y_def)
  moreover have "e - march_offset q + 1 \<le> month_days y m"
    using valid_parts [OF bd q(1,2,3)] p q(4) by (simp add: y_def m_def)
  ultimately show ?thesis using m q a by (simp add: ymd valid_date_def)
qed

lemma date_of_julian:
  assumes v: "valid_date y m d" and r: "- 4799 \<le> y"
  shows "getYearMonthDay (getJulianDayNumber y m d) = \<lparr>year = y, month = m, day = d\<rparr>"
proof -
  have m: "1 \<le> m" "m \<le> 12" and d: "1 \<le> d" "d \<le> month_days y m" using v by (auto simp: valid_date_def)
  define q where "q = m + 12 * ((14 - m) div 12) - 3"
  define Y where "Y = y + 4800 - (14 - m) div 12"
  have "(14 - m) div 12 \<le> 1" using m by simp
  then have Y0: "0 \<le> y + 4800 - (14 - m) div 12" using r by simp
  note j = julian_parts [OF m Y0, folded q_def Y_def]
  let ?e = "d - 1 + march_offset q"
  have m': "m = q + 3 - 12 * (q div 10)" using q_def j(5) by simp
  have y': "y = 100 * (Y div 100) + Y mod 100 - 4800 + q div 10" using Y_def j(5) by simp
  have B: "0 \<le> Y div 100" "0 \<le> Y mod 100" "Y mod 100 \<le> 99" using j(4) by (simp_all add: pos_imp_zdiv_nonneg_iff)
  have o: "march_offset q \<le> ?e" using d by simp
  have "day_parts (Y div 100) (Y mod 100) ?e \<and> ?e < march_offset (q + 1)"
    unfolding valid_parts [OF B j(2,3) o] using d(2) m' y' by (metis add_diff_cancel_right' diff_add_cancel)
  then have "getYearMonthDay (day_count (Y div 100) (Y mod 100) ?e - 32044) = \<lparr>year = y, month = m, day = d\<rparr>"
    using getYearMonthDay_parts [OF _ j(2,3) o] m' y' by simp
  then show ?thesis unfolding j(1) [of d, symmetric] by simp
qed

subsection \<open>The day after\<close>

definition next_day :: "YearMonthDay \<Rightarrow> YearMonthDay" where
  "next_day t = (if day t < month_days (year t) (month t) then t\<lparr>day := day t + 1\<rparr>
     else if month t < 12 then t\<lparr>month := month t + 1, day := 1\<rparr>
     else \<lparr>year = year t + 1, month = 1, day = 1\<rparr>)"

lemma day_count_next_year:
  assumes "0 \<le> d" "d \<le> 99"
  shows "day_count (if d = 99 then b + 1 else b) (if d = 99 then 0 else d + 1) e =
    day_count b d (365 + e + (if leap (100 * b + d - 4799) then 1 else 0))"
proof -
  have q: "(x + 1) div 4 = x div 4 + (if x mod 4 = 3 then 1 else 0)" for x :: int by presburger
  show ?thesis unfolding leap_parts [OF assms] day_count_def
    by (cases "d = 99") (auto simp: q)
qed

lemma julian_plus: "getJulianDayNumber y m (d + n) = getJulianDayNumber y m d + n"
  by (simp add: getJulianDayNumber_def Let_def)

text \<open>The first day of the next month follows the last day of the month.\<close>

lemma julian_next_month:
  assumes m: "1 \<le> m" "m \<le> 12" and y: "- 4799 \<le> y"
  shows "(if m < 12 then getJulianDayNumber y (m + 1) 1 else getJulianDayNumber (y + 1) 1 1) =
    getJulianDayNumber y m (month_days y m) + 1"
proof (cases "m = 2")
  case True
  define Y where "Y = 4799 + y"
  define b where "b = Y div 100"
  define d where "d = Y mod 100"
  have bd: "y = 100 * b + d - 4799" "0 \<le> d" "d \<le> 99" by (simp_all add: b_def d_def Y_def)
  have "getJulianDayNumber y 2 (month_days y 2) + 32044 = day_count b d (336 + month_days y 2)"
    using julian_parts(1) [of 2 y "month_days y 2"] y by (simp add: b_def d_def Y_def march_offset_def)
  moreover have "(Y + 1) div 100 = (if d = 99 then b + 1 else b)" "(Y + 1) mod 100 = (if d = 99 then 0 else d + 1)"
    using mult_div_mod_eq [of 100 Y] bd(2,3) unfolding b_def d_def
    by (auto intro!: div_between mod_between [of 100 "if d = 99 then b + 1 else b"] simp: b_def [symmetric] d_def [symmetric])
  then have "getJulianDayNumber y 3 1 + 32044 = day_count (if d = 99 then b + 1 else b) (if d = 99 then 0 else d + 1) 0"
    using julian_parts(1) [of 3 y 1] y by (simp add: Y_def march_offset_def algebra_simps)
  moreover have "month_days y 2 + 336 + 1 = 365 + (if leap y then 1 else 0)" by (simp add: month_days_def)
  ultimately show ?thesis using True day_count_next_year [OF bd(2,3), of b 0]
    by (simp add: bd(1) [symmetric] day_count_def split: if_splits)
next
  case False
  have "m \<in> {1, 3, 4, 5, 6, 7, 8, 9, 10, 11, 12}" using m False by (simp, presburger)
  then show ?thesis by (elim insertE) (simp_all add: getJulianDayNumber_def Let_def sdiv_nonneg month_days_def add.commute [of y])
qed

lemma getYearMonthDay_next:
  assumes r: "day_range jd" and y: "- 4799 \<le> year (getYearMonthDay jd)"
  shows "getYearMonthDay (jd + 1) = next_day (getYearMonthDay jd)"
proof -
  obtain y m d where t: "getYearMonthDay jd = \<lparr>year = y, month = m, day = d\<rparr>" by (metis YearMonthDay.cases)
  then have v: "valid_date y m d" and j: "getJulianDayNumber y m d = jd" and y: "- 4799 \<le> y"
    using julian_of_date [OF r] y by (auto simp: Let_def)
  have m: "1 \<le> m" "m \<le> 12" using v by (auto simp: valid_date_def)
  have one: "1 \<le> month_days y' m'" for y' m' by (simp add: month_days_def)
  show ?thesis
  proof (cases "d < month_days y m")
    case True
    then have "valid_date y m (d + 1)" using v by (simp add: valid_date_def)
    from date_of_julian [OF this y] show ?thesis using True by (simp add: julian_plus j t next_day_def)
  next
    case False
    then have d: "d = month_days y m" using v by (simp add: valid_date_def)
    note n = julian_next_month [OF m y, folded d, unfolded j]
    show ?thesis
    proof (cases "m < 12")
      case True
      then have "valid_date y (m + 1) 1" using m one by (simp add: valid_date_def)
      from date_of_julian [OF this y] show ?thesis using True False n by (simp add: t next_day_def)
    next
      case m12: False
      have "valid_date (y + 1) 1 1" using one by (simp add: valid_date_def)
      from date_of_julian [OF this] y show ?thesis using m12 False n by (simp add: t next_day_def)
    qed
  qed
qed

text \<open>C20: Date.cc converts between Julian day numbers and Gregorian dates exactly: for every day from 1 March
  -4800 on (up to the bound below which no int overflows) getYearMonthDay gives a date of the
  Gregorian calendar (a month from 1 to 12, a day within the length of that month, leap years
  included) and getJulianDayNumber gives the day back; the next day
  number is the next date of the calendar; and conversely every date of the calendar is given back
  by getYearMonthDay from its day number.\<close>

theorem julian_round_trip:
  shows "(day_range jd \<longrightarrow> (let ymd = getYearMonthDay jd in
       valid_date (year ymd) (month ymd) (day ymd) \<and> getJulianDayNumber (year ymd) (month ymd) (day ymd) = jd
       \<and> (year_range (year ymd) \<longrightarrow> getYearMonthDay (jd + 1) = next_day ymd)))
   \<and> (valid_date y m d \<and> year_range y \<longrightarrow> getYearMonthDay (getJulianDayNumber y m d) = \<lparr>year = y, month = m, day = d\<rparr>)"
  using julian_of_date date_of_julian getYearMonthDay_next unfolding year_range_def Let_def by blast

theorem julian_round_trip_witness:
  "kJulianDayOf1970_01_01 = 2440588 \<and> getYearMonthDay 2440588 = \<lparr>year = 1970, month = 1, day = 1\<rparr>
   \<and> getYearMonthDay (getJulianDayNumber 2000 2 29) = \<lparr>year = 2000, month = 2, day = 29\<rparr>"
proof -
  have e: "kJulianDayOf1970_01_01 = 2440588" by code_simp
  have "valid_date 1970 1 1 \<and> year_range 1970" "valid_date 2000 2 29 \<and> year_range 2000" by code_simp+
  then have "getYearMonthDay (getJulianDayNumber 1970 1 1) = \<lparr>year = 1970, month = 1, day = 1\<rparr>"
    and "getYearMonthDay (getJulianDayNumber 2000 2 29) = \<lparr>year = 2000, month = 2, day = 29\<rparr>"
    using julian_round_trip [of 0 1970 1 1] julian_round_trip [of 0 2000 2 29] by blast+
  then show ?thesis using e unfolding kJulianDayOf1970_01_01_def by simp
qed

end
