(* ===== verification/TimeZones.thy ===== *)
theory TimeZones
  imports Dates ByteOrder
begin

text \<open>
  \<^verbatim>\<open>muduo/base/TimeZone.{h,cc}\<close>: conversion between seconds since the epoch and broken-down time, in UTC
  and in a time zone read from a zone file.

  A file is the list of its bytes, and \<open>None\<close> when it cannot be opened. Memory does not run out. The
  functions \<^verbatim>\<open>gmtime_r\<close> and \<^verbatim>\<open>timegm\<close> of the C library are defined on the Gregorian calendar of
  \<^verbatim>\<open>Dates\<close>. A \<^verbatim>\<open>logic_error\<close> is \<open>Throw\<close>; what the reader had stored before it is kept.
\<close>

section \<open>Data\<close>

record Transition =
  gmttime :: int
  trans_localtime :: int
  localtimeIdx :: int

record Localtime =
  gmtOffset :: int
  isDst :: bool
  arrbIdx :: int

record TimeZoneData =
  transitions :: "Transition list"
  localtimes :: "Localtime list"
  tz_names :: "string list"
  tz_abbreviation :: string

record tm =
  tm_sec :: int
  tm_min :: int
  tm_hour :: int
  tm_mday :: int
  tm_mon :: int
  tm_year :: int
  tm_wday :: int
  tm_yday :: int
  tm_isdst :: int
  tm_gmtoff :: int
  tm_zone :: string

definition zero_tm :: tm where
  "zero_tm = \<lparr>tm_sec = 0, tm_min = 0, tm_hour = 0, tm_mday = 0, tm_mon = 0, tm_year = 0, tm_wday = 0, tm_yday = 0,
     tm_isdst = 0, tm_gmtoff = 0, tm_zone = ''''\<rparr>"

definition new_Data :: TimeZoneData where
  "new_Data = \<lparr>transitions = [], localtimes = [], tz_names = [], tz_abbreviation = ''''\<rparr>"

definition Comp_less :: "bool \<Rightarrow> Transition \<Rightarrow> Transition \<Rightarrow> bool" where
  "Comp_less compareGmt lhs rhs = (if compareGmt then gmttime lhs < gmttime rhs else trans_localtime lhs < trans_localtime rhs)"

definition Comp_equal :: "bool \<Rightarrow> Transition \<Rightarrow> Transition \<Rightarrow> bool" where
  "Comp_equal compareGmt lhs rhs = (if compareGmt then gmttime lhs = gmttime rhs else trans_localtime lhs = trans_localtime rhs)"

definition kSecondsPerDay :: int where
  "kSecondsPerDay = 24 * 60 * 60"

definition fillHMS :: "int \<Rightarrow> tm \<Rightarrow> tm" where
  "fillHMS seconds utc =
     (let minutes = seconds div 60
      in utc\<lparr>tm_sec := seconds mod 60, tm_min := minutes mod 60, tm_hour := minutes div 60\<rparr>)"

section \<open>The zone file\<close>

type_synonym bytes = "char list"

definition readBytes :: "int \<Rightarrow> bytes \<Rightarrow> (bytes \<times> bytes) outcome" where
  "readBytes n f =
     (if n < 0 then Abort (Undefined ''array of negative size'')
      else if length f < nat n then Abort (Throw ''no enough data'')
      else Ret (take (nat n) f, drop (nat n) f))"

definition File_readInt32 :: "bytes \<Rightarrow> (int \<times> bytes) outcome" where
  "File_readInt32 f =
     (if length f < 4 then Abort (Throw ''bad int32_t data'')
      else Ret (sint (networkToHost32 (word_of_nat (le_val (take 4 f)))), drop 4 f))"

definition readUInt8 :: "bytes \<Rightarrow> (int \<times> bytes) outcome" where
  "readUInt8 f = (case f of [] \<Rightarrow> Abort (Throw ''bad uint8_t data'') | c # cs \<Rightarrow> Ret (int (of_char c), cs))"

text \<open>The loops that read \<open>n\<close> values into a local vector.\<close>

fun read_many :: "(bytes \<Rightarrow> (int \<times> bytes) outcome) \<Rightarrow> nat \<Rightarrow> bytes \<Rightarrow> (int list \<times> bytes) outcome" where
  "read_many rd 0 f = Ret ([], f)"
| "read_many rd (Suc n) f =
     bindo (rd f) (\<lambda>(x, f). bindo (read_many rd n f) (\<lambda>(xs, f). Ret (x # xs, f)))"

text \<open>The header: the magic number, and six counters of which the reader uses three.\<close>

definition read_header :: "bytes \<Rightarrow> ((int \<times> int \<times> int) \<times> bytes) outcome" where
  "read_header f =
     bindo (readBytes 4 f) (\<lambda>(head, f).
     if head \<noteq> ''TZif'' then Abort (Throw ''bad head'')
     else bindo (readBytes 1 f) (\<lambda>(version, f).
          bindo (readBytes 15 f) (\<lambda>(_, f).
          bindo (File_readInt32 f) (\<lambda>(isgmtcnt, f).
          bindo (File_readInt32 f) (\<lambda>(isstdcnt, f).
          bindo (File_readInt32 f) (\<lambda>(leapcnt, f).
          bindo (File_readInt32 f) (\<lambda>(timecnt, f).
          bindo (File_readInt32 f) (\<lambda>(typecnt, f).
          bindo (File_readInt32 f) (\<lambda>(charcnt, f).
          Ret ((timecnt, typecnt, charcnt), f))))))))))"

text \<open>The transition times and the indices of their types; a negative count makes \<^verbatim>\<open>reserve\<close> throw
  \<^verbatim>\<open>length_error\<close>, which is a \<^verbatim>\<open>logic_error\<close>.\<close>

definition read_transitions :: "int \<Rightarrow> bytes \<Rightarrow> ((int list \<times> int list) \<times> bytes) outcome" where
  "read_transitions timecnt f =
     (if timecnt < 0 then Abort (Throw ''vector::reserve'')
      else bindo (read_many File_readInt32 (nat timecnt) f) (\<lambda>(trans, f).
           bindo (read_many readUInt8 (nat timecnt) f) (\<lambda>(idx, f). Ret ((trans, idx), f))))"

text \<open>The local time types go straight into the object, so that those read before a short read stay.\<close>

definition read_type :: "bytes \<Rightarrow> (Localtime \<times> bytes) outcome" where
  "read_type f =
     bindo (File_readInt32 f) (\<lambda>(gmtoff, f).
     bindo (readUInt8 f) (\<lambda>(isdst, f).
     bindo (readUInt8 f) (\<lambda>(abbrind, f).
     Ret (\<lparr>gmtOffset = gmtoff, isDst = (isdst \<noteq> 0), arrbIdx = abbrind\<rparr>, f))))"

fun read_types :: "nat \<Rightarrow> bytes \<Rightarrow> TimeZoneData \<Rightarrow> TimeZoneData \<times> bytes outcome" where
  "read_types 0 f d = (d, Ret f)"
| "read_types (Suc n) f d =
     (case read_type f of
        Abort e \<Rightarrow> (d, Abort e)
      | Ret (t, f) \<Rightarrow> read_types n f (d\<lparr>localtimes := localtimes d @ [t]\<rparr>))"

fun push_transitions :: "int list \<Rightarrow> int list \<Rightarrow> TimeZoneData \<Rightarrow> TimeZoneData outcome" where
  "push_transitions (t # ts) (localIdx # idxs) d =
     (if nat localIdx < length (localtimes d)
      then push_transitions ts idxs
             (d\<lparr>transitions := transitions d @ [\<lparr>gmttime = t, trans_localtime = t + gmtOffset (localtimes d ! nat localIdx),
                  localtimeIdx = localIdx\<rparr>]\<rparr>)
      else Abort (Undefined ''localtimes[localIdx]''))"
| "push_transitions _ _ d = Ret d"

text \<open>\<^verbatim>\<open>catch (logic_error &)\<close>: the data stays as the statements before the throw left it.\<close>

definition catch_logic_error :: "'a \<Rightarrow> 'a outcome \<Rightarrow> 'a outcome" where
  "catch_logic_error d r = (case r of Abort (Throw e) \<Rightarrow> Ret d | _ \<Rightarrow> r)"

definition readTimeZoneFile :: "bytes option \<Rightarrow> TimeZoneData \<Rightarrow> (bool \<times> TimeZoneData) outcome" where
  "readTimeZoneFile zonefile data =
     (case zonefile of
        None \<Rightarrow> Ret (True, data)
      | Some f \<Rightarrow>
          bindo (catch_logic_error data
            (bindo (read_header f) (\<lambda>((timecnt, typecnt, charcnt), f).
             bindo (read_transitions timecnt f) (\<lambda>((trans, idx), f).
             case read_types (nat typecnt) f data of
               (data, Abort e) \<Rightarrow> catch_logic_error data (Abort e)
             | (data, Ret f) \<Rightarrow>
                 bindo (push_transitions trans idx data) (\<lambda>data.
                 catch_logic_error data (bindo (readBytes charcnt f) (\<lambda>(abbr, f). Ret (data\<lparr>tz_abbreviation := abbr\<rparr>))))))))
          (\<lambda>data. Ret (True, data)))"

section \<open>Lookup\<close>

text \<open>\<^verbatim>\<open>std::lower_bound\<close>: \<open>first\<close> and \<open>len\<close> are the variables of its loop.\<close>

function lower_bound_loop :: "('a \<Rightarrow> 'a \<Rightarrow> bool) \<Rightarrow> 'a list \<Rightarrow> 'a \<Rightarrow> nat \<Rightarrow> nat \<Rightarrow> nat" where
  "lower_bound_loop cmp xs v first len =
     (if len = 0 then first
      else let half = len div 2; middle = first + half
           in if cmp (xs ! middle) v then lower_bound_loop cmp xs v (middle + 1) (len - half - 1)
              else lower_bound_loop cmp xs v first half)"
  by pat_completeness auto

termination by (relation "measure (\<lambda>(_, _, _, _, len). len)") (auto simp: Let_def)

declare lower_bound_loop.simps [simp del]

definition lower_bound :: "('a \<Rightarrow> 'a \<Rightarrow> bool) \<Rightarrow> 'a list \<Rightarrow> 'a \<Rightarrow> nat" where
  "lower_bound cmp xs v = lower_bound_loop cmp xs v 0 (length xs)"

definition localtime_at :: "TimeZoneData \<Rightarrow> int \<Rightarrow> Localtime outcome" where
  "localtime_at data i =
     (if 0 \<le> i \<and> nat i < length (localtimes data) then Ret (localtimes data ! nat i)
      else Abort (Undefined ''localtimes[localtimeIdx]''))"

definition findLocaltime :: "TimeZoneData \<Rightarrow> Transition \<Rightarrow> bool \<Rightarrow> Localtime outcome" where
  "findLocaltime data sentry cmp =
     (if transitions data = [] \<or> Comp_less cmp sentry (hd (transitions data))
      then localtime_at data 0
      else let transI = lower_bound (Comp_less cmp) (transitions data) sentry
           in if transI \<noteq> length (transitions data)
              then if \<not> Comp_equal cmp sentry (transitions data ! transI)
                   then require (transI \<noteq> 0) ''transI != data.transitions.begin()''
                          (localtime_at data (localtimeIdx (transitions data ! (transI - 1))))
                   else localtime_at data (localtimeIdx (transitions data ! transI))
              else localtime_at data (localtimeIdx (last (transitions data))))"

section \<open>UTC\<close>

definition toUtcTime :: "int \<Rightarrow> bool \<Rightarrow> tm" where
  "toUtcTime sinceEpoch yday =
     (let utc = zero_tm\<lparr>tm_zone := ''GMT''\<rparr>;
          seconds = sinceEpoch smod kSecondsPerDay;
          days = sinceEpoch sdiv kSecondsPerDay;
          (seconds, days) = (if seconds < 0 then (seconds + kSecondsPerDay, days - 1) else (seconds, days));
          utc = fillHMS seconds utc;
          date = days + kJulianDayOf1970_01_01;
          ymd = getYearMonthDay date;
          utc = utc\<lparr>tm_year := year ymd - 1900, tm_mon := month ymd - 1, tm_mday := day ymd, tm_wday := weekDay date\<rparr>
      in if yday then utc\<lparr>tm_yday := date - getJulianDayNumber (year ymd) 1 1\<rparr> else utc)"

definition fromUtcTime_ymd :: "int \<Rightarrow> int \<Rightarrow> int \<Rightarrow> int \<Rightarrow> int \<Rightarrow> int \<Rightarrow> int" where
  "fromUtcTime_ymd yr mon dy hour minute seconds =
     (let date = getJulianDayNumber yr mon dy;
          secondsInDay = hour * 3600 + minute * 60 + seconds;
          days = date - kJulianDayOf1970_01_01
      in days * kSecondsPerDay + secondsInDay)"

definition fromUtcTime :: "tm \<Rightarrow> int" where
  "fromUtcTime utc = fromUtcTime_ymd (tm_year utc + 1900) (tm_mon utc + 1) (tm_mday utc) (tm_hour utc) (tm_min utc) (tm_sec utc)"

text \<open>The C library: the calendar date and the time of day, by division that rounds down.\<close>

definition gmtime_r :: "int \<Rightarrow> tm" where
  "gmtime_r s =
     (let date = s div 86400 + kJulianDayOf1970_01_01; ymd = getYearMonthDay date; r = s mod 86400
      in \<lparr>tm_sec = r mod 60, tm_min = r div 60 mod 60, tm_hour = r div 3600, tm_mday = day ymd, tm_mon = month ymd - 1,
          tm_year = year ymd - 1900, tm_wday = (date + 1) mod 7, tm_yday = date - getJulianDayNumber (year ymd) 1 1,
          tm_isdst = 0, tm_gmtoff = 0, tm_zone = ''GMT''\<rparr>)"

definition timegm :: "tm \<Rightarrow> int" where
  "timegm t = (getJulianDayNumber (tm_year t + 1900) (tm_mon t + 1) (tm_mday t) - kJulianDayOf1970_01_01) * 86400
     + tm_hour t * 3600 + tm_min t * 60 + tm_sec t"

section \<open>Local time\<close>

definition TimeZone_file :: "bytes option \<Rightarrow> TimeZoneData option outcome" where
  "TimeZone_file zonefile =
     bindo (readTimeZoneFile zonefile new_Data) (\<lambda>(ok, data). Ret (if \<not> ok then None else Some data))"

definition TimeZone_fixed :: "int \<Rightarrow> string \<Rightarrow> TimeZoneData option" where
  "TimeZone_fixed eastOfUtc name =
     Some (new_Data\<lparr>localtimes := [\<lparr>gmtOffset = eastOfUtc, isDst = False, arrbIdx = 0\<rparr>], tz_abbreviation := name\<rparr>)"

text \<open>\<^verbatim>\<open>&data.abbreviation[i]\<close> as a null-terminated string.\<close>

definition zone_name :: "TimeZoneData \<Rightarrow> int \<Rightarrow> string outcome" where
  "zone_name data i =
     (if 0 \<le> i \<and> nat i \<le> length (tz_abbreviation data) then Ret (takeWhile (\<lambda>c. c \<noteq> CHR 0x00) (drop (nat i) (tz_abbreviation data)))
      else Abort (Undefined ''abbreviation[arrbIdx]''))"

definition toLocalTime :: "TimeZoneData option \<Rightarrow> int \<Rightarrow> tm outcome" where
  "toLocalTime data' seconds =
     (case data' of
        None \<Rightarrow> Abort (AssertFail ''data_ != NULL'')
      | Some data \<Rightarrow>
          let sentry = \<lparr>gmttime = seconds, trans_localtime = 0, localtimeIdx = 0\<rparr> in
          bindo (findLocaltime data sentry True) (\<lambda>local.
          let localSeconds = seconds + gmtOffset local in
          bindo (zone_name data (arrbIdx local)) (\<lambda>zone.
          Ret ((gmtime_r localSeconds)\<lparr>tm_isdst := (if isDst local then 1 else 0), tm_gmtoff := gmtOffset local, tm_zone := zone\<rparr>))))"

definition fromLocalTime :: "TimeZoneData option \<Rightarrow> tm \<Rightarrow> int outcome" where
  "fromLocalTime data' localTm =
     (case data' of
        None \<Rightarrow> Abort (AssertFail ''data_ != NULL'')
      | Some data \<Rightarrow>
          let seconds = timegm localTm; sentry = \<lparr>gmttime = 0, trans_localtime = seconds, localtimeIdx = 0\<rparr> in
          bindo (findLocaltime data sentry False) (\<lambda>local.
          bindo
            (if tm_isdst localTm \<noteq> 0
             then bindo (toLocalTime data' (seconds - gmtOffset local)) (\<lambda>tryTm.
                  Ret (if tm_isdst tryTm = 0 \<and> tm_hour tryTm = tm_hour localTm \<and> tm_min tryTm = tm_min localTm
                       then seconds - 3600 else seconds))
             else Ret seconds)
            (\<lambda>seconds. Ret (seconds - gmtOffset local))))"

section \<open>Formatted time stamps\<close>

definition Timestamp_toFormattedString :: "int \<Rightarrow> bool \<Rightarrow> string" where
  "Timestamp_toFormattedString us showMicroseconds =
     (let seconds = us sdiv kMicroSecondsPerSecond;
          tm_time = gmtime_r seconds;
          head = pad CHR '' '' 4 (dec_int (tm_year tm_time + 1900)) @ zero_pad 2 (tm_mon tm_time + 1) @ zero_pad 2 (tm_mday tm_time)
            @ '' '' @ zero_pad 2 (tm_hour tm_time) @ '':'' @ zero_pad 2 (tm_min tm_time) @ '':'' @ zero_pad 2 (tm_sec tm_time)
      in if showMicroseconds
         then let microseconds = us smod kMicroSecondsPerSecond in snprintf 64 (head @ ''.'' @ zero_pad 6 microseconds)
         else snprintf 64 head)"

section \<open>UTC conversion\<close>

definition day_of :: "int \<Rightarrow> int" where
  "day_of s = s div 86400 + 2440588"

lemma kJulian_1970 [simp]: "kJulianDayOf1970_01_01 = 2440588"
  by (simp add: kJulianDayOf1970_01_01_def getJulianDayNumber_def Let_def sdiv_nonneg)

text \<open>Truncating division followed by the correction for negative times rounds down.\<close>

lemma sdiv_floor:
  assumes "0 < (k :: int)"
  shows "(if s smod k < 0 then (s smod k + k, s sdiv k - 1) else (s smod k, s sdiv k)) = (s mod k, s div k)"
proof (cases "0 \<le> s")
  case True
  then show ?thesis using assms by (simp add: sdiv_nonneg smod_nonneg not_less)
next
  case False
  then have d: "s sdiv k = - ((- s) div k)" using assms by (simp add: signed_divide_int_def sgn_if)
  then have m: "s smod k = - ((- s) mod k)" using False assms by (simp add: signed_modulo_int_def sgn_if)
  show ?thesis
  proof (cases "(- s) mod k = 0")
    case True
    then have "k dvd s" by (simp add: mod_eq_0_iff_dvd)
    then show ?thesis using True by (simp add: d m dvd_neg_div)
  next
    case False
    then have "0 < (- s) mod k" using pos_mod_sign [OF assms, of "- s"] by linarith
    then show ?thesis using False assms by (simp add: d m zmod_zminus1_eq_if zdiv_zminus1_eq_if split: if_splits)
  qed
qed

lemma toUtcTime_unfold:
  "toUtcTime s yday = (let ymd = getYearMonthDay (day_of s) in
     \<lparr>tm_sec = s mod 86400 mod 60, tm_min = s mod 86400 div 60 mod 60, tm_hour = s mod 86400 div 60 div 60,
      tm_mday = day ymd, tm_mon = month ymd - 1, tm_year = year ymd - 1900, tm_wday = weekDay (day_of s),
      tm_yday = (if yday then day_of s - getJulianDayNumber (year ymd) 1 1 else 0), tm_isdst = 0, tm_gmtoff = 0, tm_zone = ''GMT''\<rparr>)"
proof -
  have "kSecondsPerDay = 86400" "(0 :: int) < 86400" by (simp_all add: kSecondsPerDay_def)
  then show ?thesis unfolding toUtcTime_def Let_def by (simp only: sdiv_floor prod.case)
      (simp add: fillHMS_def zero_tm_def day_of_def Let_def)
qed

text \<open>A broken-down time that names a second of the calendar, and the fields that name it.\<close>

definition tm_ok :: "tm \<Rightarrow> bool" where
  "tm_ok t \<longleftrightarrow> valid_date (tm_year t + 1900) (tm_mon t + 1) (tm_mday t) \<and> 0 \<le> tm_hour t \<and> tm_hour t < 24
     \<and> 0 \<le> tm_min t \<and> tm_min t < 60 \<and> 0 \<le> tm_sec t \<and> tm_sec t < 60"

definition tm_clock :: "tm \<Rightarrow> int \<times> int \<times> int \<times> int \<times> int \<times> int" where
  "tm_clock t = (tm_year t, tm_mon t, tm_mday t, tm_hour t, tm_min t, tm_sec t)"

lemma hms_join:
  fixes r :: int
  shows "r div 60 div 60 * 3600 + r div 60 mod 60 * 60 + r mod 60 = r"
  using mult_div_mod_eq [of 60 r] mult_div_mod_eq [of 60 "r div 60"] by linarith

lemma hms_split:
  fixes h m s :: int
  assumes "0 \<le> m" "m < 60" "0 \<le> s" "s < 60"
  shows "(h * 3600 + m * 60 + s) mod 60 = s" "(h * 3600 + m * 60 + s) div 60 mod 60 = m" "(h * 3600 + m * 60 + s) div 60 div 60 = h"
proof -
  show "(h * 3600 + m * 60 + s) mod 60 = s" by (rule mod_between [of _ "h * 60 + m"]) (use assms in auto)
  have d: "(h * 3600 + m * 60 + s) div 60 = h * 60 + m" by (rule div_between) (use assms in auto)
  show "(h * 3600 + m * 60 + s) div 60 mod 60 = m" unfolding d by (rule mod_between [of _ h]) (use assms in auto)
  show "(h * 3600 + m * 60 + s) div 60 div 60 = h" unfolding d by (rule div_between) (use assms in auto)
qed

lemma utc_of_seconds:
  assumes "day_range (day_of s)"
  shows "tm_ok (toUtcTime s yday) \<and> fromUtcTime (toUtcTime s yday) = s"
proof -
  obtain y m d where t: "getYearMonthDay (day_of s) = \<lparr>year = y, month = m, day = d\<rparr>" by (metis YearMonthDay.cases)
  then have v: "valid_date y m d" and j: "getJulianDayNumber y m d = day_of s"
    using julian_of_date [OF assms] by (auto simp: Let_def)
  have day_join: "day_of s * 86400 - 210866803200 + s mod 86400 = s"
    using mult_div_mod_eq [of 86400 s] by (simp add: day_of_def algebra_simps)
  have r: "0 \<le> s mod 86400" "s mod 86400 < 86400" by simp_all
  have "s mod 86400 div 60 div 60 < 24" using r(2) by simp
  moreover have "0 \<le> s mod 86400 div 60 div 60" using r(1) by (simp add: pos_imp_zdiv_nonneg_iff)
  ultimately have "tm_ok (toUtcTime s yday)" using v by (simp add: toUtcTime_unfold t tm_ok_def)
  moreover have "fromUtcTime (toUtcTime s yday) = s"
    using hms_join [of "s mod 86400"] day_join
    by (simp add: toUtcTime_unfold t fromUtcTime_def fromUtcTime_ymd_def Let_def j kSecondsPerDay_def)
  ultimately show ?thesis by blast
qed

lemma seconds_of_utc:
  assumes ok: "tm_ok t" and y: "- 4799 \<le> tm_year t + 1900"
  shows "tm_clock (toUtcTime (fromUtcTime t) yday) = tm_clock t"
proof -
  let ?r = "tm_hour t * 3600 + tm_min t * 60 + tm_sec t"
  let ?j = "getJulianDayNumber (tm_year t + 1900) (tm_mon t + 1) (tm_mday t)"
  note b = ok [unfolded tm_ok_def]
  have r: "0 \<le> ?r" "?r < 86400" using b by auto
  have s: "fromUtcTime t = (?j - 2440588) * 86400 + ?r"
    by (simp add: fromUtcTime_def fromUtcTime_ymd_def Let_def kSecondsPerDay_def)
  have d: "fromUtcTime t div 86400 = ?j - 2440588" by (rule div_between) (use r s in linarith)+
  have m: "fromUtcTime t mod 86400 = ?r" by (rule mod_between [of _ "?j - 2440588"]) (use r s in linarith)+
  have g: "getYearMonthDay (day_of (fromUtcTime t)) = \<lparr>year = tm_year t + 1900, month = tm_mon t + 1, day = tm_mday t\<rparr>"
    unfolding day_of_def d using date_of_julian [OF _ y] b by simp
  show ?thesis using hms_split [of "tm_min t" "tm_sec t" "tm_hour t"] b
    unfolding toUtcTime_unfold Let_def m g tm_clock_def by simp
qed

lemma toUtcTime_gmtime: "- 1 \<le> day_of s \<Longrightarrow> toUtcTime s True = gmtime_r s"
  by (simp add: toUtcTime_unfold gmtime_r_def Let_def day_of_def weekDay_def kDaysPerWeek_def smod_nonneg zdiv_zmult2_eq [of 60 _ 60, simplified])

text \<open>Conversion between seconds since the epoch and broken-down UTC time (TimeZone::toUtcTime and fromUtcTime) is a
  round trip in both directions. For every time whose day is in the range of the calendar, negative times
  included, toUtcTime gives a date of the calendar and a time of day in range, and fromUtcTime gives the
  time back; every valid date and time of day is given back by toUtcTime; and toUtcTime with yday gives what gmtime_r does.\<close>

theorem utc_round_trip:
  "(day_range (day_of s) \<longrightarrow> tm_ok (toUtcTime s yday) \<and> fromUtcTime (toUtcTime s yday) = s
      \<and> (- 1 \<le> day_of s \<longrightarrow> toUtcTime s True = gmtime_r s))
   \<and> (tm_ok t \<and> year_range (tm_year t + 1900) \<longrightarrow> tm_clock (toUtcTime (fromUtcTime t) yday) = tm_clock t)"
  using utc_of_seconds seconds_of_utc toUtcTime_gmtime unfolding year_range_def by blast

theorem utc_round_trip_witness:
  "tm_clock (toUtcTime (- 1) False) = (69, 11, 31, 23, 59, 59) \<and> fromUtcTime (toUtcTime (- 1) False) = - 1"
proof -
  have "day_range (day_of (- 1))" by (simp add: day_of_def day_range_def)
  then have "fromUtcTime (toUtcTime (- 1) False) = - 1" using utc_round_trip [of "- 1" False] by blast
  moreover have "tm_clock (toUtcTime (- 1) False) = (69, 11, 31, 23, 59, 59)"
    by (simp add: toUtcTime_unfold day_of_def getYearMonthDay_def Let_def sdiv_nonneg tm_clock_def)
  ultimately show ?thesis by blast
qed

section \<open>The lookup of a local time type\<close>

text \<open>\<open>r\<close> splits the range \<open>[first, last)\<close> into elements below the sought value and the others.\<close>

definition splits_at :: "(nat \<Rightarrow> bool) \<Rightarrow> nat \<Rightarrow> nat \<Rightarrow> nat \<Rightarrow> bool" where
  "splits_at P first lst r \<longleftrightarrow> first \<le> r \<and> r \<le> lst \<and> (\<forall>i\<in>{first..<r}. P i) \<and> (\<forall>i\<in>{r..<lst}. \<not> P i)"

lemma splits_at_right: "splits_at P (m + 1) lst r \<Longrightarrow> \<forall>i\<in>{first..m}. P i \<Longrightarrow> first \<le> m \<Longrightarrow> splits_at P first lst r"
  unfolding splits_at_def by (auto simp: not_less_eq_eq)

lemma splits_at_left: "splits_at P first m r \<Longrightarrow> \<forall>i\<in>{m..<lst}. \<not> P i \<Longrightarrow> m \<le> lst \<Longrightarrow> splits_at P first lst r"
  unfolding splits_at_def by auto

lemma lower_bound_loop_spec:
  assumes mono: "\<And>i j. i \<le> j \<Longrightarrow> j < first + len \<Longrightarrow> cmp (xs ! j) v \<Longrightarrow> cmp (xs ! i) v"
  shows "splits_at (\<lambda>i. cmp (xs ! i) v) first (first + len) (lower_bound_loop cmp xs v first len)"
  using mono
proof (induction cmp xs v first len rule: lower_bound_loop.induct)
  case (1 cmp xs v first len)
  show ?case
  proof (cases "len = 0")
    case True
    then show ?thesis by (simp add: lower_bound_loop.simps splits_at_def)
  next
    case False
    define mid where "mid = first + len div 2"
    have mid: "first \<le> mid" "mid < first + len" using False by (auto simp: mid_def)
    show ?thesis
    proof (cases "cmp (xs ! mid) v")
      case True
      have e: "mid + 1 + (len - len div 2 - 1) = first + len" using mid by (auto simp: mid_def)
      have "lower_bound_loop cmp xs v first len = lower_bound_loop cmp xs v (mid + 1) (len - len div 2 - 1)"
        using False True by (simp add: lower_bound_loop.simps [of _ _ _ first] Let_def mid_def)
      moreover have "splits_at (\<lambda>i. cmp (xs ! i) v) (mid + 1) (first + len) (lower_bound_loop cmp xs v (mid + 1) (len - len div 2 - 1))"
        using "1.IH"(1) [OF False refl mid_def True] "1.prems" unfolding e by blast
      moreover have "\<forall>i\<in>{first..mid}. cmp (xs ! i) v" using "1.prems" True mid(2) by auto
      ultimately show ?thesis using mid(1) by (simp add: splits_at_right)
    next
      case False': False
      have "lower_bound_loop cmp xs v first len = lower_bound_loop cmp xs v first (len div 2)"
        using False False' by (simp add: lower_bound_loop.simps [of _ _ _ first] Let_def mid_def)
      moreover have "splits_at (\<lambda>i. cmp (xs ! i) v) first mid (lower_bound_loop cmp xs v first (len div 2))"
        using "1.IH"(2) [OF False refl mid_def False'] "1.prems" mid(2) unfolding mid_def by (meson less_trans)
      moreover have "\<forall>i\<in>{mid..<first + len}. \<not> cmp (xs ! i) v" using False' "1.prems" by auto
      ultimately show ?thesis using mid(2) by (simp add: splits_at_left)
    qed
  qed
qed

text \<open>The key by which transitions are ordered, and the type in force at a time: that of the last transition
  not after it, or the first type.\<close>

definition trans_key :: "bool \<Rightarrow> Transition \<Rightarrow> int" where
  "trans_key gmt t = (if gmt then gmttime t else trans_localtime t)"

definition type_at :: "TimeZoneData \<Rightarrow> bool \<Rightarrow> int \<Rightarrow> int" where
  "type_at data gmt s = (case filter (\<lambda>t. trans_key gmt t \<le> s) (transitions data) of [] \<Rightarrow> 0 | ts \<Rightarrow> localtimeIdx (last ts))"

definition ordered_by :: "bool \<Rightarrow> TimeZoneData \<Rightarrow> bool" where
  "ordered_by gmt data \<longleftrightarrow> sorted_wrt (\<lambda>a b. trans_key gmt a < trans_key gmt b) (transitions data)"

lemma Comp_key: "Comp_less gmt a b \<longleftrightarrow> trans_key gmt a < trans_key gmt b" "Comp_equal gmt a b \<longleftrightarrow> trans_key gmt a = trans_key gmt b"
  by (simp_all add: Comp_less_def Comp_equal_def trans_key_def)

lemma filter_prefix:
  assumes "n \<le> length xs" and "\<forall>i<n. P (xs ! i)" and "\<forall>i. n \<le> i \<longrightarrow> i < length xs \<longrightarrow> \<not> P (xs ! i)"
  shows "filter P xs = take n xs"
proof -
  have "filter P (take n xs) = take n xs" using assms(1,2) by (auto simp: filter_id_conv in_set_conv_nth)
  moreover have "filter P (drop n xs) = []" using assms(1,3) by (auto simp: filter_empty_conv in_set_conv_nth)
  ultimately show ?thesis by (metis append_Nil2 append_take_drop_id filter_append)
qed

lemma ordered_byD:
  assumes "ordered_by gmt data" and "i < j" and "j < length (transitions data)"
  shows "trans_key gmt (transitions data ! i) < trans_key gmt (transitions data ! j)"
  using assms by (simp add: ordered_by_def sorted_wrt_iff_nth_less)

lemma ordered_by_le:
  "ordered_by gmt data \<Longrightarrow> i \<le> j \<Longrightarrow> j < length (transitions data) \<Longrightarrow> trans_key gmt (transitions data ! i) \<le> trans_key gmt (transitions data ! j)"
  by (metis le_less order_refl ordered_byD)

text \<open>Where the binary search ends.\<close>

lemma transition_search:
  fixes sentry :: Transition
  assumes ord: "ordered_by gmt data"
  defines "r \<equiv> lower_bound (Comp_less gmt) (transitions data) sentry"
  shows "r \<le> length (transitions data)" and "\<forall>i<r. trans_key gmt (transitions data ! i) < trans_key gmt sentry"
    and "\<forall>i. r \<le> i \<longrightarrow> i < length (transitions data) \<longrightarrow> trans_key gmt sentry \<le> trans_key gmt (transitions data ! i)"
proof -
  have "splits_at (\<lambda>i. Comp_less gmt (transitions data ! i) sentry) 0 (0 + length (transitions data)) r"
    unfolding r_def lower_bound_def
  proof (rule lower_bound_loop_spec)
    fix i j assume "i \<le> j" "j < 0 + length (transitions data)" "Comp_less gmt (transitions data ! j) sentry"
    then show "Comp_less gmt (transitions data ! i) sentry" using ordered_by_le [OF ord, of i j] by (simp add: Comp_key)
  qed
  then show "r \<le> length (transitions data)" "\<forall>i<r. trans_key gmt (transitions data ! i) < trans_key gmt sentry"
    "\<forall>i. r \<le> i \<longrightarrow> i < length (transitions data) \<longrightarrow> trans_key gmt sentry \<le> trans_key gmt (transitions data ! i)"
    by (auto simp: splits_at_def Comp_key not_less)
qed

lemma type_at_prefix:
  assumes f: "filter (\<lambda>t. trans_key gmt t \<le> k) (transitions data) = take n (transitions data)" and n: "0 < n" "n \<le> length (transitions data)"
  shows "type_at data gmt k = localtimeIdx (transitions data ! (n - 1))"
proof -
  have "take n (transitions data) = take (n - 1) (transitions data) @ [transitions data ! (n - 1)]"
    using n take_pred_drop [of "n - 1" "transitions data"] by simp
  moreover have "(case xs @ [x] of [] \<Rightarrow> 0 | y # ys \<Rightarrow> localtimeIdx (last (y # ys))) = localtimeIdx x" for xs x
    by (cases xs) simp_all
  ultimately show ?thesis unfolding type_at_def f by simp
qed

lemma type_at_before:
  assumes "ordered_by gmt data" and "transitions data = [] \<or> k < trans_key gmt (hd (transitions data))"
  shows "filter (\<lambda>t. trans_key gmt t \<le> k) (transitions data) = []"
proof -
  have "\<not> trans_key gmt t \<le> k" if t: "t \<in> set (transitions data)" for t
  proof -
    obtain i where "i < length (transitions data)" "t = transitions data ! i" using t by (auto simp: in_set_conv_nth)
    then show ?thesis using ordered_by_le [OF assms(1), of 0 i] assms(2) by (cases "transitions data = []") (simp_all add: hd_conv_nth)
  qed
  then show ?thesis by (simp add: filter_empty_conv)
qed

lemma findLocaltime_type_at:
  assumes ord: "ordered_by gmt data"
  shows "findLocaltime data sentry gmt = localtime_at data (type_at data gmt (trans_key gmt sentry))"
proof -
  let ?ts = "transitions data" and ?k = "trans_key gmt" and ?s = "trans_key gmt sentry"
  define r where "r = lower_bound (Comp_less gmt) ?ts sentry"
  note r = transition_search [OF ord, of sentry, folded r_def]
  consider (before) "?ts = [] \<or> ?s < ?k (hd ?ts)"
    | (between) "?ts \<noteq> []" "\<not> ?s < ?k (hd ?ts)" "r = length ?ts \<or> ?s < ?k (?ts ! r)"
    | (exact) "?ts \<noteq> []" "\<not> ?s < ?k (hd ?ts)" "?k (?ts ! r) = ?s" "r < length ?ts"
    using r by (metis linorder_neqE_nat not_less order_antisym order_refl)
  then show ?thesis
  proof cases
    case before
    then show ?thesis using type_at_before [OF ord before] by (auto simp: findLocaltime_def type_at_def Comp_key)
  next
    case between
    have "0 < r" using between r(1) by (cases r) (auto simp: hd_conv_nth)
    moreover have "filter (\<lambda>t. ?k t \<le> ?s) ?ts = take r ?ts"
    proof (rule filter_prefix [OF r(1)])
      show "\<forall>i<r. ?k (?ts ! i) \<le> ?s" using r(2) less_imp_le by blast
      show "\<forall>i. r \<le> i \<longrightarrow> i < length ?ts \<longrightarrow> \<not> ?k (?ts ! i) \<le> ?s"
        using between(3) ordered_by_le [OF ord, of r] by (auto simp: not_le intro: order_less_le_trans)
    qed
    ultimately show ?thesis
      using between r(1) type_at_prefix [of gmt ?s data r] by (auto simp: findLocaltime_def Comp_key Let_def last_conv_nth simp flip: r_def)
  next
    case exact
    have "filter (\<lambda>t. ?k t \<le> ?s) ?ts = take (Suc r) ?ts"
    proof (rule filter_prefix)
      show "Suc r \<le> length ?ts" using exact by simp
      show "\<forall>i<Suc r. ?k (?ts ! i) \<le> ?s" using r(2) exact by (simp add: less_Suc_eq less_imp_le all_conj_distrib)
      show "\<forall>i. Suc r \<le> i \<longrightarrow> i < length ?ts \<longrightarrow> \<not> ?k (?ts ! i) \<le> ?s"
        using ordered_byD [OF ord, of r] exact by (simp add: not_le Suc_le_eq)
    qed
    then show ?thesis using exact type_at_prefix [of gmt ?s data "Suc r"] by (auto simp: findLocaltime_def Comp_key Let_def simp flip: r_def)
  qed
qed

section \<open>Local time round trip\<close>

text \<open>What a zone needs for its lookups to be defined.\<close>

definition zone_ok :: "TimeZoneData \<Rightarrow> bool" where
  "zone_ok data \<longleftrightarrow> localtimes data \<noteq> []
     \<and> (\<forall>t \<in> set (transitions data). 0 \<le> localtimeIdx t \<and> nat (localtimeIdx t) < length (localtimes data))
     \<and> (\<forall>l \<in> set (localtimes data). 0 \<le> arrbIdx l \<and> nat (arrbIdx l) \<le> length (tz_abbreviation data))"

definition zone_type :: "TimeZoneData \<Rightarrow> bool \<Rightarrow> int \<Rightarrow> Localtime" where
  "zone_type data gmt s = localtimes data ! nat (type_at data gmt s)"

lemma localtime_at_type:
  assumes "zone_ok data"
  shows "localtime_at data (type_at data gmt s) = Ret (zone_type data gmt s)"
    and "\<exists>z. zone_name data (arrbIdx (zone_type data gmt s)) = Ret z"
proof -
  have "0 \<le> type_at data gmt s \<and> nat (type_at data gmt s) < length (localtimes data)"
  proof (cases "filter (\<lambda>t. trans_key gmt t \<le> s) (transitions data)")
    case Nil
    then show ?thesis using assms by (simp add: type_at_def zone_ok_def)
  next
    case (Cons a as)
    then have "last (a # as) \<in> set (filter (\<lambda>t. trans_key gmt t \<le> s) (transitions data))" by simp
    then have "last (a # as) \<in> set (transitions data)" by simp
    then show ?thesis using assms Cons by (simp add: type_at_def zone_ok_def)
  qed
  then have l: "zone_type data gmt s \<in> set (localtimes data)" and a: "localtime_at data (type_at data gmt s) = Ret (zone_type data gmt s)"
    by (simp_all add: localtime_at_def zone_type_def)
  show "localtime_at data (type_at data gmt s) = Ret (zone_type data gmt s)" by (rule a)
  show "\<exists>z. zone_name data (arrbIdx (zone_type data gmt s)) = Ret z"
    using l assms by (auto simp: zone_ok_def zone_name_def)
qed

lemma toLocalTime_type:
  assumes ok: "zone_ok data" and ord: "ordered_by True data"
  shows "\<exists>z. toLocalTime (Some data) s = Ret ((gmtime_r (s + gmtOffset (zone_type data True s)))
    \<lparr>tm_isdst := (if isDst (zone_type data True s) then 1 else 0), tm_gmtoff := gmtOffset (zone_type data True s), tm_zone := z\<rparr>)"
  using localtime_at_type [OF ok, of True s]
  by (auto simp: toLocalTime_def findLocaltime_type_at [OF ord] trans_key_def Let_def)

lemma timegm_gmtime:
  assumes "day_range (day_of s)"
  shows "timegm ((gmtime_r s)\<lparr>tm_isdst := a, tm_gmtoff := b, tm_zone := c\<rparr>) = s"
proof -
  have "s mod 86400 div 3600 = s mod 86400 div 60 div 60" using zdiv_zmult2_eq [of 60 "s mod 86400" 60] by simp
  then have "timegm (gmtime_r s) = fromUtcTime (toUtcTime s True)"
    by (simp add: timegm_def gmtime_r_def toUtcTime_unfold fromUtcTime_def fromUtcTime_ymd_def Let_def day_of_def kSecondsPerDay_def)
  then show ?thesis using utc_of_seconds [OF assms] by (simp add: timegm_def)
qed

text \<open>C34: TimeZone::toLocalTime and fromLocalTime. In a zone whose indices are in range and whose transitions are in
  order, the binary search of findLocaltime selects the type of the last transition not after the given time
  (the first type before all transitions), so the local time shown is that of the zone in force; and
  fromLocalTime gives the time back whenever the wall clock time selects the same type
  again, which is every time outside the hours a change of offset skips or repeats, daylight saving time included.\<close>

theorem local_time_round_trip:
  assumes "zone_ok data" and "ordered_by True data" and "ordered_by False data"
    and "l = localtimes data ! nat (type_at data True s)"
    and "day_range (day_of (s + gmtOffset l))"
    and "localtimes data ! nat (type_at data False (s + gmtOffset l)) = l"
  shows "\<exists>t. toLocalTime (Some data) s = Ret t \<and> tm_clock t = tm_clock (gmtime_r (s + gmtOffset l))
    \<and> (tm_isdst t \<noteq> 0 \<longleftrightarrow> isDst l) \<and> tm_gmtoff t = gmtOffset l \<and> fromLocalTime (Some data) t = Ret s"
proof -
  have l: "zone_type data True s = l" "zone_type data False (s + gmtOffset l) = l" using assms(4,6) by (simp_all add: zone_type_def)
  obtain t z where t: "toLocalTime (Some data) s = Ret t"
      "t = (gmtime_r (s + gmtOffset l))\<lparr>tm_isdst := (if isDst l then 1 else 0), tm_gmtoff := gmtOffset l, tm_zone := z\<rparr>"
    using toLocalTime_type [OF assms(1,2), of s] l(1) by auto
  have g: "timegm t = s + gmtOffset l" unfolding t(2) by (rule timegm_gmtime [OF assms(5)])
  have "findLocaltime data \<lparr>gmttime = 0, trans_localtime = s + gmtOffset l, localtimeIdx = 0\<rparr> False = Ret l"
    using localtime_at_type(1) [OF assms(1), of False "s + gmtOffset l"]
    by (simp add: findLocaltime_type_at [OF assms(3)] trans_key_def l(2))
  moreover have i: "tm_isdst t = (if isDst l then 1 else 0)" using t(2) by simp
  ultimately have "fromLocalTime (Some data) t = Ret s"
    using t(1) i by (cases "isDst l") (simp_all add: fromLocalTime_def g Let_def)
  then show ?thesis using t by (auto simp: tm_clock_def)
qed

text \<open>A zone with one change, from standard time (UTC - 5 h) to daylight saving time (UTC - 4 h).\<close>

definition sample_zone :: TimeZoneData where
  "sample_zone = \<lparr>transitions = [\<lparr>gmttime = 1000000, trans_localtime = 985600, localtimeIdx = 1\<rparr>],
     localtimes = [\<lparr>gmtOffset = - 18000, isDst = False, arrbIdx = 0\<rparr>, \<lparr>gmtOffset = - 14400, isDst = True, arrbIdx = 4\<rparr>],
     tz_names = [], tz_abbreviation = [CHR ''E'', CHR ''S'', CHR ''T'', CHR 0x00, CHR ''E'', CHR ''D'', CHR ''T'', CHR 0x00]\<rparr>"

theorem local_time_round_trip_witness:
  "\<exists>t. toLocalTime (Some sample_zone) 1000000 = Ret t \<and> tm_clock t = tm_clock (gmtime_r 985600) \<and> tm_isdst t \<noteq> 0
     \<and> tm_gmtoff t = - 14400 \<and> fromLocalTime (Some sample_zone) t = Ret 1000000"
proof -
  let ?l = "\<lparr>gmtOffset = - 14400, isDst = True, arrbIdx = 4\<rparr>"
  have "zone_ok sample_zone" "ordered_by True sample_zone" "ordered_by False sample_zone"
    by (simp_all add: sample_zone_def zone_ok_def ordered_by_def)
  moreover have "?l = localtimes sample_zone ! nat (type_at sample_zone True 1000000)"
    "localtimes sample_zone ! nat (type_at sample_zone False (1000000 + gmtOffset ?l)) = ?l"
    by (simp_all add: sample_zone_def type_at_def trans_key_def)
  moreover have "day_range (day_of (1000000 + gmtOffset ?l))" by (simp add: day_of_def day_range_def)
  ultimately have "\<exists>t. toLocalTime (Some sample_zone) 1000000 = Ret t \<and> tm_clock t = tm_clock (gmtime_r (1000000 + gmtOffset ?l))
    \<and> (tm_isdst t \<noteq> 0 \<longleftrightarrow> isDst ?l) \<and> tm_gmtoff t = gmtOffset ?l \<and> fromLocalTime (Some sample_zone) t = Ret 1000000"
    by (intro local_time_round_trip)
  then show ?thesis by simp
qed

section \<open>The zone file, written and read back\<close>

definition int32_range :: "int \<Rightarrow> bool" where
  "int32_range x \<longleftrightarrow> - (2 ^ 31) \<le> x \<and> x < 2 ^ 31"

definition encode_int32 :: "int \<Rightarrow> bytes" where
  "encode_int32 x = be_bytes 4 (unat (word_of_int x :: 32 word))"

definition encode_uint8 :: "int \<Rightarrow> char" where
  "encode_uint8 x = char_of (nat x)"

definition encode_type :: "Localtime \<Rightarrow> bytes" where
  "encode_type l = encode_int32 (gmtOffset l) @ [encode_uint8 (if isDst l then 1 else 0), encode_uint8 (arrbIdx l)]"

definition encode_zone :: "TimeZoneData \<Rightarrow> bytes" where
  "encode_zone d = ''TZif'' @ CHR 0x00 # replicate 15 CHR 0x00 @ encode_int32 0 @ encode_int32 0 @ encode_int32 0
     @ encode_int32 (int (length (transitions d))) @ encode_int32 (int (length (localtimes d)))
     @ encode_int32 (int (length (tz_abbreviation d)))
     @ concat (map (encode_int32 \<circ> gmttime) (transitions d)) @ map (encode_uint8 \<circ> localtimeIdx) (transitions d)
     @ concat (map encode_type (localtimes d)) @ tz_abbreviation d"

text \<open>What the format can hold.\<close>

definition encodable :: "TimeZoneData \<Rightarrow> bool" where
  "encodable d \<longleftrightarrow> length (transitions d) < 2 ^ 31 \<and> length (localtimes d) < 2 ^ 31 \<and> length (tz_abbreviation d) < 2 ^ 31 \<and> tz_names d = []
     \<and> (\<forall>t\<in>set (transitions d). int32_range (gmttime t) \<and> 0 \<le> localtimeIdx t \<and> localtimeIdx t < 256
          \<and> nat (localtimeIdx t) < length (localtimes d)
          \<and> trans_localtime t = gmttime t + gmtOffset (localtimes d ! nat (localtimeIdx t)))
     \<and> (\<forall>l\<in>set (localtimes d). int32_range (gmtOffset l) \<and> 0 \<le> arrbIdx l \<and> arrbIdx l < 256)"

lemma length_encode_int32 [simp]: "length (encode_int32 x) = 4"
  by (simp add: encode_int32_def)

lemma readInt32_encode [simp]:
  assumes "int32_range x"
  shows "File_readInt32 (encode_int32 x @ f) = Ret (x, f)"
proof -
  let ?w = "word_of_int x :: 32 word"
  have "le_val (encode_int32 x) < 2 ^ 32" using le_val_bound [of "encode_int32 x"] by simp
  then have "unat (word_of_nat (le_val (encode_int32 x)) :: 32 word) = le_val (encode_int32 x)" by (simp add: unat_of_nat)
  moreover have "unat ?w < 2 ^ 32" using unsigned_less [of ?w, where 'a = nat] by simp
  then have "bswap 4 (le_val (encode_int32 x)) = unat ?w"
    by (simp add: bswap_le_val encode_int32_def be_val_be_bytes)
  ultimately have "networkToHost32 (word_of_nat (le_val (encode_int32 x))) = ?w" by (simp add: networkToHost32_def)
  moreover have "sint ?w = x" using assms by (simp add: int32_range_def signed_take_bit_int_eq_self signed_of_int)
  ultimately show ?thesis by (simp add: File_readInt32_def)
qed

lemma readUInt8_encode [simp]: "0 \<le> x \<Longrightarrow> x < 256 \<Longrightarrow> readUInt8 (encode_uint8 x # f) = Ret (x, f)"
  by (simp add: readUInt8_def encode_uint8_def nat_less_iff)

lemma read_many_int32:
  "\<forall>x\<in>set xs. int32_range x \<Longrightarrow> read_many File_readInt32 (length xs) (concat (map encode_int32 xs) @ f) = Ret (xs, f)"
  by (induction xs) simp_all

lemma read_many_uint8:
  "\<forall>x\<in>set xs. 0 \<le> x \<and> x < 256 \<Longrightarrow> read_many readUInt8 (length xs) (map encode_uint8 xs @ f) = Ret (xs, f)"
  by (induction xs) simp_all

lemma read_type_encode:
  "int32_range (gmtOffset l) \<Longrightarrow> 0 \<le> arrbIdx l \<Longrightarrow> arrbIdx l < 256 \<Longrightarrow> read_type (encode_type l @ f) = Ret (l, f)"
  by (simp add: read_type_def encode_type_def)

lemma read_types_encode:
  "\<forall>l\<in>set ls. int32_range (gmtOffset l) \<and> 0 \<le> arrbIdx l \<and> arrbIdx l < 256 \<Longrightarrow>
   read_types (length ls) (concat (map encode_type ls) @ f) d = (d\<lparr>localtimes := localtimes d @ ls\<rparr>, Ret f)"
  by (induction ls arbitrary: d) (simp_all add: read_type_encode)

lemma push_transitions_rebuild:
  assumes "\<forall>t\<in>set ts. nat (localtimeIdx t) < length (localtimes d) \<and>
    trans_localtime t = gmttime t + gmtOffset (localtimes d ! nat (localtimeIdx t))"
  shows "push_transitions (map gmttime ts) (map localtimeIdx ts) d = Ret (d\<lparr>transitions := transitions d @ ts\<rparr>)"
  using assms
proof (induction ts arbitrary: d)
  case (Cons t ts)
  then show ?case by (cases t) simp
qed simp

lemma small_int32: "n < 2 ^ 31 \<Longrightarrow> int32_range (int n)"
  by (simp add: int32_range_def)

lemma readBytes_append: "n = int (length xs) \<Longrightarrow> readBytes n (xs @ g) = Ret (xs, g)"
  by (simp add: readBytes_def)

lemma read_header_encode:
  assumes "int32_range a" "int32_range b" "int32_range c"
  shows "read_header (''TZif'' @ CHR 0x00 # replicate 15 CHR 0x00 @ encode_int32 0 @ encode_int32 0 @ encode_int32 0
    @ encode_int32 a @ encode_int32 b @ encode_int32 c @ f) = Ret ((a, b, c), f)"
proof -
  have "int32_range 0" by (simp add: int32_range_def)
  moreover have "readBytes 4 (''TZif'' @ g) = Ret (''TZif'', g)" for g by (rule readBytes_append) simp
  moreover have "readBytes 1 (CHR 0x00 # g) = Ret ([CHR 0x00], g)" for g by (simp add: readBytes_def)
  moreover have "readBytes 15 (replicate 15 CHR 0x00 @ g) = Ret (replicate 15 CHR 0x00, g)" for g
    by (rule readBytes_append) simp
  ultimately show ?thesis using assms unfolding read_header_def by (simp del: append.simps)
qed

lemma zone_file_read_back:
  assumes "encodable d"
  shows "readTimeZoneFile (Some (encode_zone d @ rest)) new_Data = Ret (True, d)"
proof -
  note e = assms [unfolded encodable_def]
  let ?ts = "transitions d" and ?ls = "localtimes d"
  have t: "read_transitions (int (length ?ts)) (concat (map (encode_int32 \<circ> gmttime) ?ts) @ map (encode_uint8 \<circ> localtimeIdx) ?ts @ f)
      = Ret ((map gmttime ?ts, map localtimeIdx ?ts), f)" for f
    using read_many_int32 [of "map gmttime ?ts" "map (encode_uint8 \<circ> localtimeIdx) ?ts @ f"]
      read_many_uint8 [of "map localtimeIdx ?ts" f] e by (simp add: read_transitions_def)
  have l: "read_types (length ?ls) (concat (map encode_type ?ls) @ f) new_Data = (new_Data\<lparr>localtimes := ?ls\<rparr>, Ret f)" for f
    using read_types_encode [of ?ls f new_Data] e by (simp add: new_Data_def)
  have p: "push_transitions (map gmttime ?ts) (map localtimeIdx ?ts) (new_Data\<lparr>localtimes := ?ls\<rparr>)
      = Ret (new_Data\<lparr>localtimes := ?ls, transitions := ?ts\<rparr>)"
    using push_transitions_rebuild [of ?ts "new_Data\<lparr>localtimes := ?ls\<rparr>"] e by (simp add: new_Data_def)
  have "new_Data\<lparr>localtimes := ?ls, transitions := ?ts, tz_abbreviation := tz_abbreviation d\<rparr> = d"
    using e by (cases d) (simp add: new_Data_def)
  moreover have "read_header (encode_zone d @ rest) = Ret ((int (length ?ts), int (length ?ls), int (length (tz_abbreviation d))),
      concat (map (encode_int32 \<circ> gmttime) ?ts) @ map (encode_uint8 \<circ> localtimeIdx) ?ts @ concat (map encode_type ?ls)
      @ tz_abbreviation d @ rest)"
    using e by (subst read_header_encode [symmetric]) (simp_all add: small_int32 encode_zone_def)
  ultimately show ?thesis unfolding readTimeZoneFile_def
    by (simp add: t l p catch_logic_error_def readBytes_def)
qed

text \<open>Whatever file is read, the transitions kept are consistent with the types kept.\<close>

definition consistent :: "TimeZoneData \<Rightarrow> bool" where
  "consistent d \<longleftrightarrow> (\<forall>t\<in>set (transitions d). nat (localtimeIdx t) < length (localtimes d)
     \<and> trans_localtime t = gmttime t + gmtOffset (localtimes d ! nat (localtimeIdx t)))"

lemma push_transitions_consistent:
  "push_transitions ts idxs d = Ret d' \<Longrightarrow> consistent d \<Longrightarrow> consistent d'"
  by (induction ts idxs d rule: push_transitions.induct) (auto simp: consistent_def split: if_splits)

lemma read_types_transitions: "transitions (fst (read_types n f d)) = transitions d"
  by (induction n f d rule: read_types.induct) (auto split: outcome.split)

text \<open>Partial correctness of a statement that may abort.\<close>

definition if_returns :: "'a outcome \<Rightarrow> ('a \<Rightarrow> bool) \<Rightarrow> bool" where
  "if_returns m P \<longleftrightarrow> (\<forall>x. m = Ret x \<longrightarrow> P x)"

lemma if_returns_intros [intro]:
  "P x \<Longrightarrow> if_returns (Ret x) P"
  "if_returns (Abort e) P"
  "(\<And>x. m = Ret x \<Longrightarrow> if_returns (f x) P) \<Longrightarrow> if_returns (bindo m f) P"
  by (auto simp: if_returns_def bindo_eq_Ret)

lemma if_returns_catch: "P d \<Longrightarrow> if_returns r P \<Longrightarrow> if_returns (catch_logic_error d r) P"
  by (auto simp: if_returns_def catch_logic_error_def split: outcome.splits fault.splits)

lemma readTimeZoneFile_consistent: "if_returns (readTimeZoneFile f new_Data) (\<lambda>(ok, d). ok \<and> consistent d)"
proof (cases f)
  case None
  then show ?thesis by (auto simp: readTimeZoneFile_def consistent_def new_Data_def)
next
  case (Some g)
  let ?body = "\<lambda>g. bindo (read_header g) (\<lambda>((timecnt, typecnt, charcnt), f).
             bindo (read_transitions timecnt f) (\<lambda>((trans, idx), f).
             case read_types (nat typecnt) f new_Data of
               (data, Abort e) \<Rightarrow> catch_logic_error data (Abort e)
             | (data, Ret f) \<Rightarrow>
                 bindo (push_transitions trans idx data) (\<lambda>data.
                 catch_logic_error data (bindo (readBytes charcnt f) (\<lambda>(abbr, f). Ret (data\<lparr>tz_abbreviation := abbr\<rparr>))))))"
  have r: "consistent d" if "read_types k h new_Data = (d, z)" for k h d z
    using read_types_transitions [of k h new_Data] that by (simp add: consistent_def new_Data_def)
  have "if_returns (?body g) consistent"
    by (intro if_returns_intros)
      (auto split!: prod.split outcome.split intro!: if_returns_catch if_returns_intros
        dest!: r push_transitions_consistent simp: consistent_def [of "_\<lparr>tz_abbreviation := _\<rparr>"] consistent_def [symmetric])
  then have "if_returns (catch_logic_error new_Data (?body g)) consistent"
    by (rule if_returns_catch [rotated]) (simp add: consistent_def new_Data_def)
  then show ?thesis unfolding Some readTimeZoneFile_def by (auto simp: if_returns_def bindo_eq_Ret)
qed

text \<open>C19: readTimeZoneFile reads back every zone that the TZif format can hold: from the file that encodes
  the zone, whatever follows in it, the reader returns exactly the zone's transitions, types and
  abbreviations. And whatever file it reads without undefined behaviour, even a truncated one, it reports
  success and every transition kept refers to a type that was kept and has the local time of that type.\<close>

theorem zone_file_round_trip:
  "(encodable d \<longrightarrow> readTimeZoneFile (Some (encode_zone d @ rest)) new_Data = Ret (True, d))
   \<and> (readTimeZoneFile f new_Data = Ret (ok, d') \<longrightarrow> ok \<and>
        (\<forall>t\<in>set (transitions d'). nat (localtimeIdx t) < length (localtimes d')
           \<and> trans_localtime t = gmttime t + gmtOffset (localtimes d' ! nat (localtimeIdx t))))"
  using zone_file_read_back readTimeZoneFile_consistent [of f] by (auto simp: if_returns_def consistent_def)

theorem zone_file_round_trip_witness:
  "readTimeZoneFile (Some (encode_zone sample_zone @ ''TZif2'')) new_Data = Ret (True, sample_zone)
   \<and> readTimeZoneFile (Some ''TZip'') new_Data = Ret (True, new_Data)"
proof -
  have "encodable sample_zone" by (simp add: encodable_def sample_zone_def int32_range_def)
  then have "readTimeZoneFile (Some (encode_zone sample_zone @ ''TZif2'')) new_Data = Ret (True, sample_zone)"
    using zone_file_round_trip [of sample_zone] by blast
  moreover have "readTimeZoneFile (Some ''TZip'') new_Data = Ret (True, new_Data)" by code_simp
  ultimately show ?thesis by blast
qed

end
