(* ===== verification/ProcTexts.thy ===== *)
theory ProcTexts
  imports TimeZones
begin

text \<open>
  The text helpers of \<^verbatim>\<open>muduo/base/ProcessInfo.cc\<close> and \<^verbatim>\<open>muduo/net/inspect/ProcessInspector.cc\<close>: they find numbers and names in the
  texts of the \<^verbatim>\<open>/proc\<close> file system.
\<close>

section \<open>Text helpers\<close>

definition uptime :: "int \<Rightarrow> int \<Rightarrow> bool \<Rightarrow> string" where
  "uptime now start showMicroseconds =
     (let age = now - start;
          seconds = age sdiv kMicroSecondsPerSecond;
          days = seconds sdiv 86400;
          hours = (seconds smod 86400) sdiv 3600;
          minutes = (seconds smod 3600) sdiv 60;
          head = dec_int days @ '' days '' @ zero_pad 2 hours @ '':'' @ zero_pad 2 minutes @ '':'' @ zero_pad 2 (seconds smod 60)
      in if showMicroseconds then snprintf 256 (head @ ''.'' @ zero_pad 6 (age smod kMicroSecondsPerSecond)) else snprintf 256 head)"

text \<open>\<^verbatim>\<open>atol\<close> and \<^verbatim>\<open>atoi\<close>: skip white space, an optional sign, then digits.\<close>

definition is_digit :: "char \<Rightarrow> bool" where
  "is_digit c \<longleftrightarrow> 48 \<le> (of_char c :: nat) \<and> (of_char c :: nat) \<le> 57"

definition atol :: "string \<Rightarrow> int" where
  "atol s =
     (case dropWhile isspace s of
        [] \<Rightarrow> 0
      | c # cs \<Rightarrow>
          if c = CHR ''-'' then - int (dec_val 0 (takeWhile is_digit cs))
          else if c = CHR ''+'' then int (dec_val 0 (takeWhile is_digit cs))
          else int (dec_val 0 (takeWhile is_digit (c # cs))))"

definition getLong :: "string \<Rightarrow> string \<Rightarrow> int" where
  "getLong procStatus key =
     (let pos = std_search procStatus key
      in if pos < length procStatus then atol (drop (pos + length key) procStatus) else 0)"

definition numThreads :: "string \<Rightarrow> int" where
  "numThreads status = getLong status ''Threads:''"

definition getProcessName :: "string \<Rightarrow> string outcome" where
  "getProcessName procStatus =
     (let pos = std_search procStatus ''Name:''
      in if pos < length procStatus
         then let rest = dropWhile (\<lambda>c. c = CHR 0x09) (drop (pos + 5) procStatus)
              in if CHR 0x0A \<in> set rest then Ret (takeWhile (\<lambda>c. c \<noteq> CHR 0x0A) rest)
                 else Abort (Undefined ''read past the end of procStatus'')
         else Ret '''')"

definition procname :: "string \<Rightarrow> string" where
  "procname stat =
     (case memchr stat CHR ''('' of
        None \<Rightarrow> ''''
      | Some lp \<Rightarrow>
          (case memchr (rev stat) CHR '')'' of
             None \<Rightarrow> ''''
           | Some k \<Rightarrow> let rp = length stat - 1 - k in if lp < rp then take (rp - lp - 1) (drop (lp + 1) stat) else ''''))"

definition next_field :: "string \<Rightarrow> string" where
  "next_field data = (case memchr data CHR '' '' of None \<Rightarrow> '''' | Some sp \<Rightarrow> drop (sp + 1) data)"

text \<open>The process name is found whatever parentheses it contains.\<close>

lemma procname_between:
  assumes "CHR ''('' \<notin> set a" and "CHR '')'' \<notin> set b"
  shows "procname (a @ CHR ''('' # name @ CHR '')'' # b) = name"
proof -
  have l: "memchr (a @ CHR ''('' # name @ CHR '')'' # b) CHR ''('' = Some (length a)"
    using std_find_append [OF assms(1), of "name @ CHR '')'' # b"] by (simp add: memchr_def)
  have "memchr (rev (a @ CHR ''('' # name @ CHR '')'' # b)) CHR '')'' = Some (length b)"
    using std_find_append [of "CHR '')''" "rev b" "rev name @ CHR ''('' # rev a"] assms(2) by (simp add: memchr_def)
  then show ?thesis using l by (simp add: procname_def Let_def)
qed

text \<open>A number printed after its key and blanks is read back.\<close>

lemma takeWhile_dec_nat:
  assumes "rest = [] \<or> \<not> is_digit (hd rest)"
  shows "takeWhile is_digit (dec_nat n @ rest) = dec_nat n"
proof -
  have "takeWhile is_digit (dec_nat n @ rest) = dec_nat n @ takeWhile is_digit rest"
    using dec_nat_digits [of _ n] by (intro takeWhile_append2) (simp add: is_digit_def)
  then show ?thesis using assms by (cases rest) auto
qed

lemma atol_dec_nat:
  assumes "rest = [] \<or> \<not> is_digit (hd rest)" and "\<forall>c\<in>set blanks. isspace c"
  shows "atol (blanks @ dec_nat n @ rest) = int n"
proof -
  obtain c cs where c: "dec_nat n = c # cs" by (cases "dec_nat n") auto
  then have d: "is_digit c" using dec_nat_digits [of c n] by (simp add: is_digit_def)
  then have "\<not> isspace c" "c \<noteq> CHR ''-''" "c \<noteq> CHR ''+''" by (auto simp: isspace_def is_digit_def)
  moreover have "dropWhile isspace (blanks @ dec_nat n @ rest) = dec_nat n @ rest"
    using assms(2) calculation(1) by (simp add: dropWhile_append2 c)
  ultimately show ?thesis using takeWhile_dec_nat [OF assms(1), of n] dec_val_dec_nat [of n]
    by (simp add: atol_def c)
qed

end
