(* ===== verification/Files.thy ===== *)
theory Files
  imports Prelude "HOL-Library.Sublist"
begin

text \<open>
  \<^verbatim>\<open>FileUtil::ReadSmallFile\<close> of \<^verbatim>\<open>muduo/base/FileUtil.{h,cc}\<close>: reading a file in pieces of at most 64 kilobytes, up to a limit.

  The results of \<^verbatim>\<open>open\<close>, \<^verbatim>\<open>fstat\<close> and \<^verbatim>\<open>pread\<close> are arguments, an error number on the left. \<^verbatim>\<open>read\<close> is a function of the
  number of bytes delivered before and of the count asked for. A pointer argument that may be null is an \<open>option\<close>.
\<close>

record ReadSmallFile =
  rsf_fd :: int
  rsf_err :: int

record file_stat =
  st_isreg :: bool
  st_isdir :: bool
  st_size :: int
  st_mtime :: int
  st_ctime :: int

definition kBufferSize :: nat where
  "kBufferSize = 64 * 1024"

definition EISDIR :: int where
  "EISDIR = 21"

definition new_ReadSmallFile :: "int + int \<Rightarrow> ReadSmallFile" where
  "new_ReadSmallFile open_result =
     (case open_result of Inl errno \<Rightarrow> \<lparr>rsf_fd = - 1, rsf_err = errno\<rparr> | Inr fd \<Rightarrow> \<lparr>rsf_fd = fd, rsf_err = 0\<rparr>)"

text \<open>The descriptors the destructor closes.\<close>

definition delete_ReadSmallFile :: "ReadSmallFile \<Rightarrow> int list" where
  "delete_ReadSmallFile f = (if rsf_fd f \<ge> 0 then [rsf_fd f] else [])"

text \<open>The conversion \<^verbatim>\<open>implicit_cast<size_t>\<close> of an \<^verbatim>\<open>int\<close>.\<close>

definition as_size :: "int \<Rightarrow> nat" where
  "as_size n = nat (n mod 2 ^ 64)"

type_synonym outs = "int option \<times> int option \<times> int option"

text \<open>The part that asks for the size and the times; \<^verbatim>\<open>reserve\<close> with a negative size throws.\<close>

definition readToString_stat :: "int + file_stat \<Rightarrow> int \<Rightarrow> outs \<Rightarrow> int \<Rightarrow> (outs \<times> int) outcome" where
  "readToString_stat fstat maxSize outs err =
     (case outs of (fileSize, modifyTime, createTime) \<Rightarrow>
       if fileSize = None then Ret (outs, err)
       else (case fstat of
           Inl errno \<Rightarrow> Ret (outs, errno)
         | Inr st \<Rightarrow>
             bindo (if st_isreg st
                    then (if min maxSize (st_size st) < 0 then Abort (Throw ''std::length_error'') else Ret (Some (st_size st), err))
                    else Ret (fileSize, if st_isdir st then EISDIR else err))
               (\<lambda>(fileSize, err). Ret ((fileSize, map_option (\<lambda>_. st_mtime st) modifyTime, map_option (\<lambda>_. st_ctime st) createTime), err))))"

function read_loop :: "(nat \<Rightarrow> nat \<Rightarrow> int + string) \<Rightarrow> nat \<Rightarrow> string \<Rightarrow> int \<Rightarrow> string \<times> int" where
  "read_loop rd maxSize content err =
     (if length content < maxSize
      then let toRead = min (maxSize - length content) kBufferSize
           in case rd (length content) toRead of
                Inr bs \<Rightarrow> if bs \<noteq> [] then read_loop rd maxSize (content @ bs) err else (content, err)
              | Inl errno \<Rightarrow> (content, errno)
      else (content, err))"
  by pat_completeness auto

termination
  by (relation "measure (\<lambda>(rd, maxSize, content, err). maxSize - length content)") (auto simp: neq_Nil_conv)

declare read_loop.simps [simp del]

definition readToString :: "int + file_stat \<Rightarrow> (nat \<Rightarrow> nat \<Rightarrow> int + string) \<Rightarrow> int \<Rightarrow> ReadSmallFile \<Rightarrow> string \<Rightarrow> outs
    \<Rightarrow> (int \<times> string \<times> outs) outcome" where
  "readToString fstat rd maxSize f content outs =
     (let err = rsf_err f
      in if rsf_fd f \<ge> 0
         then bindo (readToString_stat fstat maxSize outs err) (\<lambda>(outs, err).
                let (content, err) = read_loop rd (as_size maxSize) [] err in Ret (err, content, outs))
         else Ret (err, content, outs))"

text \<open>\<^verbatim>\<open>readToBuffer\<close>: the error, the size and the bytes written to \<^verbatim>\<open>buf_\<close>, which stays as it was on an error.\<close>

definition readToBuffer :: "(nat \<Rightarrow> int + string) \<Rightarrow> ReadSmallFile \<Rightarrow> int option \<Rightarrow> string \<Rightarrow> int \<times> int option \<times> string" where
  "readToBuffer pread f sz buf =
     (let err = rsf_err f
      in if rsf_fd f \<ge> 0
         then case pread (kBufferSize - 1) of
                Inr bs \<Rightarrow> (err, map_option (\<lambda>_. int (length bs)) sz, bs @ CHR 0x00 # drop (length bs + 1) buf)
              | Inl errno \<Rightarrow> (errno, sz, buf)
         else (err, sz, buf))"

definition readFile :: "int + int \<Rightarrow> int + file_stat \<Rightarrow> (nat \<Rightarrow> nat \<Rightarrow> int + string) \<Rightarrow> int \<Rightarrow> string \<Rightarrow> outs
    \<Rightarrow> (int \<times> string \<times> outs) outcome \<times> int list" where
  "readFile open_result fstat rd maxSize content outs =
     (let f = new_ReadSmallFile open_result
      in (readToString fstat rd maxSize f content outs, delete_ReadSmallFile f))"

section \<open>What is read\<close>

text \<open>Documented behaviour of \<^verbatim>\<open>read\<close> on a file with contents \<open>c\<close> that does not change: at most the count asked for, the next bytes
  of the file, none only at its end; or an error, whose number is not zero.\<close>

definition reads :: "(nat \<Rightarrow> nat \<Rightarrow> int + string) \<Rightarrow> string \<Rightarrow> bool" where
  "reads rd c \<longleftrightarrow> (\<forall>pos n. 0 < n \<longrightarrow> (case rd pos n of
       Inl errno \<Rightarrow> errno \<noteq> 0
     | Inr bs \<Rightarrow> length bs \<le> n \<and> prefix bs (drop pos c) \<and> (bs = [] \<longrightarrow> length c \<le> pos)))"

definition never_fails :: "(nat \<Rightarrow> nat \<Rightarrow> int + string) \<Rightarrow> bool" where
  "never_fails rd \<longleftrightarrow> (\<forall>pos n. \<exists>bs. rd pos n = Inr bs)"

lemma prefix_full: "prefix p c \<Longrightarrow> length c \<le> length p \<Longrightarrow> p = c"
  by (auto simp: prefix_def)

lemma prefix_take_eq: "prefix p c \<Longrightarrow> p = take (length p) c"
  by (auto simp: prefix_def)

lemma prefix_extend: "prefix p c \<Longrightarrow> prefix q (drop (length p) c) \<Longrightarrow> prefix (p @ q) c"
  by (auto simp: prefix_def)

lemma readsD:
  assumes "reads rd c" and "0 < n"
  shows "rd pos n = Inl e \<Longrightarrow> e \<noteq> 0"
    and "rd pos n = Inr bs \<Longrightarrow> length bs \<le> n \<and> prefix bs (drop pos c) \<and> (bs = [] \<longrightarrow> length c \<le> pos)"
  using assms(1) [unfolded reads_def, rule_format, OF assms(2), of pos] by (auto split: sum.splits)

lemma read_loop_contents:
  assumes "reads rd c" and "prefix content c" and "length content \<le> m" and "read_loop rd m content err = (content', err')"
  shows "prefix content' c \<and> length content' \<le> m \<and> (err' = err \<and> content' = take m c \<or> err' \<noteq> 0)
    \<and> (never_fails rd \<longrightarrow> err' = err \<and> content' = take m c)"
  using assms
proof (induction rd m content err rule: read_loop.induct)
  case (1 rd m content err)
  let ?n = "min (m - length content) kBufferSize"
  note rl = "1.prems"(4) [unfolded read_loop.simps [of rd m content err] Let_def]
  show ?case
  proof (cases "length content < m")
    case False
    then have "content = take m c" using prefix_take_eq [OF "1.prems"(2)] "1.prems"(3) by simp
    then show ?thesis using rl False "1.prems"(2) by auto
  next
    case True
    then have n: "0 < ?n" by (simp add: kBufferSize_def)
    show ?thesis
    proof (cases "rd (length content) ?n")
      case (Inl e)
      then have "e \<noteq> 0" using readsD(1) [OF "1.prems"(1) n] by simp
      moreover have "\<not> never_fails rd" using Inl unfolding never_fails_def by (metis Inl_Inr_False)
      ultimately show ?thesis using rl True Inl "1.prems"(2,3) by auto
    next
      case (Inr bs)
      note b = readsD(2) [OF "1.prems"(1) n Inr]
      show ?thesis
      proof (cases "bs = []")
        case True': True
        then have "content = c" using b prefix_full [OF "1.prems"(2)] by simp
        then show ?thesis using rl True Inr True' by auto
      next
        case False
        have "prefix (content @ bs) c" "length (content @ bs) \<le> m"
          using prefix_extend [OF "1.prems"(2)] b True by auto
        then show ?thesis using "1.IH" [OF True refl Inr False "1.prems"(1)] rl True Inr False by simp
      qed
    qed
  qed
qed

lemma readToString_stat_returns:
  assumes "0 \<le> maxSize" and "\<forall>st. fstat = Inr st \<longrightarrow> 0 \<le> st_size st"
  shows "\<exists>outs' err. readToString_stat fstat maxSize outs 0 = Ret (outs', err)
    \<and> (fst outs = None \<or> (\<exists>st. fstat = Inr st \<and> st_isreg st) \<longrightarrow> err = 0)"
proof (cases "fst outs = None")
  case True
  then show ?thesis by (cases outs) (simp add: readToString_stat_def)
next
  case False
  show ?thesis
  proof (cases fstat)
    case (Inl e)
    then show ?thesis using False by (simp add: readToString_stat_def split: prod.splits)
  next
    case (Inr st)
    then have "\<not> min maxSize (st_size st) < 0" using assms by simp
    then show ?thesis using False Inr by (cases outs) (auto simp: readToString_stat_def)
  qed
qed

text \<open>C39: Reading a file: the descriptor is closed, and for a non-negative limit the result is either error 0 with the complete contents up to the limit, however
  the kernel splits it into pieces, or a non-zero error with a prefix of them; without a failing system call it is the
  former, also when the size is asked for.\<close>

theorem readFile_complete:
  assumes "reads rd c" and "0 \<le> maxSize" and "maxSize < 2 ^ 31" and "0 \<le> fd"
    and "\<forall>st. fstat = Inr st \<longrightarrow> 0 \<le> st_size st" and "\<forall>e. fstat = Inl e \<longrightarrow> e \<noteq> 0"
  shows "\<exists>err content outs'. readFile (Inr fd) fstat rd maxSize old outs = (Ret (err, content, outs'), [fd])
    \<and> prefix content (take (nat maxSize) c) \<and> (err = 0 \<longrightarrow> content = take (nat maxSize) c)
    \<and> (never_fails rd \<and> (fst outs = None \<or> (\<exists>st. fstat = Inr st \<and> st_isreg st)) \<longrightarrow> err = 0)"
proof -
  have m: "as_size maxSize = nat maxSize" using assms(2,3) by (simp add: as_size_def)
  obtain outs' err where st: "readToString_stat fstat maxSize outs 0 = Ret (outs', err)"
    "fst outs = None \<or> (\<exists>st. fstat = Inr st \<and> st_isreg st) \<longrightarrow> err = 0"
    using readToString_stat_returns [OF assms(2,5)] by blast
  obtain content err' where rl: "read_loop rd (nat maxSize) [] err = (content, err')" by fastforce
  note r = read_loop_contents [OF assms(1) _ _ rl, simplified]
  have "content = take (length content) c" "length content \<le> nat maxSize" using r prefix_take_eq by blast+
  then have "prefix content (take (nat maxSize) c)" by (metis take_take min.absorb1 take_is_prefix)
  moreover have "readFile (Inr fd) fstat rd maxSize old outs = (Ret (err', content, outs'), [fd])"
    using st(1) rl assms(4) by (simp add: readFile_def new_ReadSmallFile_def delete_ReadSmallFile_def readToString_def m)
  ultimately show ?thesis using r st(2) by blast
qed

text \<open>A kernel that delivers two bytes at a time.\<close>

definition demo_read :: "string \<Rightarrow> nat \<Rightarrow> nat \<Rightarrow> int + string" where
  "demo_read c pos n = Inr (take (min 2 n) (drop pos c))"

theorem readFile_complete_witness:
  "\<exists>outs'. readFile (Inr 7) (Inr \<lparr>st_isreg = True, st_isdir = False, st_size = 5, st_mtime = 1, st_ctime = 2\<rparr>)
     (demo_read ''hello'') 4 '''' (Some 0, None, None) = (Ret (0, ''hell'', outs'), [7])"
proof -
  have r: "reads (demo_read ''hello'') ''hello''"
    unfolding reads_def demo_read_def by (auto simp: take_is_prefix)
  have "never_fails (demo_read ''hello'')" by (simp add: never_fails_def demo_read_def)
  then show ?thesis
    using readFile_complete [OF r, of 4 7 "Inr \<lparr>st_isreg = True, st_isdir = False, st_size = 5, st_mtime = 1, st_ctime = 2\<rparr>" "''''" "(Some 0, None, None)"]
    by auto
qed

text \<open>A negative limit makes \<^verbatim>\<open>reserve\<close> throw when the size of a regular file is asked for.\<close>

lemma readFile_negative_limit:
  assumes "0 \<le> fd" and "maxSize < 0" and "fst outs \<noteq> None" and "st_isreg st"
  shows "fst (readFile (Inr fd) (Inr st) rd maxSize old outs) = Abort (Throw ''std::length_error'')"
  using assms by (cases outs) (auto simp: readFile_def new_ReadSmallFile_def readToString_def readToString_stat_def min_less_iff_disj)

lemma readFile_open_fails:
  "readFile (Inl errno) fstat rd maxSize old outs = (Ret (errno, old, outs), [])"
  by (simp add: readFile_def new_ReadSmallFile_def delete_ReadSmallFile_def readToString_def)

lemma readToBuffer_terminated:
  assumes "pread (kBufferSize - 1) = Inr bs" and "length bs \<le> kBufferSize - 1" and "length buf = kBufferSize" and "0 \<le> rsf_fd f"
  shows "\<exists>buf'. readToBuffer pread f (Some n) buf = (rsf_err f, Some (int (length bs)), buf') \<and> length buf' = kBufferSize
    \<and> take (length bs) buf' = bs \<and> buf' ! length bs = CHR 0x00"
  using assms by (simp add: readToBuffer_def kBufferSize_def nth_append)

end
