(* ===== verification/Doubles.thy ===== *)
theory Doubles
  imports Prelude Complex_Main
begin

text \<open>
  The arithmetic of \<^verbatim>\<open>double\<close> that the sources use: conversion of integers, multiplication, division, and printing with
  \<^verbatim>\<open>%.<d>f\<close>.

  A double is the rational number it denotes; an operation computes the exact result and rounds it once, to the nearest
  number with a significand of 53 bits, ties to even (\<open>fl\<close>). The values that occur are zero or between \<open>10 ^ - 18\<close> and \<open>10 ^ 28\<close> in
  magnitude, so neither overflow nor subnormal numbers arise. Printing is exact decimal rounding, ties to even.
\<close>

section \<open>Rounding to integers\<close>

definition round_even :: "rat \<Rightarrow> int" where
  "round_even x =
     (let f = \<lfloor>x\<rfloor>; r = x - of_int f
      in if r < 1 / 2 then f else if 1 / 2 < r then f + 1 else if even f then f else f + 1)"

lemma round_even_cases: "round_even x = \<lfloor>x\<rfloor> \<or> round_even x = \<lfloor>x\<rfloor> + 1"
  by (simp add: round_even_def Let_def)

lemma round_even_error: "\<bar>of_int (round_even x) - x\<bar> \<le> 1 / 2"
proof -
  have "of_int \<lfloor>x\<rfloor> \<le> x" "x < of_int \<lfloor>x\<rfloor> + 1" by linarith+
  then show ?thesis by (auto simp: round_even_def Let_def)
qed

lemma round_even_mono: "x \<le> y \<Longrightarrow> round_even x \<le> round_even y"
proof -
  assume le: "x \<le> y"
  show ?thesis
  proof (cases "\<lfloor>x\<rfloor> = \<lfloor>y\<rfloor>")
    case True
    with le show ?thesis by (auto simp: round_even_def Let_def)
  next
    case False
    then have "\<lfloor>x\<rfloor> + 1 \<le> \<lfloor>y\<rfloor>" using floor_mono [OF le] by simp
    then show ?thesis using round_even_cases [of x] round_even_cases [of y] by linarith
  qed
qed

lemma round_even_eqI: "\<bar>x - of_int k\<bar> < 1 / 2 \<Longrightarrow> round_even x = k"
  using round_even_error [of x] by linarith

lemma round_even_of_int [simp]: "round_even (of_int k) = k"
  by (rule round_even_eqI) simp

section \<open>Rounding to doubles\<close>

fun bitlen :: "nat \<Rightarrow> nat" where
  "bitlen n = (if n = 0 then 0 else Suc (bitlen (n div 2)))"

declare bitlen.simps [simp del]

lemma bitlen_bounds:
  assumes "0 < n"
  shows "2 ^ (bitlen n - 1) \<le> n" and "n < 2 ^ bitlen n" and "0 < bitlen n"
proof -
  have "2 ^ (bitlen n - 1) \<le> n \<and> n < 2 ^ bitlen n \<and> 0 < bitlen n" using assms
  proof (induction n rule: bitlen.induct)
    case (1 n)
    show ?case
    proof (cases "n div 2 = 0")
      case True
      then have "n = 1" using 1(2) by linarith
      then show ?thesis by (simp add: bitlen.simps)
    next
      case False
      then have IH: "2 ^ (bitlen (n div 2) - 1) \<le> n div 2" "n div 2 < 2 ^ bitlen (n div 2)" "0 < bitlen (n div 2)"
        using 1 by auto
      then obtain k where k: "bitlen (n div 2) = Suc k" by (cases "bitlen (n div 2)") auto
      have "bitlen n = Suc (Suc k)" using 1(2) k by (simp add: bitlen.simps [of n])
      moreover have "2 * 2 ^ k \<le> n" "n < 2 * (2 * 2 ^ k)" using IH unfolding k by simp_all
      ultimately show ?thesis by simp
    qed
  qed
  then show "2 ^ (bitlen n - 1) \<le> n" and "n < 2 ^ bitlen n" and "0 < bitlen n" by auto
qed

text \<open>The exponent of a positive number: \<open>2 powi e \<le> x < 2 powi (e + 1)\<close>.\<close>

definition binade :: "rat \<Rightarrow> int" where
  "binade x =
     (let (p, q) = quotient_of x; e = int (bitlen (nat p)) - int (bitlen (nat q))
      in if 2 powi e \<le> x then e else e - 1)"

definition fl :: "rat \<Rightarrow> rat" where
  "fl x =
     (if x = 0 then 0
      else let u = 2 powi (binade \<bar>x\<bar> - 52); r = of_int (round_even (\<bar>x\<bar> / u)) * u in if 0 < x then r else - r)"

definition double_of_int :: "int \<Rightarrow> rat" where
  "double_of_int i = fl (of_int i)"

definition dmul :: "rat \<Rightarrow> rat \<Rightarrow> rat" where
  "dmul x y = fl (x * y)"

definition ddiv :: "rat \<Rightarrow> rat \<Rightarrow> rat" where
  "ddiv x y = fl (x / y)"

text \<open>\<^verbatim>\<open>static_cast<int64_t>(x)\<close> of a double in range truncates.\<close>

definition trunc :: "rat \<Rightarrow> int" where
  "trunc x = (if 0 \<le> x then \<lfloor>x\<rfloor> else \<lceil>x\<rceil>)"

lemma powi2_pos [simp]: "0 < (2 :: rat) powi e"
  by (simp add: zero_less_power_int)

lemma powi2_less_imp: "(2 :: rat) powi a < 2 powi b \<Longrightarrow> a < b"
  using power_int_increasing [of b a "2 :: rat"] by fastforce

lemma powi2_mono: "a \<le> b \<Longrightarrow> (2 :: rat) powi a \<le> 2 powi b"
  by (rule power_int_increasing) simp_all

lemma binade_bounds:
  assumes "0 < x"
  shows "2 powi binade x \<le> x" and "x < 2 powi (binade x + 1)"
proof -
  obtain p q where pq: "quotient_of x = (p, q)" by (cases "quotient_of x")
  have q: "0 < q" using quotient_of_denom_pos [OF pq] .
  have x: "x = of_int p / of_int q" using quotient_of_div [OF pq] .
  have p: "0 < p" using assms q unfolding x by (simp add: zero_less_divide_iff)
  define a b where "a = bitlen (nat p)" and "b = bitlen (nat q)"
  have an: "2 ^ (a - 1) \<le> nat p" "nat p < 2 ^ a" "0 < a" using bitlen_bounds [of "nat p"] p unfolding a_def by auto
  have bn: "2 ^ (b - 1) \<le> nat q" "nat q < 2 ^ b" "0 < b" using bitlen_bounds [of "nat q"] q unfolding b_def by auto
  have pr: "rat_of_int p = rat_of_nat (nat p)" "rat_of_int q = rat_of_nat (nat q)" using p q by simp_all
  have P: "(2 :: rat) ^ (a - 1) \<le> of_int p" "of_int p < (2 :: rat) ^ a"
    using an unfolding pr by (metis of_nat_le_iff of_nat_numeral of_nat_power, metis of_nat_less_iff of_nat_numeral of_nat_power)
  have Q: "(2 :: rat) ^ (b - 1) \<le> of_int q" "of_int q < (2 :: rat) ^ b"
    using bn unfolding pr by (metis of_nat_le_iff of_nat_numeral of_nat_power, metis of_nat_less_iff of_nat_numeral of_nat_power)
  have q': "0 < rat_of_int q" using q by simp
  have ab: "(2 :: rat) powi (int a - int b) = 2 ^ a / 2 ^ b" by (simp add: power_int_diff)
  have lo: "2 powi (int a - int b - 1) \<le> x"
  proof -
    have "(2 :: rat) powi (int a - int b - 1) = 2 ^ (a - 1) / 2 ^ b"
      using an(3) by (simp add: power_int_diff power_diff)
    also have "\<dots> \<le> of_int p / of_int q" using P(1) Q(2) q' p by (intro frac_le) auto
    finally show ?thesis unfolding x .
  qed
  have hi: "x < 2 powi (int a - int b + 1)"
  proof -
    have "of_int p / of_int q < 2 ^ a / (2 :: rat) ^ (b - 1)" using P(2) Q(1) p by (intro frac_less) auto
    also have "\<dots> = 2 powi (int a - int b + 1)" using bn(3) by (simp add: power_int_diff power_diff power_int_add)
    finally show ?thesis unfolding x .
  qed
  have e: "binade x = (if 2 powi (int a - int b) \<le> x then int a - int b else int a - int b - 1)"
    by (simp add: binade_def pq Let_def a_def b_def)
  show "2 powi binade x \<le> x" "x < 2 powi (binade x + 1)" using lo hi unfolding e by auto
qed

lemma binade_eqI:
  assumes "2 powi e \<le> x" and "x < 2 powi (e + 1)"
  shows "binade x = e"
proof -
  have "0 < x" using assms(1) powi2_pos [of e] by linarith
  note b = binade_bounds [OF this]
  have "e < binade x + 1" using powi2_less_imp [of e "binade x + 1"] assms(1) b(2) by linarith
  moreover have "binade x < e + 1" using powi2_less_imp [of "binade x" "e + 1"] assms(2) b(1) by linarith
  ultimately show ?thesis by simp
qed

lemma binade_mono:
  assumes "0 < x" and "x \<le> y"
  shows "binade x \<le> binade y"
proof -
  have "(2 :: rat) powi binade x < 2 powi (binade y + 1)"
    using binade_bounds [of x] binade_bounds [of y] assms by linarith
  from powi2_less_imp [OF this] show ?thesis by simp
qed

lemma fl_0 [simp]: "fl 0 = 0"
  by (simp add: fl_def)

lemma fl_minus: "fl (- x) = - fl x"
  by (auto simp: fl_def Let_def)

lemma fl_pos_eq:
  assumes "2 powi e \<le> x" and "x < 2 powi (e + 1)"
  shows "fl x = of_int (round_even (x / 2 powi (e - 52))) * 2 powi (e - 52)"
proof -
  have "0 < x" using assms(1) powi2_pos [of e] by linarith
  then show ?thesis using binade_eqI [OF assms] by (simp add: fl_def Let_def)
qed

text \<open>How a rounded value is computed: name the exponent and the significand.\<close>

lemma fl_eval:
  assumes "2 powi e \<le> x" and "x < 2 powi (e + 1)" and "\<bar>x / 2 powi (e - 52) - of_int k\<bar> < 1 / 2"
  shows "fl x = of_int k * 2 powi (e - 52)"
  using fl_pos_eq [OF assms(1,2)] round_even_eqI [OF assms(3)] by simp

section \<open>Error and monotonicity\<close>

lemma powi2_shift: "(2 :: rat) powi e = 2 ^ 52 * 2 powi (e - 52)" "(2 :: rat) powi (e + 1) = 2 ^ 53 * 2 powi (e - 52)"
proof -
  have "(2 :: rat) powi (e - 52) = 2 powi e / 2 ^ 52" by (simp add: power_int_diff)
  then show "(2 :: rat) powi e = 2 ^ 52 * 2 powi (e - 52)" "(2 :: rat) powi (e + 1) = 2 ^ 53 * 2 powi (e - 52)"
    by (simp_all add: power_int_add)
qed

text \<open>A positive number is rounded within its binade, by at most half a unit in the last place.\<close>

lemma fl_pos_bounds:
  assumes "0 < x"
  shows "2 powi binade x \<le> fl x" and "fl x \<le> 2 powi (binade x + 1)" and "\<bar>fl x - x\<bar> \<le> 2 powi (binade x - 52) / 2"
proof -
  define u :: rat where "u = 2 powi (binade x - 52)"
  have u: "0 < u" by (simp add: u_def)
  have f: "fl x = of_int (round_even (x / u)) * u" using fl_pos_eq [OF binade_bounds [OF assms]] by (simp add: u_def)
  have lo: "of_int (2 ^ 52) \<le> x / u" and hi: "x / u \<le> of_int (2 ^ 53)"
    using binade_bounds [OF assms] u unfolding powi2_shift [of "binade x"] u_def [symmetric]
    by (simp_all add: pos_le_divide_eq pos_divide_le_eq)
  have "2 ^ 52 \<le> round_even (x / u)" using round_even_mono [OF lo] unfolding round_even_of_int .
  then have "rat_of_int (2 ^ 52) \<le> of_int (round_even (x / u))" by (simp only: of_int_le_iff)
  then show "2 powi binade x \<le> fl x" unfolding f powi2_shift(1) [of "binade x"] u_def [symmetric] using u by simp
  have "round_even (x / u) \<le> 2 ^ 53" using round_even_mono [OF hi] unfolding round_even_of_int .
  then have "of_int (round_even (x / u)) \<le> rat_of_int (2 ^ 53)" by (simp only: of_int_le_iff)
  then show "fl x \<le> 2 powi (binade x + 1)" unfolding f powi2_shift(2) [of "binade x"] u_def [symmetric] using u by simp
  have "fl x - x = (of_int (round_even (x / u)) - x / u) * u" using u by (simp add: f algebra_simps)
  then have "\<bar>fl x - x\<bar> = \<bar>of_int (round_even (x / u)) - x / u\<bar> * u" using u by (simp add: abs_mult)
  also have "\<dots> \<le> 1 / 2 * u" using round_even_error [of "x / u"] u by (intro mult_right_mono) auto
  finally show "\<bar>fl x - x\<bar> \<le> 2 powi (binade x - 52) / 2" unfolding u_def by simp
qed

lemma fl_pos: "0 < x \<Longrightarrow> 0 < fl x"
  using less_le_trans [OF powi2_pos fl_pos_bounds(1)] .

lemma fl_nonneg: "0 \<le> x \<Longrightarrow> 0 \<le> fl x"
  using fl_pos [of x] by (cases "x = 0") auto

lemma fl_pos_mono:
  assumes "0 < x" and "x \<le> y"
  shows "fl x \<le> fl y"
proof (cases "binade x = binade y")
  case True
  have y: "0 < y" using assms by simp
  have "round_even (x / 2 powi (binade y - 52)) \<le> round_even (y / 2 powi (binade y - 52))"
    using assms(2) by (intro round_even_mono divide_right_mono) (simp_all add: less_imp_le)
  then show ?thesis
    using fl_pos_eq [OF binade_bounds [OF assms(1)]] fl_pos_eq [OF binade_bounds [OF y]] True by simp
next
  case False
  have y: "0 < y" using assms by simp
  have "binade x + 1 \<le> binade y" using False binade_mono [OF assms] by simp
  then have "(2 :: rat) powi (binade x + 1) \<le> 2 powi binade y" by (rule powi2_mono)
  then show ?thesis using fl_pos_bounds(2) [OF assms(1)] fl_pos_bounds(1) [OF y] by linarith
qed

lemma fl_mono: "x \<le> y \<Longrightarrow> fl x \<le> fl y"
proof -
  assume le: "x \<le> y"
  consider "0 < x" | "x \<le> 0" "0 \<le> y" | "y < 0" using le by linarith
  then show ?thesis
  proof cases
    case 1
    then show ?thesis using le by (rule fl_pos_mono)
  next
    case 2
    then have "fl x \<le> 0" using fl_nonneg [of "- x"] by (simp add: fl_minus)
    then show ?thesis using fl_nonneg [OF 2(2)] by linarith
  next
    case 3
    then show ?thesis using fl_pos_mono [of "- y" "- x"] le by (simp add: fl_minus)
  qed
qed

lemma fl_error: "\<bar>fl x - x\<bar> \<le> \<bar>x\<bar> / 2 ^ 53"
proof -
  have pos: "\<bar>fl y - y\<bar> \<le> y / 2 ^ 53" if "0 < y" for y
  proof -
    have "(2 :: rat) powi (binade y - 52) / 2 = 2 powi binade y / 2 ^ 53" using powi2_shift(1) [of "binade y"] by simp
    then show ?thesis using fl_pos_bounds(3) [OF that] binade_bounds(1) [OF that] by (simp add: divide_right_mono)
  qed
  consider "x = 0" | "0 < x" | "x < 0" by linarith
  then show ?thesis
  proof cases
    case 3
    have "\<bar>fl (- x) - (- x)\<bar> \<le> - x / 2 ^ 53" using pos [of "- x"] 3 by simp
    then show ?thesis using 3 by (simp add: fl_minus abs_minus_commute)
  qed (use pos in auto)
qed

text \<open>Integers of up to 53 bits are doubles.\<close>

lemma fl_of_nat_small:
  assumes "n < 2 ^ 53"
  shows "fl (of_nat n) = of_nat n"
proof (cases "n = 0")
  case False
  define m where "m = bitlen n - 1"
  have b: "2 ^ m \<le> n" "n < 2 ^ (m + 1)" using bitlen_bounds [of n] False by (simp_all add: m_def)
  have m: "m \<le> 52"
  proof (rule ccontr)
    assume "\<not> m \<le> 52"
    then have "(2 :: nat) ^ 53 \<le> 2 ^ m" by (intro power_increasing) simp_all
    then show False using b(1) assms by simp
  qed
  have i: "2 powi int m \<le> rat_of_nat n" "rat_of_nat n < 2 powi (int m + 1)"
    using b by (metis of_nat_le_iff of_nat_numeral of_nat_power power_int_of_nat,
      metis of_nat_less_iff of_nat_numeral of_nat_power power_int_of_nat of_nat_Suc Suc_eq_plus1 add.commute)
  have "int m - 52 = - int (52 - m)" using m by simp
  then have u: "(2 :: rat) powi (int m - 52) = inverse (2 ^ (52 - m))" by (simp only: power_int_minus power_int_of_nat)
  have "round_even (rat_of_nat n / 2 powi (int m - 52)) = int n * 2 ^ (52 - m)"
    unfolding u by (rule round_even_eqI) (simp only: divide_inverse inverse_inverse_eq of_int_mult of_int_power of_int_of_nat_eq, simp)
  then show ?thesis unfolding fl_pos_eq [OF i] u by simp
qed simp

lemma double_of_int_small: "\<bar>i\<bar> < 2 ^ 53 \<Longrightarrow> double_of_int i = of_int i"
proof (cases "0 \<le> i")
  case True
  assume "\<bar>i\<bar> < 2 ^ 53"
  then have "nat i < 2 ^ 53" using True by (simp add: nat_less_iff)
  then show ?thesis using fl_of_nat_small [of "nat i"] True by (simp add: double_of_int_def)
next
  case False
  assume "\<bar>i\<bar> < 2 ^ 53"
  then have "nat (- i) < 2 ^ 53" using False by (simp add: nat_less_iff)
  then have "fl (- of_int i) = - of_int i" using fl_of_nat_small [of "nat (- i)"] False by simp
  then show ?thesis by (simp add: double_of_int_def fl_minus)
qed

text \<open>Doubles are closed under scaling by powers of two, and rounding them again changes nothing.\<close>

lemma fl_scale:
  assumes "0 < x"
  shows "fl (x * 2 powi k) = fl x * 2 powi k"
proof -
  have b: "2 powi (binade x + k) \<le> x * 2 powi k" "x * 2 powi k < 2 powi (binade x + k + 1)"
    using binade_bounds [OF assms] by (simp_all add: power_int_add mult.commute mult.left_commute)
  have u: "(2 :: rat) powi (binade x + k - 52) = 2 powi (binade x - 52) * 2 powi k"
    by (simp add: power_int_add [symmetric] algebra_simps)
  show ?thesis unfolding fl_pos_eq [OF b] fl_pos_eq [OF binade_bounds [OF assms]] u by simp
qed

lemma fl_powi [simp]: "fl (2 powi e) = 2 powi e"
proof -
  have "fl (2 powi e) = of_int (2 ^ 52) * 2 powi (e - 52)"
    by (rule fl_eval) (simp_all add: power_int_diff power_int_add)
  then show ?thesis using powi2_shift(1) [of e] by simp
qed

lemma fl_fl_pos:
  assumes "0 < x"
  shows "fl (fl x) = fl x"
proof (cases "fl x = 2 powi (binade x + 1)")
  case False
  then have b: "2 powi binade x \<le> fl x" "fl x < 2 powi (binade x + 1)" using fl_pos_bounds [OF assms] by auto
  have "fl x / 2 powi (binade x - 52) = of_int (round_even (x / 2 powi (binade x - 52)))"
    unfolding fl_pos_eq [OF binade_bounds [OF assms]] by simp
  then have "round_even (fl x / 2 powi (binade x - 52)) = round_even (x / 2 powi (binade x - 52))"
    by (simp only: round_even_of_int)
  then show ?thesis using fl_pos_eq [OF b] fl_pos_eq [OF binade_bounds [OF assms]] by simp
qed simp

lemma fl_fl [simp]: "fl (fl x) = fl x"
proof -
  consider "x = 0" | "0 < x" | "0 < - x" by linarith
  then show ?thesis using fl_fl_pos [of x] fl_fl_pos [of "- x"] by cases (auto simp: fl_minus)
qed

text \<open>Between a double and its predecessor there is no double.\<close>

lemma fl_less_pred:
  assumes "fl x = x" and "x < of_int k * 2 powi (e - 52)" and "2 ^ 52 < k" and "k \<le> 2 ^ 53"
  shows "x \<le> of_int (k - 1) * 2 powi (e - 52)"
proof (rule ccontr)
  define u :: rat where "u = 2 powi (e - 52)"
  have u: "0 < u" by (simp add: u_def)
  assume "\<not> ?thesis"
  then have g: "of_int (k - 1) < x / u" "x / u < of_int k"
    using assms(2) u unfolding u_def [symmetric] by (simp_all add: pos_less_divide_eq pos_divide_less_eq)
  have "2 ^ 52 \<le> k - 1" using assms(3) by simp
  then have "rat_of_int (2 ^ 52) \<le> of_int (k - 1)" "rat_of_int k \<le> of_int (2 ^ 53)" using assms(4) by (simp_all only: of_int_le_iff)
  then have "of_int (2 ^ 52) \<le> x / u" "x / u < of_int (2 ^ 53)" using g by linarith+
  then have "2 powi e \<le> x" "x < 2 powi (e + 1)"
    unfolding powi2_shift [of e] u_def [symmetric] using u by (simp_all add: pos_le_divide_eq pos_divide_less_eq)
  from fl_pos_eq [OF this] have "x = of_int (round_even (x / u)) * u" using assms(1) by (simp add: u_def)
  then have "x / u = of_int (round_even (x / u))" using u by (metis nonzero_mult_div_cancel_right less_irrefl)
  then have "k - 1 < round_even (x / u)" "round_even (x / u) < k" using g by (metis of_int_less_iff)+
  then show False by simp
qed

section \<open>Printing\<close>

definition fixed_digits :: "nat \<Rightarrow> nat \<Rightarrow> string" where
  "fixed_digits d m =
     (let s = dec_nat (m mod 10 ^ d)
      in dec_nat (m div 10 ^ d) @ (if d = 0 then '''' else CHR ''.'' # replicate (d - length s) CHR ''0'' @ s))"

text \<open>\<^verbatim>\<open>%.<d>f\<close>\<close>

definition printf_f :: "nat \<Rightarrow> rat \<Rightarrow> string" where
  "printf_f d x = (if x < 0 then CHR ''-'' # fixed_digits d (nat (round_even (- x * 10 ^ d))) else fixed_digits d (nat (round_even (x * 10 ^ d))))"

lemma length_fixed_digits:
  assumes "m div 10 ^ d < 10 ^ k" and "0 < k"
  shows "length (fixed_digits d m) \<le> k + (if d = 0 then 0 else d + 1)"
proof -
  have "d \<noteq> 0 \<Longrightarrow> length (dec_nat (m mod 10 ^ d)) \<le> d" by (rule length_dec_nat) simp_all
  then show ?thesis using length_dec_nat [OF assms] by (auto simp: fixed_digits_def Let_def)
qed

lemma length_printf_f:
  assumes "0 \<le> x" and "x \<le> y" and "round_even (y * 10 ^ d) < 10 ^ (k + d)" and "0 < k"
  shows "length (printf_f d x) \<le> k + (if d = 0 then 0 else d + 1)"
proof -
  have "round_even (x * 10 ^ d) \<le> round_even (y * 10 ^ d)" using assms(2) by (intro round_even_mono mult_right_mono) auto
  moreover have "0 \<le> round_even (x * 10 ^ d)" using round_even_mono [of 0 "x * 10 ^ d"] assms(1) round_even_of_int [of 0] by simp
  ultimately have "nat (round_even (x * 10 ^ d)) < 10 ^ k * 10 ^ d" using assms(3) by (simp add: nat_less_iff power_add)
  then have "nat (round_even (x * 10 ^ d)) div 10 ^ d < 10 ^ k" by (simp add: less_mult_imp_div_less)
  then show ?thesis using length_fixed_digits [OF _ assms(4)] assms(1) by (simp add: printf_f_def)
qed

end
