(* ===== verification/ProcInfo.thy ===== *)
theory ProcInfo
  imports ProcTexts Files Doubles "HOL-Library.Multiset"
begin

text \<open>
  \<^verbatim>\<open>muduo/base/ProcessInfo.{h,cc}\<close> and the pages of the inspector, \<^verbatim>\<open>ProcessInspector.cc\<close> and \<^verbatim>\<open>SystemInspector.cc\<close> in
  \<^verbatim>\<open>muduo/net/inspect\<close>.

  What the code asks the operating system is the record \<open>os\<close>: the clock, the results of system calls (\<open>None\<close> or an error number when they
  fail), and for every path the result of \<^verbatim>\<open>open\<close> and the behaviour of \<^verbatim>\<open>read\<close>, on which the files are read as in
  \<open>Files\<close>. Doubles are those of \<open>Doubles\<close>. The code is built with assertions, so \<^verbatim>\<open>isDebugBuild()\<close> is true.
\<close>

section \<open>Process information\<close>

record uts =
  sysname :: string
  nodename :: string
  release :: string
  version :: string
  machine :: string

record os =
  os_now :: int
  os_startTime :: int
  os_pid :: int
  os_tid :: int
  os_clockTicks :: int
  os_open :: "string \<Rightarrow> int + int"
  os_read :: "string \<Rightarrow> nat \<Rightarrow> nat \<Rightarrow> int + string"
  os_dir :: "string \<Rightarrow> string list"
  os_pwname :: "string option"
  os_gethostname :: "string option"
  os_exe :: string
  os_rlimit_nofile :: "int option"
  os_times :: "(int \<times> int) option"
  os_uname :: "uts option"

text \<open>\<^verbatim>\<open>FileUtil::readFile(path, 65536, &content)\<close>\<close>

definition readProcFile :: "os \<Rightarrow> string \<Rightarrow> string \<Rightarrow> (int \<times> string) outcome" where
  "readProcFile os fname old =
     bindo (fst (readFile (os_open os fname) (Inl 0) (os_read os fname) 65536 old (None, None, None)))
       (\<lambda>(err, content, _). Ret (err, content))"

definition pidString :: "os \<Rightarrow> string" where
  "pidString os = snprintf 32 (dec_int (os_pid os))"

definition username :: "os \<Rightarrow> string" where
  "username os = (case os_pwname os of None \<Rightarrow> ''unknownuser'' | Some name \<Rightarrow> name)"

definition hostname :: "os \<Rightarrow> string" where
  "hostname os = (case os_gethostname os of
      Some buf \<Rightarrow> takeWhile (\<lambda>c. c \<noteq> CHR 0x00) (take 255 buf)
    | None \<Rightarrow> ''unknownhost'')"

definition procStatus :: "os \<Rightarrow> string outcome" where
  "procStatus os = bindo (readProcFile os ''/proc/self/status'' '''') (\<lambda>(_, result). Ret result)"

definition procStat :: "os \<Rightarrow> string outcome" where
  "procStat os = bindo (readProcFile os ''/proc/self/stat'' '''') (\<lambda>(_, result). Ret result)"

definition threadStat :: "os \<Rightarrow> string outcome" where
  "threadStat os =
     bindo (readProcFile os (snprintf 64 (''/proc/self/task/'' @ dec_int (os_tid os) @ ''/stat'')) '''') (\<lambda>(_, result). Ret result)"

definition ProcessInfo_procname :: "os \<Rightarrow> string outcome" where
  "ProcessInfo_procname os = bindo (procStat os) (\<lambda>stat. Ret (procname stat))"

definition ProcessInfo_numThreads :: "os \<Rightarrow> int outcome" where
  "ProcessInfo_numThreads os = bindo (procStatus os) (\<lambda>status. Ret (numThreads status))"

definition exePath :: "os \<Rightarrow> string" where
  "exePath os = take 1024 (os_exe os)"

text \<open>The filters of \<^verbatim>\<open>scandir\<close> count or collect the entries that start with a digit and select none.\<close>

definition digit_entry :: "string \<Rightarrow> bool" where
  "digit_entry d_name \<longleftrightarrow> d_name \<noteq> [] \<and> is_digit (hd d_name)"

definition openedFiles :: "os \<Rightarrow> int" where
  "openedFiles os = int (length (filter digit_entry (os_dir os ''/proc/self/fd'')))"

text \<open>\<^verbatim>\<open>static_cast<int>\<close> of a 64-bit value keeps its low 32 bits.\<close>

definition to_int32 :: "int \<Rightarrow> int" where
  "to_int32 n = (n + 2 ^ 31) mod 2 ^ 32 - 2 ^ 31"

definition maxOpenFiles :: "os \<Rightarrow> int" where
  "maxOpenFiles os = (case os_rlimit_nofile os of None \<Rightarrow> openedFiles os | Some rlim_cur \<Rightarrow> to_int32 rlim_cur)"

definition cpuTime :: "os \<Rightarrow> rat \<times> rat" where
  "cpuTime os = (case os_times os of
      None \<Rightarrow> (0, 0)
    | Some (utime, stime) \<Rightarrow>
        let hz = double_of_int (os_clockTicks os) in (ddiv (double_of_int utime) hz, ddiv (double_of_int stime) hz))"

definition threads :: "os \<Rightarrow> int list" where
  "threads os = sort (map atol (filter digit_entry (os_dir os ''/proc/self/task'')))"

section \<open>The pages of a process\<close>

definition newline :: string where
  "newline = [CHR 0x0A]"

definition stringPrintf :: "string \<Rightarrow> string \<Rightarrow> string" where
  "stringPrintf out text = out @ snprintf 256 text"

definition getCpuTime :: "int \<Rightarrow> string \<Rightarrow> rat \<times> rat" where
  "getCpuTime clockTicks data =
     (let data = (next_field ^^ 10) data;
          utime = atol data;
          data = next_field data;
          stime = atol data;
          hz = double_of_int clockTicks
      in (ddiv (double_of_int utime) hz, ddiv (double_of_int stime) hz))"

definition process_overview :: "os \<Rightarrow> string outcome" where
  "process_overview os =
     (let now = os_now os;
          result = ''Page generated at '' @ Timestamp_toFormattedString now True @ '' (UTC)'' @ newline @ ''Started at ''
            @ Timestamp_toFormattedString (os_startTime os) True @ '' (UTC), up for '' @ uptime now (os_startTime os) True @ newline
      in bindo (procStatus os) (\<lambda>procStatus. bindo (getProcessName procStatus) (\<lambda>name.
         let result = result @ name @ '' ('' @ exePath os @ '') running as '' @ username os @ '' on '' @ hostname os @ newline;
             result = result @ ''WARNING: debug build!'' @ newline;
             result = stringPrintf result (''pid '' @ dec_int (os_pid os) @ '', num of threads '' @ dec_int (getLong procStatus ''Threads:'')
               @ '', bits 64'' @ newline);
             result = stringPrintf (result @ ''Virtual memory: '')
               (printf_f 3 (ddiv (double_of_int (getLong procStatus ''VmSize:'')) 1024) @ '' MiB, '');
             result = stringPrintf (result @ ''RSS memory: '')
               (printf_f 3 (ddiv (double_of_int (getLong procStatus ''VmRSS:'')) 1024) @ '' MiB'' @ newline);
             result = stringPrintf result (''Opened files: '' @ dec_int (openedFiles os) @ '', limit: '' @ dec_int (maxOpenFiles os) @ newline);
             t = cpuTime os
         in Ret (stringPrintf result (''User time: '' @ pad CHR '' '' 12 (printf_f 3 (fst t)) @ ''s'' @ newline @ ''Sys time:  ''
              @ pad CHR '' '' 12 (printf_f 3 (snd t)) @ ''s'' @ newline)))))"

definition process_pid :: "os \<Rightarrow> string outcome" where
  "process_pid os = Ret (snprintf 32 (dec_int (os_pid os)))"

definition process_openedFiles :: "os \<Rightarrow> string outcome" where
  "process_openedFiles os = Ret (snprintf 32 (dec_int (openedFiles os)))"

text \<open>The position of the process name in a line of \<^verbatim>\<open>/proc/<pid>/stat\<close>: between the first opening and the last closing
  parenthesis. Without them \<^verbatim>\<open>name.end()\<close> is the null pointer.\<close>

definition procname_span :: "string \<Rightarrow> (nat \<times> nat) option" where
  "procname_span stat =
     (case memchr stat CHR ''('' of
        None \<Rightarrow> None
      | Some lp \<Rightarrow>
          (case memchr (rev stat) CHR '')'' of
             None \<Rightarrow> None
           | Some k \<Rightarrow> let rp = length stat - 1 - k in if lp < rp then Some (lp, rp) else None))"

text \<open>One line of the page. The closing parenthesis is overwritten by a null byte, so that the name prints as a C string.\<close>

definition thread_row :: "int \<Rightarrow> string \<Rightarrow> char \<Rightarrow> rat \<times> rat \<Rightarrow> string" where
  "thread_row tid name st t = pad CHR '' '' 5 (dec_int tid) @ '' '' @ name @ replicate (16 - length name) CHR '' '' @ '' '' @ [st] @ '' ''
     @ pad CHR '' '' 12 (printf_f 3 (fst t)) @ '' '' @ pad CHR '' '' 12 (printf_f 3 (snd t)) @ newline"

definition thread_line :: "os \<Rightarrow> int \<Rightarrow> string \<Rightarrow> string outcome" where
  "thread_line os tid stat =
     (case procname_span stat of
        None \<Rightarrow> Abort (Undefined ''*name.end() of a null StringPiece'')
      | Some (lp, rp) \<Rightarrow>
          require (stat ! rp = CHR '')'') ''*rp == right parenthesis''
            (let st = rp + 2
             in if st + 2 > length stat then Abort (Undefined ''past the end of stat'')
                else let stat = stat[rp := CHR 0x00];
                         t = getCpuTime (os_clockTicks os) (drop (st + 2) stat);
                         name = takeWhile (\<lambda>c. c \<noteq> CHR 0x00) (drop (lp + 1) stat)
                     in Ret (snprintf 256 (thread_row tid name (stat ! st) t))))"

definition stat_path :: "os \<Rightarrow> int \<Rightarrow> string" where
  "stat_path os tid = snprintf 256 (''/proc/'' @ dec_int (os_pid os) @ ''/task/'' @ dec_int tid @ ''/stat'')"

fun threads_loop :: "os \<Rightarrow> int list \<Rightarrow> string \<Rightarrow> string \<Rightarrow> string outcome" where
  "threads_loop os [] stat result = Ret result"
| "threads_loop os (tid # tids) stat result =
     bindo (readProcFile os (stat_path os tid) stat) (\<lambda>(err, stat).
       if err = 0
       then bindo (thread_line os tid stat) (\<lambda>line. threads_loop os tids stat (result @ line))
       else threads_loop os tids stat result)"

definition process_threads :: "os \<Rightarrow> string outcome" where
  "process_threads os = threads_loop os (threads os) '''' (''  TID NAME             S    User Time  System Time'' @ newline)"

section \<open>The pages of the system\<close>

definition proc_page :: "string \<Rightarrow> os \<Rightarrow> string outcome" where
  "proc_page fname os = bindo (readProcFile os fname '''') (\<lambda>(_, text). Ret text)"

definition loadavg :: "os \<Rightarrow> string outcome" where
  "loadavg = proc_page ''/proc/loadavg''"

definition version_page :: "os \<Rightarrow> string outcome" where
  "version_page = proc_page ''/proc/version''"

definition cpuinfo :: "os \<Rightarrow> string outcome" where
  "cpuinfo = proc_page ''/proc/cpuinfo''"

definition meminfo :: "os \<Rightarrow> string outcome" where
  "meminfo = proc_page ''/proc/meminfo''"

definition stat_page :: "os \<Rightarrow> string outcome" where
  "stat_page = proc_page ''/proc/stat''"

definition system_overview :: "os \<Rightarrow> string outcome" where
  "system_overview os =
     (let now = os_now os;
          mib = (\<lambda>label kb. label @ pad CHR '' '' 6 (dec_int (kb sdiv 1024)) @ '' MiB'' @ newline);
          result = ''Page generated at '' @ Timestamp_toFormattedString now True @ '' (UTC)'' @ newline;
          result = (case os_uname os of
              None \<Rightarrow> result
            | Some un \<Rightarrow> stringPrintf (stringPrintf (stringPrintf result (''Hostname: '' @ nodename un @ newline))
                  (''Machine: '' @ machine un @ newline)) (''OS: '' @ sysname un @ '' '' @ release un @ '' '' @ version un @ newline))
      in bindo (stat_page os) (\<lambda>stat. bindo (loadavg os) (\<lambda>loadavg. bindo (meminfo os) (\<lambda>meminfo.
         let bootTime = kMicroSecondsPerSecond * getLong stat ''btime '';
             result = result @ ''Boot time: '' @ Timestamp_toFormattedString bootTime False @ '' (UTC)'' @ newline
               @ ''Up time: '' @ uptime now bootTime False @ newline;
             result = stringPrintf result (''Processes created: '' @ dec_int (getLong stat ''processes '') @ newline);
             result = stringPrintf result (''Loadavg: '' @ takeWhile (\<lambda>c. c \<noteq> CHR 0x00) loadavg @ newline);
             total_kb = getLong meminfo ''MemTotal:''; free_kb = getLong meminfo ''MemFree:'';
             buffers_kb = getLong meminfo ''Buffers:''; cached_kb = getLong meminfo ''Cached:'';
             result = stringPrintf result (mib ''Total Memory: '' total_kb);
             result = stringPrintf result (mib ''Free Memory:  '' free_kb);
             result = stringPrintf result (mib ''Buffers:      '' buffers_kb);
             result = stringPrintf result (mib ''Cached:       '' cached_kb);
             result = stringPrintf result (mib ''Real Used:    '' (total_kb - free_kb - buffers_kb - cached_kb))
         in Ret (stringPrintf result (mib ''Real Free:    '' (free_kb + buffers_kb + cached_kb)))))))"

section \<open>Reading\<close>

text \<open>The texts the code reads: complete up to the limit.\<close>

definition serves :: "os \<Rightarrow> string \<Rightarrow> string \<Rightarrow> bool" where
  "serves os fname c \<longleftrightarrow> (\<exists>fd\<ge>0. os_open os fname = Inr fd) \<and> reads (os_read os fname) c \<and> never_fails (os_read os fname)"

lemma readProcFile_serves:
  assumes "serves os fname c"
  shows "readProcFile os fname old = Ret (0, take 65536 c)"
proof -
  obtain fd where fd: "0 \<le> fd" "os_open os fname = Inr fd" and r: "reads (os_read os fname) c" "never_fails (os_read os fname)"
    using assms by (auto simp: serves_def)
  obtain content err where rl: "read_loop (os_read os fname) 65536 [] 0 = (content, err)" by fastforce
  have "err = 0" "content = take 65536 c" using read_loop_contents [OF r(1) _ _ rl] r(2) by auto
  then show ?thesis using fd rl
    by (simp add: readProcFile_def readFile_def new_ReadSmallFile_def readToString_def readToString_stat_def as_size_def)
qed

lemma readProcFile_unreadable:
  "os_open os fname = Inl errno \<Longrightarrow> readProcFile os fname old = Ret (errno, old)"
  by (simp add: readProcFile_def readFile_def new_ReadSmallFile_def readToString_def)

section \<open>The fields of a stat line\<close>

definition fields_text :: "string list \<Rightarrow> string" where
  "fields_text fs = concat (map (\<lambda>f. CHR '' '' # f) fs)"

lemma next_field_word: "CHR '' '' \<notin> set f \<Longrightarrow> next_field (f @ CHR '' '' # rest) = rest"
  using std_find_append [of "CHR '' ''" f rest] by (simp add: next_field_def memchr_def)

lemma next_fields:
  assumes "\<forall>f\<in>set pre. CHR '' '' \<notin> set f"
  shows "(next_field ^^ length pre) (tl (fields_text (pre @ g # gs) @ rest)) = g @ fields_text gs @ rest"
  using assms
proof (induction pre)
  case (Cons f pre)
  let ?d = "fields_text (pre @ g # gs) @ rest"
  have d: "?d = CHR '' '' # tl ?d" by (cases pre) (simp_all add: fields_text_def)
  have "next_field (f @ ?d) = tl ?d" using next_field_word [of f "tl ?d"] Cons.prems d by simp
  then have "next_field (tl (fields_text ((f # pre) @ g # gs) @ rest)) = tl ?d" by (simp add: fields_text_def)
  then show ?case using Cons by (simp add: funpow_swap1 del: funpow.simps add: funpow_Suc_right)
qed (simp add: fields_text_def)

text \<open>The line as the kernel prints it: process, name, state, and the fields from the parent process on.\<close>

definition stat_text :: "int \<Rightarrow> string \<Rightarrow> char \<Rightarrow> string list \<Rightarrow> string" where
  "stat_text tid name st flds = dec_int tid @ '' ('' @ name @ '') '' @ [st] @ fields_text flds @ newline"

lemma procname_span_between:
  assumes "CHR ''('' \<notin> set a" and "CHR '')'' \<notin> set b"
  shows "procname_span (a @ CHR ''('' # name @ CHR '')'' # b) = Some (length a, length a + 1 + length name)"
proof -
  have l: "memchr (a @ CHR ''('' # name @ CHR '')'' # b) CHR ''('' = Some (length a)"
    using std_find_append [OF assms(1), of "name @ CHR '')'' # b"] by (simp add: memchr_def)
  have "memchr (rev (a @ CHR ''('' # name @ CHR '')'' # b)) CHR '')'' = Some (length b)"
    using std_find_append [of "CHR '')''" "rev b" "rev name @ CHR ''('' # rev a"] assms(2) by (simp add: memchr_def)
  then show ?thesis using l by (simp add: procname_span_def Let_def)
qed

lemma procname_span_name: "procname stat = (case procname_span stat of None \<Rightarrow> '''' | Some (lp, rp) \<Rightarrow> take (rp - lp - 1) (drop (lp + 1) stat))"
  by (simp add: procname_def procname_span_def Let_def split: option.splits)

lemma getCpuTime_fields:
  assumes "length pre = 10" and "\<forall>f\<in>set pre. CHR '' '' \<notin> set f"
  shows "getCpuTime hz (tl (fields_text (pre @ dec_nat u # dec_nat s # more_flds) @ newline)) =
    (ddiv (double_of_int (int u)) (double_of_int hz), ddiv (double_of_int (int s)) (double_of_int hz))"
proof -
  have nd: "\<not> is_digit CHR '' ''" "\<not> is_digit CHR 0x0A" by (simp_all add: is_digit_def)
  have d1: "(next_field ^^ 10) (tl (fields_text (pre @ dec_nat u # dec_nat s # more_flds) @ newline)) = dec_nat u @ fields_text (dec_nat s # more_flds) @ newline"
    using next_fields [OF assms(2), of "dec_nat u" "dec_nat s # more_flds" newline] assms(1) by simp
  have a1: "atol (dec_nat u @ fields_text (dec_nat s # more_flds) @ newline) = int u"
    using atol_dec_nat [of "fields_text (dec_nat s # more_flds) @ newline" "[]" u] nd by (simp add: fields_text_def)
  have "CHR '' '' \<notin> set (dec_nat u)" using dec_nat_digits [of "CHR '' ''" u] by auto
  then have d2: "next_field (dec_nat u @ fields_text (dec_nat s # more_flds) @ newline) = dec_nat s @ fields_text more_flds @ newline"
    using next_field_word [of "dec_nat u" "dec_nat s @ fields_text more_flds @ newline"] by (simp add: fields_text_def)
  have a2: "atol (dec_nat s @ fields_text more_flds @ newline) = int s"
    using atol_dec_nat [of "fields_text more_flds @ newline" "[]" s] nd by (cases more_flds) (simp_all add: fields_text_def newline_def)
  show ?thesis unfolding getCpuTime_def Let_def d1 a1 d2 a2 ..
qed

text \<open>A line whose fields from the eleventh on are the user and the system time.\<close>

definition stat_ok :: "string \<Rightarrow> char \<Rightarrow> string list \<Rightarrow> bool" where
  "stat_ok name st flds \<longleftrightarrow> CHR 0x00 \<notin> set name \<and> st \<noteq> CHR '')'' \<and> 12 \<le> length flds
     \<and> (\<forall>f\<in>set flds. CHR '' '' \<notin> set f \<and> CHR '')'' \<notin> set f)"

lemma drop_Suc_append: "drop (Suc (length p)) (p @ r) = tl r"
  by (simp add: drop_Suc)

lemma thread_line_stat:
  assumes "stat_ok name st flds" and "flds ! 10 = dec_nat u" and "flds ! 11 = dec_nat s"
  shows "thread_line os tid (stat_text t name st flds) = Ret (snprintf 256 (thread_row tid name st
    (ddiv (double_of_int (int u)) (double_of_int (os_clockTicks os)), ddiv (double_of_int (int s)) (double_of_int (os_clockTicks os)))))"
proof -
  define a b where "a = dec_int t @ '' ''" and "b = CHR '' '' # st # fields_text flds @ newline"
  let ?stat = "a @ CHR ''('' # name @ CHR '')'' # b"
  let ?rp = "length a + 1 + length name"
  have stat: "stat_text t name st flds = ?stat" by (simp add: stat_text_def a_def b_def)
  have "CHR ''('' \<notin> set (dec_nat n)" for n using dec_nat_digits [of "CHR ''(''" n] by auto
  then have "CHR ''('' \<notin> set a" by (simp add: a_def dec_int_def)
  moreover have "CHR '')'' \<notin> set b" using assms(1) by (auto simp: b_def fields_text_def newline_def stat_ok_def)
  ultimately have sp: "procname_span ?stat = Some (length a, ?rp)" by (rule procname_span_between)
  have up: "?stat[?rp := CHR 0x00] = a @ CHR ''('' # name @ CHR 0x00 # b" by (simp add: list_update_append)
  have len: "\<not> ?rp + 2 + 2 > length ?stat" using assms(1) by (cases flds) (simp_all add: b_def stat_ok_def fields_text_def)
  have dr: "drop (?rp + 2 + 2) (a @ CHR ''('' # name @ CHR 0x00 # b) = tl (fields_text flds @ newline)"
    using drop_Suc_append [of "a @ CHR ''('' # name @ [CHR 0x00, CHR '' '', st]" "fields_text flds @ newline"] by (simp add: b_def)
  have nm: "takeWhile (\<lambda>c. c \<noteq> CHR 0x00) (drop (length a + 1) (a @ CHR ''('' # name @ CHR 0x00 # b)) = name"
    using assms(1) by (subst drop_append, simp, subst takeWhile_append2) (auto simp: stat_ok_def)
  have ix: "?stat ! ?rp = CHR '')''" "(a @ CHR ''('' # name @ CHR 0x00 # b) ! (?rp + 2) = st"
    by (simp_all add: nth_append b_def)
  have "flds = take 10 flds @ flds ! 10 # flds ! 11 # drop 12 flds"
    using assms(1) id_take_nth_drop [of 10 flds] Cons_nth_drop_Suc [of 11 flds] by (simp add: stat_ok_def numeral_eq_Suc)
  then have f: "flds = take 10 flds @ dec_nat u # dec_nat s # drop 12 flds" using assms(2,3) by simp
  have "\<forall>f\<in>set (take 10 flds). CHR '' '' \<notin> set f" "length (take 10 flds) = 10"
    using assms(1) by (auto simp: stat_ok_def dest: in_set_takeD)
  from getCpuTime_fields [OF this(2,1), of "os_clockTicks os" u s "drop 12 flds"] f
  have cpu: "getCpuTime (os_clockTicks os) (tl (fields_text flds @ newline)) =
      (ddiv (double_of_int (int u)) (double_of_int (os_clockTicks os)), ddiv (double_of_int (int s)) (double_of_int (os_clockTicks os)))"
    by simp
  show ?thesis unfolding thread_line_def stat sp option.case prod.case Let_def ix(1) up nm dr ix(2) cpu using len by simp
qed

section \<open>The page of the threads\<close>

text \<open>What is known of a thread: name, state, the fields of its line, and the ticks it ran in user and in system mode.\<close>

type_synonym thread_info = "string \<times> char \<times> string list \<times> nat \<times> nat"

definition info_row :: "os \<Rightarrow> int \<Rightarrow> thread_info option \<Rightarrow> string" where
  "info_row os tid i = (case i of
      None \<Rightarrow> ''''
    | Some (name, st, flds, u, s) \<Rightarrow> snprintf 256 (thread_row tid name st
        (ddiv (double_of_int (int u)) (double_of_int (os_clockTicks os)), ddiv (double_of_int (int s)) (double_of_int (os_clockTicks os)))))"

text \<open>The file system shows the thread: its line is served, or the file is gone.\<close>

definition shows_thread :: "os \<Rightarrow> int \<Rightarrow> thread_info option \<Rightarrow> bool" where
  "shows_thread os tid i \<longleftrightarrow> (case i of
      None \<Rightarrow> (\<exists>e. e \<noteq> 0 \<and> os_open os (stat_path os tid) = Inl e)
    | Some (name, st, flds, u, s) \<Rightarrow> stat_ok name st flds \<and> flds ! 10 = dec_nat u \<and> flds ! 11 = dec_nat s
        \<and> length (stat_text tid name st flds) \<le> 65536 \<and> serves os (stat_path os tid) (stat_text tid name st flds))"

lemma threads_loop_rows:
  assumes "\<forall>tid\<in>set tids. shows_thread os tid (info tid)"
  shows "threads_loop os tids stat result = Ret (result @ concat (map (\<lambda>tid. info_row os tid (info tid)) tids))"
  using assms
proof (induction tids arbitrary: stat result)
  case (Cons tid tids)
  show ?case
  proof (cases "info tid")
    case None
    then obtain e where "e \<noteq> 0" "os_open os (stat_path os tid) = Inl e" using Cons.prems by (auto simp: shows_thread_def)
    then show ?thesis using Cons None by (simp add: readProcFile_unreadable info_row_def)
  next
    case (Some i)
    obtain name st flds u s where i: "i = (name, st, flds, u, s)" by (cases i)
    then have k: "stat_ok name st flds" "flds ! 10 = dec_nat u" "flds ! 11 = dec_nat s"
      "length (stat_text tid name st flds) \<le> 65536" "serves os (stat_path os tid) (stat_text tid name st flds)"
      using Cons.prems Some by (auto simp: shows_thread_def)
    show ?thesis using Cons Some i k(4) thread_line_stat [OF k(1-3), of os tid tid]
      by (simp add: readProcFile_serves [OF k(5)] info_row_def)
  qed
qed simp

text \<open>The page /proc/threads: whatever characters their names contain and however the kernel delivers the files, it has, after its heading, one row for every thread of the process
  in ascending order, with its name, its state and the times of the fourteenth and fifteenth field of its stat line divided by the clock ticks; threads that
  have ended while the page is made are left out, and nothing is read out of bounds.\<close>

theorem process_threads_rows:
  assumes "\<forall>tid\<in>set (threads os). shows_thread os tid (info tid)"
  shows "process_threads os = Ret (''  TID NAME             S    User Time  System Time'' @ newline
      @ concat (map (\<lambda>tid. info_row os tid (info tid)) (threads os)))
    \<and> sorted (threads os) \<and> mset (threads os) = mset (map atol (filter digit_entry (os_dir os ''/proc/self/task'')))"
  using threads_loop_rows [OF assms] by (simp add: process_threads_def threads_def)

definition demo_flds :: "string list" where
  "demo_flds = [''1'', ''1'', ''1'', ''0'', ''-1'', ''64'', ''0'', ''0'', ''0'', ''0'', dec_nat 150, dec_nat 25]"

definition demo_os :: os where
  "demo_os = \<lparr>os_now = 0, os_startTime = 0, os_pid = 42, os_tid = 42, os_clockTicks = 100,
     os_open = (\<lambda>f. if f = ''/proc/42/task/42/stat'' then Inr 5 else Inl 2),
     os_read = (\<lambda>f pos n. Inr (take (min 7 n) (drop pos (stat_text 42 ''a) b'' CHR ''S'' demo_flds)))),
     os_dir = (\<lambda>_. [''.'', ''..'', ''43'', ''42'']), os_pwname = None, os_gethostname = None, os_exe = '''',
     os_rlimit_nofile = None, os_times = None, os_uname = None\<rparr>"

theorem process_threads_rows_witness:
  "process_threads demo_os = Ret (''  TID NAME             S    User Time  System Time'' @ newline
     @ info_row demo_os 42 (Some (''a) b'', CHR ''S'', demo_flds, 150, 25)))"
proof -
  let ?info = "\<lambda>tid. if tid = 42 then Some (''a) b'', CHR ''S'', demo_flds, 150, 25) else None"
  have t: "threads demo_os = [42, 43]" by code_simp
  have p: "stat_path demo_os 42 = ''/proc/42/task/42/stat''" "stat_path demo_os 43 = ''/proc/42/task/43/stat''" by code_simp+
  have "length (stat_text 42 ''a) b'' CHR ''S'' demo_flds) \<le> 65536"
    by (simp add: stat_text_def fields_text_def demo_flds_def newline_def dec_int_def dec_nat.simps)
  moreover have "stat_ok ''a) b'' CHR ''S'' demo_flds" by code_simp
  ultimately have l: "length (stat_text 42 ''a) b'' CHR ''S'' demo_flds) \<le> 65536" "stat_ok ''a) b'' CHR ''S'' demo_flds" .
  have "reads (os_read demo_os f) (stat_text 42 ''a) b'' CHR ''S'' demo_flds)" "never_fails (os_read demo_os f)" for f
    by (auto simp: reads_def never_fails_def demo_os_def take_is_prefix)
  then have "\<forall>tid\<in>set (threads demo_os). shows_thread demo_os tid (?info tid)"
    using l by (simp add: t shows_thread_def serves_def p) (simp add: demo_os_def demo_flds_def)
  from process_threads_rows [OF this] show ?thesis by (simp add: t info_row_def)
qed

end
