(* ===== verification/ProcPages.thy ===== *)
theory ProcPages
  imports Inspectors ProcInfo
begin

text \<open>
  The pages of \<open>ProcInfo\<close> as commands of the inspector: \<^verbatim>\<open>registerCommands\<close> of \<^verbatim>\<open>ProcessInspector\<close> and \<^verbatim>\<open>SystemInspector\<close>, and the
  constructor of \<^verbatim>\<open>Inspector\<close>.
\<close>

definition process_registerCommands :: "os \<Rightarrow> Inspector \<Rightarrow> Inspector" where
  "process_registerCommands os ins =
     (let ins = Inspector_add ''proc'' ''overview'' (Some (\<lambda>_ _. process_overview os)) ''print basic overview'' ins;
          ins = Inspector_add ''proc'' ''pid'' (Some (\<lambda>_ _. process_pid os)) ''print pid'' ins;
          ins = Inspector_add ''proc'' ''status'' (Some (\<lambda>_ _. procStatus os)) ''print /proc/self/status'' ins
      in Inspector_add ''proc'' ''threads'' (Some (\<lambda>_ _. process_threads os)) ''list /proc/self/task'' ins)"

definition system_registerCommands :: "os \<Rightarrow> Inspector \<Rightarrow> Inspector" where
  "system_registerCommands os ins =
     (let ins = Inspector_add ''sys'' ''overview'' (Some (\<lambda>_ _. system_overview os)) ''print system overview'' ins;
          ins = Inspector_add ''sys'' ''loadavg'' (Some (\<lambda>_ _. loadavg os)) ''print /proc/loadavg'' ins;
          ins = Inspector_add ''sys'' ''version'' (Some (\<lambda>_ _. version_page os)) ''print /proc/version'' ins;
          ins = Inspector_add ''sys'' ''cpuinfo'' (Some (\<lambda>_ _. cpuinfo os)) ''print /proc/cpuinfo'' ins;
          ins = Inspector_add ''sys'' ''meminfo'' (Some (\<lambda>_ _. meminfo os)) ''print /proc/meminfo'' ins
      in Inspector_add ''sys'' ''stat'' (Some (\<lambda>_ _. stat_page os)) ''print /proc/stat'' ins)"

text \<open>The constructor of the inspector: \<open>mainThread\<close> is \<^verbatim>\<open>CurrentThread::isMainThread()\<close>, \<open>other\<close> whether there is an inspector already.\<close>

definition make_Inspector :: "bool \<Rightarrow> bool \<Rightarrow> os \<Rightarrow> Inspector outcome" where
  "make_Inspector mainThread other os =
     require mainThread ''CurrentThread::isMainThread()'' (require (\<not> other) ''g_globalInspector == 0''
       (Ret (system_registerCommands os (process_registerCommands os new_Inspector))))"

section \<open>What the inspector serves\<close>

definition process_calls :: "os \<Rightarrow> ((string \<times> string) \<times> (callback option \<times> string) option) list" where
  "process_calls os =
     [((''proc'', ''overview''), Some (Some (\<lambda>_ _. process_overview os), ''print basic overview'')),
      ((''proc'', ''pid''), Some (Some (\<lambda>_ _. process_pid os), ''print pid'')),
      ((''proc'', ''status''), Some (Some (\<lambda>_ _. procStatus os), ''print /proc/self/status'')),
      ((''proc'', ''threads''), Some (Some (\<lambda>_ _. process_threads os), ''list /proc/self/task''))]"

definition system_calls :: "os \<Rightarrow> ((string \<times> string) \<times> (callback option \<times> string) option) list" where
  "system_calls os =
     [((''sys'', ''overview''), Some (Some (\<lambda>_ _. system_overview os), ''print system overview'')),
      ((''sys'', ''loadavg''), Some (Some (\<lambda>_ _. loadavg os), ''print /proc/loadavg'')),
      ((''sys'', ''version''), Some (Some (\<lambda>_ _. version_page os), ''print /proc/version'')),
      ((''sys'', ''cpuinfo''), Some (Some (\<lambda>_ _. cpuinfo os), ''print /proc/cpuinfo'')),
      ((''sys'', ''meminfo''), Some (Some (\<lambda>_ _. meminfo os), ''print /proc/meminfo'')),
      ((''sys'', ''stat''), Some (Some (\<lambda>_ _. stat_page os), ''print /proc/stat''))]"

lemma make_Inspector_calls:
  assumes "make_Inspector mainThread other os = Ret ins"
  shows "ins = fold inspector_call (process_calls os @ system_calls os) new_Inspector"
  using assms by (auto simp: make_Inspector_def outcome_simps process_calls_def system_calls_def
    process_registerCommands_def system_registerCommands_def add_call_def Let_def)

text \<open>The commands that only show a file.\<close>

definition file_commands :: "((string \<times> string) \<times> string) list" where
  "file_commands = [((''proc'', ''status''), ''/proc/self/status''), ((''sys'', ''loadavg''), ''/proc/loadavg''),
     ((''sys'', ''version''), ''/proc/version''), ((''sys'', ''cpuinfo''), ''/proc/cpuinfo''),
     ((''sys'', ''meminfo''), ''/proc/meminfo''), ((''sys'', ''stat''), ''/proc/stat'')]"

lemmas file_page_defs = procStatus_def loadavg_def version_page_def cpuinfo_def meminfo_def stat_page_def proc_page_def

lemma make_Inspector_command:
  assumes "make_Inspector mainThread other os = Ret ins" and "((m, c), fname) \<in> set file_commands"
  shows "command_of ins (m, c) = Some (Some (\<lambda>_ _. proc_page fname os))"
  using assms(2) unfolding make_Inspector_calls [OF assms(1)] command_of_calls file_commands_def list.set
  by (elim insertE emptyE) (simp_all add: registered_def process_calls_def system_calls_def file_page_defs)

lemma file_commands_segments:
  assumes "((m, c), fname) \<in> set file_commands"
  shows "list_all segment_ok [m, c]"
  using assms by (auto simp: file_commands_def segment_ok_def)

text \<open>The inspector made by its constructor answers a request for one of its file commands (proc/status, sys/loadavg, sys/version,
  sys/cpuinfo, sys/meminfo, sys/stat) with status 200 and the first 64 kilobytes of that file as text, however the kernel splits the
  reads, and with an empty text if the file cannot be opened; a second inspector, or one made outside the main thread, fails an
  assertion.\<close>

theorem inspector_serves_files:
  assumes "((m, c), fname) \<in> set file_commands" and "path req = path_of [m, c]"
  shows "\<exists>ins. make_Inspector True False os = Ret ins
    \<and> (serves os fname text \<longrightarrow> Inspector_onRequest favicon ins req resp = Ret (reply ''text/plain'' (take 65536 text) resp))
    \<and> (os_open os fname = Inl e \<longrightarrow> Inspector_onRequest favicon ins req resp = Ret (reply ''text/plain'' '''' resp))
    \<and> \<not> returns (make_Inspector False b os) \<and> \<not> returns (make_Inspector b' True os)"
proof -
  obtain ins where ins: "make_Inspector True False os = Ret ins" by (simp add: make_Inspector_def)
  have "split (path req) = [m, c]" "path req \<noteq> ''/''"
    using split_path [OF file_commands_segments [OF assms(1)]] file_commands_segments [OF assms(1)] assms(2)
    by (auto simp: path_of_def segment_ok_def)
  then have "Inspector_onRequest favicon ins req resp = bindo (proc_page fname os) (\<lambda>t. Ret (reply ''text/plain'' t resp))"
    using Inspector_onRequest_command [of req m c "[]" favicon ins resp] make_Inspector_command [OF ins assms(1)] by simp
  then show ?thesis using ins
    by (auto simp: proc_page_def readProcFile_serves readProcFile_unreadable make_Inspector_def require_def)
qed

theorem inspector_serves_files_witness:
  "\<exists>ins. make_Inspector True False demo_os = Ret ins
    \<and> Inspector_onRequest [] ins (new_HttpRequest\<lparr>path := ''/sys/loadavg''\<rparr>) (new_HttpResponse False)
        = Ret (reply ''text/plain'' '''' (new_HttpResponse False))"
proof -
  have "((''sys'', ''loadavg''), ''/proc/loadavg'') \<in> set file_commands" by (simp add: file_commands_def)
  moreover have "path (new_HttpRequest\<lparr>path := ''/sys/loadavg''\<rparr>) = path_of [''sys'', ''loadavg'']" by (simp add: path_of_def)
  moreover have "os_open demo_os ''/proc/loadavg'' = Inl 2" by (simp add: demo_os_def)
  ultimately show ?thesis using inspector_serves_files by meson
qed

end
