(* ===== verification/LogStreams.thy ===== *)
theory LogStreams
  imports NetBuffer "HOL-Library.Sublist"
begin

text \<open>
  \<^verbatim>\<open>muduo/base/LogStream.{h,cc}\<close>: fixed buffers, the conversion of integers to text, and the stream the
  logger writes to.

  The division and remainder of C++ truncate towards zero (\<open>sdiv\<close>, \<open>smod\<close>), so the remainder of a
  negative number is negative; the digit table is indexed from its middle. An integer argument is
  the mathematical value of the argument in its type. \<^verbatim>\<open>%.12g\<close> for doubles is a parameter.
\<close>

section \<open>Integer to text\<close>

definition digits :: string where "digits = ''9876543210123456789''"

text \<open>\<^verbatim>\<open>zero[lsd]\<close> with \<^verbatim>\<open>zero = digits + 9\<close>.\<close>

definition zero_digit :: "int \<Rightarrow> char" where
  "zero_digit lsd = digits ! nat (9 + lsd)"

definition digitsHex :: string where "digitsHex = ''0123456789ABCDEF''"

lemma sdiv_10_smaller: "i sdiv 10 \<noteq> 0 \<Longrightarrow> nat \<bar>i sdiv 10\<bar> < nat \<bar>i :: int\<bar>"
proof -
  have "\<bar>i sdiv 10\<bar> = \<bar>i\<bar> div 10" by (simp add: signed_divide_int_def abs_mult sgn_if)
  then show "i sdiv 10 \<noteq> 0 \<Longrightarrow> nat \<bar>i sdiv 10\<bar> < nat \<bar>i\<bar>" by auto
qed

text \<open>The \<^verbatim>\<open>do ... while (i != 0)\<close> loop writes the digits from the least significant on.\<close>

function convert_digits :: "int \<Rightarrow> string" where
  "convert_digits i =
     (let lsd = i smod 10; i' = i sdiv 10
      in zero_digit lsd # (if i' \<noteq> 0 then convert_digits i' else []))"
  by pat_completeness auto
termination
  by (relation "measure (\<lambda>i. nat \<bar>i\<bar>)") (auto dest: sdiv_10_smaller)

declare convert_digits.simps [simp del]

definition convert :: "int \<Rightarrow> string" where
  "convert value = rev (convert_digits value @ (if value < 0 then ''-'' else []))"

fun convertHex_digits :: "nat \<Rightarrow> string" where
  "convertHex_digits i = digitsHex ! (i mod 16) # (if i div 16 \<noteq> 0 then convertHex_digits (i div 16) else [])"

declare convertHex_digits.simps [simp del]

definition convertHex :: "nat \<Rightarrow> string" where
  "convertHex value = rev (convertHex_digits value)"

section \<open>Fixed buffers\<close>

definition kSmallBuffer :: nat where "kSmallBuffer = 4000"
definition kLargeBuffer :: nat where "kLargeBuffer = 4000 * 1000"

record FixedBuffer =
  fb_data :: "char list"
  cur :: nat

text \<open>The array starts with unspecified contents \<open>junk\<close> of length \<^verbatim>\<open>SIZE\<close>.\<close>

definition new_FixedBuffer :: "char list \<Rightarrow> FixedBuffer" where
  "new_FixedBuffer junk = \<lparr>fb_data = junk, cur = 0\<rparr>"

definition avail :: "FixedBuffer \<Rightarrow> nat" where
  "avail b = length (fb_data b) - cur b"

definition fb_append :: "char list \<Rightarrow> FixedBuffer \<Rightarrow> FixedBuffer" where
  "fb_append buf b =
     (if avail b > length buf then b\<lparr>fb_data := overwrite (cur b) buf (fb_data b), cur := cur b + length buf\<rparr> else b)"

definition fb_add :: "nat \<Rightarrow> FixedBuffer \<Rightarrow> FixedBuffer" where
  "fb_add len b = b\<lparr>cur := cur b + len\<rparr>"

definition fb_reset :: "FixedBuffer \<Rightarrow> FixedBuffer" where
  "fb_reset b = b\<lparr>cur := 0\<rparr>"

definition fb_bzero :: "FixedBuffer \<Rightarrow> FixedBuffer" where
  "fb_bzero b = b\<lparr>fb_data := replicate (length (fb_data b)) (CHR 0x00)\<rparr>"

definition fb_toString :: "FixedBuffer \<Rightarrow> string" where
  "fb_toString b = take (cur b) (fb_data b)"

text \<open>Writing through \<^verbatim>\<open>current()\<close>: the caller guarantees the room, writing past the end is undefined.\<close>

definition fb_write :: "char list \<Rightarrow> FixedBuffer \<Rightarrow> FixedBuffer outcome" where
  "fb_write s b =
     (if cur b + length s \<le> length (fb_data b) then Ret (b\<lparr>fb_data := overwrite (cur b) s (fb_data b)\<rparr>)
      else Abort (Undefined ''write past the end of data_''))"

definition debugString :: "FixedBuffer \<Rightarrow> string outcome" where
  "debugString b = bindo (fb_write [CHR 0x00] b) (\<lambda>b. Ret (takeWhile (\<lambda>c. c \<noteq> CHR 0x00) (fb_data b)))"

section \<open>The stream\<close>

definition kMaxNumericSize :: nat where "kMaxNumericSize = 48"

definition formatInteger :: "int \<Rightarrow> FixedBuffer \<Rightarrow> FixedBuffer outcome" where
  "formatInteger v b =
     (if avail b \<ge> kMaxNumericSize
      then bindo (fb_write (convert v @ [CHR 0x00]) b) (\<lambda>b. Ret (fb_add (length (convert v)) b))
      else Ret b)"

definition log_pointer :: "nat \<Rightarrow> FixedBuffer \<Rightarrow> FixedBuffer outcome" where
  "log_pointer p b =
     (if avail b \<ge> kMaxNumericSize
      then bindo (fb_write (''0x'' @ convertHex p @ [CHR 0x00]) b) (\<lambda>b. Ret (fb_add (length (convertHex p) + 2) b))
      else Ret b)"

text \<open>\<open>text\<close> is what \<^verbatim>\<open>%.12g\<close> prints.\<close>

definition log_double :: "string \<Rightarrow> FixedBuffer \<Rightarrow> FixedBuffer outcome" where
  "log_double txt b =
     (if avail b \<ge> kMaxNumericSize
      then bindo (fb_write (snprintf kMaxNumericSize txt @ [CHR 0x00]) b) (\<lambda>b. Ret (fb_add (length txt) b))
      else Ret b)"

definition log_bool :: "bool \<Rightarrow> FixedBuffer \<Rightarrow> FixedBuffer" where
  "log_bool v b = fb_append (if v then ''1'' else ''0'') b"

definition log_cstring :: "string option \<Rightarrow> FixedBuffer \<Rightarrow> FixedBuffer" where
  "log_cstring str b = (case str of Some s \<Rightarrow> fb_append s b | None \<Rightarrow> fb_append ''(null)'' b)"

definition log_string :: "string \<Rightarrow> FixedBuffer \<Rightarrow> FixedBuffer" where
  "log_string v b = fb_append v b"

definition log_char :: "char \<Rightarrow> FixedBuffer \<Rightarrow> FixedBuffer" where
  "log_char v b = fb_append [v] b"

text \<open>\<^verbatim>\<open>Fmt\<close>: \<open>txt\<close> is what the format prints; the stream takes it like any text.\<close>

definition new_Fmt :: "string \<Rightarrow> string outcome" where
  "new_Fmt txt = require (length txt < 32) ''length_ < sizeof buf_'' (Ret (snprintf 32 txt))"

definition log_fmt :: "string \<Rightarrow> FixedBuffer \<Rightarrow> FixedBuffer" where
  "log_fmt f b = fb_append f b"

datatype log_item = LogBool bool | LogInteger int | LogPointer nat | LogDouble string | LogChar char
  | LogCString "string option" | LogString string

fun log_put :: "log_item \<Rightarrow> FixedBuffer \<Rightarrow> FixedBuffer outcome" where
  "log_put (LogBool v) b = Ret (log_bool v b)"
| "log_put (LogInteger v) b = formatInteger v b"
| "log_put (LogPointer p) b = log_pointer p b"
| "log_put (LogDouble txt) b = log_double txt b"
| "log_put (LogChar c) b = Ret (log_char c b)"
| "log_put (LogCString s) b = Ret (log_cstring s b)"
| "log_put (LogString s) b = Ret (log_string s b)"

section \<open>Converted integers\<close>

lemma zero_digit_char:
  assumes "- 9 \<le> d" and "d \<le> 9"
  shows "zero_digit d = digit_char (nat \<bar>d\<bar>)"
proof -
  have "d \<in> set [-9 .. 9]" using assms by (simp only: set_upto atLeastAtMost_iff)
  moreover have "\<forall>d \<in> set [-9 .. 9]. zero_digit d = digit_char (nat \<bar>d\<bar>)" by code_simp
  ultimately show ?thesis by blast
qed

lemma smod_sdiv_abs: "nat \<bar>i smod 10\<bar> = nat \<bar>i\<bar> mod 10" "nat \<bar>i sdiv 10\<bar> = nat \<bar>i\<bar> div 10" "\<bar>i smod 10\<bar> \<le> (9 :: int)"
  for i :: int
proof -
  have "\<bar>i sdiv 10\<bar> = \<bar>i\<bar> div 10" by (simp add: signed_divide_int_def abs_mult sgn_if)
  then show "nat \<bar>i sdiv 10\<bar> = nat \<bar>i\<bar> div 10" by (simp add: nat_div_distrib)
  have m: "\<bar>i smod 10\<bar> = \<bar>i\<bar> mod 10"
    by (cases "i < 0") (simp_all add: signed_modulo_int_def signed_divide_int_def sgn_if minus_mult_div_eq_mod [symmetric])
  then show "nat \<bar>i smod 10\<bar> = nat \<bar>i\<bar> mod 10" by (simp add: nat_mod_distrib)
  show "\<bar>i smod 10\<bar> \<le> 9" using m by simp
qed

lemma rev_convert_digits: "rev (convert_digits i) = dec_nat (nat \<bar>i\<bar>)"
proof (induction i rule: convert_digits.induct)
  case (1 i)
  have d: "zero_digit (i smod 10) = digit_char (nat \<bar>i\<bar> mod 10)"
    using zero_digit_char [of "i smod 10"] smod_sdiv_abs(1) [of i] abs_le_D1 [OF smod_sdiv_abs(3) [of i]]
      abs_le_D2 [OF smod_sdiv_abs(3) [of i]] by simp
  have z: "i sdiv 10 = 0 \<longleftrightarrow> nat \<bar>i\<bar> < 10" using smod_sdiv_abs(2) [of i] by auto
  show ?case
  proof (cases "i sdiv 10 = 0")
    case True
    then show ?thesis using z d by (simp add: convert_digits.simps [of i] dec_nat.simps [of "nat \<bar>i\<bar>"] Let_def)
  next
    case False
    then have "rev (convert_digits (i sdiv 10)) = dec_nat (nat \<bar>i\<bar> div 10)" using 1 smod_sdiv_abs(2) [of i] by simp
    then show ?thesis using False z d by (simp add: convert_digits.simps [of i] dec_nat.simps [of "nat \<bar>i\<bar>"] Let_def)
  qed
qed

lemma convert_dec_int: "convert v = dec_int v"
  by (auto simp: convert_def rev_convert_digits dec_int_def)

text \<open>The number a string of hexadecimal digits denotes.\<close>

fun hex_val :: "nat \<Rightarrow> string \<Rightarrow> nat" where
  "hex_val acc [] = acc"
| "hex_val acc (c # cs) = hex_val (16 * acc + std_find digitsHex c) cs"

lemma hex_val_append: "hex_val acc (xs @ ys) = hex_val (hex_val acc xs) ys"
  by (induction xs arbitrary: acc) auto

lemma hex_digit:
  assumes "d < 16"
  shows "std_find digitsHex (digitsHex ! d) = d"
proof -
  have "d \<in> set [0 ..< 16]" using assms by simp
  moreover have "\<forall>d \<in> set [0 ..< 16]. std_find digitsHex (digitsHex ! d) = d" by code_simp
  ultimately show ?thesis by blast
qed

lemma hex_val_convertHex: "hex_val 0 (convertHex n) = n"
proof (induction n rule: convertHex_digits.induct)
  case (1 n)
  then show ?case
    by (cases "n div 16 = 0")
      (simp_all add: convertHex_def convertHex_digits.simps [of n] hex_val_append hex_digit)
qed

lemma length_convertHex: "n < 16 ^ k \<Longrightarrow> 0 < k \<Longrightarrow> length (convertHex n) \<le> k"
proof (induction k arbitrary: n)
  case (Suc k)
  show ?case
  proof (cases "n div 16 = 0")
    case True
    then show ?thesis by (simp add: convertHex_def convertHex_digits.simps [of n])
  next
    case False
    then have "n div 16 < 16 ^ k" "0 < k" using Suc.prems by (auto simp: less_mult_imp_div_less intro: gr0I)
    with Suc.IH show ?thesis using False by (simp add: convertHex_def convertHex_digits.simps [of n])
  qed
qed simp

text \<open>All integer types lie between \<open>- 2 ^ 63\<close> and \<open>2 ^ 64 - 1\<close>.\<close>

lemma length_convert:
  assumes "- (2 ^ 63) \<le> v" and "v < 2 ^ 64"
  shows "length (convert v) \<le> 21"
proof -
  have "nat \<bar>v\<bar> < 10 ^ 20" using assms by simp
  then have "length (dec_nat (nat \<bar>v\<bar>)) \<le> 20" by (rule length_dec_nat) simp
  then show ?thesis by (auto simp: convert_dec_int dec_int_def)
qed

section \<open>Whole items or nothing\<close>

fun item_text :: "log_item \<Rightarrow> string" where
  "item_text (LogBool v) = (if v then ''1'' else ''0'')"
| "item_text (LogInteger v) = dec_int v"
| "item_text (LogPointer p) = ''0x'' @ convertHex p"
| "item_text (LogDouble txt) = txt"
| "item_text (LogChar c) = [c]"
| "item_text (LogCString s) = (case s of Some t \<Rightarrow> t | None \<Rightarrow> ''(null)'')"
| "item_text (LogString s) = s"

fun item_ok :: "log_item \<Rightarrow> bool" where
  "item_ok (LogInteger v) \<longleftrightarrow> - (2 ^ 63) \<le> v \<and> v < 2 ^ 64"
| "item_ok (LogPointer p) \<longleftrightarrow> p < 2 ^ 64"
| "item_ok (LogDouble txt) \<longleftrightarrow> length txt < kMaxNumericSize"
| "item_ok _ \<longleftrightarrow> True"

definition fb_ok :: "nat \<Rightarrow> FixedBuffer \<Rightarrow> bool" where
  "fb_ok n b \<longleftrightarrow> length (fb_data b) = n \<and> cur b \<le> n"

lemma fb_append_text:
  assumes "fb_ok n b"
  shows "fb_ok n (fb_append s b)" and "fb_toString (fb_append s b) = fb_toString b @ (if avail b > length s then s else [])"
  using assms by (auto simp: fb_ok_def fb_append_def fb_toString_def avail_def overwrite_def)

lemma fb_write_text:
  assumes "fb_ok n b" and "kMaxNumericSize \<le> avail b" and "length s < kMaxNumericSize"
  shows "\<exists>b'. bindo (fb_write (s @ [CHR 0x00]) b) (\<lambda>b. Ret (fb_add (length s) b)) = Ret b' \<and> fb_ok n b' \<and>
    fb_toString b' = fb_toString b @ s"
  using assms by (auto simp: fb_write_def fb_add_def fb_ok_def fb_toString_def avail_def overwrite_def)

lemma log_put_text:
  assumes ok: "fb_ok n b" and it: "item_ok x"
  shows "\<exists>b'. log_put x b = Ret b' \<and> fb_ok n b' \<and>
    (fb_toString b' = fb_toString b @ item_text x \<or>
     fb_toString b' = fb_toString b \<and> n < length (fb_toString b) + max (length (item_text x) + 1) kMaxNumericSize)"
proof -
  have cu: "length (fb_toString b) = cur b" using ok by (simp add: fb_ok_def fb_toString_def)
  have num: "\<exists>b'. (if avail b \<ge> kMaxNumericSize then bindo (fb_write (s @ [CHR 0x00]) b) (\<lambda>b. Ret (fb_add (length s) b)) else Ret b) = Ret b' \<and>
      fb_ok n b' \<and> (fb_toString b' = fb_toString b @ s \<or>
        fb_toString b' = fb_toString b \<and> n < length (fb_toString b) + max (length s + 1) kMaxNumericSize)"
    if s: "length s < kMaxNumericSize" for s
  proof (cases "kMaxNumericSize \<le> avail b")
    case True
    then show ?thesis using fb_write_text [OF ok True s] by auto
  next
    case False
    then show ?thesis using ok cu by (auto simp: fb_ok_def avail_def)
  qed
  have app: "\<exists>b'. fb_append s b = b' \<and> fb_ok n b' \<and> (fb_toString b' = fb_toString b @ s \<or>
        fb_toString b' = fb_toString b \<and> n < length (fb_toString b) + max (length s + 1) kMaxNumericSize)" for s
    using fb_append_text [OF ok, of s] ok cu by (auto simp: fb_ok_def avail_def)
  show ?thesis
  proof (cases x)
    case (LogInteger v)
    then have "length (convert v) < kMaxNumericSize" using it length_convert [of v] by (simp add: kMaxNumericSize_def)
    from num [OF this] show ?thesis using LogInteger by (simp add: formatInteger_def convert_dec_int)
  next
    case (LogPointer p)
    then have "length (''0x'' @ convertHex p) < kMaxNumericSize"
      using it length_convertHex [of p 16] by (simp add: kMaxNumericSize_def)
    from num [OF this] show ?thesis using LogPointer
      by (cases "kMaxNumericSize \<le> avail b") (simp_all add: log_pointer_def)
  next
    case (LogDouble t)
    then show ?thesis using it num [of t]
      by (cases "kMaxNumericSize \<le> avail b") (simp_all add: log_double_def snprintf_fits)
  next
    case (LogCString t)
    then show ?thesis using app [of "case t of Some u \<Rightarrow> u | None \<Rightarrow> ''(null)''"]
      by (cases t) (auto simp: log_cstring_def)
  next
    case (LogBool v)
    then show ?thesis using app [of "if v then ''1'' else ''0''"] by (auto simp: log_bool_def)
  next
    case (LogChar c)
    then show ?thesis using app [of "[c]"] by (auto simp: log_char_def)
  next
    case (LogString t)
    then show ?thesis using app [of t] by (auto simp: log_string_def)
  qed
qed

lemma log_puts_text:
  assumes "fb_ok n b" and "list_all item_ok xs"
  shows "\<exists>b' kept. foldo log_put xs b = Ret b' \<and> fb_ok n b' \<and> subseq kept xs \<and>
    fb_toString b' = fb_toString b @ concat (map item_text kept) \<and>
    (length (fb_toString b) + length (concat (map item_text xs)) + kMaxNumericSize \<le> n \<longrightarrow> kept = xs)"
  using assms
proof (induction xs arbitrary: b)
  case (Cons x xs)
  obtain b1 where b1: "log_put x b = Ret b1" "fb_ok n b1" and
    c: "fb_toString b1 = fb_toString b @ item_text x \<or>
     fb_toString b1 = fb_toString b \<and> n < length (fb_toString b) + max (length (item_text x) + 1) kMaxNumericSize"
    using log_put_text [OF Cons.prems(1), of x] Cons.prems(2) by auto
  obtain b' kept where r: "foldo log_put xs b1 = Ret b'" "fb_ok n b'" "subseq kept xs"
    "fb_toString b' = fb_toString b1 @ concat (map item_text kept)"
    "length (fb_toString b1) + length (concat (map item_text xs)) + kMaxNumericSize \<le> n \<longrightarrow> kept = xs"
    using Cons.IH [OF b1(2)] Cons.prems(2) by auto
  from c show ?case
  proof
    assume "fb_toString b1 = fb_toString b @ item_text x"
    then show ?thesis using b1 r by (intro exI [of _ b'] exI [of _ "x # kept"]) auto
  next
    assume d: "fb_toString b1 = fb_toString b \<and> n < length (fb_toString b) + max (length (item_text x) + 1) kMaxNumericSize"
    then have "\<not> length (fb_toString b) + length (concat (map item_text (x # xs))) + kMaxNumericSize \<le> n"
      by (auto simp: kMaxNumericSize_def)
    then show ?thesis using b1 r d by (intro exI [of _ b'] exI [of _ kept]) (auto intro: subseq_Cons')
  qed
next
  case Nil
  then show ?case by (auto intro: exI [of _ "[]"])
qed

section \<open>Properties\<close>





end
