(* ===== verification/PerfPages.thy ===== *)
theory PerfPages
  imports ProcPages LogStreams Dates Doubles
begin

text \<open>
  \<^verbatim>\<open>muduo/net/inspect/PerformanceInspector.{h,cc}\<close>, the pages that are compiled in when tcmalloc is used, and the destructor of \<^verbatim>\<open>Inspector\<close>.

  The allocator and the profiler are a library: \<open>malloc_extension\<close> holds what their calls answer, the release rate being a finite double. \<^verbatim>\<open>memstats\<close>
  is the text that \<^verbatim>\<open>GetStats\<close> leaves in a buffer of the given size.
\<close>

record malloc_extension =
  GetHeapSample :: string
  GetHeapGrowthStacks :: string
  GetStats :: "nat \<Rightarrow> string"
  MallocMemoryStats :: "int \<times> nat \<times> int list"
  GetMemoryReleaseRate :: rat
  ProfilerStart :: "string \<Rightarrow> bool"

definition heap_page :: "malloc_extension \<Rightarrow> string outcome" where
  "heap_page ext = Ret (GetHeapSample ext)"

definition growth_page :: "malloc_extension \<Rightarrow> string outcome" where
  "growth_page ext = Ret (GetHeapGrowthStacks ext)"

definition profile_name :: "os \<Rightarrow> string outcome" where
  "profile_name os = bindo (ProcessInfo_procname os) (\<lambda>name.
     Ret (''/tmp/'' @ name @ ''.'' @ pidString os @ ''.'' @ Timestamp_toString (os_now os) @ ''.profile''))"

text \<open>The page and the name of the file that is unlinked. The file is read after the profiler has written it; \<open>os\<close> is the system then.\<close>

definition profile_page :: "malloc_extension \<Rightarrow> os \<Rightarrow> (string \<times> string option) outcome" where
  "profile_page ext os = bindo (profile_name os) (\<lambda>filename.
     if ProfilerStart ext filename
     then bindo (fst (readFile (os_open os filename) (Inl 0) (os_read os filename) (1024 * 1024) '''' (None, None, None)))
            (\<lambda>(_, content, _). Ret (content, Some filename))
     else Ret ('''', None))"

definition cmdline_page :: "string outcome" where
  "cmdline_page = Ret ''''"

definition memstats_page :: "malloc_extension \<Rightarrow> string outcome" where
  "memstats_page ext = Ret (GetStats ext (1024 * 64))"

definition memhistogram_items :: "malloc_extension \<Rightarrow> log_item list" where
  "memhistogram_items ext =
     (let (blocks, total1, histogram) = MallocMemoryStats ext
      in [LogCString (Some ''blocks ''), LogInteger blocks, LogCString (Some (newline @ ''total '')), LogInteger (int total1), LogCString (Some newline)]
         @ concat (map (\<lambda>(i, h). [LogInteger (int i), LogCString (Some '' ''), LogInteger h, LogCString (Some newline)]) (enumerate 0 histogram)))"

definition memhistogram_page :: "char list \<Rightarrow> malloc_extension \<Rightarrow> string outcome" where
  "memhistogram_page junk ext = bindo (foldo log_put (memhistogram_items ext) (new_FixedBuffer junk)) (\<lambda>b. Ret (fb_toString b))"

definition releaseFreeMemory_page :: "malloc_extension \<Rightarrow> string outcome" where
  "releaseFreeMemory_page ext =
     Ret (snprintf 256 (''memory release rate: '' @ printf_f 6 (GetMemoryReleaseRate ext) @ newline @ ''All free memory released.'' @ newline))"

definition performance_registerCommands :: "char list \<Rightarrow> malloc_extension \<Rightarrow> os \<Rightarrow> Inspector \<Rightarrow> Inspector" where
  "performance_registerCommands junk ext os ins =
     (let ins = Inspector_add ''pprof'' ''heap'' (Some (\<lambda>_ _. heap_page ext)) ''get heap information'' ins;
          ins = Inspector_add ''pprof'' ''growth'' (Some (\<lambda>_ _. growth_page ext)) ''get heap growth information'' ins;
          ins = Inspector_add ''pprof'' ''profile'' (Some (\<lambda>_ _. bindo (profile_page ext os) (\<lambda>(page, _). Ret page)))
            ''get cpu profiling information. CAUTION: blocking thread for 30 seconds!'' ins;
          ins = Inspector_add ''pprof'' ''cmdline'' (Some (\<lambda>_ _. cmdline_page)) ''get command line'' ins;
          ins = Inspector_add ''pprof'' ''memstats'' (Some (\<lambda>_ _. memstats_page ext)) ''get memory stats'' ins;
          ins = Inspector_add ''pprof'' ''memhistogram'' (Some (\<lambda>_ _. memhistogram_page junk ext)) ''get memory histogram'' ins
      in Inspector_add ''pprof'' ''releasefreememory'' (Some (\<lambda>_ _. releaseFreeMemory_page ext)) ''release free memory'' ins)"

text \<open>The destructor of the inspector; the result is whether there still is a global inspector.\<close>

definition delete_Inspector :: "bool \<Rightarrow> bool outcome" where
  "delete_Inspector mainThread = require mainThread ''CurrentThread::isMainThread()'' (Ret False)"

text \<open>In the main thread an inspector can be made again after the first is gone.\<close>

lemma inspector_again: "\<exists>ins. bindo (make_Inspector True False os) (\<lambda>_. bindo (delete_Inspector True) (\<lambda>other. make_Inspector True other os)) = Ret ins"
  by (simp add: make_Inspector_def delete_Inspector_def)

section \<open>The histogram\<close>

definition memhistogram_text :: "malloc_extension \<Rightarrow> string" where
  "memhistogram_text ext =
     (let (blocks, total1, histogram) = MallocMemoryStats ext
      in ''blocks '' @ dec_int blocks @ newline @ ''total '' @ dec_nat total1 @ newline
         @ concat (map (\<lambda>(i, h). dec_nat i @ '' '' @ dec_int h @ newline) (enumerate 0 histogram)))"

lemma memhistogram_items_text: "concat (map item_text (memhistogram_items ext)) = memhistogram_text ext"
proof -
  have "concat (map item_text (concat (map (\<lambda>(i, h). [LogInteger (int i), LogCString (Some '' ''), LogInteger h, LogCString (Some newline)]) xs)))
      = concat (map (\<lambda>(i, h). dec_nat i @ '' '' @ dec_int h @ newline) xs)" for xs
    by (induction xs) (auto simp: dec_int_def)
  then show ?thesis by (simp add: memhistogram_items_def memhistogram_text_def dec_int_def split: prod.splits)
qed

lemma length_dec_int32: "- (2 ^ 31) \<le> i \<Longrightarrow> i < 2 ^ 31 \<Longrightarrow> length (dec_int i) \<le> 11"
  using length_dec_nat [of "nat (- i)" 10] length_dec_nat [of "nat i" 10] by (auto simp: dec_int_def nat_less_iff)

lemma length_memhistogram_text:
  assumes "MallocMemoryStats ext = (blocks, total1, histogram)" and "length histogram \<le> 64"
    and "\<forall>i\<in>set (blocks # histogram). - (2 ^ 31) \<le> i \<and> i < 2 ^ 31" and "total1 < 2 ^ 64"
  shows "length (memhistogram_text ext) \<le> 1013"
proof -
  have line: "length (dec_nat i @ '' '' @ dec_int h @ newline) \<le> 15" if "(i, h) \<in> set (enumerate 0 histogram)" for i h
  proof -
    have "i < 64" "h \<in> set histogram" using that assms(2) by (auto simp: in_set_enumerate_eq)
    then have "length (dec_nat i) \<le> 2" "length (dec_int h) \<le> 11" using assms(3) length_dec_nat [of i 2] length_dec_int32 by auto
    then show ?thesis by (simp add: newline_def)
  qed
  let ?f = "\<lambda>(i, h). dec_nat i @ '' '' @ dec_int h @ newline"
  have sum: "length (concat (map f xs)) \<le> 15 * length xs" if "\<forall>x\<in>set xs. length (f x) \<le> 15" for f :: "nat \<times> int \<Rightarrow> string" and xs
    using that by (induction xs) auto
  have "length (?f x) \<le> 15" if "x \<in> set (enumerate 0 histogram)" for x using line that by (cases x) (simp only: prod.case)
  then have "length (concat (map ?f (enumerate 0 histogram))) \<le> 15 * length (enumerate 0 histogram)" by (intro sum ballI)
  then have "length (concat (map (\<lambda>(i, h). dec_nat i @ '' '' @ dec_int h @ newline) (enumerate 0 histogram))) \<le> 960"
    using assms(2) by simp
  moreover have "length (dec_int blocks) \<le> 11" "length (dec_nat total1) \<le> 20"
    using assms(3,4) length_dec_int32 length_dec_nat [of total1 20] by auto
  ultimately show ?thesis by (simp add: memhistogram_text_def assms(1) newline_def)
qed

text \<open>The histogram of the allocator, which has 64 classes, always fits into the stream: the page is complete.\<close>

theorem memhistogram_complete:
  assumes "MallocMemoryStats ext = (blocks, total1, histogram)" and "length histogram \<le> 64"
    and "\<forall>i\<in>set (blocks # histogram). - (2 ^ 31) \<le> i \<and> i < 2 ^ 31" and "total1 < 2 ^ 64" and "length junk = kSmallBuffer"
  shows "memhistogram_page junk ext = Ret (memhistogram_text ext)"
proof -
  have ok: "fb_ok kSmallBuffer (new_FixedBuffer junk)" "fb_toString (new_FixedBuffer junk) = []"
    using assms(5) by (simp_all add: fb_ok_def new_FixedBuffer_def fb_toString_def)
  have "item_ok (LogInteger (int i)) \<and> item_ok (LogInteger h)" if "(i, h) \<in> set (enumerate 0 histogram)" for i h
  proof -
    have "i < 64" "h \<in> set histogram" using that assms(2) by (auto simp: in_set_enumerate_eq)
    then show ?thesis using assms(3) by fastforce
  qed
  then have "list_all item_ok (memhistogram_items ext)"
    using assms(1,3,4) by (auto simp: memhistogram_items_def list_all_iff)
  from log_puts_text [OF ok(1) this] obtain b kept where b: "foldo log_put (memhistogram_items ext) (new_FixedBuffer junk) = Ret b"
      "fb_toString b = concat (map item_text kept)"
      "length (concat (map item_text (memhistogram_items ext))) + kMaxNumericSize \<le> kSmallBuffer \<longrightarrow> kept = memhistogram_items ext"
    using ok(2) by auto
  then have "kept = memhistogram_items ext"
    using length_memhistogram_text [OF assms(1-4)] by (simp add: memhistogram_items_text kMaxNumericSize_def kSmallBuffer_def)
  then show ?thesis using b by (simp add: memhistogram_page_def memhistogram_items_text)
qed

end
