(* ===== verification/LogFiles.thy ===== *)
theory LogFiles
  imports LogStreams TimeZones
begin

text \<open>
  \<^verbatim>\<open>muduo/base/FileUtil.{h,cc}\<close> (the append-only file) and \<^verbatim>\<open>muduo/base/LogFile.{h,cc}\<close>: log files that are
  rolled by size and by day.

  The operating system is a record of what it answers: the successive readings of \<^verbatim>\<open>time(NULL)\<close>, the result of
  every \<^verbatim>\<open>fwrite_unlocked\<close> (\<open>None\<close> when everything was taken, \<open>Some n\<close> when an error stopped it
  after \<open>n\<close> bytes, which is the only way it takes less), which files \<^verbatim>\<open>fopen\<close> can open, the host name and
  the process id. A file is what its stream has taken, and how much of it was flushed. The optional mutex of
  \<^verbatim>\<open>LogFile\<close> makes each call atomic and has no other effect.
\<close>

section \<open>The operating system\<close>

record os =
  clock :: "nat \<Rightarrow> int"
  clock_no :: nat
  fwrites :: "nat \<Rightarrow> nat option"
  fwrite_no :: nat
  fopen_ok :: "string \<Rightarrow> bool"
  os_hostname :: string
  os_pid :: int

definition os_time :: "os \<Rightarrow> int \<times> os" where
  "os_time w = (clock w (clock_no w), w\<lparr>clock_no := clock_no w + 1\<rparr>)"

definition fwrite_unlocked :: "nat \<Rightarrow> os \<Rightarrow> (nat \<times> bool) \<times> os" where
  "fwrite_unlocked n w =
     ((case fwrites w (fwrite_no w) of None \<Rightarrow> (n, False) | Some m \<Rightarrow> (min m n, True)), w\<lparr>fwrite_no := fwrite_no w + 1\<rparr>)"

section \<open>Append-only files\<close>

record AppendFile =
  af_name :: string
  af_content :: string
  af_flushed :: nat
  writtenBytes :: nat

definition new_AppendFile :: "string \<Rightarrow> os \<Rightarrow> AppendFile outcome" where
  "new_AppendFile filename w =
     require (fopen_ok w filename) ''fp_'' (Ret \<lparr>af_name = filename, af_content = '''', af_flushed = 0, writtenBytes = 0\<rparr>)"

definition AppendFile_write :: "string \<Rightarrow> AppendFile \<Rightarrow> os \<Rightarrow> (nat \<times> bool) \<times> AppendFile \<times> os" where
  "AppendFile_write s f w =
     (let ((n, err), w) = fwrite_unlocked (length s) w in ((n, err), f\<lparr>af_content := af_content f @ take n s\<rparr>, w))"

text \<open>The loop of \<^verbatim>\<open>append\<close>; \<open>written\<close> is its variable, and never passes \<open>len\<close>, so that the loop's
  \<^verbatim>\<open>written != len\<close> is \<open>written < len\<close>.\<close>

function append_loop :: "string \<Rightarrow> nat \<Rightarrow> AppendFile \<Rightarrow> os \<Rightarrow> nat \<times> AppendFile \<times> os" where
  "append_loop logline written f w =
     (if \<not> written < length logline then (written, f, w)
      else let remain = length logline - written;
               ((n, err), f', w') = AppendFile_write (drop written logline) f w
           in if n \<noteq> remain \<and> err then (written, f', w') else append_loop logline (written + n) f' w')"
  by pat_completeness auto

termination
  by (relation "measure (\<lambda>(s, k, _, _). length s - k)")
    (auto simp: AppendFile_write_def fwrite_unlocked_def Let_def split: option.splits)

declare append_loop.simps [simp del]

definition AppendFile_append :: "string \<Rightarrow> AppendFile \<Rightarrow> os \<Rightarrow> AppendFile \<times> os" where
  "AppendFile_append logline f w =
     (let (written, f, w) = append_loop logline 0 f w in (f\<lparr>writtenBytes := writtenBytes f + written\<rparr>, w))"

definition AppendFile_flush :: "AppendFile \<Rightarrow> AppendFile" where
  "AppendFile_flush f = f\<lparr>af_flushed := length (af_content f)\<rparr>"

section \<open>Rolled log files\<close>

record LogFile =
  basename :: string
  rollSize :: int
  flushInterval :: int
  checkEveryN :: int
  count :: int
  startOfPeriod :: int
  lastRoll :: int
  lastFlush :: int
  lf_file :: "AppendFile option"
  rolled :: "AppendFile list"

definition kRollPerSeconds :: int where
  "kRollPerSeconds = 60 * 60 * 24"

definition getLogFileName :: "string \<Rightarrow> os \<Rightarrow> (string \<times> int) \<times> os" where
  "getLogFileName base w =
     (let (now, w) = os_time w; t = gmtime_r now;
          timebuf = ''.'' @ dec_int (tm_year t + 1900) @ zero_pad 2 (tm_mon t + 1) @ zero_pad 2 (tm_mday t) @ ''-''
            @ zero_pad 2 (tm_hour t) @ zero_pad 2 (tm_min t) @ zero_pad 2 (tm_sec t) @ ''.'';
          pidbuf = snprintf 32 (''.'' @ dec_int (os_pid w))
      in ((base @ timebuf @ os_hostname w @ pidbuf @ ''.log'', now), w))"

text \<open>\<^verbatim>\<open>file_.reset(...)\<close> opens the new file and closes the old one, which goes to \<open>rolled\<close>; closing flushes.\<close>

definition rollFile :: "LogFile \<Rightarrow> os \<Rightarrow> ((bool \<times> LogFile) \<times> os) outcome" where
  "rollFile l w =
     (let ((filename, now), w) = getLogFileName (basename l) w;
          start = now sdiv kRollPerSeconds * kRollPerSeconds
      in if now > lastRoll l
         then bindo (new_AppendFile filename w) (\<lambda>f.
              Ret ((True, l\<lparr>lastRoll := now, lastFlush := now, startOfPeriod := start, lf_file := Some f,
                     rolled := rolled l @ (case lf_file l of None \<Rightarrow> [] | Some g \<Rightarrow> [AppendFile_flush g])\<rparr>), w))
         else Ret ((False, l), w))"

definition new_LogFile :: "string \<Rightarrow> int \<Rightarrow> int \<Rightarrow> int \<Rightarrow> os \<Rightarrow> (LogFile \<times> os) outcome" where
  "new_LogFile base rollSz interval everyN w =
     require (CHR ''/'' \<notin> set base) ''basename.find == npos''
       (bindo (rollFile \<lparr>basename = base, rollSize = rollSz, flushInterval = interval, checkEveryN = everyN, count = 0,
                 startOfPeriod = 0, lastRoll = 0, lastFlush = 0, lf_file = None, rolled = []\<rparr> w)
          (\<lambda>((_, l), w). Ret (l, w)))"

definition append_unlocked :: "string \<Rightarrow> LogFile \<Rightarrow> os \<Rightarrow> (LogFile \<times> os) outcome" where
  "append_unlocked logline l w =
     (case lf_file l of
        None \<Rightarrow> Abort (Undefined ''file_ is null'')
      | Some f \<Rightarrow>
          let (f, w) = AppendFile_append logline f w; l = l\<lparr>lf_file := Some f\<rparr> in
          if int (writtenBytes f) > rollSize l then bindo (rollFile l w) (\<lambda>((_, l), w). Ret (l, w))
          else let l = l\<lparr>count := count l + 1\<rparr> in
               if count l \<ge> checkEveryN l
               then let l = l\<lparr>count := 0\<rparr>; (now, w) = os_time w;
                        thisPeriod = now sdiv kRollPerSeconds * kRollPerSeconds in
                    if thisPeriod \<noteq> startOfPeriod l then bindo (rollFile l w) (\<lambda>((_, l), w). Ret (l, w))
                    else if now - lastFlush l > flushInterval l
                         then Ret (l\<lparr>lastFlush := now, lf_file := Some (AppendFile_flush f)\<rparr>, w)
                         else Ret (l, w)
               else Ret (l, w))"

text \<open>\<^verbatim>\<open>append\<close> is \<^verbatim>\<open>append_unlocked\<close>, under the mutex if there is one.\<close>

definition LogFile_append :: "string \<Rightarrow> LogFile \<times> os \<Rightarrow> (LogFile \<times> os) outcome" where
  "LogFile_append logline = (\<lambda>(l, w). append_unlocked logline l w)"

definition LogFile_flush :: "LogFile \<Rightarrow> LogFile outcome" where
  "LogFile_flush l =
     (case lf_file l of None \<Rightarrow> Abort (Undefined ''file_ is null'') | Some f \<Rightarrow> Ret (l\<lparr>lf_file := Some (AppendFile_flush f)\<rparr>))"

section \<open>What the files hold\<close>

text \<open>Everything the log has written, in the order of the files.\<close>

definition log_text :: "LogFile \<Rightarrow> string" where
  "log_text l = concat (map af_content (rolled l @ (case lf_file l of None \<Rightarrow> [] | Some f \<Rightarrow> [f])))"

definition disk_ok :: "os \<Rightarrow> bool" where
  "disk_ok w \<longleftrightarrow> (\<forall>k. fwrites w k = None) \<and> (\<forall>s. fopen_ok w s)"

lemma append_loop_ok:
  assumes "disk_ok w"
  shows "append_loop s 0 f w = (length s, f\<lparr>af_content := af_content f @ s\<rparr>, if s = [] then w else w\<lparr>fwrite_no := fwrite_no w + 1\<rparr>)"
  using assms by (subst append_loop.simps)
    (simp add: AppendFile_write_def fwrite_unlocked_def Let_def disk_ok_def append_loop.simps [of _ "length s"])

text \<open>With a failing disk the content is what was taken before the error, and \<^verbatim>\<open>writtenBytes\<close> counts only calls that
  succeeded completely.\<close>

lemma append_loop_prefix:
  assumes "append_loop s k f w = (n, f', w')" and "k \<le> length s"
  shows "n \<le> length s \<and> (\<exists>t. af_content f' = af_content f @ t \<and> prefix t (drop k s) \<and> (n \<noteq> k \<longrightarrow> t = drop k s \<and> n = length s))"
proof (cases "k < length s")
  case False
  then show ?thesis using assms append_loop.simps [of s "length s" f w] by simp
next
  case True
  obtain m e f1 w1 where W: "AppendFile_write (drop k s) f w = ((m, e), f1, w1)" by (metis prod_cases4 prod.exhaust)
  then have c: "af_content f1 = af_content f @ take m (drop k s)" "m \<le> length s - k" "m \<noteq> length s - k \<longrightarrow> e"
    by (auto simp: AppendFile_write_def fwrite_unlocked_def Let_def split: option.splits)
  show ?thesis
  proof (cases "m \<noteq> length s - k \<and> e")
    case True': True
    then have "n = k" "f' = f1" using assms(1) True W by (simp_all add: append_loop.simps [of s k] Let_def)
    then show ?thesis using c(1) assms(2) by (auto intro: take_is_prefix)
  next
    case False
    then have m: "m = length s - k" using c(3) by blast
    then have "append_loop s (length s) f1 w1 = (n, f', w')"
      using assms(1) True W by (simp add: append_loop.simps [of s k] Let_def)
    then have "n = length s" "f' = f1" by (simp_all add: append_loop.simps [of s "length s"])
    then show ?thesis using c(1) m by (auto intro: exI [of _ "drop k s"])
  qed
qed

text \<open>The clock never stands still between readings, and shows a time after the epoch.\<close>

definition clock_ticks :: "os \<Rightarrow> bool" where
  "clock_ticks w \<longleftrightarrow> 0 < clock w 0 \<and> (\<forall>k. clock w k < clock w (k + 1))"

definition log_ok :: "nat \<Rightarrow> LogFile \<Rightarrow> os \<Rightarrow> bool" where
  "log_ok m l w \<longleftrightarrow> disk_ok w \<and> clock_ticks w \<and> 0 \<le> rollSize l \<and> lastRoll l < clock w (clock_no w)
     \<and> (\<exists>f. lf_file l = Some f \<and> writtenBytes f = length (af_content f) \<and> int (writtenBytes f) \<le> rollSize l)
     \<and> (\<forall>f\<in>set (rolled l). int (length (af_content f)) \<le> rollSize l + int m)"

lemma clock_next: "clock_ticks w \<Longrightarrow> clock w k < clock w (k + 1)"
  by (simp add: clock_ticks_def)

lemma rollFile_rolls:
  assumes "disk_ok w" and "lastRoll l < clock w (clock_no w)"
  shows "\<exists>l' w'. rollFile l w = Ret ((True, l'), w') \<and> w' = w\<lparr>clock_no := clock_no w + 1\<rparr> \<and> lastRoll l' = clock w (clock_no w)
    \<and> rollSize l' = rollSize l \<and> rolled l' = rolled l @ (case lf_file l of None \<Rightarrow> [] | Some g \<Rightarrow> [AppendFile_flush g])
    \<and> (\<exists>n. lf_file l' = Some \<lparr>af_name = n, af_content = [], af_flushed = 0, writtenBytes = 0\<rparr>)"
  using assms by (auto simp: rollFile_def getLogFileName_def os_time_def new_AppendFile_def disk_ok_def Let_def)

text \<open>Rolling keeps everything that was logged.\<close>

lemma rollFile_ok:
  assumes d: "disk_ok w" "clock_ticks w" and r: "0 \<le> rollSize l" "lastRoll l < clock w (clock_no w)"
    and f: "lf_file l = Some f" "int (length (af_content f)) \<le> rollSize l + int m"
    and o: "\<forall>f\<in>set (rolled l). int (length (af_content f)) \<le> rollSize l + int m"
  shows "\<exists>l' w'. rollFile l w = Ret ((True, l'), w') \<and> log_ok m l' w' \<and> log_text l' = log_text l \<and> rollSize l' = rollSize l"
proof -
  obtain l' w' n where R: "rollFile l w = Ret ((True, l'), w')" "w' = w\<lparr>clock_no := clock_no w + 1\<rparr>" "lastRoll l' = clock w (clock_no w)"
    "rollSize l' = rollSize l" "rolled l' = rolled l @ [AppendFile_flush f]"
    "lf_file l' = Some \<lparr>af_name = n, af_content = [], af_flushed = 0, writtenBytes = 0\<rparr>"
    using rollFile_rolls [OF d(1) r(2)] f(1) by auto
  have "log_ok m l' w'" using d r(1) f(2) o clock_next [OF d(2), of "clock_no w"]
    by (simp add: log_ok_def R AppendFile_flush_def disk_ok_def clock_ticks_def)
  moreover have "log_text l' = log_text l" by (simp add: log_text_def R f(1) AppendFile_flush_def)
  ultimately show ?thesis using R by auto
qed

text \<open>After the text was written, the file is kept or rolled.\<close>

lemma log_kept:
  assumes "log_ok m l w" and "lf_file l = Some f"
    and "lf_file l2 = Some f2" "af_content f2 = af_content f @ s" "writtenBytes f2 = writtenBytes f + length s"
    and "rolled l2 = rolled l" "rollSize l2 = rollSize l" "lastRoll l2 = lastRoll l"
    and "lastRoll l < clock w2 (clock_no w2)" "disk_ok w2" "clock_ticks w2" and "int (writtenBytes f + length s) \<le> rollSize l"
  shows "log_ok m l2 w2 \<and> log_text l2 = log_text l @ s"
  using assms by (auto simp: log_ok_def log_text_def)

lemma log_rolls:
  assumes "log_ok m l w" and "lf_file l = Some f" and "length s \<le> m"
    and "lf_file l2 = Some f2" "af_content f2 = af_content f @ s" "writtenBytes f2 = writtenBytes f + length s"
    and "rolled l2 = rolled l" "rollSize l2 = rollSize l" "lastRoll l2 < clock w2 (clock_no w2)" "disk_ok w2" "clock_ticks w2"
  shows "\<exists>l' w'. bindo (rollFile l2 w2) (\<lambda>((_, l), w). Ret (l, w)) = Ret (l', w') \<and> log_ok m l' w' \<and> log_text l' = log_text l @ s \<and> rollSize l' = rollSize l"
proof -
  have "log_text l2 = log_text l @ s" using assms by (simp add: log_text_def)
  with rollFile_ok [of w2 l2 f2 m] assms show ?thesis by (auto simp: log_ok_def)
qed

lemma append_unlocked_ok:
  assumes ok: "log_ok m l w" and len: "length s \<le> m"
  shows "\<exists>l' w'. append_unlocked s l w = Ret (l', w') \<and> log_ok m l' w' \<and> log_text l' = log_text l @ s \<and> rollSize l' = rollSize l"
proof -
  note O = ok [unfolded log_ok_def]
  obtain f where f: "lf_file l = Some f" using O by auto
  define f1 where "f1 = f\<lparr>af_content := af_content f @ s, writtenBytes := writtenBytes f + length s\<rparr>"
  define w1 where "w1 = (if s = [] then w else w\<lparr>fwrite_no := fwrite_no w + 1\<rparr>)"
  have a: "AppendFile_append s f w = (f1, w1)"
    using O append_loop_ok [of w s f] by (simp add: AppendFile_append_def f1_def w1_def)
  have w1: "disk_ok w1" "clock_ticks w1" "clock w1 = clock w" "clock_no w1 = clock_no w"
    using O by (auto simp: w1_def disk_ok_def clock_ticks_def)
  let ?l = "l\<lparr>lf_file := Some f1\<rparr>" and ?w = "w1\<lparr>clock_no := clock_no w1 + 1\<rparr>" and ?now = "clock w1 (clock_no w1)"
  let ?lz = "?l\<lparr>count := 0\<rparr>"
  have lt: "lastRoll l < clock w1 (clock_no w1)" "lastRoll l < clock ?w (clock_no ?w)"
    using O w1 clock_next [of w "clock_no w"] by auto
  have w2: "disk_ok ?w" "clock_ticks ?w" using w1 by (simp_all add: disk_ok_def clock_ticks_def)
  note E = append_unlocked_def [of s l w, unfolded f option.case a prod.case Let_def]
    and keep = log_kept [OF ok f, where s = s] and roll = log_rolls [OF ok f len, where ?f2.0 = f1]
  consider (size) "int (writtenBytes f1) > rollSize l"
    | (few) "\<not> int (writtenBytes f1) > rollSize l" "\<not> count l + 1 \<ge> checkEveryN l"
    | (day) "\<not> int (writtenBytes f1) > rollSize l" "count l + 1 \<ge> checkEveryN l" "?now sdiv kRollPerSeconds * kRollPerSeconds \<noteq> startOfPeriod l"
    | (same) "\<not> int (writtenBytes f1) > rollSize l" "count l + 1 \<ge> checkEveryN l" "?now sdiv kRollPerSeconds * kRollPerSeconds = startOfPeriod l"
    by blast
  then show ?thesis
  proof cases
    case size
    then show ?thesis using roll [of ?l w1] lt(1) w1 unfolding E by (simp add: f1_def)
  next
    case few
    then show ?thesis using keep [of "?l\<lparr>count := count l + 1\<rparr>" f1 w1] lt(1) w1 unfolding E by (simp add: f1_def)
  next
    case day
    then show ?thesis using roll [of ?lz ?w] lt(2) w2 unfolding E by (simp add: os_time_def f1_def)
  next
    case same
    then show ?thesis
      using lt(2) w2 keep [of ?lz f1 ?w] keep [of "?lz\<lparr>lastFlush := ?now, lf_file := Some (AppendFile_flush f1)\<rparr>" "AppendFile_flush f1" ?w]
      unfolding E by (simp add: os_time_def AppendFile_flush_def f1_def)
  qed
qed

section \<open>Where the log goes\<close>

text \<open>What a writer of log text relies on: every text up to a given length is taken, after those before it.\<close>

locale log_sink =
  fixes limit :: nat
    and put :: "string \<Rightarrow> 'f \<Rightarrow> 'f outcome"
    and sink_ok :: "'f \<Rightarrow> bool"
    and sink_text :: "'f \<Rightarrow> string"
  assumes put_takes: "sink_ok f \<Longrightarrow> length s \<le> limit \<Longrightarrow> \<exists>f'. put s f = Ret f' \<and> sink_ok f' \<and> sink_text f' = sink_text f @ s"
begin

lemma puts_take:
  assumes "sink_ok f" and "\<forall>s\<in>set ss. length s \<le> limit"
  shows "\<exists>f'. foldo put ss f = Ret f' \<and> sink_ok f' \<and> sink_text f' = sink_text f @ concat ss"
  using assms
proof (induction ss arbitrary: f)
  case (Cons s ss)
  obtain f1 where f1: "put s f = Ret f1" "sink_ok f1" "sink_text f1 = sink_text f @ s" using put_takes [of f s] Cons.prems by auto
  then show ?case using Cons.IH [OF f1(2)] Cons.prems(2) by auto
qed simp

end

interpretation lf: log_sink m LogFile_append "\<lambda>(l, w). log_ok m l w \<and> rollSize l = r" "\<lambda>(l, w). log_text l" for m r
  using append_unlocked_ok by unfold_locales (force simp: LogFile_append_def split: prod.splits)

lemma new_LogFile_ok:
  assumes "CHR ''/'' \<notin> set base" and "0 \<le> rollSz" and "disk_ok w" and "clock_ticks w"
  shows "\<exists>l w'. new_LogFile base rollSz interval everyN w = Ret (l, w') \<and> log_ok m l w' \<and> log_text l = [] \<and> rollSize l = rollSz"
proof -
  let ?l = "\<lparr>basename = base, rollSize = rollSz, flushInterval = interval, checkEveryN = everyN, count = 0,
    startOfPeriod = 0, lastRoll = 0, lastFlush = 0, lf_file = None, rolled = []\<rparr>"
  have pos: "0 < clock w k" for k
    using assms(4) by (induction k) (auto simp: clock_ticks_def intro: less_trans)
  obtain l' w' n where R: "rollFile ?l w = Ret ((True, l'), w')" "w' = w\<lparr>clock_no := clock_no w + 1\<rparr>" "lastRoll l' = clock w (clock_no w)"
    "rollSize l' = rollSz" "rolled l' = []" "lf_file l' = Some \<lparr>af_name = n, af_content = [], af_flushed = 0, writtenBytes = 0\<rparr>"
    using rollFile_rolls [OF assms(3), of ?l] pos by auto
  then show ?thesis using assms clock_next [OF assms(4), of "clock_no w"]
    by (auto simp: new_LogFile_def log_ok_def log_text_def disk_ok_def clock_ticks_def)
qed


text \<open>A disk that takes everything and a clock that starts on 1 January 2000.\<close>

definition sample_os :: os where
  "sample_os = \<lparr>clock = (\<lambda>k. 946684800 + int k), clock_no = 0, fwrites = (\<lambda>_. None), fwrite_no = 0, fopen_ok = (\<lambda>_. True),
     os_hostname = ''host'', os_pid = 42\<rparr>"


end
