(* ===== verification/AsyncLogs.thy ===== *)
theory AsyncLogs
  imports LogFiles
begin

text \<open>
  \<^verbatim>\<open>muduo/base/AsyncLogging.{h,cc}\<close>: double-buffered logging. Front-end threads append lines to the current buffer
  under a mutex; the logging thread swaps the filled buffers out under the mutex and writes them without it.

  \<open>AsyncLogging\<close> holds the members the mutex protects and \<open>backend\<close> the local variables of
  \<^verbatim>\<open>threadFunc\<close>; a pointer that was moved from is \<open>None\<close>. An iteration of the logging thread is two
  steps, \<open>threadFunc_swap\<close> (the critical section) and \<open>threadFunc_write\<close> (the rest), between which any number of lines
  may be appended. \<^verbatim>\<open>waitForSeconds\<close> may return at any time, so a swap may happen at any time. The
  output is a parameter (\<open>put\<close>) with the contract of \<^verbatim>\<open>log_sink\<close>, which \<^verbatim>\<open>LogFile\<close> implements. A new buffer has
  unspecified contents \<open>junk\<close>.
\<close>

record AsyncLogging =
  currentBuffer :: "FixedBuffer option"
  nextBuffer :: "FixedBuffer option"
  buffers :: "FixedBuffer list"

record backend =
  newBuffer1 :: "FixedBuffer option"
  newBuffer2 :: "FixedBuffer option"
  buffersToWrite :: "FixedBuffer list"

definition new_AsyncLogging :: "char list \<Rightarrow> AsyncLogging" where
  "new_AsyncLogging junk =
     \<lparr>currentBuffer = Some (fb_bzero (new_FixedBuffer junk)), nextBuffer = Some (fb_bzero (new_FixedBuffer junk)), buffers = []\<rparr>"

text \<open>Using a pointer that may be null.\<close>

definition deref :: "'a option \<Rightarrow> ('a \<Rightarrow> 'b outcome) \<Rightarrow> 'b outcome" where
  "deref p k = (case p of None \<Rightarrow> Abort (Undefined ''null pointer'') | Some x \<Rightarrow> k x)"

definition AsyncLogging_append :: "char list \<Rightarrow> string \<Rightarrow> AsyncLogging \<Rightarrow> AsyncLogging outcome" where
  "AsyncLogging_append junk logline a =
     deref (currentBuffer a) (\<lambda>c.
     if avail c > length logline then Ret (a\<lparr>currentBuffer := Some (fb_append logline c)\<rparr>)
     else let a = a\<lparr>buffers := buffers a @ [c]\<rparr>;
              (c, a) = (case nextBuffer a of
                          Some n \<Rightarrow> (n, a\<lparr>nextBuffer := None\<rparr>)
                        | None \<Rightarrow> (new_FixedBuffer junk, a))
          in Ret (a\<lparr>currentBuffer := Some (fb_append logline c)\<rparr>))"

section \<open>The logging thread\<close>

definition new_backend :: "char list \<Rightarrow> backend" where
  "new_backend junk =
     \<lparr>newBuffer1 = Some (fb_bzero (new_FixedBuffer junk)), newBuffer2 = Some (fb_bzero (new_FixedBuffer junk)), buffersToWrite = []\<rparr>"

text \<open>\<^verbatim>\<open>assert(newBuffer && newBuffer->length() == 0)\<close>.\<close>

definition is_empty_buffer :: "FixedBuffer option \<Rightarrow> bool" where
  "is_empty_buffer p = (case p of None \<Rightarrow> False | Some b \<Rightarrow> cur b = 0)"

definition threadFunc_swap :: "AsyncLogging \<Rightarrow> backend \<Rightarrow> (AsyncLogging \<times> backend) outcome" where
  "threadFunc_swap a t =
     require (is_empty_buffer (newBuffer1 t)) ''newBuffer1 && newBuffer1->length() == 0''
     (require (is_empty_buffer (newBuffer2 t)) ''newBuffer2 && newBuffer2->length() == 0''
     (require (buffersToWrite t = []) ''buffersToWrite.empty()''
     (deref (currentBuffer a) (\<lambda>c.
      let bs = buffers a @ [c];
          a = a\<lparr>currentBuffer := newBuffer1 t, buffers := []\<rparr>;
          t = t\<lparr>newBuffer1 := None, buffersToWrite := bs\<rparr>
      in case nextBuffer a of
           None \<Rightarrow> Ret (a\<lparr>nextBuffer := newBuffer2 t\<rparr>, t\<lparr>newBuffer2 := None\<rparr>)
         | Some _ \<Rightarrow> Ret (a, t)))))"

text \<open>Taking the last written buffer back as a spare one.\<close>

definition recycle :: "FixedBuffer option \<Rightarrow> FixedBuffer list \<Rightarrow> (FixedBuffer option \<times> FixedBuffer list) outcome" where
  "recycle p bs =
     (case p of
        Some _ \<Rightarrow> Ret (p, bs)
      | None \<Rightarrow> require (bs \<noteq> []) ''!buffersToWrite.empty()'' (Ret (Some (fb_reset (last bs)), butlast bs)))"

definition dropped_message :: "string \<Rightarrow> nat \<Rightarrow> string" where
  "dropped_message now n =
     snprintf 256 (''Dropped log messages at '' @ now @ '', '' @ dec_nat (n - 2) @ '' larger buffers'' @ [CHR 0x0A])"

text \<open>\<open>now\<close> is the printed time stamp. The flush at the end of the iteration is the output's own concern.\<close>

definition threadFunc_write :: "(string \<Rightarrow> 'f \<Rightarrow> 'f outcome) \<Rightarrow> string \<Rightarrow> backend \<Rightarrow> 'f \<Rightarrow> (backend \<times> 'f) outcome" where
  "threadFunc_write put now t out =
     require (buffersToWrite t \<noteq> []) ''!buffersToWrite.empty()''
     (bindo
       (if length (buffersToWrite t) > 25
        then bindo (put (dropped_message now (length (buffersToWrite t))) out) (\<lambda>out. Ret (take 2 (buffersToWrite t), out))
        else Ret (buffersToWrite t, out)) (\<lambda>(bs, out).
      bindo (foldo put (map fb_toString bs) out) (\<lambda>out.
      let bs = (if length bs > 2 then take 2 bs else bs) in
      bindo (recycle (newBuffer1 t) bs) (\<lambda>(n1, bs).
      bindo (recycle (newBuffer2 t) bs) (\<lambda>(n2, bs).
      Ret (\<lparr>newBuffer1 = n1, newBuffer2 = n2, buffersToWrite = []\<rparr>, out))))))"

section \<open>Interleavings\<close>

datatype 'f async = Async (front_end: AsyncLogging) (back_end: backend) (sink: 'f)

datatype async_event = Append string | Swap | Write string

fun async_step :: "char list \<Rightarrow> (string \<Rightarrow> 'f \<Rightarrow> 'f outcome) \<Rightarrow> async_event \<Rightarrow> 'f async \<Rightarrow> 'f async outcome" where
  "async_step junk put (Append s) (Async a t out) = bindo (AsyncLogging_append junk s a) (\<lambda>a. Ret (Async a t out))"
| "async_step junk put Swap (Async a t out) = bindo (threadFunc_swap a t) (\<lambda>(a, t). Ret (Async a t out))"
| "async_step junk put (Write now) (Async a t out) = bindo (threadFunc_write put now t out) (\<lambda>(t, out). Ret (Async a t out))"

text \<open>The logging thread alternates between its two steps; \<open>swapped\<close> tells which comes next.\<close>

fun legal :: "bool \<Rightarrow> async_event list \<Rightarrow> bool" where
  "legal swapped [] \<longleftrightarrow> True"
| "legal swapped (Append s # es) \<longleftrightarrow> length s < kLargeBuffer \<and> legal swapped es"
| "legal swapped (Swap # es) \<longleftrightarrow> \<not> swapped \<and> legal True es"
| "legal swapped (Write now # es) \<longleftrightarrow> swapped \<and> legal False es"

fun logged :: "async_event list \<Rightarrow> string" where
  "logged [] = []"
| "logged (Append s # es) = s @ logged es"
| "logged (_ # es) = logged es"

section \<open>The invariant\<close>

text \<open>Every pointer the front end uses is set; the spare buffer is missing only after a buffer was filled, so that there will
  be two buffers to take back.\<close>

definition front_ok :: "AsyncLogging \<Rightarrow> bool" where
  "front_ok a \<longleftrightarrow> (\<exists>c. currentBuffer a = Some c \<and> fb_ok kLargeBuffer c)
     \<and> (case nextBuffer a of None \<Rightarrow> buffers a \<noteq> [] | Some n \<Rightarrow> fb_ok kLargeBuffer n \<and> cur n = 0)
     \<and> list_all (fb_ok kLargeBuffer) (buffers a)"

definition spare_ok :: "FixedBuffer option \<Rightarrow> bool" where
  "spare_ok p \<longleftrightarrow> (\<exists>b. p = Some b \<and> fb_ok kLargeBuffer b \<and> cur b = 0)"

definition back_ok :: "bool \<Rightarrow> backend \<Rightarrow> bool" where
  "back_ok swapped t \<longleftrightarrow>
     (if swapped
      then newBuffer1 t = None \<and> buffersToWrite t \<noteq> [] \<and> list_all (fb_ok kLargeBuffer) (buffersToWrite t)
        \<and> (newBuffer2 t = None \<longrightarrow> 2 \<le> length (buffersToWrite t)) \<and> (newBuffer2 t \<noteq> None \<longrightarrow> spare_ok (newBuffer2 t))
      else spare_ok (newBuffer1 t) \<and> spare_ok (newBuffer2 t) \<and> buffersToWrite t = [])"

text \<open>The text that is still in memory, in order.\<close>

definition pending :: "AsyncLogging \<Rightarrow> backend \<Rightarrow> string" where
  "pending a t = concat (map fb_toString (buffersToWrite t @ buffers a @ (case currentBuffer a of None \<Rightarrow> [] | Some c \<Rightarrow> [c])))"

lemma fb_append_fits:
  assumes "fb_ok n b" and "length s < avail b"
  shows "fb_ok n (fb_append s b)" and "fb_toString (fb_append s b) = fb_toString b @ s"
  using fb_append_text [OF assms(1), of s] assms(2) by simp_all

lemma append_ok:
  assumes a: "front_ok a" and s: "length s < kLargeBuffer" and j: "length junk = kLargeBuffer"
  shows "\<exists>a'. AsyncLogging_append junk s a = Ret a' \<and> front_ok a' \<and> pending a' t = pending a t @ s"
proof -
  obtain c where c: "currentBuffer a = Some c" "fb_ok kLargeBuffer c" using a by (auto simp: front_ok_def)
  show ?thesis
  proof (cases "avail c > length s")
    case True
    then show ?thesis using a c fb_append_fits [OF c(2) True]
      by (auto simp: AsyncLogging_append_def deref_def front_ok_def pending_def split: option.splits)
  next
    case False
    define n where "n = (case nextBuffer a of Some n \<Rightarrow> n | None \<Rightarrow> new_FixedBuffer junk)"
    have n: "fb_ok kLargeBuffer n" "cur n = 0"
      using a j by (auto simp: n_def front_ok_def fb_ok_def new_FixedBuffer_def split: option.splits)
    then have "length s < avail n" "fb_toString n = []" using s by (simp_all add: avail_def fb_ok_def fb_toString_def)
    note f = fb_append_fits [OF n(1) this(1)] this(2)
    have "AsyncLogging_append junk s a = Ret (a\<lparr>currentBuffer := Some (fb_append s n), nextBuffer := None, buffers := buffers a @ [c]\<rparr>)"
      using False c by (cases a) (auto simp: AsyncLogging_append_def deref_def n_def Let_def split: option.splits)
    then show ?thesis using a c f by (auto simp: front_ok_def pending_def)
  qed
qed

lemma swap_ok:
  assumes a: "front_ok a" and t: "back_ok False t"
  shows "\<exists>a' t'. threadFunc_swap a t = Ret (a', t') \<and> front_ok a' \<and> back_ok True t' \<and> pending a' t' = pending a t"
proof -
  obtain c where c: "currentBuffer a = Some c" "fb_ok kLargeBuffer c" using a by (auto simp: front_ok_def)
  obtain b1 b2 where b: "newBuffer1 t = Some b1" "newBuffer2 t = Some b2" "cur b1 = 0" "cur b2 = 0" "buffersToWrite t = []"
      "fb_ok kLargeBuffer b1" "fb_ok kLargeBuffer b2"
    using t by (auto simp: back_ok_def spare_ok_def)
  have "fb_toString b1 = []" using b by (simp add: fb_toString_def)
  then show ?thesis using a b c
    by (cases "nextBuffer a") (auto simp: threadFunc_swap_def is_empty_buffer_def deref_def front_ok_def back_ok_def spare_ok_def pending_def Let_def Suc_le_eq)
qed

lemma recycle_None: "bs \<noteq> [] \<Longrightarrow> recycle None bs = Ret (Some (fb_reset (last bs)), butlast bs)"
  by (simp add: recycle_def)

lemma fb_reset_ok: "fb_ok n b \<Longrightarrow> fb_ok n (fb_reset b) \<and> cur (fb_reset b) = 0"
  by (simp add: fb_ok_def fb_reset_def)

text \<open>Two buffers at least remain to be taken back, or one when one is enough.\<close>

lemma recycle_ok:
  assumes t: "back_ok True t" and bs: "bs \<noteq> []" "list_all (fb_ok kLargeBuffer) bs" "newBuffer2 t = None \<longrightarrow> 2 \<le> length bs"
  shows "\<exists>n1 n2 bs1 bs2. recycle (newBuffer1 t) bs = Ret (n1, bs1) \<and> recycle (newBuffer2 t) bs1 = Ret (n2, bs2) \<and>
    back_ok False \<lparr>newBuffer1 = n1, newBuffer2 = n2, buffersToWrite = []\<rparr>"
proof -
  have n1: "recycle (newBuffer1 t) bs = Ret (Some (fb_reset (last bs)), butlast bs)"
    using t bs(1) by (simp add: back_ok_def recycle_None)
  have ok: "spare_ok (Some (fb_reset x))" if "x \<in> set bs" for x
    using that bs(2) fb_reset_ok by (auto simp: spare_ok_def list_all_iff)
  show ?thesis
  proof (cases "newBuffer2 t")
    case None
    then have bl: "butlast bs \<noteq> []" using bs(1,3) by (cases bs) (auto split: if_splits)
    then have "last (butlast bs) \<in> set bs" using in_set_butlastD last_in_set by metis
    then show ?thesis using n1 None bl ok bs(1) by (simp add: recycle_None back_ok_def)
  next
    case (Some b)
    then have "spare_ok (Some b)" using t by (simp add: back_ok_def)
    then show ?thesis using n1 Some ok bs(1) by (simp add: recycle_def back_ok_def)
  qed
qed

text \<open>Whether the logging thread keeps up: no write finds more than 25 buffers.\<close>

fun keeps_up :: "char list \<Rightarrow> (string \<Rightarrow> 'f \<Rightarrow> 'f outcome) \<Rightarrow> async_event list \<Rightarrow> 'f async \<Rightarrow> bool" where
  "keeps_up junk put [] s \<longleftrightarrow> True"
| "keeps_up junk put (e # es) s \<longleftrightarrow>
     (case e of Write _ \<Rightarrow> length (buffersToWrite (back_end s)) \<le> 25 | _ \<Rightarrow> True)
     \<and> (case async_step junk put e s of Ret s' \<Rightarrow> keeps_up junk put es s' | Abort _ \<Rightarrow> True)"

lemma length_dropped_message: "length (dropped_message now n) < kLargeBuffer"
  by (simp add: dropped_message_def snprintf_def kLargeBuffer_def)

lemma fb_toString_length: "fb_ok n b \<Longrightarrow> length (fb_toString b) \<le> n"
  by (simp add: fb_ok_def fb_toString_def)

context log_sink
begin

lemma write_ok:
  assumes t: "back_ok True t" and out: "sink_ok out" and lim: "kLargeBuffer \<le> limit"
  shows "\<exists>t' out'. threadFunc_write put now t out = Ret (t', out') \<and> back_ok False t' \<and> sink_ok out'
    \<and> sink_text out' = sink_text out @
        (if length (buffersToWrite t) \<le> 25 then concat (map fb_toString (buffersToWrite t))
         else dropped_message now (length (buffersToWrite t)) @ concat (map fb_toString (take 2 (buffersToWrite t))))"
proof -
  let ?n = "length (buffersToWrite t)"
  define bs where "bs = (if ?n > 25 then take 2 (buffersToWrite t) else buffersToWrite t)"
  have T: "buffersToWrite t \<noteq> []" "list_all (fb_ok kLargeBuffer) (buffersToWrite t)" "newBuffer2 t = None \<longrightarrow> 2 \<le> ?n"
    using t by (auto simp: back_ok_def)
  have all: "list_all (fb_ok kLargeBuffer) (take 2 (buffersToWrite t))" using T(2) by (auto simp: list_all_iff dest: in_set_takeD)
  obtain out1 where o1: "sink_ok out1"
      "sink_text out1 = sink_text out @ (if ?n > 25 then dropped_message now ?n else [])"
      "(if ?n > 25 then bindo (put (dropped_message now ?n) out) (\<lambda>out. Ret (take 2 (buffersToWrite t), out))
        else Ret (buffersToWrite t, out)) = Ret (bs, out1)"
  proof (cases "?n > 25")
    case True
    then show ?thesis using that put_takes [OF out, of "dropped_message now ?n"] length_dropped_message [of now ?n] lim
      by (auto simp: bs_def)
  next
    case False
    then show ?thesis using that out by (auto simp: bs_def)
  qed
  have b: "bs \<noteq> []" "list_all (fb_ok kLargeBuffer) bs" "newBuffer2 t = None \<longrightarrow> 2 \<le> length bs"
    using T all by (auto simp: bs_def)
  then have "\<forall>x\<in>set (map fb_toString bs). length x \<le> limit"
    using lim fb_toString_length by (fastforce simp: list_all_iff)
  then obtain out2 where o2: "foldo put (map fb_toString bs) out1 = Ret out2" "sink_ok out2"
      "sink_text out2 = sink_text out1 @ concat (map fb_toString bs)"
    using puts_take [OF o1(1)] by blast
  define bs2 where "bs2 = (if length bs > 2 then take 2 bs else bs)"
  have b2: "bs2 \<noteq> []" "list_all (fb_ok kLargeBuffer) bs2" "newBuffer2 t = None \<longrightarrow> 2 \<le> length bs2"
    using b by (auto simp: bs2_def list_all_iff dest: in_set_takeD)
  from recycle_ok [OF t b2] obtain n1 n2 r1 r2 where
    r: "recycle (newBuffer1 t) bs2 = Ret (n1, r1)" "recycle (newBuffer2 t) r1 = Ret (n2, r2)"
      "back_ok False \<lparr>newBuffer1 = n1, newBuffer2 = n2, buffersToWrite = []\<rparr>" by blast
  have "threadFunc_write put now t out = Ret (\<lparr>newBuffer1 = n1, newBuffer2 = n2, buffersToWrite = []\<rparr>, out2)"
    unfolding threadFunc_write_def o1(3) using T(1) o2(1) r(1,2) by (simp add: Let_def flip: bs2_def)
  then show ?thesis using r(3) o2 o1(2) by (auto simp: bs_def not_less)
qed

lemma async_run:
  assumes "front_ok a" and "back_ok swapped t" and "sink_ok out" and "legal swapped es"
    and "kLargeBuffer \<le> limit" and "length junk = kLargeBuffer"
  shows "\<exists>a' t' out'. foldo (async_step junk put) es (Async a t out) = Ret (Async a' t' out')
    \<and> (keeps_up junk put es (Async a t out) \<longrightarrow> sink_text out' @ pending a' t' = sink_text out @ pending a t @ logged es)"
  using assms
proof (induction es arbitrary: a t out swapped)
  case (Cons e es)
  show ?case
  proof (cases e)
    case (Append s)
    then have "length s < kLargeBuffer" "legal swapped es" using Cons.prems by auto
    then obtain a1 where "AsyncLogging_append junk s a = Ret a1" "front_ok a1" "pending a1 t = pending a t @ s"
      using append_ok Cons.prems by blast
    then show ?thesis using Cons.IH [of a1 swapped t out] Cons.prems Append by auto
  next
    case Swap
    then have "\<not> swapped" "legal True es" using Cons.prems by auto
    then obtain a1 t1 where "threadFunc_swap a t = Ret (a1, t1)" "front_ok a1" "back_ok True t1" "pending a1 t1 = pending a t"
      using swap_ok [of a t] Cons.prems by auto
    then show ?thesis using Cons.IH [of a1 True t1 out] Cons.prems Swap \<open>legal True es\<close> by auto
  next
    case (Write now)
    then have sw: "swapped" "legal False es" using Cons.prems by auto
    then obtain t1 out1 where w: "threadFunc_write put now t out = Ret (t1, out1)" "back_ok False t1" "sink_ok out1"
      "length (buffersToWrite t) \<le> 25 \<Longrightarrow> sink_text out1 = sink_text out @ concat (map fb_toString (buffersToWrite t))"
      using write_ok [of t out now] Cons.prems by (auto split: if_splits)
    have "pending a t = concat (map fb_toString (buffersToWrite t)) @ pending a t1"
      using w(2) by (simp add: pending_def back_ok_def)
    then show ?thesis using w Cons.IH [of a False t1 out1] Cons.prems Write sw by auto
  qed
qed simp

end

text \<open>Each step adds one buffer at most, so that the logging thread keeps up with a short run.\<close>

definition backlog :: "'f async \<Rightarrow> nat" where
  "backlog s = length (buffers (front_end s)) + length (buffersToWrite (back_end s))"

lemma async_step_backlog:
  assumes "async_step junk put e s = Ret s'"
  shows "backlog s' \<le> backlog s + 1"
proof (cases s)
  case (Async a t out)
  show ?thesis
  proof (cases e)
    case (Append x)
    then show ?thesis using assms Async
      by (auto simp: backlog_def bindo_eq_Ret AsyncLogging_append_def deref_def Let_def split: option.splits if_splits)
  next
    case Swap
    then show ?thesis using assms Async
      by (auto simp: backlog_def bindo_eq_Ret require_eq_Ret threadFunc_swap_def deref_def Let_def split: option.splits)
  next
    case (Write now)
    then show ?thesis using assms Async
      by (auto simp: backlog_def bindo_eq_Ret require_eq_Ret threadFunc_write_def Let_def)
  qed
qed

lemma keeps_up_few: "backlog s + length es \<le> 26 \<Longrightarrow> keeps_up junk put es s"
proof (induction es arbitrary: s)
  case (Cons e es)
  then show ?case using async_step_backlog [of junk put e s]
    by (cases "async_step junk put e s") (fastforce simp: backlog_def split: async_event.split)+
qed simp



end
