(* ===== verification/AsyncLife.thy ===== *)
theory AsyncLife
  imports AsyncLogs
begin

text \<open>
  Starting and stopping \<^verbatim>\<open>muduo/base/AsyncLogging.{h,cc}\<close>: \<^verbatim>\<open>start\<close>, \<^verbatim>\<open>stop\<close>, the destructor and the loop of \<^verbatim>\<open>threadFunc\<close> around the
  critical section and the writing of \<^verbatim>\<open>AsyncLogs\<close>.

  The owner of the logger calls \<^verbatim>\<open>start\<close> and \<^verbatim>\<open>stop\<close>; each blocking point of these calls is a value of \<open>owner\<close>, and each
  point of the logging thread a value of \<open>log_thread\<close>. Appending threads run at any time. \<^verbatim>\<open>waitForSeconds\<close> returns at the latest after its
  timeout, so the critical section of the loop is always entered in the end, notified or not. The log file is a local variable
  of the logging thread, and is in the state from the beginning.
\<close>

datatype log_thread = NoThread | Born | AtWhile | Swapping | Writing | Finished
datatype owner = Fresh | AwaitLatch | Up | Notifying | Joining | Down

datatype 'f logger_life = LoggerLife (engine: "'f async") (al_running: bool) (al_latch: nat) (log_thread: log_thread) (owner: owner)

definition new_logger_life :: "'f async \<Rightarrow> 'f logger_life" where
  "new_logger_life s = LoggerLife s False 1 NoThread Fresh"

text \<open>\<open>None\<close> is a call that blocks or a point the caller is not at.\<close>

fun AsyncLogging_start :: "'f logger_life \<Rightarrow> 'f logger_life outcome option" where
  "AsyncLogging_start (LoggerLife s r n NoThread Fresh) = Some (Ret (LoggerLife s True n Born AwaitLatch))"
| "AsyncLogging_start (LoggerLife s r n th AwaitLatch) = (if n = 0 then Some (Ret (LoggerLife s r n th Up)) else None)"
| "AsyncLogging_start _ = None"

fun AsyncLogging_stop :: "'f logger_life \<Rightarrow> 'f logger_life outcome option" where
  "AsyncLogging_stop (LoggerLife s r n th Up) = Some (Ret (LoggerLife s False n th Notifying))"
| "AsyncLogging_stop (LoggerLife s r n th Notifying) = Some (Ret (LoggerLife s r n th Joining))"
| "AsyncLogging_stop (LoggerLife s r n th Joining) = (if th = Finished then Some (Ret (LoggerLife s r n th Down)) else None)"
| "AsyncLogging_stop _ = None"

definition AsyncLogging_dtor :: "'f logger_life \<Rightarrow> 'f logger_life outcome option" where
  "AsyncLogging_dtor l = (if al_running l then AsyncLogging_stop l else Some (Ret l))"

fun threadFunc_begin :: "'f logger_life \<Rightarrow> 'f logger_life outcome option" where
  "threadFunc_begin (LoggerLife s r n Born ow) = Some (require r ''running_ == true'' (Ret (LoggerLife s r (n - 1) AtWhile ow)))"
| "threadFunc_begin _ = None"

fun threadFunc_while :: "'f logger_life \<Rightarrow> 'f logger_life outcome option" where
  "threadFunc_while (LoggerLife s r n AtWhile ow) = Some (Ret (LoggerLife s r n (if r then Swapping else Finished) ow))"
| "threadFunc_while _ = None"

text \<open>Where the logging thread is before and after its two steps; appending does not concern it.\<close>

fun next_point :: "async_event \<Rightarrow> log_thread \<Rightarrow> log_thread option" where
  "next_point (Append _) th = Some th"
| "next_point Swap th = (if th = Swapping then Some Writing else None)"
| "next_point (Write _) th = (if th = Writing then Some AtWhile else None)"

datatype life_event = Start | Begin | While | Work async_event | Stop | Destroy

fun life_step :: "char list \<Rightarrow> (string \<Rightarrow> 'f \<Rightarrow> 'f outcome) \<Rightarrow> life_event \<Rightarrow> 'f logger_life \<Rightarrow> 'f logger_life outcome option" where
  "life_step junk put Start l = AsyncLogging_start l"
| "life_step junk put Begin l = threadFunc_begin l"
| "life_step junk put While l = threadFunc_while l"
| "life_step junk put (Work e) (LoggerLife s r n th ow) =
     map_option (\<lambda>th. bindo (async_step junk put e s) (\<lambda>s. Ret (LoggerLife s r n th ow))) (next_point e th)"
| "life_step junk put Stop l = AsyncLogging_stop l"
| "life_step junk put Destroy l = (if owner l \<in> {Fresh, Up, Down} then AsyncLogging_dtor l else None)"

text \<open>A run of the threads: no step of it blocks; it may end with a failure.\<close>

fun life_run :: "char list \<Rightarrow> (string \<Rightarrow> 'f \<Rightarrow> 'f outcome) \<Rightarrow> life_event list \<Rightarrow> 'f logger_life \<Rightarrow> 'f logger_life outcome option" where
  "life_run junk put [] l = Some (Ret l)"
| "life_run junk put (e # es) l =
     (case life_step junk put e l of
        None \<Rightarrow> None
      | Some (Abort x) \<Rightarrow> Some (Abort x)
      | Some (Ret l) \<Rightarrow> life_run junk put es l)"

fun works :: "life_event list \<Rightarrow> async_event list" where
  "works [] = []"
| "works (Work e # es) = e # works es"
| "works (_ # es) = works es"

text \<open>The lines appended since the last time the buffers were taken.\<close>

fun since_swap :: "string \<Rightarrow> async_event list \<Rightarrow> string" where
  "since_swap acc [] = acc"
| "since_swap acc (Append s # es) = since_swap (acc @ s) es"
| "since_swap acc (Swap # es) = since_swap [] es"
| "since_swap acc (Write now # es) = since_swap acc es"

section \<open>The protocol\<close>

definition life_ok :: "'f logger_life \<Rightarrow> bool" where
  "life_ok l \<longleftrightarrow> (al_running l \<longleftrightarrow> owner l \<in> {AwaitLatch, Up})
     \<and> (owner l = Fresh \<longleftrightarrow> log_thread l = NoThread)
     \<and> al_latch l = (if log_thread l \<in> {NoThread, Born} then 1 else 0)
     \<and> (log_thread l = Born \<longrightarrow> owner l = AwaitLatch)
     \<and> (log_thread l = Finished \<longrightarrow> \<not> al_running l)
     \<and> (owner l = Down \<longrightarrow> log_thread l = Finished)"

lemma life_ok_step:
  assumes "life_ok l" and "life_step junk put e l = Some r"
  shows "(\<exists>l'. r = Ret l' \<and> life_ok l') \<or> (\<exists>a x. e = Work a \<and> async_step junk put a (engine l) = Abort x)"
proof (cases l)
  case (LoggerLife s run n th ow)
  show ?thesis
  proof (cases e)
    case (Work a)
    then obtain th' where th': "next_point a th = Some th'" "r = bindo (async_step junk put a s) (\<lambda>s. Ret (LoggerLife s run n th' ow))"
      using assms(2) LoggerLife by auto
    have "life_ok (LoggerLife s' run n th' ow)" for s'
      using assms(1) th'(1) LoggerLife by (cases a) (auto simp: life_ok_def split: if_splits)
    then show ?thesis using th'(2) Work LoggerLife by (cases "async_step junk put a s") auto
  next
    case Start
    then show ?thesis using assms LoggerLife by (cases th; cases ow) (auto simp: life_ok_def split: if_splits)
  next
    case Begin
    then show ?thesis using assms LoggerLife by (cases th) (auto simp: life_ok_def)
  next
    case While
    then show ?thesis using assms LoggerLife by (cases th) (auto simp: life_ok_def)
  next
    case Stop
    then show ?thesis using assms LoggerLife by (cases ow) (auto simp: life_ok_def split: if_splits)
  next
    case Destroy
    then show ?thesis using assms LoggerLife by (cases ow) (auto simp: life_ok_def AsyncLogging_dtor_def split: if_splits)
  qed
qed

section \<open>The text in the buffers\<close>

definition front_text :: "AsyncLogging \<Rightarrow> string" where
  "front_text a = concat (map fb_toString (buffers a @ (case currentBuffer a of None \<Rightarrow> [] | Some c \<Rightarrow> [c])))"

lemma pending_front: "pending a t = concat (map fb_toString (buffersToWrite t)) @ front_text a"
  by (simp add: pending_def front_text_def)

lemma swap_front:
  assumes "threadFunc_swap a t = Ret (a', t')" and "back_ok False t"
  shows "front_text a' = []"
proof -
  obtain b1 where "newBuffer1 t = Some b1" "cur b1 = 0" using assms(2) by (auto simp: back_ok_def spare_ok_def)
  then show ?thesis using assms(1)
    by (auto simp: threadFunc_swap_def require_eq_Ret deref_def Let_def front_text_def fb_toString_def split: option.splits)
qed

fun fits :: "life_event \<Rightarrow> bool" where
  "fits (Work (Append s)) \<longleftrightarrow> length s < kLargeBuffer"
| "fits _ \<longleftrightarrow> True"

context log_sink
begin

lemma work_ok:
  assumes "next_point e th = Some th'" and "front_ok a" and "back_ok (th = Writing) t" and "sink_ok out" and "fits (Work e)"
    and "kLargeBuffer \<le> limit" and "length junk = kLargeBuffer"
  shows "\<exists>a' t' out'. async_step junk put e (Async a t out) = Ret (Async a' t' out') \<and> front_ok a' \<and> back_ok (th' = Writing) t' \<and> sink_ok out'
    \<and> front_text a' = since_swap (front_text a) [e]
    \<and> ((\<forall>now. e = Write now \<longrightarrow> length (buffersToWrite t) \<le> 25) \<longrightarrow> sink_text out' @ pending a' t' = sink_text out @ pending a t @ logged [e])"
proof (cases e)
  case (Append s)
  then have "length s < kLargeBuffer" using assms(5) by simp
  then obtain a' where a': "AsyncLogging_append junk s a = Ret a'" "front_ok a'" "pending a' t = pending a t @ s"
    using append_ok [OF assms(2) _ assms(7)] by blast
  then have "front_text a' = front_text a @ s" by (simp add: pending_front)
  then show ?thesis using a' assms(1,3,4) Append by auto
next
  case Swap
  then have "back_ok False t" "th' = Writing" using assms(1,3) by (auto split: if_splits)
  then show ?thesis using swap_ok [OF assms(2), of t] swap_front [of a t] assms(4) Swap by fastforce
next
  case (Write now)
  then have "back_ok True t" "th' = AtWhile" using assms(1,3) by (auto split: if_splits)
  then obtain t' out' where w: "threadFunc_write put now t out = Ret (t', out')" "back_ok False t'" "sink_ok out'"
      "length (buffersToWrite t) \<le> 25 \<Longrightarrow> sink_text out' = sink_text out @ concat (map fb_toString (buffersToWrite t))"
    using write_ok [of t out now] assms(4,6) by auto
  then have "buffersToWrite t' = []" by (simp add: back_ok_def)
  then show ?thesis using w assms(2) Write \<open>th' = AtWhile\<close> by (simp add: pending_front)
qed

definition life_inv :: "'f logger_life \<Rightarrow> bool" where
  "life_inv l \<longleftrightarrow> life_ok l \<and> front_ok (front_end (engine l)) \<and> back_ok (log_thread l = Writing) (back_end (engine l)) \<and> sink_ok (sink (engine l))"

lemma idle_step:
  assumes "life_step junk put e l = Some (Ret l')" and "\<forall>a. e \<noteq> Work a"
  shows "engine l' = engine l \<and> (log_thread l' = Writing \<longleftrightarrow> log_thread l = Writing)"
  using assms by (cases l; cases e; cases "log_thread l"; cases "owner l") (auto simp: AsyncLogging_dtor_def require_eq_Ret split: if_splits)

text \<open>No run fails, and the files and the buffers hold the lines appended.\<close>

lemma life_run_ok:
  assumes "life_run junk put es l = Some r" and "life_inv l" and "list_all fits es"
    and "kLargeBuffer \<le> limit" and "length junk = kLargeBuffer"
  shows "\<exists>l'. r = Ret l' \<and> life_inv l' \<and> (keeps_up junk put (works es) (engine l) \<longrightarrow>
      front_text (front_end (engine l')) = since_swap (front_text (front_end (engine l))) (works es)
    \<and> sink_text (sink (engine l')) @ pending (front_end (engine l')) (back_end (engine l'))
      = sink_text (sink (engine l)) @ pending (front_end (engine l)) (back_end (engine l)) @ logged (works es))"
  using assms(1-3)
proof (induction es arbitrary: l)
  case (Cons e es)
  obtain q where q: "life_step junk put e l = Some q" using Cons.prems(1) by (cases "life_step junk put e l") auto
  show ?case
  proof (cases "\<exists>a. e = Work a")
    case False
    then obtain l1 where l1: "q = Ret l1" "life_ok l1"
      using life_ok_step [OF _ q] Cons.prems(2) by (auto simp: life_inv_def)
    then have same: "engine l1 = engine l" "log_thread l1 = Writing \<longleftrightarrow> log_thread l = Writing"
      using idle_step [of junk e l l1] q False by auto
    then have "life_inv l1" using l1 Cons.prems(2) by (simp add: life_inv_def)
    moreover have "works (e # es) = works es" using False by (cases e) auto
    ultimately show ?thesis using Cons.IH [of l1] Cons.prems q l1 same(1) by auto
  next
    case True
    then obtain w where w: "e = Work w" by blast
    obtain a t out run n th ow where l: "l = LoggerLife (Async a t out) run n th ow" by (metis async.exhaust logger_life.exhaust)
    obtain th' where th': "next_point w th = Some th'" using q w l by auto
    obtain a1 t1 out1 where s: "async_step junk put w (Async a t out) = Ret (Async a1 t1 out1)" "front_ok a1" "back_ok (th' = Writing) t1" "sink_ok out1"
        "front_text a1 = since_swap (front_text a) [w]"
        "(\<forall>now. w = Write now \<longrightarrow> length (buffersToWrite t) \<le> 25) \<longrightarrow> sink_text out1 @ pending a1 t1 = sink_text out @ pending a t @ logged [w]"
      using work_ok [OF th', of a t out junk] assms(4,5) Cons.prems(2,3) w l by (auto simp: life_inv_def)
    define l1 where "l1 = LoggerLife (Async a1 t1 out1) run n th' ow"
    have q1: "q = Ret l1" using q w l th' s(1) by (simp add: l1_def)
    then have "life_inv l1" using life_ok_step [OF _ q] Cons.prems(2) s l w by (auto simp: life_inv_def l1_def)
    then obtain l' where l': "r = Ret l'" "life_inv l'" "keeps_up junk put (works es) (engine l1) \<longrightarrow>
        front_text (front_end (engine l')) = since_swap (front_text a1) (works es)
      \<and> sink_text (sink (engine l')) @ pending (front_end (engine l')) (back_end (engine l')) = sink_text out1 @ pending a1 t1 @ logged (works es)"
      using Cons.IH [of l1] Cons.prems q q1 by (auto simp: l1_def)
    have "since_swap (front_text a) (w # works es) = since_swap (front_text a1) (works es)" "logged (w # works es) = logged [w] @ logged (works es)"
      using s(5) by (cases w; simp)+
    moreover have "(\<forall>now. w = Write now \<longrightarrow> length (buffersToWrite t) \<le> 25) \<and> keeps_up junk put (works es) (engine l1)"
      if "keeps_up junk put (works (e # es)) (engine l)" using that w l s(1) by (auto simp: l1_def)
    ultimately show ?thesis using l' s(6) w l by (metis append.assoc async.sel logger_life.sel(1) works.simps(2))
  qed
qed auto

end

section \<open>Stopping\<close>

text \<open>How many steps the owner and the logging thread have left once \<^verbatim>\<open>running_\<close> is false.\<close>

definition steps_left :: "'f logger_life \<Rightarrow> nat" where
  "steps_left l = (case owner l of Notifying \<Rightarrow> 2 | Joining \<Rightarrow> 1 | _ \<Rightarrow> 0) + (case log_thread l of Swapping \<Rightarrow> 3 | Writing \<Rightarrow> 2 | AtWhile \<Rightarrow> 1 | _ \<Rightarrow> 0)"

text \<open>Whoever moves, \<^verbatim>\<open>stop\<close> comes nearer to its end, and somebody can move until it has returned.\<close>

lemma stop_progress:
  assumes "life_ok l" and "owner l \<in> {Notifying, Joining}"
  shows "steps_left l \<le> 5"
    and "life_step junk put e l = Some (Ret l') \<Longrightarrow> \<forall>s. e \<noteq> Work (Append s) \<Longrightarrow> steps_left l' < steps_left l \<and> owner l' \<in> {Notifying, Joining, Down}"
    and "life_step junk put (Work (Append s)) l = Some (Ret l') \<Longrightarrow> steps_left l' = steps_left l \<and> owner l' = owner l"
    and "\<exists>e. (\<forall>s. e \<noteq> Work (Append s)) \<and> life_step junk put e l \<noteq> None"
proof -
  obtain sn r n th ow where l: "l = LoggerLife sn r n th ow" by (cases l)
  have facts: "\<not> r" "ow \<in> {Notifying, Joining}" "th \<noteq> NoThread" "th \<noteq> Born" using assms l by (auto simp: life_ok_def)
  show "steps_left l \<le> 5" using facts l by (auto simp: steps_left_def split: log_thread.splits)
  show "steps_left l' < steps_left l \<and> owner l' \<in> {Notifying, Joining, Down}"
    if "life_step junk put e l = Some (Ret l')" "\<forall>s. e \<noteq> Work (Append s)"
  proof (cases e)
    case (Work w)
    then show ?thesis using that facts l by (cases w) (auto simp: steps_left_def bindo_eq_Ret split: if_splits)
  next
    case Begin
    then show ?thesis using that facts l by (cases th) auto
  next
    case While
    then show ?thesis using that facts l by (cases th) (auto simp: steps_left_def)
  qed (use that facts l in \<open>auto simp: steps_left_def split: if_splits\<close>)
  show "steps_left l' = steps_left l \<and> owner l' = owner l" if "life_step junk put (Work (Append s)) l = Some (Ret l')"
    using that l by (auto simp: steps_left_def bindo_eq_Ret)
  let ?e = "case th of AtWhile \<Rightarrow> While | Swapping \<Rightarrow> Work Swap | Writing \<Rightarrow> Work (Write []) | _ \<Rightarrow> Stop"
  have "(\<forall>s. ?e \<noteq> Work (Append s)) \<and> life_step junk put ?e l \<noteq> None" using facts l by (cases th) auto
  then show "\<exists>e. (\<forall>s. e \<noteq> Work (Append s)) \<and> life_step junk put e l \<noteq> None" by blast
qed

definition fresh_async :: "char list \<Rightarrow> 'f \<Rightarrow> 'f logger_life" where
  "fresh_async junk out = new_logger_life (Async (new_AsyncLogging junk) (new_backend junk) out)"

lemma fresh_async_inv:
  assumes "length junk = kLargeBuffer" and "log_ok kLargeBuffer l w" and "rollSize l = r"
  shows "lf.life_inv kLargeBuffer r (fresh_async junk (l, w))" and "front_text (new_AsyncLogging junk) = []"
    and "pending (new_AsyncLogging junk) (new_backend junk) = []"
proof -
  have "fb_ok kLargeBuffer (fb_bzero (new_FixedBuffer junk))" "cur (fb_bzero (new_FixedBuffer junk)) = 0"
    using assms(1) by (simp_all add: fb_ok_def fb_bzero_def new_FixedBuffer_def)
  then show "lf.life_inv kLargeBuffer r (fresh_async junk (l, w))" "front_text (new_AsyncLogging junk) = []"
      "pending (new_AsyncLogging junk) (new_backend junk) = []"
    using assms(2,3) by (simp_all add: fresh_async_def new_logger_life_def lf.life_inv_def life_ok_def front_ok_def new_AsyncLogging_def
        back_ok_def spare_ok_def new_backend_def front_text_def pending_def fb_toString_def)
qed


text \<open>A run in which the line is appended while the logging thread writes, after which the logger is stopped.\<close>

definition late_line :: "life_event list" where
  "late_line = [Start, Begin, Start, While, Work Swap, Work (Append ''lost''), Work (Write ''''), Stop, While, Stop, Stop]"

lemma late_line_run:
  assumes "foldo (async_step junk put) (works late_line) s = Ret s'"
  shows "life_run junk put late_line (new_logger_life s) = Some (Ret (LoggerLife s' False 0 Finished Down))"
proof -
  obtain s1 s2 where "async_step junk put Swap s = Ret s1" "async_step junk put (Append ''lost'') s1 = Ret s2" "async_step junk put (Write '''') s2 = Ret s'"
    using assms by (auto simp: late_line_def bindo_eq_Ret)
  then show ?thesis by (simp add: late_line_def new_logger_life_def)
qed


end
