(* ===== verification/Loggers.thy ===== *)
theory Loggers
  imports LogStreams TimeZones
begin

text \<open>
  \<^verbatim>\<open>muduo/base/Logging.{h,cc}\<close>: one log statement, from the constructor of \<^verbatim>\<open>Logger\<close> to its destructor.

  \<open>log_env\<close> holds the thread-local cache of the formatted second (\<^verbatim>\<open>t_lastSecond\<close>, \<^verbatim>\<open>t_time\<close>), the global time zone
  (\<^verbatim>\<open>g_logTimeZone\<close>, \<open>None\<close> when invalid), and the lines given to
  \<^verbatim>\<open>g_output\<close>; the process ends after the line of a FATAL statement. The reading of the
  clock, the printed thread id, the text of \<^verbatim>\<open>strerror_r\<close> and the unspecified contents of the stream's buffer are arguments. A
  statement's own items are those of \<^verbatim>\<open>LogStreams\<close>.
\<close>

section \<open>Levels and source files\<close>

datatype LogLevel = TRACE | DEBUG | INFO | WARN | ERROR | FATAL

definition initLogLevel :: "bool \<Rightarrow> bool \<Rightarrow> LogLevel" where
  "initLogLevel has_trace has_debug = (if has_trace then TRACE else if has_debug then DEBUG else INFO)"

fun LogLevelName :: "LogLevel \<Rightarrow> string" where
  "LogLevelName TRACE = ''TRACE ''"
| "LogLevelName DEBUG = ''DEBUG ''"
| "LogLevelName INFO = ''INFO  ''"
| "LogLevelName WARN = ''WARN  ''"
| "LogLevelName ERROR = ''ERROR ''"
| "LogLevelName FATAL = ''FATAL ''"

fun level_number :: "LogLevel \<Rightarrow> nat" where
  "level_number TRACE = 0"
| "level_number DEBUG = 1"
| "level_number INFO = 2"
| "level_number WARN = 3"
| "level_number ERROR = 4"
| "level_number FATAL = 5"

text \<open>\<^verbatim>\<open>strrchr\<close>: the offset of the last slash.\<close>

definition strrchr :: "string \<Rightarrow> char \<Rightarrow> nat option" where
  "strrchr s c = (if c \<in> set s then Some (length s - 1 - std_find (rev s) c) else None)"

definition SourceFile :: "string \<Rightarrow> string" where
  "SourceFile filename = (case strrchr filename (CHR ''/'') of None \<Rightarrow> filename | Some slash \<Rightarrow> drop (slash + 1) filename)"

section \<open>The pieces of a line\<close>

record log_env =
  t_lastSecond :: int
  t_time :: string
  g_logTimeZone :: "TimeZoneData option"
  outputs :: "string list"

record Logger =
  lg_time :: int
  lg_stream :: FixedBuffer
  lg_level :: LogLevel
  lg_line :: int
  lg_basename :: string

text \<open>\<^verbatim>\<open>T(str, len)\<close> asserts the length.\<close>

definition log_T :: "string \<Rightarrow> nat \<Rightarrow> FixedBuffer \<Rightarrow> FixedBuffer outcome" where
  "log_T str len b = require (length str = len) ''strlen(str) == len_'' (Ret (fb_append str b))"

definition second_text :: "tm \<Rightarrow> string" where
  "second_text t = pad CHR '' '' 4 (dec_int (tm_year t + 1900)) @ zero_pad 2 (tm_mon t + 1) @ zero_pad 2 (tm_mday t) @ '' ''
     @ zero_pad 2 (tm_hour t) @ '':'' @ zero_pad 2 (tm_min t) @ '':'' @ zero_pad 2 (tm_sec t)"

definition formatTime :: "log_env \<Rightarrow> Logger \<Rightarrow> (log_env \<times> Logger) outcome" where
  "formatTime e g =
     (let seconds = lg_time g sdiv kMicroSecondsPerSecond;
          microseconds = lg_time g smod kMicroSecondsPerSecond
      in bindo
           (if seconds \<noteq> t_lastSecond e
            then bindo (if g_logTimeZone e \<noteq> None then toLocalTime (g_logTimeZone e) seconds else Ret (gmtime_r seconds)) (\<lambda>tm_time.
                 let t = second_text tm_time in
                 require (length t = 17) ''len == 17'' (Ret (e\<lparr>t_lastSecond := seconds, t_time := snprintf 64 t\<rparr>)))
            else Ret e) (\<lambda>e.
         if g_logTimeZone e \<noteq> None
         then bindo (new_Fmt (''.'' @ zero_pad 6 microseconds @ '' '')) (\<lambda>us.
              require (length us = 8) ''us.length() == 8''
              (bindo (log_T (t_time e) 17 (lg_stream g)) (\<lambda>b. bindo (log_T us 8 b) (\<lambda>b. Ret (e, g\<lparr>lg_stream := b\<rparr>)))))
         else bindo (new_Fmt (''.'' @ zero_pad 6 microseconds @ ''Z '')) (\<lambda>us.
              require (length us = 9) ''us.length() == 9''
              (bindo (log_T (t_time e) 17 (lg_stream g)) (\<lambda>b. bindo (log_T us 9 b) (\<lambda>b. Ret (e, g\<lparr>lg_stream := b\<rparr>)))))))"

text \<open>\<open>tid\<close> is the text and length kept by \<^verbatim>\<open>CurrentThread\<close>; \<open>err\<close> the saved errno and its message.\<close>

definition new_Impl :: "char list \<Rightarrow> int \<Rightarrow> string \<times> nat \<Rightarrow> LogLevel \<Rightarrow> int \<times> string \<Rightarrow> string \<Rightarrow> int \<Rightarrow> log_env \<Rightarrow> (log_env \<times> Logger) outcome" where
  "new_Impl junk now tid level err file line e =
     bindo (formatTime e \<lparr>lg_time = now, lg_stream = new_FixedBuffer junk, lg_level = level, lg_line = line, lg_basename = file\<rparr>) (\<lambda>(e, g).
     bindo (log_T (fst tid) (snd tid) (lg_stream g)) (\<lambda>b.
     bindo (log_T (LogLevelName level) 6 b) (\<lambda>b.
     bindo (if fst err \<noteq> 0
            then foldo log_put [LogCString (Some (snd err)), LogCString (Some '' (errno=''), LogInteger (fst err), LogCString (Some '') '')] b
            else Ret b) (\<lambda>b.
     Ret (e, g\<lparr>lg_stream := b\<rparr>)))))"

definition finish :: "Logger \<Rightarrow> Logger outcome" where
  "finish g =
     bindo (foldo log_put [LogCString (Some '' - ''), LogString (lg_basename g), LogChar CHR '':'', LogInteger (lg_line g), LogChar CHR 0x0A] (lg_stream g))
       (\<lambda>b. Ret (g\<lparr>lg_stream := b\<rparr>))"

text \<open>The constructor for TRACE and DEBUG statements also logs the function's name.\<close>

definition new_Logger :: "char list \<Rightarrow> int \<Rightarrow> string \<times> nat \<Rightarrow> LogLevel \<Rightarrow> int \<times> string \<Rightarrow> string option \<Rightarrow> string \<Rightarrow> int \<Rightarrow> log_env \<Rightarrow> (log_env \<times> Logger) outcome" where
  "new_Logger junk now tid level err func file line e =
     bindo (new_Impl junk now tid level err (SourceFile file) line e) (\<lambda>(e, g).
     case func of
       None \<Rightarrow> Ret (e, g)
     | Some f \<Rightarrow> bindo (foldo log_put [LogCString (Some f), LogChar CHR '' ''] (lg_stream g)) (\<lambda>b. Ret (e, g\<lparr>lg_stream := b\<rparr>)))"

definition delete_Logger :: "log_env \<Rightarrow> Logger \<Rightarrow> log_env outcome" where
  "delete_Logger e g =
     bindo (finish g) (\<lambda>g.
     let e = e\<lparr>outputs := outputs e @ [fb_toString (lg_stream g)]\<rparr>
     in if lg_level g = FATAL then Abort (Fatal (fb_toString (lg_stream g))) else Ret e)"

text \<open>A statement \<^verbatim>\<open>LOG_X << a << b\<close>: INFO and below are skipped when the global level is higher; only TRACE and DEBUG log
  the function.\<close>

definition log_statement :: "LogLevel \<Rightarrow> char list \<Rightarrow> int \<Rightarrow> string \<times> nat \<Rightarrow> LogLevel \<Rightarrow> int \<times> string \<Rightarrow> string \<Rightarrow> string \<Rightarrow> int \<Rightarrow> log_item list \<Rightarrow> log_env \<Rightarrow> log_env outcome" where
  "log_statement global junk now tid level err func file line items e =
     (if level_number level \<le> 2 \<and> level_number global > level_number level then Ret e
      else bindo (new_Logger junk now tid level err (if level_number level \<le> 1 then Some func else None) file line e) (\<lambda>(e, g).
           bindo (foldo log_put items (lg_stream g)) (\<lambda>b. delete_Logger e (g\<lparr>lg_stream := b\<rparr>))))"

section \<open>The line as a sequence of items\<close>

definition zone_time :: "TimeZoneData option \<Rightarrow> int \<Rightarrow> tm outcome" where
  "zone_time z s = (if z \<noteq> None then toLocalTime z s else Ret (gmtime_r s))"

definition micros_text :: "TimeZoneData option \<Rightarrow> int \<Rightarrow> string" where
  "micros_text z us = ''.'' @ zero_pad 6 us @ (if z \<noteq> None then '' '' else ''Z '')"

definition line_items :: "TimeZoneData option \<Rightarrow> tm \<Rightarrow> int \<Rightarrow> string \<Rightarrow> LogLevel \<Rightarrow> int \<times> string \<Rightarrow> string \<Rightarrow> string \<Rightarrow> int \<Rightarrow> log_item list \<Rightarrow> log_item list" where
  "line_items z t now tid level err func file line items =
     [LogString (second_text t), LogString (micros_text z (now smod kMicroSecondsPerSecond)), LogString tid, LogString (LogLevelName level)]
     @ (if fst err \<noteq> 0 then [LogCString (Some (snd err)), LogCString (Some '' (errno=''), LogInteger (fst err), LogCString (Some '') '')] else [])
     @ (if level_number level \<le> 1 then [LogCString (Some func), LogChar CHR '' ''] else [])
     @ items
     @ [LogCString (Some '' - ''), LogString (SourceFile file), LogChar CHR '':'', LogInteger line, LogChar CHR 0x0A]"

text \<open>The cached text is that of the cached second.\<close>

definition cache_ok :: "log_env \<Rightarrow> bool" where
  "cache_ok e \<longleftrightarrow> (t_lastSecond e \<noteq> 0 \<longrightarrow> (\<exists>t. zone_time (g_logTimeZone e) (t_lastSecond e) = Ret t \<and> t_time e = second_text t))"

definition printable :: "tm \<Rightarrow> bool" where
  "printable t \<longleftrightarrow> tm_ok t \<and> 1000 \<le> tm_year t + 1900 \<and> tm_year t + 1900 \<le> 9999"

lemma length_pad: "length s \<le> w \<Longrightarrow> length (pad c w s) = w"
  by (simp add: pad_def)

lemma length_zero_pad:
  assumes "0 \<le> i" "i < 10 ^ w" "0 < w"
  shows "length (zero_pad w i) = w"
proof -
  have "nat i < 10 ^ w" using assms by (simp add: nat_less_iff)
  then show ?thesis using assms length_dec_nat [of "nat i" w] by (simp add: zero_pad_def length_pad)
qed

lemma length_second_text:
  assumes "printable t"
  shows "length (second_text t) = 17"
proof -
  have y: "0 \<le> tm_year t + 1900" "nat (tm_year t + 1900) < 10 ^ 4" using assms by (auto simp: printable_def nat_less_iff)
  then have "length (pad CHR '' '' 4 (dec_int (tm_year t + 1900))) = 4"
    using length_dec_nat [of "nat (tm_year t + 1900)" 4] by (simp add: dec_int_def length_pad)
  moreover have "tm_mday t \<le> 31"
  proof -
    have "month_days y m \<le> 31" for y m by (simp add: month_days_def)
    then show ?thesis using assms by (auto simp: printable_def tm_ok_def valid_date_def intro: order_trans)
  qed
  ultimately show ?thesis using assms
    by (simp add: second_text_def length_zero_pad printable_def tm_ok_def valid_date_def)
qed

lemma length_micros_text: "0 \<le> us \<Longrightarrow> us < 1000000 \<Longrightarrow> length (micros_text z us) = (if z \<noteq> None then 8 else 9)"
  by (simp add: micros_text_def length_zero_pad)

lemma log_T_item: "length s = n \<Longrightarrow> log_T s n b = log_put (LogString s) b"
  by (simp add: log_T_def log_string_def)

lemma formatTime_items:
  assumes e: "cache_ok e" and s: "0 < lg_time g sdiv kMicroSecondsPerSecond"
    and t: "zone_time (g_logTimeZone e) (lg_time g sdiv kMicroSecondsPerSecond) = Ret t" "printable t"
  shows "\<exists>e'. cache_ok e' \<and> outputs e' = outputs e \<and> g_logTimeZone e' = g_logTimeZone e \<and>
    formatTime e g = bindo (foldo log_put [LogString (second_text t),
      LogString (micros_text (g_logTimeZone e) (lg_time g smod kMicroSecondsPerSecond))] (lg_stream g)) (\<lambda>b. Ret (e', g\<lparr>lg_stream := b\<rparr>))"
proof -
  let ?s = "lg_time g sdiv kMicroSecondsPerSecond" and ?u = "lg_time g smod kMicroSecondsPerSecond" and ?z = "g_logTimeZone e"
  define e' where "e' = (if ?s \<noteq> t_lastSecond e then e\<lparr>t_lastSecond := ?s, t_time := second_text t\<rparr> else e)"
  have len: "length (second_text t) = 17" by (rule length_second_text [OF t(2)])
  then have sn: "snprintf 64 (second_text t) = second_text t" by (simp add: snprintf_fits)
  have e': "t_time e' = second_text t" "g_logTimeZone e' = ?z" "outputs e' = outputs e" "cache_ok e'"
    using e s t(1) by (auto simp: e'_def cache_ok_def)
  have "\<not> lg_time g < 0"
  proof
    assume "lg_time g < 0"
    then have "?s \<le> 0" by (simp add: signed_divide_int_def kMicroSecondsPerSecond_def sgn_if)
    then show False using s by simp
  qed
  then have u: "0 \<le> ?u" "?u < 1000000" by (simp_all add: smod_nonneg kMicroSecondsPerSecond_def)
  have c: "(if ?s \<noteq> t_lastSecond e
            then bindo (if ?z \<noteq> None then toLocalTime ?z ?s else Ret (gmtime_r ?s)) (\<lambda>tm_time.
                 let t = second_text tm_time in
                 require (length t = 17) ''len == 17'' (Ret (e\<lparr>t_lastSecond := ?s, t_time := snprintf 64 t\<rparr>)))
            else Ret e) = Ret e'"
    using t(1) len sn by (simp add: e'_def zone_time_def)
  note lz = length_zero_pad [OF u(1), of 6]
  have "formatTime e g = bindo (foldo log_put [LogString (second_text t), LogString (micros_text ?z ?u)] (lg_stream g))
      (\<lambda>b. Ret (e', g\<lparr>lg_stream := b\<rparr>))"
    unfolding formatTime_def Let_def c [unfolded Let_def] bindo.simps
    using e'(1,2) u lz len by (simp add: new_Fmt_def snprintf_def log_T_def log_string_def micros_text_def)
  then show ?thesis using e' by blast
qed

text \<open>A statement puts exactly the items of its line into a fresh stream, and hands the text over.\<close>

lemma log_statement_items:
  assumes e: "cache_ok e" and s: "0 < now sdiv kMicroSecondsPerSecond"
    and t: "zone_time (g_logTimeZone e) (now sdiv kMicroSecondsPerSecond) = Ret t" "printable t"
    and tid: "length (fst tid) = snd tid" and enabled: "\<not> (level_number level \<le> 2 \<and> level_number global > level_number level)"
    and run: "foldo log_put (line_items (g_logTimeZone e) t now (fst tid) level err func file line items) (new_FixedBuffer junk) = Ret b"
  shows "\<exists>e'. cache_ok e' \<and> outputs e' = outputs e @ [fb_toString b] \<and>
    log_statement global junk now tid level err func file line items e =
      (if level = FATAL then Abort (Fatal (fb_toString b)) else Ret e')"
proof -
  let ?g = "\<lparr>lg_time = now, lg_stream = new_FixedBuffer junk, lg_level = level, lg_line = line, lg_basename = SourceFile file\<rparr>"
  obtain e1 where e1: "cache_ok e1" "outputs e1 = outputs e" and
    f: "formatTime e ?g = bindo (foldo log_put [LogString (second_text t),
      LogString (micros_text (g_logTimeZone e) (now smod kMicroSecondsPerSecond))] (new_FixedBuffer junk)) (\<lambda>b. Ret (e1, ?g\<lparr>lg_stream := b\<rparr>))"
    using formatTime_items [OF e, of ?g t] s t by auto
  have nm: "length (LogLevelName level) = 6" by (cases level) simp_all
  have "cache_ok (e1\<lparr>outputs := x\<rparr>)" for x using e1(1) by (simp add: cache_ok_def)
  moreover have "log_statement global junk now tid level err func file line items e =
      (if level = FATAL then Abort (Fatal (fb_toString b)) else Ret (e1\<lparr>outputs := outputs e @ [fb_toString b]\<rparr>))"
    unfolding log_statement_def if_not_P [OF enabled] new_Logger_def new_Impl_def f
    using run tid nm e1(2)
    by (auto simp: line_items_def foldo_append bindo_eq_Ret bindo_assoc log_T_item finish_def delete_Logger_def Let_def)
  ultimately show ?thesis by (intro exI [of _ "e1\<lparr>outputs := outputs e @ [fb_toString b]\<rparr>"]) simp
qed

lemma SourceFile_basename: "CHR ''/'' \<notin> set base \<Longrightarrow> SourceFile (dir @ CHR ''/'' # base) = base"
  using std_find_append [of "CHR ''/''" "rev base" "rev dir"] by (simp add: SourceFile_def strrchr_def)

definition log_line :: "TimeZoneData option \<Rightarrow> tm \<Rightarrow> int \<Rightarrow> string \<Rightarrow> LogLevel \<Rightarrow> int \<times> string \<Rightarrow> string \<Rightarrow> string \<Rightarrow> int \<Rightarrow> log_item list \<Rightarrow> string" where
  "log_line z t now tid level err func file line items =
     second_text t @ micros_text z (now smod kMicroSecondsPerSecond) @ tid @ LogLevelName level
     @ (if fst err \<noteq> 0 then snd err @ '' (errno='' @ dec_int (fst err) @ '') '' else [])
     @ (if level_number level \<le> 1 then func @ '' '' else [])
     @ concat (map item_text items)
     @ '' - '' @ SourceFile file @ '':'' @ dec_int line @ [CHR 0x0A]"

lemma line_items_text: "concat (map item_text (line_items z t now tid level err func file line items)) = log_line z t now tid level err func file line items"
  by (simp add: line_items_def log_line_def)

text \<open>C36: Logger: a log statement that is enabled produces one line: the time stamp to the microsecond, in UTC or in the
  zone set for logging, the thread id, the level, the error if one is reported, the function for
  TRACE and DEBUG, the logged items, and the base name of the file with the line number. No assertion about
  lengths fails, the text cached per second is always that of the second shown, a line that fits into
  the buffer is handed over complete and exactly once, FATAL ends the process after it, and
  a statement below the global level produces nothing.\<close>

theorem logger_line:
  assumes "cache_ok e" and "0 < now sdiv kMicroSecondsPerSecond"
    and "zone_time (g_logTimeZone e) (now sdiv kMicroSecondsPerSecond) = Ret t" and "printable t"
    and "length (fst tid) = snd tid" and "length junk = kSmallBuffer" and "list_all item_ok items"
    and "- (2 ^ 63) \<le> line \<and> line < 2 ^ 64" and "- (2 ^ 63) \<le> fst err \<and> fst err < 2 ^ 64"
    and "length (log_line (g_logTimeZone e) t now (fst tid) level err func file line items) + kMaxNumericSize \<le> kSmallBuffer"
  shows "\<exists>e'. cache_ok e' \<and> outputs e' = outputs e @ [log_line (g_logTimeZone e) t now (fst tid) level err func file line items] \<and>
    log_statement global junk now tid level err func file line items e =
      (if level_number level \<le> 2 \<and> level_number global > level_number level then Ret e
       else if level = FATAL then Abort (Fatal (log_line (g_logTimeZone e) t now (fst tid) level err func file line items))
       else Ret e')"
proof -
  let ?its = "line_items (g_logTimeZone e) t now (fst tid) level err func file line items"
  let ?text = "log_line (g_logTimeZone e) t now (fst tid) level err func file line items"
  have "list_all item_ok ?its" using assms(7,8,9) by (simp add: line_items_def)
  moreover have "fb_ok kSmallBuffer (new_FixedBuffer junk)" using assms(6) by (simp add: fb_ok_def new_FixedBuffer_def)
  ultimately obtain b where b: "foldo log_put ?its (new_FixedBuffer junk) = Ret b" "fb_toString b = ?text"
    using log_puts_text [of kSmallBuffer "new_FixedBuffer junk" ?its] assms(10)
    by (auto simp: line_items_text fb_toString_def new_FixedBuffer_def)
  have c: "cache_ok (e\<lparr>outputs := x\<rparr>)" for x using assms(1) by (simp add: cache_ok_def)
  show ?thesis
  proof (cases "level_number level \<le> 2 \<and> level_number global > level_number level")
    case True
    then show ?thesis using c
      by (intro exI [of _ "e\<lparr>outputs := outputs e @ [?text]\<rparr>"]) (simp add: log_statement_def)
  next
    case False
    from log_statement_items [OF assms(1-5) False b(1)] show ?thesis unfolding b(2) if_not_P [OF False] .
  qed
qed

theorem logger_line_witness:
  "\<exists>e'. log_statement INFO (replicate 4000 CHR 0x00) 946684800000007 (''   42 '', 6) WARN (0, '''') ''main'' ''src/a.cc'' 12 [LogString ''hi '', LogInteger (- 3)]
       \<lparr>t_lastSecond = 0, t_time = '''', g_logTimeZone = None, outputs = []\<rparr> = Ret e'
     \<and> outputs e' = [''20000101 00:00:00.000007Z    42 WARN  hi -3 - a.cc:12'' @ [CHR 0x0A]]"
proof -
  let ?e = "\<lparr>t_lastSecond = 0, t_time = '''', g_logTimeZone = None, outputs = []\<rparr>" and ?its = "[LogString ''hi '', LogInteger (- 3)]"
  have s: "946684800000007 sdiv kMicroSecondsPerSecond = 946684800" by (simp add: sdiv_nonneg kMicroSecondsPerSecond_def)
  have p: "printable (gmtime_r 946684800)" by code_simp
  have l: "log_line None (gmtime_r 946684800) 946684800000007 ''   42 '' WARN (0, '''') ''main'' ''src/a.cc'' 12 ?its =
    ''20000101 00:00:00.000007Z    42 WARN  hi -3 - a.cc:12'' @ [CHR 0x0A]" by code_simp
  from logger_line [of ?e 946684800000007 "gmtime_r 946684800" "(''   42 '', 6)" "replicate 4000 CHR 0x00" ?its 12 "(0, '''')" WARN "''main''" "''src/a.cc''" INFO]
  show ?thesis by (auto simp: s p l cache_ok_def zone_time_def kSmallBuffer_def kMaxNumericSize_def)
qed

section \<open>Globals and checks\<close>

definition setTimeZone :: "TimeZoneData option \<Rightarrow> log_env \<Rightarrow> log_env" where
  "setTimeZone tz e = e\<lparr>g_logTimeZone := tz\<rparr>"

text \<open>The cached second is not reset: until the next second, statements of a thread that has logged before show the time of the old zone.\<close>

lemma setTimeZone_stale:
  assumes "lg_time g sdiv kMicroSecondsPerSecond = t_lastSecond e" and "formatTime (setTimeZone tz e) g = Ret (e', g')"
  shows "t_time e' = t_time e \<and> g_logTimeZone e' = tz"
  using assms by (auto simp: formatTime_def setTimeZone_def Let_def bindo_eq_Ret require_eq_Ret split: if_splits)

lemma setTimeZone_next_second:
  assumes "lg_time g sdiv kMicroSecondsPerSecond \<noteq> t_lastSecond e" and "formatTime (setTimeZone tz e) g = Ret (e', g')"
  shows "\<exists>t. zone_time tz (lg_time g sdiv kMicroSecondsPerSecond) = Ret t \<and> t_time e' = second_text t"
  using assms by (auto simp: formatTime_def setTimeZone_def zone_time_def Let_def bindo_eq_Ret require_eq_Ret snprintf_def split: if_splits)

text \<open>\<^verbatim>\<open>CheckNotNull\<close>: a null pointer is logged as fatal.\<close>

definition CheckNotNull :: "LogLevel \<Rightarrow> char list \<Rightarrow> int \<Rightarrow> string \<times> nat \<Rightarrow> string \<Rightarrow> int \<Rightarrow> string \<Rightarrow> 'p option \<Rightarrow> log_env \<Rightarrow> ('p option \<times> log_env) outcome" where
  "CheckNotNull global junk now tid file line names ptr e =
     bindo (if ptr = None then log_statement global junk now tid FATAL (0, '''') '''' file line [LogCString (Some names)] e else Ret e) (\<lambda>e. Ret (ptr, e))"

lemma formatTime_level: "formatTime e g = Ret (e', g') \<Longrightarrow> lg_level g' = lg_level g"
  by (auto simp: formatTime_def Let_def bindo_eq_Ret require_eq_Ret split: if_splits)

lemma new_Logger_level: "new_Logger junk now tid level err func file line e = Ret (e', g) \<Longrightarrow> lg_level g = level"
  by (auto simp: new_Logger_def new_Impl_def bindo_eq_Ret dest!: formatTime_level split: option.splits)

lemma fatal_never_returns: "log_statement global junk now tid FATAL err func file line items e \<noteq> Ret e'"
  by (auto simp: log_statement_def bindo_eq_Ret delete_Logger_def finish_def Let_def dest!: new_Logger_level)

lemma CheckNotNull_exact: "CheckNotNull global junk now tid file line names ptr e = Ret (p, e') \<longleftrightarrow> ptr \<noteq> None \<and> p = ptr \<and> e' = e"
  by (auto simp: CheckNotNull_def bindo_eq_Ret fatal_never_returns)

end
