(* ===== verification/Monitors.thy ===== *)
theory Monitors
  imports Prelude "HOL-Library.Multiset"
begin

text \<open>
  Operations under a mutex with condition variables (\<^verbatim>\<open>muduo/base/Mutex.h\<close>, \<^verbatim>\<open>Condition.h\<close>), for the classes
  whose every operation is one \<^verbatim>\<open>MutexGuard\<close> block.

  An operation is a function from the protected state to an \<open>attempt\<close>: either the condition of its
  \<^verbatim>\<open>while (...) cond.wait();\<close> loop holds and it blocks on \<open>cond\<close>, or it completes with a new state, a result and the
  notifications it made (\<open>False\<close> for \<^verbatim>\<open>notify\<close>, \<open>True\<close> for \<^verbatim>\<open>notifyAll\<close>). Attempts are atomic, since
  the mutex is held; a thread that was notified, or woke up spuriously, competes for the mutex again and repeats its
  attempt. Which waiting thread a \<^verbatim>\<open>notify\<close> wakes, and the order in which threads get the mutex, are arbitrary.
  Threads are represented by the calls they are in.
\<close>

datatype ('s, 'c, 'r) attempt = Block 'c | Done 's 'r "('c \<times> bool) list"

record ('s, 'c, 'o, 'r) monitor =
  protected :: 's
  ready :: "'o multiset"
  waiting :: "('c \<times> 'o) multiset"
  history :: "('o \<times> 'r) list"

definition new_monitor :: "'s \<Rightarrow> ('s, 'c, 'o, 'r) monitor" where
  "new_monitor s = \<lparr>protected = s, ready = {#}, waiting = {#}, history = []\<rparr>"

text \<open>The calls that wait on \<open>c\<close>.\<close>

definition waiters :: "'c \<Rightarrow> ('c \<times> 'o) multiset \<Rightarrow> 'o multiset" where
  "waiters c w = image_mset snd {#x \<in># w. fst x = c#}"

inductive wake :: "('c \<times> bool) list \<Rightarrow> 'o multiset \<times> ('c \<times> 'o) multiset \<Rightarrow> 'o multiset \<times> ('c \<times> 'o) multiset \<Rightarrow> bool" where
  wake_done: "wake [] s s"
| wake_nobody: "waiters c w = {#} \<Longrightarrow> wake ns (r, w) s \<Longrightarrow> wake ((c, b) # ns) (r, w) s"
| wake_one: "(c, p) \<in># w \<Longrightarrow> wake ns (add_mset p r, w - {#(c, p)#}) s \<Longrightarrow> wake ((c, False) # ns) (r, w) s"
| wake_all: "wake ns (r + waiters c w, {#x \<in># w. fst x \<noteq> c#}) s \<Longrightarrow> wake ((c, True) # ns) (r, w) s"

inductive mstep :: "('o \<Rightarrow> 's \<Rightarrow> ('s, 'c, 'r) attempt outcome) \<Rightarrow> ('s, 'c, 'o, 'r) monitor \<Rightarrow> ('s, 'c, 'o, 'r) monitor \<Rightarrow> bool"
  for att where
  call: "mstep att m (m\<lparr>ready := add_mset p (ready m)\<rparr>)"
| spurious: "(c, p) \<in># waiting m \<Longrightarrow> mstep att m (m\<lparr>ready := add_mset p (ready m), waiting := waiting m - {#(c, p)#}\<rparr>)"
| block: "p \<in># ready m \<Longrightarrow> att p (protected m) = Ret (Block c) \<Longrightarrow>
    mstep att m (m\<lparr>ready := ready m - {#p#}, waiting := add_mset (c, p) (waiting m)\<rparr>)"
| finish: "p \<in># ready m \<Longrightarrow> att p (protected m) = Ret (Done s x ns) \<Longrightarrow> wake ns (ready m - {#p#}, waiting m) (r, w) \<Longrightarrow>
    mstep att m \<lparr>protected = s, ready = r, waiting = w, history = history m @ [(p, x)]\<rparr>"

inductive_cases wake_NilE: "wake [] s s'"
inductive_cases wake_ConsE: "wake (n # ns) s s'"

inductive_simps wake_Nil [simp]: "wake [] s s'"

inductive mreach :: "('o \<Rightarrow> 's \<Rightarrow> ('s, 'c, 'r) attempt outcome) \<Rightarrow> 's \<Rightarrow> ('s, 'c, 'o, 'r) monitor \<Rightarrow> bool"
  for att s0 where
  start: "mreach att s0 (new_monitor s0)"
| step: "mreach att s0 m \<Longrightarrow> mstep att m m' \<Longrightarrow> mreach att s0 m'"

lemma waiters_add [simp]: "waiters c (add_mset (d, p) w) = (if d = c then add_mset p (waiters c w) else waiters c w)"
  by (simp add: waiters_def)

lemma waiters_empty [simp]: "waiters c {#} = {#}"
  by (simp add: waiters_def)

lemma waiters_diff: "(d, p) \<in># w \<Longrightarrow> waiters c (w - {#(d, p)#}) = (if d = c then waiters c w - {#p#} else waiters c w)"
  by (metis add_mset_remove_trivial insert_DiffM waiters_add)

lemma in_waiters: "p \<in># waiters c w \<longleftrightarrow> (c, p) \<in># w"
  by (force simp: waiters_def)

lemma waiters_filter: "waiters c {#x \<in># w. fst x \<noteq> d#} = (if c = d then {#} else waiters c w)"
  by (induction w) (auto simp: waiters_def)

text \<open>One notification: on another condition nothing changes, and on this one a waiter is woken if there is one.\<close>

lemma wake_notify:
  assumes "wake [(c, False)] (r, w) (r', w')"
  shows "waiters c w = {#} \<and> r' = r \<and> w' = w \<or>
    (\<exists>p. (c, p) \<in># w \<and> r' = add_mset p r \<and> w' = w - {#(c, p)#})"
  using assms by (auto elim!: wake_ConsE)

lemma wake_notifyAll:
  assumes "wake ((c, True) # ns) (r, w) s"
  shows "wake ns (r + waiters c w, {#x \<in># w. fst x \<noteq> c#}) s"
  using assms
proof (cases rule: wake.cases)
  case wake_nobody
  then have "{#x \<in># w. fst x \<noteq> c#} = w" by (auto simp: waiters_def filter_mset_eq_conv)
  then show ?thesis using wake_nobody by simp
qed auto

text \<open>How many ready calls satisfy \<open>P\<close>.\<close>

definition cnt :: "('o \<Rightarrow> bool) \<Rightarrow> 'o multiset \<Rightarrow> nat" where
  "cnt P r = size {#p \<in># r. P p#}"

lemma cnt_simps [simp]:
  "cnt P {#} = 0"
  "cnt P (add_mset p r) = (if P p then Suc (cnt P r) else cnt P r)"
  "cnt P (r + r') = cnt P r + cnt P r'"
  by (simp_all add: cnt_def)

lemma cnt_diff: "p \<in># r \<Longrightarrow> cnt P (r - {#p#}) = (if P p then cnt P r - 1 else cnt P r)"
  by (metis cnt_simps(2) diff_Suc_1 insert_DiffM)

lemma cnt_pos: "p \<in># r \<Longrightarrow> P p \<Longrightarrow> 0 < cnt P r"
  by (metis cnt_simps(2) insert_DiffM zero_less_Suc)

text \<open>Threads that a condition can help: the discipline of a condition variable. While some call waits on \<open>c\<close>, at
  least as many calls that wait for the same thing are ready as the state could let through.\<close>

definition no_lost_signal :: "'c \<Rightarrow> ('o \<Rightarrow> bool) \<Rightarrow> nat \<Rightarrow> 'o multiset \<Rightarrow> ('c \<times> 'o) multiset \<Rightarrow> bool" where
  "no_lost_signal c P n r w \<longleftrightarrow> (waiters c w \<noteq> {#} \<longrightarrow> n \<le> cnt P r)"

text \<open>How the steps of a monitor keep the discipline.\<close>

lemma no_lost_signal_ready:
  "no_lost_signal c P n r w \<Longrightarrow> no_lost_signal c P n (add_mset p r) w"
  by (auto simp: no_lost_signal_def)

lemma no_lost_signal_spurious:
  "no_lost_signal c P n r w \<Longrightarrow> (d, p) \<in># w \<Longrightarrow> no_lost_signal c P n (add_mset p r) (w - {#(d, p)#})"
  by (auto simp: no_lost_signal_def waiters_diff split: if_splits)

text \<open>The state lets one more call through, and one waiter is notified.\<close>

lemma no_lost_signal_notify:
  assumes "no_lost_signal c P n r w" and "wake [(c, False)] (r, w) (r', w')" and "\<forall>p. (c, p) \<in># w \<longrightarrow> P p" and "n' \<le> Suc n"
  shows "no_lost_signal c P n' r' w'"
  using wake_notify [OF assms(2)] assms(1,3,4) by (auto simp: no_lost_signal_def waiters_diff)

text \<open>A notification of others only adds ready calls.\<close>

lemma no_lost_signal_other:
  assumes "no_lost_signal c P n r w" and "wake [(d, False)] (r, w) (r', w')" and "n' \<le> n" and "c \<noteq> d"
  shows "no_lost_signal c P n' r' w'"
  using wake_notify [OF assms(2)] assms(1,3,4) by (auto simp: no_lost_signal_def waiters_diff)

text \<open>A ready call that goes through, or blocks, leaves the ready ones.\<close>

lemma no_lost_signal_leave:
  "no_lost_signal c P n r w \<Longrightarrow> p \<in># r \<Longrightarrow> (P p \<Longrightarrow> n' \<le> n - 1) \<Longrightarrow> (\<not> P p \<Longrightarrow> n' \<le> n) \<Longrightarrow> no_lost_signal c P n' (r - {#p#}) w"
  using cnt_pos [of p r P] by (fastforce simp: no_lost_signal_def cnt_diff)

lemma no_lost_signal_block:
  "no_lost_signal c P n r w \<Longrightarrow> p \<in># r \<Longrightarrow> (P p \<or> c = d \<Longrightarrow> n = 0) \<Longrightarrow> no_lost_signal c P n (r - {#p#}) (add_mset (d, p) w)"
  by (cases "n = 0") (auto simp: no_lost_signal_def cnt_diff)

lemma no_lost_signal_zero [simp]: "no_lost_signal c P 0 r w"
  by (simp add: no_lost_signal_def)

lemma waiting_after_wake: "wake ns (r, w) (r', w') \<Longrightarrow> w' \<subseteq># w"
proof (induction ns "(r, w)" "(r', w')" arbitrary: r w rule: wake.induct)
  case (wake_one c p w ns r)
  then show ?case by (meson diff_subset_eq_self subset_mset.order_trans)
next
  case (wake_all ns r w c)
  then show ?case by (meson multiset_filter_subset subset_mset.order_trans)
qed auto

end
