(* ===== verification/Queues.thy ===== *)
theory Queues
  imports Monitors
begin

text \<open>
  The classes built on one mutex: \<^verbatim>\<open>muduo/base/BlockingQueue.h\<close>, \<^verbatim>\<open>BoundedBlockingQueue.h\<close>,
  \<^verbatim>\<open>CountDownLatch.{h,cc}\<close> and \<^verbatim>\<open>ThreadPool.{h,cc}\<close>, as operations of a monitor.

  \<^verbatim>\<open>std::deque\<close> and \<^verbatim>\<open>boost::circular_buffer\<close> are lists, the latter with a capacity. Tasks are values; a task that
  throws ends the process, as \<^verbatim>\<open>runInThread\<close> catches everything and aborts.
\<close>

section \<open>Contents of a monitor\<close>

text \<open>Operations that add at one end and remove at the other.\<close>

locale fifo_monitor =
  fixes att :: "'o \<Rightarrow> 's \<Rightarrow> ('s, 'c, 'r) attempt outcome"
    and contents :: "'s \<Rightarrow> 'a list"
    and sent :: "'o \<times> 'r \<Rightarrow> 'a list"
    and received :: "'o \<times> 'r \<Rightarrow> 'a list"
  assumes attempt_fifo: "att p s = Ret (Done s' x ns) \<Longrightarrow> contents s @ sent (p, x) = received (p, x) @ contents s'"
begin

lemma fifo_order:
  assumes "mreach att s0 m"
  shows "contents s0 @ concat (map sent (history m)) = concat (map received (history m)) @ contents (protected m)"
  using assms
proof (induction rule: mreach.induct)
  case start
  then show ?case by (simp add: new_monitor_def)
next
  case (step m m')
  from step(2) step.IH attempt_fifo show ?case
    by (cases rule: mstep.cases) (simp_all, metis append.assoc)
qed

end

section \<open>BlockingQueue\<close>

datatype queue_cond = NotEmpty | NotFull

datatype 'a queue_call = Put 'a | Take | Drain | Size | Empty | Full | Capacity

datatype 'a queue_result = Void | Item 'a | Items "'a list" | Number nat | Flag bool

fun BlockingQueue :: "'a queue_call \<Rightarrow> 'a list \<Rightarrow> ('a list, queue_cond, 'a queue_result) attempt outcome" where
  "BlockingQueue (Put x) q = Ret (Done (q @ [x]) Void [(NotEmpty, False)])"
| "BlockingQueue Take q =
     (if q = [] then Ret (Block NotEmpty)
      else require (q \<noteq> []) ''!queue_.empty()'' (Ret (Done (tl q) (Item (hd q)) [])))"
| "BlockingQueue Drain q = Ret (Done [] (Items q) [])"
| "BlockingQueue Size q = Ret (Done q (Number (length q)) [])"
| "BlockingQueue _ q = Abort (Undefined ''no such operation'')"

section \<open>BoundedBlockingQueue\<close>

fun BoundedBlockingQueue :: "nat \<Rightarrow> 'a queue_call \<Rightarrow> 'a list \<Rightarrow> ('a list, queue_cond, 'a queue_result) attempt outcome" where
  "BoundedBlockingQueue maxSize (Put x) q =
     (if length q = maxSize then Ret (Block NotFull)
      else require (length q \<noteq> maxSize) ''!queue_.full()'' (Ret (Done (q @ [x]) Void [(NotEmpty, False)])))"
| "BoundedBlockingQueue maxSize Take q =
     (if q = [] then Ret (Block NotEmpty)
      else require (q \<noteq> []) ''!queue_.empty()'' (Ret (Done (tl q) (Item (hd q)) [(NotFull, False)])))"
| "BoundedBlockingQueue maxSize Empty q = Ret (Done q (Flag (q = [])) [])"
| "BoundedBlockingQueue maxSize Full q = Ret (Done q (Flag (length q = maxSize)) [])"
| "BoundedBlockingQueue maxSize Capacity q = Ret (Done q (Number maxSize) [])"
| "BoundedBlockingQueue maxSize Size q = Ret (Done q (Number (length q)) [])"
| "BoundedBlockingQueue maxSize Drain q = Abort (Undefined ''no such operation'')"

section \<open>CountDownLatch\<close>

datatype latch_call = LatchWait | CountDown | GetCount

fun CountDownLatch :: "latch_call \<Rightarrow> int \<Rightarrow> (int, unit, int) attempt outcome" where
  "CountDownLatch LatchWait n = (if n > 0 then Ret (Block ()) else Ret (Done n 0 []))"
| "CountDownLatch CountDown n = (let n = n - 1 in Ret (Done n 0 (if n = 0 then [((), True)] else [])))"
| "CountDownLatch GetCount n = Ret (Done n n [])"

section \<open>ThreadPool\<close>

record 'a ThreadPool_state =
  tp_queue :: "'a list"
  tp_running :: bool

datatype 'a pool_call = Run 'a | PoolTake | Stop | QueueSize

datatype 'a pool_result = PoolVoid | Refused | Task "'a option" | PoolSize nat

definition isFull :: "nat \<Rightarrow> 'a ThreadPool_state \<Rightarrow> bool" where
  "isFull maxQueueSize p \<longleftrightarrow> maxQueueSize > 0 \<and> length (tp_queue p) \<ge> maxQueueSize"

text \<open>The operations of a started pool. \<open>Refused\<close> marks the early return of \<^verbatim>\<open>run\<close> after \<^verbatim>\<open>stop\<close>.\<close>

fun ThreadPool :: "nat \<Rightarrow> 'a pool_call \<Rightarrow> 'a ThreadPool_state \<Rightarrow> ('a ThreadPool_state, queue_cond, 'a pool_result) attempt outcome" where
  "ThreadPool maxQueueSize (Run task) p =
     (if isFull maxQueueSize p \<and> tp_running p then Ret (Block NotFull)
      else if \<not> tp_running p then Ret (Done p Refused [])
      else require (\<not> isFull maxQueueSize p) ''!isFull()''
             (Ret (Done (p\<lparr>tp_queue := tp_queue p @ [task]\<rparr>) PoolVoid [(NotEmpty, False)])))"
| "ThreadPool maxQueueSize PoolTake p =
     (if tp_queue p = [] \<and> tp_running p then Ret (Block NotEmpty)
      else if tp_queue p \<noteq> []
           then Ret (Done (p\<lparr>tp_queue := tl (tp_queue p)\<rparr>) (Task (Some (hd (tp_queue p))))
                  (if maxQueueSize > 0 then [(NotFull, False)] else []))
           else Ret (Done p (Task None) []))"
| "ThreadPool maxQueueSize Stop p = Ret (Done (p\<lparr>tp_running := False\<rparr>) PoolVoid [(NotEmpty, True), (NotFull, True)])"
| "ThreadPool maxQueueSize QueueSize p = Ret (Done p (PoolSize (length (tp_queue p))) [])"

text \<open>\<^verbatim>\<open>start\<close> marks the pool running and returns the names of the threads it starts, and whether the caller itself
  runs the initialisation callback, which a pool without threads does.\<close>

definition ThreadPool_start :: "string \<Rightarrow> string list \<Rightarrow> nat \<Rightarrow> bool \<Rightarrow> 'a ThreadPool_state \<Rightarrow> (string list \<times> bool \<times> 'a ThreadPool_state) outcome" where
  "ThreadPool_start name threads numThreads hasInitCallback p =
     require (threads = []) ''threads_.empty()''
       (Ret (map (\<lambda>i. name @ snprintf 32 (dec_nat (i + 1))) [0..<numThreads], numThreads = 0 \<and> hasInitCallback, p\<lparr>tp_running := True\<rparr>))"

text \<open>The life of a worker: \<open>Top\<close> is the test of the loop, \<open>Taking\<close> the call of \<^verbatim>\<open>take\<close>, and an empty task is not run.\<close>

datatype 'a worker = Top | Taking | Executing 'a | Exited

fun runInThread :: "bool \<Rightarrow> 'a option \<Rightarrow> 'a worker \<Rightarrow> 'a worker" where
  "runInThread running taken Top = (if running then Taking else Exited)"
| "runInThread running taken Taking = (case taken of None \<Rightarrow> Top | Some task \<Rightarrow> Executing task)"
| "runInThread running taken (Executing task) = Top"
| "runInThread running taken Exited = Exited"

section \<open>First in, first out\<close>

fun queue_sent :: "'a queue_call \<times> 'a queue_result \<Rightarrow> 'a list" where
  "queue_sent (Put x, _) = [x]"
| "queue_sent _ = []"

fun queue_received :: "'a queue_call \<times> 'a queue_result \<Rightarrow> 'a list" where
  "queue_received (_, Item x) = [x]"
| "queue_received (_, Items xs) = xs"
| "queue_received _ = []"

fun pool_sent :: "'a pool_call \<times> 'a pool_result \<Rightarrow> 'a list" where
  "pool_sent (Run x, PoolVoid) = [x]"
| "pool_sent _ = []"

fun pool_received :: "'a pool_call \<times> 'a pool_result \<Rightarrow> 'a list" where
  "pool_received (_, Task (Some x)) = [x]"
| "pool_received _ = []"

interpretation bq: fifo_monitor BlockingQueue "\<lambda>q. q" queue_sent queue_received
proof
  fix p :: "'a queue_call" and s s' x ns
  assume "BlockingQueue p s = Ret (Done s' x ns)"
  then show "s @ queue_sent (p, x) = queue_received (p, x) @ s'" by (cases p) (auto split: if_splits)
qed

interpretation bbq: fifo_monitor "BoundedBlockingQueue maxSize" "\<lambda>q. q" queue_sent queue_received for maxSize
proof
  fix p :: "'a queue_call" and s s' x ns
  assume "BoundedBlockingQueue maxSize p s = Ret (Done s' x ns)"
  then show "s @ queue_sent (p, x) = queue_received (p, x) @ s'" by (cases p) (auto split: if_splits)
qed

interpretation tp: fifo_monitor "ThreadPool maxQueueSize" tp_queue pool_sent pool_received for maxQueueSize
proof
  fix p :: "'a pool_call" and s s' x ns
  assume "ThreadPool maxQueueSize p s = Ret (Done s' x ns)"
  then show "tp_queue s @ pool_sent (p, x) = pool_received (p, x) @ tp_queue s'"
    by (cases p) (auto simp: require_eq_Ret split: if_splits)
qed

section \<open>No lost wakeups\<close>

text \<open>Calls wait only on the condition they can be woken by.\<close>

definition waits_for :: "'c \<Rightarrow> ('o \<Rightarrow> bool) \<Rightarrow> ('c \<times> 'o) multiset \<Rightarrow> bool" where
  "waits_for c P w \<longleftrightarrow> (\<forall>p. (c, p) \<in># w \<longrightarrow> P p)"

lemma waits_for_mono: "waits_for c P w \<Longrightarrow> w' \<subseteq># w \<Longrightarrow> waits_for c P w'"
  by (auto simp: waits_for_def dest: mset_subset_eqD)

lemma waits_for_diff: "waits_for c P w \<Longrightarrow> waits_for c P (w - {#x#})"
  by (rule waits_for_mono) (auto intro: diff_subset_eq_self)

lemma waits_for_add [simp]: "waits_for c P (add_mset (d, p) w) \<longleftrightarrow> (c = d \<longrightarrow> P p) \<and> waits_for c P w"
  by (auto simp: waits_for_def)

text \<open>A queue of \<open>n\<close> items with calls that take (\<open>T\<close>) and calls that put (\<open>P\<close>): both conditions keep the discipline.\<close>

definition two_sided :: "('o \<Rightarrow> bool) \<Rightarrow> ('o \<Rightarrow> bool) \<Rightarrow> nat \<Rightarrow> nat \<Rightarrow> 'o multiset \<Rightarrow> (queue_cond \<times> 'o) multiset \<Rightarrow> bool" where
  "two_sided T P maxSize n r w \<longleftrightarrow> waits_for NotEmpty T w \<and> waits_for NotFull P w
     \<and> no_lost_signal NotEmpty T n r w \<and> no_lost_signal NotFull P (maxSize - n) r w"

lemma two_sided_call: "two_sided T P maxSize n r w \<Longrightarrow> two_sided T P maxSize n (add_mset p r) w"
  by (simp add: two_sided_def no_lost_signal_ready)

lemma two_sided_spurious: "two_sided T P maxSize n r w \<Longrightarrow> (c, p) \<in># w \<Longrightarrow> two_sided T P maxSize n (add_mset p r) (w - {#(c, p)#})"
  by (simp add: two_sided_def no_lost_signal_spurious waits_for_diff)

lemma two_sided_block:
  assumes "two_sided T P maxSize n r w" and "p \<in># r" and "c = NotFull \<and> P p \<and> \<not> T p \<and> maxSize \<le> n \<or> c = NotEmpty \<and> T p \<and> \<not> P p \<and> n = 0"
  shows "two_sided T P maxSize n (r - {#p#}) (add_mset (c, p) w)"
  using assms by (auto simp: two_sided_def intro!: no_lost_signal_block)

lemma two_sided_leave: "two_sided T P maxSize n r w \<Longrightarrow> p \<in># r \<Longrightarrow> \<not> T p \<Longrightarrow> \<not> P p \<Longrightarrow> two_sided T P maxSize n (r - {#p#}) w"
  by (auto simp: two_sided_def intro!: no_lost_signal_leave)

lemma two_sided_put:
  assumes ts: "two_sided T P maxSize n r w" and p: "p \<in># r" "P p" "\<not> T p" and wake: "wake [(NotEmpty, False)] (r - {#p#}, w) (r', w')"
  shows "two_sided T P maxSize (Suc n) r' w'"
proof -
  note O = ts [unfolded two_sided_def]
  have "no_lost_signal NotEmpty T n (r - {#p#}) w" using O p by (auto intro!: no_lost_signal_leave)
  then have "no_lost_signal NotEmpty T (Suc n) r' w'" using no_lost_signal_notify [OF _ wake] O by (simp add: waits_for_def)
  moreover have "no_lost_signal NotFull P (maxSize - Suc n) (r - {#p#}) w"
    using O p by (auto intro!: no_lost_signal_leave [of _ _ "maxSize - n"])
  then have "no_lost_signal NotFull P (maxSize - Suc n) r' w'" by (rule no_lost_signal_other [OF _ wake]) simp_all
  ultimately show ?thesis using O waits_for_mono [OF _ waiting_after_wake [OF wake]] by (simp add: two_sided_def)
qed

lemma two_sided_take:
  assumes ts: "two_sided T P maxSize (Suc n) r w" and p: "p \<in># r" "T p" "\<not> P p" and wake: "wake [(NotFull, False)] (r - {#p#}, w) (r', w')"
  shows "two_sided T P maxSize n r' w'"
proof -
  note O = ts [unfolded two_sided_def]
  have "no_lost_signal NotFull P (maxSize - Suc n) (r - {#p#}) w" using O p by (auto intro!: no_lost_signal_leave)
  then have "no_lost_signal NotFull P (maxSize - n) r' w'" using no_lost_signal_notify [OF _ wake] O by (simp add: waits_for_def)
  moreover have "no_lost_signal NotEmpty T n (r - {#p#}) w" using O p by (auto intro!: no_lost_signal_leave [of _ _ "Suc n"])
  then have "no_lost_signal NotEmpty T n r' w'" by (rule no_lost_signal_other [OF _ wake]) simp_all
  ultimately show ?thesis using O waits_for_mono [OF _ waiting_after_wake [OF wake]] by (simp add: two_sided_def)
qed

text \<open>Without a bound nobody waits for room.\<close>

lemma two_sided_take_unbounded:
  "two_sided T P 0 (Suc n) r w \<Longrightarrow> p \<in># r \<Longrightarrow> T p \<Longrightarrow> two_sided T P 0 n (r - {#p#}) w"
  by (auto simp: two_sided_def intro!: no_lost_signal_leave [of _ _ "Suc n"])

fun is_Put :: "'a queue_call \<Rightarrow> bool" where
  "is_Put (Put _) \<longleftrightarrow> True"
| "is_Put _ \<longleftrightarrow> False"

definition bounded_ok :: "nat \<Rightarrow> ('a list, queue_cond, 'a queue_call, 'a queue_result) monitor \<Rightarrow> bool" where
  "bounded_ok maxSize m \<longleftrightarrow> length (protected m) \<le> maxSize
     \<and> two_sided (\<lambda>p. p = Take) is_Put maxSize (length (protected m)) (ready m) (waiting m)"

lemma bounded_ok_step:
  assumes "mstep (BoundedBlockingQueue maxSize) m m'" and ok: "bounded_ok maxSize m"
  shows "bounded_ok maxSize m'"
  using assms(1)
proof (cases rule: mstep.cases)
  case (call p)
  then show ?thesis using ok by (simp add: bounded_ok_def two_sided_call)
next
  case (spurious c p)
  then show ?thesis using ok by (simp add: bounded_ok_def two_sided_spurious)
next
  case (block p c)
  have "c = NotFull \<and> is_Put p \<and> p \<noteq> Take \<and> maxSize \<le> length (protected m) \<or> c = NotEmpty \<and> p = Take \<and> \<not> is_Put p \<and> length (protected m) = 0"
    using block(3) by (cases p) (auto split: if_splits)
  then show ?thesis using ok block(1,2) by (simp add: bounded_ok_def two_sided_block)
next
  case (finish p s x ns r w)
  let ?q = "protected m"
  note O = ok [unfolded bounded_ok_def, THEN conjunct2]
  consider (put) y where "p = Put y" "s = ?q @ [y]" "ns = [(NotEmpty, False)]" "length ?q \<noteq> maxSize"
    | (take) y q where "p = Take" "?q = y # q" "s = q" "ns = [(NotFull, False)]"
    | (same) "\<not> is_Put p" "p \<noteq> Take" "s = ?q" "ns = []"
    using finish(3) by (cases p; cases ?q) (auto simp: require_eq_Ret split: if_splits)
  then show ?thesis
  proof cases
    case put
    with two_sided_put [OF O finish(2), of r w] finish ok show ?thesis by (simp add: bounded_ok_def)
  next
    case take
    then have "length ?q = Suc (length q)" by simp
    with take two_sided_take [OF O [unfolded this] finish(2), of r w] finish ok show ?thesis by (simp add: bounded_ok_def)
  next
    case same
    then show ?thesis using finish ok by (auto simp: bounded_ok_def two_sided_leave)
  qed
qed

lemma bounded_ok_reach: "mreach (BoundedBlockingQueue maxSize) [] m \<Longrightarrow> bounded_ok maxSize m"
proof (induction rule: mreach.induct)
  case start
  then show ?case by (simp add: bounded_ok_def two_sided_def new_monitor_def waits_for_def no_lost_signal_def)
qed (rule bounded_ok_step)

lemma cnt_exists: "0 < cnt P r \<Longrightarrow> \<exists>p\<in>#r. P p"
  by (induction r) (auto split: if_splits)

text \<open>A signal is lost when a call waits although the state would let it through and nobody is about to retry.\<close>

lemma no_lost_signal_progress:
  assumes "no_lost_signal c P n r w" and "waiters c w \<noteq> {#}" and "0 < n"
  shows "\<exists>p\<in>#r. P p"
  using assms cnt_exists by (fastforce simp: no_lost_signal_def)

section \<open>BlockingQueue and CountDownLatch\<close>

lemma blocking_queue_progress:
  assumes "mreach BlockingQueue [] m"
  shows "waits_for NotEmpty (\<lambda>p. p = Take) (waiting m) \<and> no_lost_signal NotEmpty (\<lambda>p. p = Take) (length (protected m)) (ready m) (waiting m)"
  using assms
proof (induction rule: mreach.induct)
  case start
  then show ?case by (simp add: new_monitor_def waits_for_def no_lost_signal_def)
next
  case (step m m')
  from step(2) show ?case
  proof (cases rule: mstep.cases)
    case (call p)
    then show ?thesis using step.IH by (simp add: no_lost_signal_ready)
  next
    case (spurious c p)
    then show ?thesis using step.IH by (simp add: no_lost_signal_spurious waits_for_diff)
  next
    case (block p c)
    then have "c = NotEmpty \<and> p = Take \<and> protected m = []" by (cases p) (auto simp: require_eq_Ret split: if_splits)
    then show ?thesis using step.IH block(1,2) by (auto intro!: no_lost_signal_block)
  next
    case (finish p s x ns r w)
    let ?q = "protected m" and ?r = "ready m - {#p#}"
    have w: "waits_for NotEmpty (\<lambda>p. p = Take) w"
      using waits_for_mono [OF _ waiting_after_wake [OF finish(4)]] step.IH by blast
    consider (put) y where "p = Put y" "s = ?q @ [y]" "ns = [(NotEmpty, False)]"
      | (other) "ns = []" "length s \<le> length ?q" "p = Take \<longrightarrow> length s = length ?q - 1"
      using finish(3) by (cases p) (auto simp: require_eq_Ret split: if_splits)
    then show ?thesis
    proof cases
      case put
      have "no_lost_signal NotEmpty (\<lambda>p. p = Take) (length ?q) ?r (waiting m)"
        using step.IH finish(2) put(1) by (auto intro!: no_lost_signal_leave)
      then show ?thesis using w finish(1) put(2) step.IH
          no_lost_signal_notify [OF _ finish(4) [unfolded put(3)], of "\<lambda>p. p = Take" "length ?q" "length s"]
        by (simp add: waits_for_def)
    next
      case other
      then have "r = ?r" "w = waiting m" using finish(4) by simp_all
      then show ?thesis using step.IH w finish(1,2) other by (auto intro!: no_lost_signal_leave [of _ _ "length ?q"])
    qed
  qed
qed

text \<open>Nobody waits for a latch that has reached zero.\<close>

lemma latch_releases:
  assumes "mreach CountDownLatch n m"
  shows "waiting m \<noteq> {#} \<longrightarrow> protected m > 0"
  using assms
proof (induction rule: mreach.induct)
  case start
  then show ?case by (simp add: new_monitor_def)
next
  case (step m m')
  from step(2) show ?case
  proof (cases rule: mstep.cases)
    case (finish p s x ns r w)
    show ?thesis
    proof (cases "p = CountDown \<and> s = 0")
      case True
      then have "ns = [((), True)]" using finish(3) by (auto simp: Let_def)
      then have "w = {#}" using wake_notifyAll [of "()" "[]" "ready m - {#p#}" "waiting m" "(r, w)"] finish(4) by simp
      then show ?thesis using finish(1) by simp
    next
      case False
      have "ns = []" "s = protected m \<or> s = protected m - 1 \<and> s \<noteq> 0"
        using finish(3) False by (cases p; auto simp: Let_def split: if_splits)+
      then show ?thesis using step.IH finish(1,4) by auto
    qed
  next
    case (block p c)
    then show ?thesis by (cases p) (auto simp: Let_def split: if_splits)
  qed (use step.IH in auto)
qed

section \<open>The thread pool\<close>

fun is_Run :: "'a pool_call \<Rightarrow> bool" where
  "is_Run (Run _) \<longleftrightarrow> True"
| "is_Run _ \<longleftrightarrow> False"

definition pool_ok :: "nat \<Rightarrow> ('a ThreadPool_state, queue_cond, 'a pool_call, 'a pool_result) monitor \<Rightarrow> bool" where
  "pool_ok maxSize m \<longleftrightarrow> (0 < maxSize \<longrightarrow> length (tp_queue (protected m)) \<le> maxSize)
     \<and> (\<not> tp_running (protected m) \<longrightarrow> waiting m = {#})
     \<and> two_sided (\<lambda>p. p = PoolTake) is_Run maxSize (length (tp_queue (protected m))) (ready m) (waiting m)"

lemma pool_finish_cases:
  assumes "ThreadPool maxSize p st = Ret (Done s x ns)"
  obtains (run) y where "p = Run y" "s = st\<lparr>tp_queue := tp_queue st @ [y]\<rparr>" "ns = [(NotEmpty, False)]" "tp_running st" "\<not> isFull maxSize st"
    | (take) y q where "p = PoolTake" "tp_queue st = y # q" "s = st\<lparr>tp_queue := q\<rparr>" "ns = (if maxSize > 0 then [(NotFull, False)] else [])"
    | (stop) "p = Stop" "s = st\<lparr>tp_running := False\<rparr>" "ns = [(NotEmpty, True), (NotFull, True)]"
    | (same) "p = QueueSize \<or> \<not> tp_running st" "s = st" "ns = []"
proof (cases p)
  case (Run y)
  then show ?thesis using assms run [of y] same by (auto simp: require_eq_Ret split: if_splits)
next
  case PoolTake
  then show ?thesis using assms take same by (cases "tp_queue st") (simp_all split: if_splits)
next
  case Stop
  then have "s = st\<lparr>tp_running := False\<rparr>" "ns = [(NotEmpty, True), (NotFull, True)]" using assms by simp_all
  with stop [OF Stop] show ?thesis by blast
next
  case QueueSize
  then have "s = st" "ns = []" using assms by simp_all
  with same QueueSize show ?thesis by blast
qed

text \<open>Notifying both conditions leaves nobody waiting.\<close>

lemma wake_everybody:
  assumes "wake [(NotEmpty, True), (NotFull, True)] (r, w) (r', w')"
  shows "w' = {#}"
proof -
  have "w' = {#x \<in># {#x \<in># w. fst x \<noteq> NotEmpty#}. fst x \<noteq> NotFull#}"
    using wake_notifyAll [OF assms] wake_notifyAll [of NotFull "[]"] by fastforce
  also have "\<dots> = {#}" by (induction w) (auto, metis queue_cond.exhaust)
  finally show ?thesis .
qed

lemma two_sided_nobody [simp]: "two_sided T P maxSize n r {#}"
  by (simp add: two_sided_def waits_for_def no_lost_signal_def)

lemma pool_ok_finish:
  assumes ok: "pool_ok maxSize m" and p: "p \<in># ready m" and att: "ThreadPool maxSize p (protected m) = Ret (Done s x ns)"
    and wake: "wake ns (ready m - {#p#}, waiting m) (r, w)"
  shows "pool_ok maxSize \<lparr>protected = s, ready = r, waiting = w, history = h\<rparr>"
proof -
  have O: "two_sided (\<lambda>p. p = PoolTake) is_Run maxSize (length (tp_queue (protected m))) (ready m) (waiting m)" and nobody: "waiting m = {#} \<longrightarrow> w = {#}"
    using ok waiting_after_wake [OF wake] by (auto simp: pool_ok_def)
  from att show ?thesis
  proof (cases rule: pool_finish_cases)
    case (run y)
    with two_sided_put [OF O p, of r w] wake ok show ?thesis by (auto simp: pool_ok_def isFull_def)
  next
    case (take y q)
    then have n: "length (tp_queue (protected m)) = Suc (length q)" by simp
    have "two_sided (\<lambda>p. p = PoolTake) is_Run maxSize (length q) r w"
    proof (cases "maxSize > 0")
      case True
      with two_sided_take [OF O [unfolded n] p, of r w] take wake show ?thesis by simp
    next
      case False
      with two_sided_take_unbounded [of "\<lambda>p. p = PoolTake" is_Run "length q" "ready m" "waiting m" p] O n p take wake show ?thesis by simp
    qed
    with take ok nobody show ?thesis by (auto simp: pool_ok_def)
  next
    case stop
    then have "w = {#}" using wake wake_everybody by blast
    with stop ok show ?thesis by (simp add: pool_ok_def)
  next
    case same
    then show ?thesis using ok wake p O by (auto simp: pool_ok_def two_sided_leave)
  qed
qed

lemma pool_ok_step:
  assumes "mstep (ThreadPool maxSize) m m'" and ok: "pool_ok maxSize m"
  shows "pool_ok maxSize m'"
  using assms(1)
proof (cases rule: mstep.cases)
  case (call p)
  then show ?thesis using ok by (simp add: pool_ok_def two_sided_call)
next
  case (spurious c p)
  then show ?thesis using ok by (auto simp: pool_ok_def two_sided_spurious)
next
  case (block p c)
  have "tp_running (protected m)" "c = NotFull \<and> is_Run p \<and> p \<noteq> PoolTake \<and> maxSize \<le> length (tp_queue (protected m))
      \<or> c = NotEmpty \<and> p = PoolTake \<and> \<not> is_Run p \<and> length (tp_queue (protected m)) = 0"
    using block(3) by (cases p; auto simp: require_eq_Ret isFull_def split: if_splits)+
  then show ?thesis using ok block(1,2) by (simp add: pool_ok_def two_sided_block)
next
  case (finish p s x ns r w)
  from pool_ok_finish [OF ok finish(2,3,4)] show ?thesis by (simp add: finish(1))
qed

definition started :: "'a ThreadPool_state" where
  "started = \<lparr>tp_queue = [], tp_running = True\<rparr>"

lemma pool_ok_reach: "mreach (ThreadPool maxSize) started m \<Longrightarrow> pool_ok maxSize m"
proof (induction rule: mreach.induct)
  case start
  then show ?case by (simp add: pool_ok_def new_monitor_def started_def)
qed (rule pool_ok_step)

text \<open>After \<^verbatim>\<open>stop\<close>, whatever \<^verbatim>\<open>take\<close> still returns, a worker is done after three transitions.\<close>

lemma worker_exits: "((runInThread False t1) \<circ> (runInThread False t2) \<circ> (runInThread False t3)) w = Exited"
  by (cases w) (auto split: option.splits)

lemma pool_thread_names:
  assumes "ThreadPool_start name [] n cb p = Ret (names, run_cb, p')" and "n < 10 ^ 31"
  shows "length names = n \<and> distinct names"
proof -
  have names: "names = map (\<lambda>i. name @ snprintf 32 (dec_nat (i + 1))) [0..<n]" using assms(1) by (simp add: ThreadPool_start_def)
  have "snprintf 32 (dec_nat (i + 1)) = dec_nat (i + 1)" if "i < n" for i
    using length_dec_nat [of "i + 1" 31] that assms(2) by (intro snprintf_fits) simp
  then have "inj_on (\<lambda>i. name @ snprintf 32 (dec_nat (i + 1))) (set [0..<n])" by (auto simp: inj_on_def dec_nat_inj)
  then show ?thesis unfolding names by (simp add: distinct_map)
qed

section \<open>Properties\<close>

text \<open>C14: BoundedBlockingQueue, in every state that any number of threads calling put and take can reach, with
  spurious wakeups and any scheduling: values come out exactly once and in the order they went in, the queue
  holds at most maxSize values, the assertions of put and take hold, and no wakeup is lost: when a taker
  waits although there is a value, or a putter although there is room, another one is ready to run.\<close>

theorem bounded_queue_correct:
  assumes "mreach (BoundedBlockingQueue maxSize) [] m"
  shows "concat (map queue_sent (history m)) = concat (map queue_received (history m)) @ protected m
    \<and> length (protected m) \<le> maxSize
    \<and> returns (BoundedBlockingQueue maxSize (Put v) (protected m)) \<and> returns (BoundedBlockingQueue maxSize Take (protected m))
    \<and> (waiters NotEmpty (waiting m) \<noteq> {#} \<and> protected m \<noteq> [] \<longrightarrow> Take \<in># ready m)
    \<and> (waiters NotFull (waiting m) \<noteq> {#} \<and> length (protected m) < maxSize \<longrightarrow> (\<exists>x. Put x \<in># ready m))"
proof -
  note O = bounded_ok_reach [OF assms, unfolded bounded_ok_def two_sided_def]
  have "\<exists>x. Put x \<in># ready m" if "p \<in># ready m" "is_Put p" for p using that by (cases p) auto
  then show ?thesis using O bbq.fifo_order [OF assms]
      no_lost_signal_progress [of NotEmpty "\<lambda>p. p = Take" "length (protected m)" "ready m" "waiting m"]
      no_lost_signal_progress [of NotFull is_Put "maxSize - length (protected m)" "ready m" "waiting m"]
    by auto
qed

text \<open>A taker that finds the queue empty waits, and is woken by the next put.\<close>

theorem bounded_queue_correct_witness:
  "\<exists>m. mreach (BoundedBlockingQueue 1) [] m \<and> protected m = [7 :: int] \<and> Take \<in># ready m"
proof -
  let ?att = "BoundedBlockingQueue 1 :: int queue_call \<Rightarrow> _"
  let ?m0 = "new_monitor [] :: (int list, queue_cond, int queue_call, int queue_result) monitor"
  let ?m1 = "?m0\<lparr>ready := {#Take#}\<rparr>" and ?m2 = "?m0\<lparr>waiting := {#(NotEmpty, Take)#}\<rparr>"
  let ?m3 = "?m2\<lparr>ready := {#Put 7#}\<rparr>" and ?m4 = "\<lparr>protected = [7], ready = {#Take#}, waiting = {#}, history = [(Put 7, Void)]\<rparr>"
  have "mstep ?att ?m0 ?m1" using mstep.call [of ?att ?m0 Take] by (simp add: new_monitor_def)
  moreover have "mstep ?att ?m1 ?m2" using mstep.block [of Take ?m1 ?att NotEmpty] by (simp add: new_monitor_def)
  moreover have "mstep ?att ?m2 ?m3" using mstep.call [of ?att ?m2 "Put 7"] by (simp add: new_monitor_def)
  moreover have "wake [(NotEmpty, False)] ({#}, {#(NotEmpty, Take)#}) ({#Take#}, {#} :: (queue_cond \<times> int queue_call) multiset)"
    by (rule wake.wake_one [where p = Take]) simp_all
  then have "mstep ?att ?m3 ?m4" using mstep.finish [of "Put 7" ?m3 ?att "[7]" Void "[(NotEmpty, False)]" "{#Take#}" "{#}"]
    by (simp add: new_monitor_def)
  ultimately have m: "mreach ?att [] ?m4" by (meson mreach.intros)
  then show ?thesis using bounded_queue_correct [OF m] by (intro exI [of _ ?m4]) simp
qed

text \<open>ThreadPool, in every state that threads calling run, take, stop and queueSize can reach: tasks are
  handed to the workers exactly once and in the order run accepted them, a bounded pool never queues more than maxQueueSize tasks
  and the assertion of run holds; no wakeup is lost; and once stop was called no thread
  waits or will wait any more, so that workers and callers of run all return.\<close>

theorem thread_pool_correct:
  assumes "mreach (ThreadPool maxSize) started m"
  shows "concat (map pool_sent (history m)) = concat (map pool_received (history m)) @ tp_queue (protected m)
    \<and> (0 < maxSize \<longrightarrow> length (tp_queue (protected m)) \<le> maxSize)
    \<and> returns (ThreadPool maxSize c (protected m))
    \<and> (waiters NotEmpty (waiting m) \<noteq> {#} \<and> tp_queue (protected m) \<noteq> [] \<longrightarrow> PoolTake \<in># ready m)
    \<and> (waiters NotFull (waiting m) \<noteq> {#} \<and> length (tp_queue (protected m)) < maxSize \<longrightarrow> (\<exists>x. Run x \<in># ready m))
    \<and> (\<not> tp_running (protected m) \<longrightarrow> waiting m = {#} \<and> (\<forall>d. ThreadPool maxSize c (protected m) \<noteq> Ret (Block d)))"
proof -
  note O = pool_ok_reach [OF assms, unfolded pool_ok_def two_sided_def]
  have "concat (map pool_sent (history m)) = concat (map pool_received (history m)) @ tp_queue (protected m)"
    using tp.fifo_order [OF assms] by (simp add: started_def)
  moreover have "returns (ThreadPool maxSize c (protected m))" by (cases c) (auto simp: returns_require)
  moreover have "waiters NotEmpty (waiting m) \<noteq> {#} \<and> tp_queue (protected m) \<noteq> [] \<longrightarrow> PoolTake \<in># ready m"
    using O no_lost_signal_progress [of NotEmpty "\<lambda>p. p = PoolTake" "length (tp_queue (protected m))" "ready m" "waiting m"] by auto
  moreover have "\<exists>x. Run x \<in># ready m" if "p \<in># ready m" "is_Run p" for p using that by (cases p) auto
  then have "waiters NotFull (waiting m) \<noteq> {#} \<and> length (tp_queue (protected m)) < maxSize \<longrightarrow> (\<exists>x. Run x \<in># ready m)"
    using O no_lost_signal_progress [of NotFull is_Run "maxSize - length (tp_queue (protected m))" "ready m" "waiting m"] by auto
  moreover have "\<not> tp_running (protected m) \<longrightarrow> (\<forall>d. ThreadPool maxSize c (protected m) \<noteq> Ret (Block d))"
    by (cases c) auto
  ultimately show ?thesis using O by blast
qed

text \<open>A worker waits for a task; \<^verbatim>\<open>stop\<close> wakes it.\<close>

theorem thread_pool_correct_witness:
  "\<exists>m. mreach (ThreadPool 1) started m \<and> \<not> tp_running (protected m) \<and> waiting m = {#} \<and> (PoolTake :: int pool_call) \<in># ready m"
proof -
  let ?att = "ThreadPool 1 :: int pool_call \<Rightarrow> _"
  let ?m0 = "new_monitor started :: (int ThreadPool_state, queue_cond, int pool_call, int pool_result) monitor"
  let ?m1 = "?m0\<lparr>ready := {#PoolTake#}\<rparr>" and ?m2 = "?m0\<lparr>waiting := {#(NotEmpty, PoolTake)#}\<rparr>"
  let ?m3 = "?m2\<lparr>ready := {#Stop#}\<rparr>"
    and ?m4 = "\<lparr>protected = started\<lparr>tp_running := False\<rparr>, ready = {#PoolTake#}, waiting = {#}, history = [(Stop, PoolVoid)]\<rparr>"
  have "mstep ?att ?m0 ?m1" using mstep.call [of ?att ?m0 PoolTake] by (simp add: new_monitor_def)
  moreover have "mstep ?att ?m1 ?m2" using mstep.block [of PoolTake ?m1 ?att NotEmpty] by (simp add: new_monitor_def started_def)
  moreover have "mstep ?att ?m2 ?m3" using mstep.call [of ?att ?m2 Stop] by (simp add: new_monitor_def)
  moreover have "wake [(NotFull, True)] ({#PoolTake#}, {#}) ({#PoolTake#}, {#} :: (queue_cond \<times> int pool_call) multiset)"
    by (rule wake.wake_all) simp
  then have "wake [(NotEmpty, True), (NotFull, True)] ({#}, {#(NotEmpty, PoolTake)#}) ({#PoolTake#}, {#} :: (queue_cond \<times> int pool_call) multiset)"
    by (intro wake.wake_all) (simp add: waiters_def)
  then have "mstep ?att ?m3 ?m4"
    using mstep.finish [of Stop ?m3 ?att "started\<lparr>tp_running := False\<rparr>" PoolVoid "[(NotEmpty, True), (NotFull, True)]" "{#PoolTake#}" "{#}"]
    by (simp add: new_monitor_def)
  ultimately have m: "mreach ?att started ?m4" by (meson mreach.intros)
  then show ?thesis using thread_pool_correct [OF m, of QueueSize] by (intro exI [of _ ?m4]) simp
qed

end
