(* ===== verification/PoolLife.thy ===== *)
theory PoolLife
  imports Queues
begin

text \<open>
  The whole life of a \<^verbatim>\<open>ThreadPool\<close> (\<^verbatim>\<open>muduo/base/ThreadPool.{h,cc}\<close>): \<^verbatim>\<open>start\<close>, the workers' loops over the monitor of \<open>Queues\<close>, callers of \<^verbatim>\<open>run\<close> and
  \<^verbatim>\<open>queueSize\<close>, \<^verbatim>\<open>stop\<close> with its joins, and the destructor, in every interleaving.

  A worker that is in \<^verbatim>\<open>take\<close> is a call \<open>PoolTake\<close> of the monitor; which of the workers in \<^verbatim>\<open>take\<close> gets a task is arbitrary. Tasks return;
  those that throw are the subject of \<open>Traces\<close>.
\<close>

section \<open>The pool with its threads\<close>

datatype pool_owner = Serving | Stopping | Joining nat | Joined

record 'a pool_life =
  pl_monitor :: "('a ThreadPool_state, queue_cond, 'a pool_call, 'a pool_result) monitor"
  pl_workers :: "'a worker list"
  pl_owner :: pool_owner
  pl_ran :: "'a list"

definition new_ThreadPool :: "'a ThreadPool_state" where
  "new_ThreadPool = \<lparr>tp_queue = [], tp_running = False\<rparr>"

definition pool_begin :: "string \<Rightarrow> nat \<Rightarrow> bool \<Rightarrow> 'a pool_life outcome" where
  "pool_begin name numThreads hasInitCallback =
     bindo (ThreadPool_start name [] numThreads hasInitCallback new_ThreadPool) (\<lambda>(threads, run_cb, p).
       Ret \<lparr>pl_monitor = new_monitor p, pl_workers = map (\<lambda>_. Top) threads, pl_owner = Serving, pl_ran = []\<rparr>)"

definition pl_running :: "'a pool_life \<Rightarrow> bool" where
  "pl_running l = tp_running (protected (pl_monitor l))"

text \<open>The destructor calls \<^verbatim>\<open>stop()\<close> if the pool is running.\<close>

definition ThreadPool_dtor_stops :: "'a pool_life \<Rightarrow> bool" where
  "ThreadPool_dtor_stops l = pl_running l"

definition in_calls :: "('s, 'c, 'o, 'r) monitor \<Rightarrow> 'o multiset" where
  "in_calls m = ready m + image_mset snd (waiting m)"

datatype pool_actor = Worker nat | Owner | Others

inductive pool_step :: "nat \<Rightarrow> pool_actor \<Rightarrow> 'a pool_life \<Rightarrow> 'a pool_life \<Rightarrow> bool" for maxSize where
  test: "i < length (pl_workers l) \<Longrightarrow> pl_workers l ! i = Top \<Longrightarrow>
    pool_step maxSize (Worker i) l (l\<lparr>pl_workers := (pl_workers l)[i := runInThread (pl_running l) None Top],
      pl_monitor := (if pl_running l then (pl_monitor l)\<lparr>ready := add_mset PoolTake (ready (pl_monitor l))\<rparr> else pl_monitor l)\<rparr>)"
| take: "i < length (pl_workers l) \<Longrightarrow> pl_workers l ! i = Taking \<Longrightarrow> mstep (ThreadPool maxSize) (pl_monitor l) m \<Longrightarrow>
    history m = history (pl_monitor l) @ [(PoolTake, Task t)] \<Longrightarrow>
    pool_step maxSize (Worker i) l (l\<lparr>pl_workers := (pl_workers l)[i := runInThread (pl_running l) t Taking], pl_monitor := m,
      pl_ran := pl_ran l @ (case t of None \<Rightarrow> [] | Some x \<Rightarrow> [x])\<rparr>)"
| exec: "i < length (pl_workers l) \<Longrightarrow> pl_workers l ! i = Executing x \<Longrightarrow>
    pool_step maxSize (Worker i) l (l\<lparr>pl_workers := (pl_workers l)[i := runInThread (pl_running l) None (Executing x)]\<rparr>)"
| scheduler: "mstep (ThreadPool maxSize) (pl_monitor l) m \<Longrightarrow> history m = history (pl_monitor l) \<Longrightarrow> in_calls m = in_calls (pl_monitor l) \<Longrightarrow>
    pool_step maxSize Others l (l\<lparr>pl_monitor := m\<rparr>)"
| inline: "pl_workers l = [] \<Longrightarrow> pool_step maxSize Others l (l\<lparr>pl_ran := pl_ran l @ [x]\<rparr>)"
| caller: "p = QueueSize \<or> pl_workers l \<noteq> [] \<and> is_Run p \<Longrightarrow>
    pool_step maxSize Others l (l\<lparr>pl_monitor := (pl_monitor l)\<lparr>ready := add_mset p (ready (pl_monitor l))\<rparr>\<rparr>)"
| returned: "mstep (ThreadPool maxSize) (pl_monitor l) m \<Longrightarrow> history m = history (pl_monitor l) @ [(p, x)] \<Longrightarrow> p = QueueSize \<or> is_Run p \<Longrightarrow>
    pool_step maxSize Others l (l\<lparr>pl_monitor := m\<rparr>)"
| stop: "pl_owner l = Serving \<Longrightarrow>
    pool_step maxSize Owner l (l\<lparr>pl_monitor := (pl_monitor l)\<lparr>ready := add_mset Stop (ready (pl_monitor l))\<rparr>, pl_owner := Stopping\<rparr>)"
| notified: "pl_owner l = Stopping \<Longrightarrow> mstep (ThreadPool maxSize) (pl_monitor l) m \<Longrightarrow> history m = history (pl_monitor l) @ [(Stop, x)] \<Longrightarrow>
    pool_step maxSize Owner l (l\<lparr>pl_monitor := m, pl_owner := Joining 0\<rparr>)"
| join: "pl_owner l = Joining j \<Longrightarrow> j < length (pl_workers l) \<Longrightarrow> pl_workers l ! j = Exited \<Longrightarrow>
    pool_step maxSize Owner l (l\<lparr>pl_owner := Joining (j + 1)\<rparr>)"
| joined: "pl_owner l = Joining j \<Longrightarrow> length (pl_workers l) \<le> j \<Longrightarrow> pool_step maxSize Owner l (l\<lparr>pl_owner := Joined\<rparr>)"

inductive pool_reach :: "nat \<Rightarrow> 'a pool_life \<Rightarrow> 'a pool_life \<Rightarrow> bool" for maxSize l0 where
  start: "pool_reach maxSize l0 l0"
| step: "pool_reach maxSize l0 l \<Longrightarrow> pool_step maxSize a l l' \<Longrightarrow> pool_reach maxSize l0 l'"

section \<open>Calls inside the monitor\<close>

lemma wake_keeps_calls: "wake ns s s' \<Longrightarrow> fst s' + image_mset snd (snd s') = fst s + image_mset snd (snd s)"
proof (induction rule: wake.induct)
  case (wake_one c p w ns r s)
  moreover from wake_one(1) have "p \<in># image_mset snd w" by force
  ultimately show ?case by (simp add: image_mset_Diff)
next
  case (wake_all ns r c w s)
  have "waiters c w + image_mset snd {#x \<in># w. fst x \<noteq> c#} = image_mset snd w"
    unfolding waiters_def image_mset_union [symmetric] by (simp add: multiset_partition [symmetric])
  then show ?case using wake_all by (simp add: add.assoc)
qed simp_all

lemma finish_step:
  assumes "mstep att m m'" and "history m' = history m @ [(p, x)]"
  shows "p \<in># ready m \<and> in_calls m' = in_calls m - {#p#} \<and> (\<exists>ns. att p (protected m) = Ret (Done (protected m') x ns))"
  using assms
proof (cases rule: mstep.cases)
  case (finish q s y ns r w)
  then have "r + image_mset snd w = ready m - {#q#} + image_mset snd (waiting m)" using wake_keeps_calls [OF finish(4)] by simp
  then show ?thesis using finish assms(2) by (auto simp: in_calls_def)
qed simp_all

lemma quiet_step: "mstep att m m' \<Longrightarrow> history m' = history m \<Longrightarrow> protected m' = protected m"
  by (cases rule: mstep.cases) auto

lemma pool_call_running: "ThreadPool maxSize p s = Ret (Done s' x ns) \<Longrightarrow> p \<noteq> Stop \<Longrightarrow> tp_running s' = tp_running s"
  by (cases p) (auto simp: require_eq_Ret split: if_splits)

lemma pool_finish_running:
  assumes "mstep (ThreadPool maxSize) m m'" and "history m' = history m @ [(p, x)]" and "p \<noteq> Stop"
  shows "tp_running (protected m') = tp_running (protected m)"
  using finish_step [OF assms(1,2)] pool_call_running assms(3) by blast

text \<open>When nothing waits, a call that does not block can always finish.\<close>

lemma wake_empty: "\<exists>s. wake ns (r, {#}) s"
proof (induction ns)
  case Nil
  then show ?case by (meson wake.wake_done)
next
  case (Cons n ns)
  then show ?case by (cases n) (metis wake.wake_nobody waiters_empty)
qed

lemma wake_all_exists: "\<exists>s. wake (map (\<lambda>c. (c, True)) cs) (r, w) s"
proof (induction cs arbitrary: r w)
  case Nil
  then show ?case by (metis list.simps(8) wake.wake_done)
next
  case (Cons c cs)
  from Cons [of "r + waiters c w" "{#x \<in># w. fst x \<noteq> c#}"] show ?case by (auto dest: wake.wake_all)
qed

lemma can_finish:
  assumes "p \<in># ready m" and "att p (protected m) = Ret (Done s x ns)" and "\<exists>s. wake ns (ready m - {#p#}, waiting m) s"
  shows "\<exists>m'. mstep att m m' \<and> history m' = history m @ [(p, x)]"
proof -
  obtain r w where "wake ns (ready m - {#p#}, waiting m) (r, w)" using assms(3) by auto
  with assms(1,2) show ?thesis by (intro exI [of _ "\<lparr>protected = s, ready = r, waiting = w, history = history m @ [(p, x)]\<rparr>"]) (simp add: mstep.finish)
qed

section \<open>The invariant of the pool\<close>

definition life_inv :: "nat \<Rightarrow> nat \<Rightarrow> 'a pool_life \<Rightarrow> bool" where
  "life_inv maxSize n l \<longleftrightarrow> length (pl_workers l) = n \<and> mreach (ThreadPool maxSize) started (pl_monitor l)
     \<and> count (in_calls (pl_monitor l)) PoolTake = count_list (pl_workers l) Taking
     \<and> (0 < n \<longrightarrow> pl_ran l = concat (map pool_received (history (pl_monitor l))))
     \<and> pl_running l = (pl_owner l \<in> {Serving, Stopping}) \<and> (pl_running l \<longrightarrow> Exited \<notin> set (pl_workers l))
     \<and> count (in_calls (pl_monitor l)) Stop = (if pl_owner l = Stopping then 1 else 0)
     \<and> (\<forall>j. pl_owner l = Joining j \<longrightarrow> j \<le> n \<and> set (take j (pl_workers l)) \<subseteq> {Exited})
     \<and> (pl_owner l = Joined \<longrightarrow> set (pl_workers l) \<subseteq> {Exited})"

lemma life_inv_begin: "pool_begin name n cb = Ret l \<Longrightarrow> life_inv maxSize n l"
  using mreach.start [of "ThreadPool maxSize" started]
  by (auto simp: pool_begin_def ThreadPool_start_def new_ThreadPool_def life_inv_def pl_running_def in_calls_def new_monitor_def started_def count_list_0_iff)

lemma in_calls_call [simp]: "in_calls (m\<lparr>ready := add_mset p (ready m)\<rparr>) = add_mset p (in_calls m)"
  by (simp add: in_calls_def)

lemma count_list_update:
  assumes "i < length xs"
  shows "count_list (xs[i := y]) x = count_list xs x - (if xs ! i = x then 1 else 0) + (if y = x then 1 else 0)"
  using assms by (auto simp: mset_update simp flip: count_mset)

lemma set_take_update: "set (take j xs) \<subseteq> {Exited} \<Longrightarrow> xs ! i \<noteq> Exited \<Longrightarrow> set (take j (xs[i := y])) \<subseteq> {Exited}"
  by (cases "i < j"; cases "i < length xs") (force simp: take_update_swap in_set_conv_nth)+

lemma exited_update: "Exited \<notin> set xs \<Longrightarrow> y \<noteq> Exited \<Longrightarrow> Exited \<notin> set (xs[i := y])"
  using set_update_subset_insert [of xs i y] by auto

text \<open>A worker moves on: what has to be shown of the monitor.\<close>

lemma life_inv_worker:
  assumes inv: "life_inv maxSize n l" and i: "i < length (pl_workers l)" "pl_workers l ! i \<noteq> Exited"
    and m: "mreach (ThreadPool maxSize) started m" "tp_running (protected m) = pl_running l" "count (in_calls m) Stop = count (in_calls (pl_monitor l)) Stop"
      "count (in_calls m) PoolTake = count_list ((pl_workers l)[i := w]) Taking"
      "rs = pl_ran l @ drop (length (concat (map pool_received (history (pl_monitor l))))) (concat (map pool_received (history m)))"
      "\<exists>h. history m = history (pl_monitor l) @ h"
    and w: "pl_running l \<longrightarrow> w \<noteq> Exited"
  shows "life_inv maxSize n (l\<lparr>pl_workers := (pl_workers l)[i := w], pl_monitor := m, pl_ran := rs\<rparr>)"
proof -
  note I = inv [unfolded life_inv_def]
  have "pl_owner l \<noteq> Joined" using I i by (metis empty_iff insert_iff nth_mem subsetD)
  then show ?thesis unfolding life_inv_def using I m w i(2)
    by (auto simp: pl_running_def set_take_update exited_update)
qed

lemma life_inv_mreach: "life_inv maxSize n l \<Longrightarrow> mreach (ThreadPool maxSize) started (pl_monitor l)"
  by (simp add: life_inv_def)

lemma pool_received_task: "pool_received (PoolTake, Task t) = (case t of None \<Rightarrow> [] | Some x \<Rightarrow> [x])"
  by (simp split: option.splits)

text \<open>What the steps of callers and of the scheduler keep.\<close>

lemma life_inv_others:
  assumes inv: "life_inv maxSize n l" and step: "mstep (ThreadPool maxSize) (pl_monitor l) m"
    and m: "tp_running (protected m) = pl_running l" "count (in_calls m) Stop = count (in_calls (pl_monitor l)) Stop"
      "count (in_calls m) PoolTake = count (in_calls (pl_monitor l)) PoolTake"
      "concat (map pool_received (history m)) = concat (map pool_received (history (pl_monitor l)))"
  shows "life_inv maxSize n (l\<lparr>pl_monitor := m\<rparr>)"
  using assms mreach.step [OF _ step] by (auto simp: life_inv_def pl_running_def)

lemma received_by_take: "ThreadPool maxSize p s = Ret (Done s' x ns) \<Longrightarrow> p \<noteq> PoolTake \<Longrightarrow> pool_received (p, x) = []"
  by (cases p) (auto simp: require_eq_Ret split: if_splits)

lemma life_inv_test:
  assumes inv: "life_inv maxSize n l" and i: "i < length (pl_workers l)" "pl_workers l ! i = Top"
  shows "life_inv maxSize n (l\<lparr>pl_workers := (pl_workers l)[i := runInThread (pl_running l) None Top],
      pl_monitor := (if pl_running l then (pl_monitor l)\<lparr>ready := add_mset PoolTake (ready (pl_monitor l))\<rparr> else pl_monitor l)\<rparr>)"
proof -
  let ?m = "if pl_running l then (pl_monitor l)\<lparr>ready := add_mset PoolTake (ready (pl_monitor l))\<rparr> else pl_monitor l"
  have "mreach (ThreadPool maxSize) started ?m" using life_inv_mreach [OF inv] mreach.step [OF _ mstep.call] by auto
  moreover have "count (in_calls ?m) PoolTake = count_list ((pl_workers l)[i := runInThread (pl_running l) None Top]) Taking"
    using inv i by (simp add: life_inv_def count_list_update)
  ultimately have "life_inv maxSize n (l\<lparr>pl_workers := (pl_workers l)[i := runInThread (pl_running l) None Top], pl_monitor := ?m, pl_ran := pl_ran l\<rparr>)"
    using i by (intro life_inv_worker [OF inv]) (simp_all add: pl_running_def)
  then show ?thesis by simp
qed

lemma life_inv_take:
  assumes inv: "life_inv maxSize n l" and i: "i < length (pl_workers l)" "pl_workers l ! i = Taking"
    and m: "mstep (ThreadPool maxSize) (pl_monitor l) m" "history m = history (pl_monitor l) @ [(PoolTake, Task t)]"
  shows "life_inv maxSize n (l\<lparr>pl_workers := (pl_workers l)[i := runInThread (pl_running l) t Taking], pl_monitor := m,
      pl_ran := pl_ran l @ (case t of None \<Rightarrow> [] | Some x \<Rightarrow> [x])\<rparr>)"
proof (rule life_inv_worker [OF inv i(1)])
  have f: "PoolTake \<in># ready (pl_monitor l)" "in_calls m = in_calls (pl_monitor l) - {#PoolTake#}" using finish_step [OF m] by blast+
  show "mreach (ThreadPool maxSize) started m" by (rule mreach.step [OF life_inv_mreach [OF inv] m(1)])
  show "tp_running (protected m) = pl_running l" using pool_finish_running [OF m] by (simp add: pl_running_def)
  show "count (in_calls m) PoolTake = count_list ((pl_workers l)[i := runInThread (pl_running l) t Taking]) Taking"
    using inv i f by (simp add: life_inv_def count_list_update split: option.splits)
  show "count (in_calls m) Stop = count (in_calls (pl_monitor l)) Stop" using f by simp
qed (use i m(2) in \<open>simp_all add: pool_received_task split: option.splits\<close>)

lemma life_inv_step:
  assumes "pool_step maxSize a l l'" and inv: "life_inv maxSize n l"
  shows "life_inv maxSize n l'"
  using assms(1)
proof (cases rule: pool_step.cases)
  case (test i)
  then show ?thesis using life_inv_test [OF inv] by simp
next
  case (take i m t)
  then show ?thesis using life_inv_take [OF inv] by simp
next
  case (exec i x)
  with life_inv_worker [OF inv exec(3), of "pl_monitor l" Top "pl_ran l"] inv show ?thesis
    by (simp add: life_inv_def pl_running_def count_list_update)
next
  case (scheduler m)
  with life_inv_others [OF inv scheduler(3)] quiet_step [OF scheduler(3,4)] show ?thesis by (simp add: pl_running_def)
next
  case (inline x)
  then show ?thesis using inv by (auto simp: life_inv_def pl_running_def)
next
  case (caller p)
  then have "p \<noteq> Stop" "p \<noteq> PoolTake" by auto
  with caller life_inv_others [OF inv mstep.call, of p] show ?thesis by (auto simp: pl_running_def)
next
  case (returned m p x)
  have p: "p \<noteq> PoolTake" "p \<noteq> Stop" using returned(5) by auto
  from finish_step [OF returned(3,4)] have f: "in_calls m = in_calls (pl_monitor l) - {#p#}" "pool_received (p, x) = []"
    using received_by_take p(1) by blast+
  with life_inv_others [OF inv returned(3)] pool_finish_running [OF returned(3,4) p(2)] p returned show ?thesis by (simp add: pl_running_def)
next
  case stop
  have "mreach (ThreadPool maxSize) started ((pl_monitor l)\<lparr>ready := add_mset Stop (ready (pl_monitor l))\<rparr>)"
    by (rule mreach.step [OF life_inv_mreach [OF inv] mstep.call])
  then show ?thesis using inv stop by (auto simp: life_inv_def pl_running_def)
next
  case (notified m x)
  have "mreach (ThreadPool maxSize) started m" using inv mreach.step [OF _ notified(4)] by (auto simp: life_inv_def)
  moreover from finish_step [OF notified(4,5)] have "in_calls m = in_calls (pl_monitor l) - {#Stop#}" "\<not> tp_running (protected m)" "pool_received (Stop, x) = []"
    by (auto dest!: arg_cong [of _ _ tp_running])
  ultimately show ?thesis using inv notified by (auto simp: life_inv_def pl_running_def)
next
  case (join j)
  then show ?thesis using inv by (auto simp: life_inv_def pl_running_def take_Suc_conv_app_nth)
next
  case (joined j)
  then show ?thesis using inv by (auto simp: life_inv_def pl_running_def)
qed

lemma life_inv_reach: "pool_reach maxSize l0 l \<Longrightarrow> life_inv maxSize n l0 \<Longrightarrow> life_inv maxSize n l"
  by (induction rule: pool_reach.induct) (auto intro: life_inv_step)

section \<open>Progress\<close>

lemma life_inv_pool_ok: "life_inv maxSize n l \<Longrightarrow> pool_ok maxSize (pl_monitor l)"
  by (simp add: life_inv_def pool_ok_reach)

text \<open>A call of the monitor is ready or waits on the condition for its kind.\<close>

lemma in_calls_cases:
  assumes "life_inv maxSize n l" and "p \<in># in_calls (pl_monitor l)"
  shows "p \<in># ready (pl_monitor l) \<or> p = PoolTake \<and> (NotEmpty, p) \<in># waiting (pl_monitor l) \<or> is_Run p \<and> (NotFull, p) \<in># waiting (pl_monitor l)"
proof -
  have "c = NotEmpty \<and> q = PoolTake \<or> c = NotFull \<and> is_Run q" if "(c, q) \<in># waiting (pl_monitor l)" for c q
    using that life_inv_pool_ok [OF assms(1)] by (cases c) (auto simp: pool_ok_def two_sided_def waits_for_def in_waiters)
  then show ?thesis using assms(2) by (force simp: in_calls_def)
qed

lemma taking_calls: "life_inv maxSize n l \<Longrightarrow> Taking \<in> set (pl_workers l) \<Longrightarrow> PoolTake \<in># in_calls (pl_monitor l)"
  using count_list_0_iff [of "pl_workers l" Taking] by (auto simp: life_inv_def count_eq_zero_iff simp flip: count_greater_zero_iff)

text \<open>A worker in \<^verbatim>\<open>take\<close> that has the mutex gets through, unless the queue is empty and the pool running.\<close>

lemma take_through:
  assumes inv: "life_inv maxSize n l" and i: "i < length (pl_workers l)" "pl_workers l ! i = Taking" and r: "PoolTake \<in># ready (pl_monitor l)"
    and open_queue: "tp_queue (protected (pl_monitor l)) \<noteq> [] \<or> \<not> pl_running l"
  shows "\<exists>l'. pool_step maxSize (Worker i) l l'"
proof -
  let ?m = "pl_monitor l"
  obtain s t ns where d: "ThreadPool maxSize PoolTake (protected ?m) = Ret (Done s (Task t) ns)" "ns = [] \<or> ns = [(NotFull, False)]"
    using open_queue by (cases "tp_queue (protected ?m) = []") (simp_all add: pl_running_def)
  have "\<exists>x. wake [(NotFull, False)] (ready ?m - {#PoolTake#}, waiting ?m) x"
    by (cases "waiters NotFull (waiting ?m) = {#}") (meson in_waiters multiset_nonemptyE wake.intros)+
  with d(2) have "\<exists>x. wake ns (ready ?m - {#PoolTake#}, waiting ?m) x" by (meson wake.wake_done)
  from can_finish [OF r, of "ThreadPool maxSize", OF d(1) this] show ?thesis using pool_step.take [OF i] by blast
qed

lemma worker_moves:
  assumes inv: "life_inv maxSize n l" and i: "i < length (pl_workers l)" "pl_workers l ! i \<noteq> Exited"
    and s: "\<not> pl_running l"
  shows "\<exists>l'. pool_step maxSize (Worker i) l l'"
proof (cases "pl_workers l ! i")
  case Taking
  then have "PoolTake \<in># in_calls (pl_monitor l)" using taking_calls [OF inv] i(1) by (metis nth_mem)
  moreover have "waiting (pl_monitor l) = {#}" using life_inv_pool_ok [OF inv] s by (simp add: pool_ok_def pl_running_def)
  ultimately have "PoolTake \<in># ready (pl_monitor l)" by (simp add: in_calls_def)
  from take_through [OF inv i(1) Taking this] s show ?thesis by simp
qed (use pool_step.intros(1,3) [OF i(1)] i(2) in blast)+

text \<open>While tasks are queued in a running pool, some worker can move.\<close>

lemma queued_task_moves:
  assumes inv: "life_inv maxSize n l" and n: "0 < n" and q: "tp_queue (protected (pl_monitor l)) \<noteq> []" and r: "pl_running l"
  shows "\<exists>i l'. pool_step maxSize (Worker i) l l'"
proof (cases "set (pl_workers l) \<subseteq> {Taking}")
  case True
  have ne: "pl_workers l \<noteq> []" using inv n by (auto simp: life_inv_def)
  then have t: "0 < length (pl_workers l)" "pl_workers l ! 0 = Taking" using True by (simp, metis length_greater_0_conv nth_mem singletonD subsetD)
  then have "PoolTake \<in># in_calls (pl_monitor l)" using taking_calls [OF inv] by (metis nth_mem)
  with in_calls_cases [OF inv this] have "PoolTake \<in># ready (pl_monitor l) \<or> waiters NotEmpty (waiting (pl_monitor l)) \<noteq> {#}"
    by (auto simp flip: in_waiters)
  then have "PoolTake \<in># ready (pl_monitor l)"
    using life_inv_pool_ok [OF inv] q no_lost_signal_progress [of NotEmpty "\<lambda>p. p = PoolTake" "length (tp_queue (protected (pl_monitor l)))" "ready (pl_monitor l)" "waiting (pl_monitor l)"]
    by (auto simp: pool_ok_def two_sided_def)
  from take_through [OF inv t this] q show ?thesis by blast
next
  case False
  then obtain i where "i < length (pl_workers l)" "pl_workers l ! i \<noteq> Taking" by (metis in_set_conv_nth insertI1 subsetI)
  moreover have "pl_workers l ! i \<noteq> Exited" using inv r nth_mem [OF calculation(1)] by (auto simp: life_inv_def)
  ultimately show ?thesis using pool_step.intros(1,3) by (metis worker.exhaust)
qed

text \<open>How much is left to do once the pool was stopped.\<close>

fun worker_rank :: "'a worker \<Rightarrow> nat" where
  "worker_rank Exited = 0"
| "worker_rank Top = 1"
| "worker_rank (Executing x) = 2"
| "worker_rank Taking = 3"

definition stop_rank :: "'a pool_life \<Rightarrow> nat" where
  "stop_rank l = sum_list (map worker_rank (pl_workers l)) + (case pl_owner l of Joining j \<Rightarrow> Suc (length (pl_workers l)) - j | _ \<Rightarrow> 0)"

lemma worker_rank_sum: "i < length ws \<Longrightarrow> worker_rank w < worker_rank (ws ! i) \<Longrightarrow> sum_list (map worker_rank (ws[i := w])) < sum_list (map worker_rank ws)"
proof (induction ws arbitrary: i)
  case (Cons a ws)
  then show ?case by (cases i) auto
qed simp

lemma stop_rank_step:
  assumes "pool_step maxSize a l l'" and "life_inv maxSize n l" and "\<not> pl_running l"
  shows "if a = Others then stop_rank l' = stop_rank l else stop_rank l' < stop_rank l"
  using assms(1)
proof (cases rule: pool_step.cases)
  case (test i)
  then show ?thesis using worker_rank_sum [of i "pl_workers l" "Exited"] assms(3) by (simp add: stop_rank_def split: pool_owner.splits)
next
  case (take i m t)
  then show ?thesis using worker_rank_sum [of i "pl_workers l" "runInThread (pl_running l) t Taking"]
    by (auto simp: stop_rank_def split: pool_owner.splits option.splits)
next
  case (exec i x)
  then show ?thesis using worker_rank_sum [of i "pl_workers l" Top] by (simp add: stop_rank_def split: pool_owner.splits)
next
  case (join j)
  then show ?thesis by (simp add: stop_rank_def)
next
  case (joined j)
  then show ?thesis using assms(2) by (simp add: stop_rank_def life_inv_def)
qed (use assms(2,3) in \<open>simp_all add: stop_rank_def life_inv_def split: pool_owner.splits\<close>)

lemma stop_through:
  assumes inv: "life_inv maxSize n l" and o: "pl_owner l = Stopping"
  shows "\<exists>l'. pool_step maxSize Owner l l' \<and> pl_owner l' = Joining 0"
proof -
  let ?m = "pl_monitor l"
  have "Stop \<in># in_calls ?m" using inv o by (simp add: life_inv_def flip: count_greater_zero_iff)
  then have r: "Stop \<in># ready ?m" using in_calls_cases [OF inv, of Stop] by simp
  have "\<exists>x. wake [(NotEmpty, True), (NotFull, True)] (ready ?m - {#Stop#}, waiting ?m) x"
    using wake_all_exists [of "[NotEmpty, NotFull]"] by simp
  from can_finish [OF r, of "ThreadPool maxSize", OF _ this] obtain m' where
    "mstep (ThreadPool maxSize) ?m m'" "history m' = history ?m @ [(Stop, PoolVoid)]" by auto
  from pool_step.notified [OF o this] show ?thesis by fastforce
qed

lemma joining_moves:
  assumes inv: "life_inv maxSize n l" and o: "pl_owner l = Joining j"
  shows "\<exists>a l'. a \<noteq> Others \<and> pool_step maxSize a l l'"
proof (cases "j < length (pl_workers l) \<and> pl_workers l ! j \<noteq> Exited")
  case True
  moreover have "\<not> pl_running l" using inv o by (simp add: life_inv_def)
  ultimately show ?thesis using worker_moves [OF inv, of j] by blast
next
  case False
  then show ?thesis using pool_step.join [OF o] pool_step.joined [OF o] by (metis leI pool_actor.distinct(6))
qed

lemma joined_quiet:
  assumes "life_inv maxSize n l" and "0 < n" and "pl_owner l = Joined" and "pool_step maxSize a l l'"
  shows "a = Others \<and> pl_ran l' = pl_ran l"
proof -
  have "pl_workers l ! i = Exited" if "i < length (pl_workers l)" for i
    using assms(1,3) nth_mem [OF that] by (auto simp: life_inv_def)
  with assms(4) show ?thesis by cases (use assms(1,2,3) in \<open>auto simp: life_inv_def\<close>)
qed

section \<open>Properties\<close>


text \<open>A pool with one thread that is stopped before its thread gets to the one task.\<close>

definition stopped_at :: "bool \<Rightarrow> int list \<Rightarrow> int pool_call multiset \<Rightarrow> (int pool_call \<times> int pool_result) list \<Rightarrow> int worker \<Rightarrow> pool_owner \<Rightarrow> int pool_life" where
  "stopped_at r q rs h w ow = \<lparr>pl_monitor = \<lparr>protected = \<lparr>tp_queue = q, tp_running = r\<rparr>, ready = rs, waiting = {#}, history = h\<rparr>,
     pl_workers = [w], pl_owner = ow, pl_ran = []\<rparr>"

lemma stopped_pool_reach: "pool_reach 0 (stopped_at True [] {#} [] Top Serving) (stopped_at False [5] {#} [(Run 5, PoolVoid), (Stop, PoolVoid)] Exited Joined)"
proof -
  let ?h = "[(Run 5, PoolVoid)]"
  have "pool_step 0 Others (stopped_at True [] {#} [] Top Serving) (stopped_at True [] {#Run 5#} [] Top Serving)"
    using pool_step.caller [of "Run 5" "stopped_at True [] {#} [] Top Serving" 0] by (simp add: stopped_at_def)
  moreover have "mstep (ThreadPool 0) (pl_monitor (stopped_at True [] {#Run 5#} [] Top Serving)) (pl_monitor (stopped_at True [5] {#} ?h Top Serving))"
    using mstep.finish [of "Run 5" "pl_monitor (stopped_at True [] {#Run 5#} [] Top Serving)" "ThreadPool 0"]
    by (simp add: stopped_at_def isFull_def wake.wake_nobody)
  from pool_step.returned [OF this] have "pool_step 0 Others (stopped_at True [] {#Run 5#} [] Top Serving) (stopped_at True [5] {#} ?h Top Serving)"
    by (simp add: stopped_at_def)
  moreover have "pool_step 0 Owner (stopped_at True [5] {#} ?h Top Serving) (stopped_at True [5] {#Stop#} ?h Top Stopping)"
    using pool_step.stop [of "stopped_at True [5] {#} ?h Top Serving" 0] by (simp add: stopped_at_def)
  moreover have "mstep (ThreadPool 0) (pl_monitor (stopped_at True [5] {#Stop#} ?h Top Stopping)) (pl_monitor (stopped_at False [5] {#} (?h @ [(Stop, PoolVoid)]) Top (Joining 0)))"
    using mstep.finish [of Stop "pl_monitor (stopped_at True [5] {#Stop#} ?h Top Stopping)" "ThreadPool 0"]
    by (simp add: stopped_at_def wake.wake_nobody)
  from pool_step.notified [OF _ this] have "pool_step 0 Owner (stopped_at True [5] {#Stop#} ?h Top Stopping) (stopped_at False [5] {#} (?h @ [(Stop, PoolVoid)]) Top (Joining 0))"
    by (simp add: stopped_at_def)
  moreover have "pool_step 0 (Worker 0) (stopped_at False [5] {#} h Top (Joining 0)) (stopped_at False [5] {#} h Exited (Joining 0))" for h
    using pool_step.test [of 0 "stopped_at False [5] {#} h Top (Joining 0)" 0] by (simp add: stopped_at_def pl_running_def)
  moreover have "pool_step 0 Owner (stopped_at False [5] {#} h Exited (Joining 0)) (stopped_at False [5] {#} h Exited (Joining 1))" for h
    using pool_step.join [of "stopped_at False [5] {#} h Exited (Joining 0)" 0 0] by (simp add: stopped_at_def)
  moreover have "pool_step 0 Owner (stopped_at False [5] {#} h Exited (Joining 1)) (stopped_at False [5] {#} h Exited Joined)" for h
    using pool_step.joined [of "stopped_at False [5] {#} h Exited (Joining 1)" 1 0] by (simp add: stopped_at_def)
  ultimately show ?thesis by (simp, meson pool_reach.intros)
qed


end
