(* ===== verification/StringPieces.thy ===== *)
theory StringPieces
  imports Prelude "HOL-Library.List_Lexorder" "HOL-Library.Char_ord"
begin

text \<open>
  \<^verbatim>\<open>muduo/base/StringPiece.h\<close>: a string that belongs to someone else.

  A piece is the characters it refers to, that is \<^verbatim>\<open>ptr_[0]\<close> to \<^verbatim>\<open>ptr_[length_ - 1]\<close>; its length fits into an \<^verbatim>\<open>int\<close>. Moving the
  pointer or the length past the referred characters is \<open>Undefined\<close>. The comparison operators of the
  class make the type an instance of \<open>linorder\<close>, whose laws are thereby proved for them.
\<close>

datatype StringPiece = StringPiece (sp_chars: string)

definition sp_length :: "StringPiece \<Rightarrow> int" where
  "sp_length p = int (length (sp_chars p))"

definition sp_empty :: "StringPiece \<Rightarrow> bool" where
  "sp_empty p \<longleftrightarrow> sp_length p = 0"

text \<open>\<^verbatim>\<open>strlen\<close> stops at the null character.\<close>

definition sp_of_cstr :: "string \<Rightarrow> StringPiece" where
  "sp_of_cstr s = StringPiece (takeWhile (\<lambda>c. c \<noteq> CHR 0x00) s)"

text \<open>A piece of a whole string narrows its size to \<^verbatim>\<open>int\<close>; one of the first \<open>len\<close> characters of a buffer is within it.\<close>

definition sp_of_string :: "string \<Rightarrow> StringPiece outcome" where
  "sp_of_string s = (if length s < 2 ^ 31 then Ret (StringPiece s) else Abort (Undefined ''length_ overflows int''))"

definition sp_set :: "string \<Rightarrow> int \<Rightarrow> StringPiece outcome" where
  "sp_set buf len = (if 0 \<le> len \<and> len \<le> int (length buf) then Ret (StringPiece (take (nat len) buf)) else Abort (Undefined ''length_ out of range''))"

definition as_string :: "StringPiece \<Rightarrow> string" where
  "as_string p = sp_chars p"

definition CopyToString :: "StringPiece \<Rightarrow> string \<Rightarrow> string" where
  "CopyToString p target = as_string p"

definition sp_clear :: "StringPiece \<Rightarrow> StringPiece" where
  "sp_clear p = StringPiece ''''"

definition sp_nth :: "StringPiece \<Rightarrow> int \<Rightarrow> char outcome" where
  "sp_nth p i = (if 0 \<le> i \<and> i < sp_length p then Ret (sp_chars p ! nat i) else Abort (Undefined ''ptr_[i]''))"

definition remove_prefix :: "int \<Rightarrow> StringPiece \<Rightarrow> StringPiece outcome" where
  "remove_prefix n p = (if 0 \<le> n \<and> n \<le> sp_length p then Ret (StringPiece (drop (nat n) (sp_chars p))) else Abort (Undefined ''ptr_ += n''))"

definition remove_suffix :: "int \<Rightarrow> StringPiece \<Rightarrow> StringPiece outcome" where
  "remove_suffix n p =
     (if 0 \<le> n \<and> n \<le> sp_length p then Ret (StringPiece (take (nat (sp_length p - n)) (sp_chars p))) else Abort (Undefined ''length_ -= n''))"

text \<open>\<^verbatim>\<open>memcmp\<close> compares unsigned characters; only its sign matters.\<close>

fun memcmp :: "string \<Rightarrow> string \<Rightarrow> nat \<Rightarrow> int" where
  "memcmp (x # xs) (y # ys) (Suc n) = (if x = y then memcmp xs ys n else int (of_char x) - int (of_char y))"
| "memcmp _ _ _ = 0"

definition sp_memcmp :: "StringPiece \<Rightarrow> StringPiece \<Rightarrow> int" where
  "sp_memcmp p x = memcmp (sp_chars p) (sp_chars x) (nat (if sp_length p < sp_length x then sp_length p else sp_length x))"

definition sp_equal :: "StringPiece \<Rightarrow> StringPiece \<Rightarrow> bool" where
  "sp_equal p x \<longleftrightarrow> sp_length p = sp_length x \<and> memcmp (sp_chars p) (sp_chars x) (nat (sp_length p)) = 0"

definition sp_not_equal :: "StringPiece \<Rightarrow> StringPiece \<Rightarrow> bool" where
  "sp_not_equal p x \<longleftrightarrow> \<not> sp_equal p x"

text \<open>The instances of \<^verbatim>\<open>STRINGPIECE_BINARY_PREDICATE\<close>.\<close>

definition sp_less :: "StringPiece \<Rightarrow> StringPiece \<Rightarrow> bool" where
  "sp_less p x \<longleftrightarrow> sp_memcmp p x < 0 \<or> sp_memcmp p x = 0 \<and> sp_length p < sp_length x"

definition sp_less_eq :: "StringPiece \<Rightarrow> StringPiece \<Rightarrow> bool" where
  "sp_less_eq p x \<longleftrightarrow> sp_memcmp p x < 0 \<or> sp_memcmp p x = 0 \<and> sp_length p \<le> sp_length x"

definition sp_greater_eq :: "StringPiece \<Rightarrow> StringPiece \<Rightarrow> bool" where
  "sp_greater_eq p x \<longleftrightarrow> sp_memcmp p x > 0 \<or> sp_memcmp p x = 0 \<and> sp_length p \<ge> sp_length x"

definition sp_greater :: "StringPiece \<Rightarrow> StringPiece \<Rightarrow> bool" where
  "sp_greater p x \<longleftrightarrow> sp_memcmp p x > 0 \<or> sp_memcmp p x = 0 \<and> sp_length p > sp_length x"

definition sp_compare :: "StringPiece \<Rightarrow> StringPiece \<Rightarrow> int" where
  "sp_compare p x =
     (let r = sp_memcmp p x
      in if r = 0 then if sp_length p < sp_length x then - 1 else if sp_length p > sp_length x then 1 else r else r)"

definition starts_with :: "StringPiece \<Rightarrow> StringPiece \<Rightarrow> bool" where
  "starts_with p x \<longleftrightarrow> sp_length p \<ge> sp_length x \<and> memcmp (sp_chars p) (sp_chars x) (nat (sp_length x)) = 0"

lemma memcmp_lexicographic:
  "memcmp xs ys (min (length xs) (length ys)) < 0 \<or> memcmp xs ys (min (length xs) (length ys)) = 0 \<and> length xs < length ys \<longleftrightarrow> xs < ys"
  "memcmp xs ys (min (length xs) (length ys)) < 0 \<or> memcmp xs ys (min (length xs) (length ys)) = 0 \<and> length xs \<le> length ys \<longleftrightarrow> xs \<le> ys"
  by (induction xs ys rule: list_induct2') (auto simp: less_char_def)

lemma sp_memcmp_chars: "sp_memcmp p x = memcmp (sp_chars p) (sp_chars x) (min (length (sp_chars p)) (length (sp_chars x)))"
  by (simp add: sp_memcmp_def sp_length_def min_def)

lemma sp_less_chars: "sp_less p x \<longleftrightarrow> sp_chars p < sp_chars x"
  using memcmp_lexicographic(1) by (simp add: sp_less_def sp_memcmp_chars sp_length_def)

lemma sp_less_eq_chars: "sp_less_eq p x \<longleftrightarrow> sp_chars p \<le> sp_chars x"
  using memcmp_lexicographic(2) by (simp add: sp_less_eq_def sp_memcmp_chars sp_length_def)

instantiation StringPiece :: linorder
begin

definition less_StringPiece :: "StringPiece \<Rightarrow> StringPiece \<Rightarrow> bool" where
  "less_StringPiece = sp_less"

definition less_eq_StringPiece :: "StringPiece \<Rightarrow> StringPiece \<Rightarrow> bool" where
  "less_eq_StringPiece = sp_less_eq"

instance
proof
  fix p x y :: StringPiece
  show "p < x \<longleftrightarrow> p \<le> x \<and> \<not> x \<le> p" by (auto simp: less_StringPiece_def less_eq_StringPiece_def sp_less_chars sp_less_eq_chars)
  show "p \<le> p" by (simp add: less_eq_StringPiece_def sp_less_eq_chars)
  show "p \<le> x \<Longrightarrow> x \<le> y \<Longrightarrow> p \<le> y" by (simp add: less_eq_StringPiece_def sp_less_eq_chars)
  show "p \<le> x \<Longrightarrow> x \<le> p \<Longrightarrow> p = x" by (simp add: less_eq_StringPiece_def sp_less_eq_chars StringPiece.expand)
  show "p \<le> x \<or> x \<le> p" by (auto simp: less_eq_StringPiece_def sp_less_eq_chars)
qed

end

lemma memcmp_zero: "n \<le> length xs \<Longrightarrow> n \<le> length ys \<Longrightarrow> memcmp xs ys n = 0 \<longleftrightarrow> take n xs = take n ys"
  by (induction xs ys n rule: memcmp.induct) auto

lemma memcmp_swap: "memcmp ys xs n = - memcmp xs ys n"
  by (induction xs ys n rule: memcmp.induct) auto

lemma sp_memcmp_swap: "sp_memcmp x p = - sp_memcmp p x"
  unfolding sp_memcmp_chars by (subst memcmp_swap) (simp add: min.commute)

text \<open>The comparison operators of StringPiece: all six of them, and compare, agree with the lexicographic order of the
  referred strings by unsigned characters, which is total; equality holds exactly for equal contents, and
  starts_with is the prefix relation.\<close>

theorem string_piece_order:
  "(sp_less p x \<longleftrightarrow> sp_chars p < sp_chars x) \<and> (sp_less_eq p x \<longleftrightarrow> sp_chars p \<le> sp_chars x)
   \<and> (sp_greater p x \<longleftrightarrow> sp_chars x < sp_chars p) \<and> (sp_greater_eq p x \<longleftrightarrow> sp_chars x \<le> sp_chars p)
   \<and> (sp_equal p x \<longleftrightarrow> sp_chars p = sp_chars x)
   \<and> (sp_compare p x < 0 \<longleftrightarrow> sp_chars p < sp_chars x) \<and> (sp_compare p x = 0 \<longleftrightarrow> sp_chars p = sp_chars x)
   \<and> (starts_with p x \<longleftrightarrow> (\<exists>t. sp_chars p = sp_chars x @ t))"
proof -
  have g: "sp_greater p x \<longleftrightarrow> sp_less x p" "sp_greater_eq p x \<longleftrightarrow> sp_less_eq x p"
    by (auto simp: sp_greater_def sp_greater_eq_def sp_less_def sp_less_eq_def sp_memcmp_swap [of x p])
  have e: "sp_equal p x \<longleftrightarrow> sp_chars p = sp_chars x"
    using memcmp_zero [of "length (sp_chars p)" "sp_chars p" "sp_chars x"] by (auto simp: sp_equal_def sp_length_def)
  have c: "sp_compare p x < 0 \<longleftrightarrow> sp_less p x" by (auto simp: sp_compare_def sp_less_def Let_def)
  have z: "sp_compare p x = 0 \<longleftrightarrow> sp_chars p = sp_chars x"
    using e by (auto simp: sp_compare_def sp_equal_def sp_memcmp_def Let_def)
  have s: "starts_with p x \<longleftrightarrow> (\<exists>t. sp_chars p = sp_chars x @ t)"
  proof (cases "length (sp_chars x) \<le> length (sp_chars p)")
    case True
    then have "starts_with p x \<longleftrightarrow> take (length (sp_chars x)) (sp_chars p) = sp_chars x"
      using memcmp_zero [of "length (sp_chars x)" "sp_chars p" "sp_chars x"] by (simp add: starts_with_def sp_length_def)
    then show ?thesis by (metis append_eq_conv_conj append_take_drop_id)
  next
    case False
    then show ?thesis by (auto simp: starts_with_def sp_length_def)
  qed
  show ?thesis using g e c z s by (simp add: sp_less_chars sp_less_eq_chars)
qed

text \<open>A piece that is cut out of a string by setting it on a prefix and removing a prefix and a suffix copies out exactly
  the characters in between, and is different from another piece exactly if the copies differ; cutting too much is out of range.\<close>

theorem string_piece_slice:
  assumes "n \<le> length s"
  shows "bindo (sp_set s (int n)) (\<lambda>p. bindo (remove_prefix (int i) p) (remove_suffix (int k))) =
      (if i + k \<le> n then Ret (StringPiece (take (n - i - k) (drop i s)))
       else Abort (Undefined (if i \<le> n then ''length_ -= n'' else ''ptr_ += n'')))"
    and "sp_not_equal p q \<longleftrightarrow> CopyToString p t \<noteq> as_string q"
    and "length s < 2 ^ 31 \<Longrightarrow> sp_set s (int (length s)) = sp_of_string s"
proof -
  have set: "sp_set s (int n) = Ret (StringPiece (take n s))" using assms by (simp add: sp_set_def)
  have pre: "remove_prefix (int i) (StringPiece (take n s)) = (if i \<le> n then Ret (StringPiece (take (n - i) (drop i s))) else Abort (Undefined ''ptr_ += n''))"
    using assms by (simp add: remove_prefix_def sp_length_def drop_take)
  have len: "sp_length (StringPiece (take (n - i) (drop i s))) = int (n - i)" using assms by (simp add: sp_length_def)
  have suf: "remove_suffix (int k) (StringPiece (take (n - i) (drop i s))) =
      (if k \<le> n - i then Ret (StringPiece (take (n - i - k) (drop i s))) else Abort (Undefined ''length_ -= n''))"
    unfolding remove_suffix_def len by (simp add: nat_diff_distrib' min_def)
  show "bindo (sp_set s (int n)) (\<lambda>p. bindo (remove_prefix (int i) p) (remove_suffix (int k))) =
      (if i + k \<le> n then Ret (StringPiece (take (n - i - k) (drop i s)))
       else Abort (Undefined (if i \<le> n then ''length_ -= n'' else ''ptr_ += n'')))"
    by (simp add: set pre suf le_diff_conv2 add.commute)
  show "sp_not_equal p q \<longleftrightarrow> CopyToString p t \<noteq> as_string q"
    using string_piece_order [of p q] by (simp add: sp_not_equal_def CopyToString_def as_string_def)
  show "length s < 2 ^ 31 \<Longrightarrow> sp_set s (int (length s)) = sp_of_string s"
    by (simp add: sp_set_def sp_of_string_def)
qed

end
