(* ===== verification/Threads.thy ===== *)
theory Threads
  imports Prelude
begin

text \<open>
  \<^verbatim>\<open>muduo/base/Mutex.h\<close>, \<^verbatim>\<open>Condition.h\<close> and \<^verbatim>\<open>Thread.{h,cc}\<close>: the mutex that knows its holder, waiting on a condition, and
  starting a thread.

  The first part interleaves threads at every access to the mutex and to \<^verbatim>\<open>holder_\<close>: \<^verbatim>\<open>lock()\<close> is the acquisition followed by
  \<^verbatim>\<open>attachHolder()\<close>, \<^verbatim>\<open>unlock()\<close> is \<^verbatim>\<open>detachHolder()\<close> followed by the release, and \<^verbatim>\<open>wait()\<close> detaches, gives the mutex up
  while it waits, reacquires it and attaches again. \<open>place\<close> says where a thread is between these. Thread ids are positive.
\<close>

section \<open>The mutex and its holder\<close>

datatype place = Outside | Acquired | Inside | Detached | DetachedToWait | Waiting | Reacquired

record Mutex =
  owner :: "int option"
  holder :: int

definition new_Mutex :: Mutex where
  "new_Mutex = \<lparr>owner = None, holder = 0\<rparr>"

definition isLockedByThisThread :: "int \<Rightarrow> Mutex \<Rightarrow> bool" where
  "isLockedByThisThread tid m \<longleftrightarrow> holder m = tid"

definition assertLocked :: "int \<Rightarrow> Mutex \<Rightarrow> unit outcome" where
  "assertLocked tid m = require (isLockedByThisThread tid m) ''isLockedByThisThread()'' (Ret ())"

definition detachHolder :: "Mutex \<Rightarrow> Mutex" where
  "detachHolder m = m\<lparr>holder := 0\<rparr>"

definition attachHolder :: "int \<Rightarrow> Mutex \<Rightarrow> Mutex" where
  "attachHolder tid m = m\<lparr>holder := tid\<rparr>"

definition delete_Mutex :: "Mutex \<Rightarrow> unit outcome" where
  "delete_Mutex m = require (holder m = 0) ''holder_ == 0'' (Ret ())"

text \<open>\<^verbatim>\<open>pthread_mutex_lock\<close> returns when the mutex is free.\<close>

definition mutex_acquire :: "int \<Rightarrow> Mutex \<Rightarrow> Mutex option" where
  "mutex_acquire tid m = (if owner m = None then Some (m\<lparr>owner := Some tid\<rparr>) else None)"

definition mutex_release :: "Mutex \<Rightarrow> Mutex" where
  "mutex_release m = m\<lparr>owner := None\<rparr>"

text \<open>The next access of a thread at each place; from \<open>Inside\<close> it unlocks or waits, as \<open>wait\<close> says. \<open>None\<close> is being blocked.\<close>

fun mutex_step :: "bool \<Rightarrow> int \<Rightarrow> place \<Rightarrow> Mutex \<Rightarrow> (place \<times> Mutex) option" where
  "mutex_step wait tid Outside m = map_option (Pair Acquired) (mutex_acquire tid m)"
| "mutex_step wait tid Acquired m = Some (Inside, attachHolder tid m)"
| "mutex_step wait tid Inside m = Some (if wait then DetachedToWait else Detached, detachHolder m)"
| "mutex_step wait tid Detached m = Some (Outside, mutex_release m)"
| "mutex_step wait tid DetachedToWait m = Some (Waiting, mutex_release m)"
| "mutex_step wait tid Waiting m = map_option (Pair Reacquired) (mutex_acquire tid m)"
| "mutex_step wait tid Reacquired m = Some (Inside, attachHolder tid m)"

inductive mutex_reach :: "(int \<Rightarrow> place) \<Rightarrow> Mutex \<Rightarrow> bool" where
  start: "mutex_reach (\<lambda>_. Outside) new_Mutex"
| step: "mutex_reach pl m \<Longrightarrow> 0 < tid \<Longrightarrow> mutex_step wait tid (pl tid) m = Some (p, m') \<Longrightarrow> mutex_reach (pl(tid := p)) m'"

text \<open>The places at which a thread owns the mutex.\<close>

definition owning :: "place \<Rightarrow> bool" where
  "owning p \<longleftrightarrow> p \<in> {Acquired, Inside, Detached, DetachedToWait, Reacquired}"

definition mutex_ok :: "(int \<Rightarrow> place) \<Rightarrow> Mutex \<Rightarrow> bool" where
  "mutex_ok pl m \<longleftrightarrow> (\<forall>t. owning (pl t) \<longleftrightarrow> owner m = Some t) \<and> (\<forall>t. t \<le> 0 \<longrightarrow> pl t = Outside)
     \<and> holder m = (case owner m of None \<Rightarrow> 0 | Some t \<Rightarrow> if pl t = Inside then t else 0)"

lemma mutex_ok_owner:
  assumes "mutex_ok pl m"
  shows "owning (pl t) \<longleftrightarrow> owner m = Some t"
  using assms by (simp add: mutex_ok_def)

lemma mutex_ok_step:
  assumes ok: "mutex_ok pl m" and "0 < tid" and st: "mutex_step wait tid (pl tid) m = Some (p, m')"
  shows "mutex_ok (pl(tid := p)) m'"
proof (cases "owning (pl tid)")
  case True
  then have "owner m = Some tid" "\<forall>t. t \<noteq> tid \<longrightarrow> \<not> owning (pl t)" using mutex_ok_owner [OF ok] by auto
  then show ?thesis using ok st \<open>0 < tid\<close> True
    by (cases "pl tid") (auto simp: mutex_ok_def owning_def mutex_release_def attachHolder_def detachHolder_def split: if_splits)
next
  case False
  then have w: "pl tid = Outside \<or> pl tid = Waiting" by (cases "pl tid") (simp_all add: owning_def)
  then have "owner m = None" using st by (auto simp: mutex_acquire_def split: if_splits)
  then have "\<forall>t. \<not> owning (pl t)" using mutex_ok_owner [OF ok] by simp
  then show ?thesis using ok st \<open>0 < tid\<close> w \<open>owner m = None\<close>
    by (auto simp: mutex_ok_def owning_def mutex_acquire_def split: if_splits)
qed

lemma mutex_ok_inside:
  assumes ok: "mutex_ok pl m"
  shows "pl t = Inside \<longleftrightarrow> 0 < t \<and> holder m = t" and "0 \<le> holder m"
proof -
  have pos: "pl t = Inside \<Longrightarrow> 0 < t" for t using ok by (force simp: mutex_ok_def not_le [symmetric])
  have "pl t = Inside \<Longrightarrow> holder m = t" for t
    using ok mutex_ok_owner [OF ok, of t] by (simp add: mutex_ok_def owning_def)
  moreover have "holder m = t \<Longrightarrow> 0 < t \<Longrightarrow> pl t = Inside" for t
    using ok by (auto simp: mutex_ok_def split: option.splits if_splits)
  ultimately show "pl t = Inside \<longleftrightarrow> 0 < t \<and> holder m = t" using pos by blast
  show "0 \<le> holder m" using ok pos by (auto simp: mutex_ok_def less_imp_le split: option.splits)
qed

lemma mutex_ok_reach: "mutex_reach pl m \<Longrightarrow> mutex_ok pl m"
proof (induction rule: mutex_reach.induct)
  case start
  then show ?case by (simp add: mutex_ok_def owning_def new_Mutex_def)
qed (rule mutex_ok_step)

text \<open>C29: Mutex and Condition: in every interleaving of threads that lock, unlock and wait, two threads are never between lock
  and unlock at once, waiting excluded; the recorded holder is a thread exactly while it is between the two, so that
  assertLocked succeeds for the holder and fails for every other thread; and the destructor's
  assertion holds exactly when no thread is inside.\<close>

theorem mutex_holder_exact:
  assumes "mutex_reach pl m"
  shows "(pl t = Inside \<and> pl u = Inside \<longrightarrow> t = u) \<and> (0 < t \<longrightarrow> (isLockedByThisThread t m \<longleftrightarrow> pl t = Inside))
    \<and> (0 < t \<longrightarrow> (returns (assertLocked t m) \<longleftrightarrow> pl t = Inside)) \<and> (returns (delete_Mutex m) \<longleftrightarrow> (\<forall>v. pl v \<noteq> Inside))"
proof -
  note ok = mutex_ok_reach [OF assms]
  note inside = mutex_ok_inside(1) [OF ok]
  have "holder m = 0 \<longleftrightarrow> (\<forall>v. pl v \<noteq> Inside)" using mutex_ok_inside(2) [OF ok] by (auto simp: inside less_le)
  then show ?thesis
    by (auto simp: inside isLockedByThisThread_def assertLocked_def delete_Mutex_def returns_require)
qed

theorem mutex_holder_exact_witness:
  "\<exists>pl m. mutex_reach pl m \<and> pl 7 = Inside \<and> returns (assertLocked 7 m) \<and> \<not> returns (assertLocked 8 m)"
proof -
  let ?m1 = "\<lparr>owner = Some 7, holder = 0\<rparr>" and ?m2 = "\<lparr>owner = Some 7, holder = 7\<rparr>"
  have "mutex_reach ((\<lambda>_. Outside)(7 := Acquired)) ?m1"
    by (rule mutex_reach.step [OF mutex_reach.start, of 7 False]) (simp_all add: mutex_acquire_def new_Mutex_def)
  then have m: "mutex_reach (((\<lambda>_. Outside)(7 := Acquired))(7 := Inside)) ?m2"
    by (rule mutex_reach.step [of _ _ 7 False]) (simp_all add: attachHolder_def)
  have i: "(((\<lambda>_. Outside)(7 := Acquired))(7 := Inside)) (7 :: int) = Inside"
    "(((\<lambda>_. Outside)(7 := Acquired))(7 := Inside)) (8 :: int) \<noteq> Inside" by simp_all
  have "returns (assertLocked 7 ?m2)" "\<not> returns (assertLocked 8 ?m2)"
    using mutex_holder_exact [OF m, of 7 7] mutex_holder_exact [OF m, of 8 8] i by simp_all
  then show ?thesis using m i(1) by blast
qed

section \<open>Threads\<close>

record Thread =
  th_started :: bool
  joined :: bool
  th_tid :: int
  th_name :: string

text \<open>\<open>num\<close> is the value \<^verbatim>\<open>numCreated_\<close> was incremented to.\<close>

definition setDefaultName :: "int \<Rightarrow> Thread \<Rightarrow> Thread" where
  "setDefaultName num t = (if th_name t = '''' then t\<lparr>th_name := snprintf 32 (''Thread'' @ dec_int num)\<rparr> else t)"

definition new_Thread :: "string \<Rightarrow> int \<Rightarrow> Thread" where
  "new_Thread name num = setDefaultName num \<lparr>th_started = False, joined = False, th_tid = 0, th_name = name\<rparr>"

text \<open>The start handshake: the parent in \<^verbatim>\<open>start()\<close> waits on the latch, the child stores its id and counts the latch down before
  it runs the thread's function.\<close>

datatype parent = Starting | WaitingForChild | Started | StartFailed
datatype child = NotCreated | Created | TidStored | CountedDown | Finished

record handshake =
  thr :: Thread
  parent_at :: parent
  child_at :: child
  latch :: int

inductive thread_step :: "int \<Rightarrow> handshake \<Rightarrow> handshake outcome \<Rightarrow> bool" for tid where
  create_ok: "parent_at h = Starting \<Longrightarrow>
    thread_step tid h (require (\<not> th_started (thr h)) ''!started_''
      (Ret (h\<lparr>thr := (thr h)\<lparr>th_started := True\<rparr>, parent_at := WaitingForChild, child_at := Created\<rparr>)))"
| create_fails: "parent_at h = Starting \<Longrightarrow>
    thread_step tid h (require (\<not> th_started (thr h)) ''!started_'' (Ret (h\<lparr>thr := (thr h)\<lparr>th_started := False\<rparr>, parent_at := StartFailed\<rparr>)))"
| child_tid: "child_at h = Created \<Longrightarrow> thread_step tid h (Ret (h\<lparr>thr := (thr h)\<lparr>th_tid := tid\<rparr>, child_at := TidStored\<rparr>))"
| child_counts: "child_at h = TidStored \<Longrightarrow> thread_step tid h (Ret (h\<lparr>latch := latch h - 1, child_at := CountedDown\<rparr>))"
| child_ends: "child_at h = CountedDown \<Longrightarrow> thread_step tid h (Ret (h\<lparr>child_at := Finished\<rparr>))"
| latch_opens: "parent_at h = WaitingForChild \<Longrightarrow> latch h \<le> 0 \<Longrightarrow>
    thread_step tid h (require (th_tid (thr h) > 0) ''tid_ > 0'' (Ret (h\<lparr>parent_at := Started\<rparr>)))"

definition Thread_join :: "int \<Rightarrow> Thread \<Rightarrow> (int \<times> Thread) outcome" where
  "Thread_join result t = require (th_started t) ''started_'' (require (\<not> joined t) ''!joined_'' (Ret (result, t\<lparr>joined := True\<rparr>)))"

text \<open>Whether the destructor detaches the thread.\<close>

definition delete_Thread :: "Thread \<Rightarrow> bool" where
  "delete_Thread t \<longleftrightarrow> th_started t \<and> \<not> joined t"

text \<open>The rest of \<^verbatim>\<open>runInThread\<close>: how the thread's function ends decides the thread's last name, what is written to
  \<^verbatim>\<open>stderr\<close>, and whether the process goes on.\<close>

datatype func_end =
    Normal
  | MuduoException string string
  | StdException string
  | OtherException

text \<open>The results are the name of the thread while the function runs, its name afterwards, the lines on \<^verbatim>\<open>stderr\<close>, and how the thread ends.\<close>

definition runInThread_func :: "string \<Rightarrow> func_end \<Rightarrow> string \<times> string \<times> string list \<times> unit outcome" where
  "runInThread_func name e = (if name = '''' then ''Thread'' else name, (case e of
       Normal \<Rightarrow> (''finished'', [], Ret ())
     | MuduoException what trace \<Rightarrow> (''crashed'',
         [''exception caught in Thread '' @ name, ''reason: '' @ what, ''stack trace: '' @ trace], Abort (Fatal ''abort''))
     | StdException what \<Rightarrow> (''crashed'', [''exception caught in Thread '' @ name, ''reason: '' @ what], Abort (Fatal ''abort''))
     | OtherException \<Rightarrow> (''crashed'', [''unknown exception caught in Thread '' @ name], Abort (Throw ''rethrown''))))"

text \<open>\<^verbatim>\<open>CurrentThread\<close>: the thread-local cache of the kernel's thread id and of its text, \<open>gettid\<close> being the id the kernel
  would answer with; \<^verbatim>\<open>afterFork\<close> refreshes it in the only thread of a forked child.\<close>

record CurrentThread =
  t_cachedTid :: int
  t_tidString :: string
  t_tidStringLength :: nat
  t_threadName :: string

definition tid_text :: "int \<Rightarrow> string" where
  "tid_text n = (let d = dec_int n in replicate (5 - length d) (CHR '' '') @ d @ '' '')"

definition cachedTid :: "int \<Rightarrow> CurrentThread \<Rightarrow> CurrentThread" where
  "cachedTid gettid c = (if t_cachedTid c = 0
     then c\<lparr>t_cachedTid := gettid, t_tidString := snprintf 32 (tid_text gettid), t_tidStringLength := length (tid_text gettid)\<rparr>
     else c)"

definition CurrentThread_tid :: "int \<Rightarrow> CurrentThread \<Rightarrow> int \<times> CurrentThread" where
  "CurrentThread_tid gettid c = (let c = (if t_cachedTid c = 0 then cachedTid gettid c else c) in (t_cachedTid c, c))"

definition afterFork :: "int \<Rightarrow> CurrentThread \<Rightarrow> CurrentThread" where
  "afterFork gettid c = snd (CurrentThread_tid gettid (c\<lparr>t_cachedTid := 0, t_threadName := ''main''\<rparr>))"

definition isMainThread :: "int \<Rightarrow> int \<Rightarrow> CurrentThread \<Rightarrow> bool" where
  "isMainThread getpid gettid c \<longleftrightarrow> fst (CurrentThread_tid gettid c) = getpid"

text \<open>The \<^verbatim>\<open>timespec\<close> that \<^verbatim>\<open>sleepUsec\<close> passes to \<^verbatim>\<open>nanosleep\<close>.\<close>

definition sleepUsec :: "int \<Rightarrow> int \<times> int" where
  "sleepUsec usec = (usec sdiv kMicroSecondsPerSecond, (usec smod kMicroSecondsPerSecond) * 1000)"

text \<open>The cache is either empty or holds the kernel's answer with its text.\<close>

definition tid_cache_ok :: "int \<Rightarrow> CurrentThread \<Rightarrow> bool" where
  "tid_cache_ok gettid c \<longleftrightarrow> t_cachedTid c = 0 \<or>
     t_cachedTid c = gettid \<and> t_tidString c = snprintf 32 (tid_text gettid) \<and> t_tidStringLength c = length (tid_text gettid)"

lemma CurrentThread_tid_cached:
  assumes "tid_cache_ok gettid c" and "gettid \<noteq> 0"
  shows "fst (CurrentThread_tid gettid c) = gettid" and "tid_cache_ok gettid (snd (CurrentThread_tid gettid c))"
    and "CurrentThread_tid gettid (snd (CurrentThread_tid gettid c)) = CurrentThread_tid gettid c"
  using assms by (auto simp: tid_cache_ok_def CurrentThread_tid_def cachedTid_def Let_def)

text \<open>A forked child does not keep the id of its parent.\<close>

lemma afterFork_refreshes:
  assumes "gettid \<noteq> 0"
  shows "tid_cache_ok gettid (afterFork gettid c)" and "t_cachedTid (afterFork gettid c) = gettid"
  by (simp_all add: tid_cache_ok_def afterFork_def CurrentThread_tid_def cachedTid_def Let_def)

lemma sleepUsec_valid:
  assumes "0 \<le> usec"
  shows "fst (sleepUsec usec) * 1000000000 + snd (sleepUsec usec) = usec * 1000"
    and "0 \<le> snd (sleepUsec usec) \<and> snd (sleepUsec usec) < 1000000000"
proof -
  have e: "sleepUsec usec = (usec div 1000000, usec mod 1000000 * 1000)"
    using assms by (cases "usec = 0") (simp_all add: sleepUsec_def kMicroSecondsPerSecond_def signed_divide_int_def signed_modulo_int_def)
  show "fst (sleepUsec usec) * 1000000000 + snd (sleepUsec usec) = usec * 1000"
    unfolding e fst_conv snd_conv by presburger
  show "0 \<le> snd (sleepUsec usec) \<and> snd (sleepUsec usec) < 1000000000"
    unfolding e by simp
qed

inductive thread_reach :: "int \<Rightarrow> string \<Rightarrow> int \<Rightarrow> handshake \<Rightarrow> bool" for tid name num where
  init: "thread_reach tid name num \<lparr>thr = new_Thread name num, parent_at = Starting, child_at = NotCreated, latch = 1\<rparr>"
| step: "thread_reach tid name num h \<Longrightarrow> thread_step tid h (Ret h') \<Longrightarrow> thread_reach tid name num h'"

definition handshake_ok :: "int \<Rightarrow> handshake \<Rightarrow> bool" where
  "handshake_ok tid h \<longleftrightarrow> (parent_at h = Starting \<longrightarrow> \<not> th_started (thr h) \<and> child_at h = NotCreated)
     \<and> (parent_at h = StartFailed \<longrightarrow> child_at h = NotCreated \<and> \<not> th_started (thr h))
     \<and> (child_at h \<noteq> NotCreated \<longrightarrow> th_started (thr h))
     \<and> (parent_at h = WaitingForChild \<or> parent_at h = Started \<longrightarrow> child_at h \<noteq> NotCreated)
     \<and> (child_at h \<in> {TidStored, CountedDown, Finished} \<longrightarrow> th_tid (thr h) = tid)
     \<and> (latch h = (if child_at h \<in> {CountedDown, Finished} then 0 else 1))
     \<and> (parent_at h = Started \<longrightarrow> child_at h \<in> {CountedDown, Finished})"

lemma handshake_ok_step:
  assumes "thread_step tid h r" and "handshake_ok tid h" and "0 < tid"
  shows "\<exists>h'. r = Ret h' \<and> handshake_ok tid h'"
  using assms
proof (cases rule: thread_step.cases)
  case latch_opens
  then have "child_at h \<in> {CountedDown, Finished}" using assms(2) by (auto simp: handshake_ok_def split: if_splits)
  then show ?thesis using latch_opens assms(2,3) by (auto simp: handshake_ok_def)
qed (auto simp: handshake_ok_def)

text \<open>No assertion of \<^verbatim>\<open>start()\<close> fails, when it returns the id of the new thread is known and the thread can be joined once,
  and a parent waiting for the latch is never stuck: the child or the parent itself has a step.\<close>

lemma thread_start_handshake:
  assumes "thread_reach tid name num h" and "0 < tid"
  shows "\<forall>r. thread_step tid h r \<longrightarrow> returns r"
    and "parent_at h = Started \<Longrightarrow> th_tid (thr h) = tid \<and> th_started (thr h)"
    and "parent_at h = WaitingForChild \<Longrightarrow> \<exists>h'. thread_step tid h (Ret h')"
proof -
  have ok: "handshake_ok tid h" using assms(1)
  proof (induction rule: thread_reach.induct)
    case init
    then show ?case by (simp add: handshake_ok_def new_Thread_def setDefaultName_def)
  next
    case (step h h')
    then show ?case using handshake_ok_step [OF step(2) step.IH assms(2)] by blast
  qed
  show safe: "\<forall>r. thread_step tid h r \<longrightarrow> returns r"
  proof (intro allI impI)
    fix r assume "thread_step tid h r"
    then show "returns r" using handshake_ok_step [OF _ ok assms(2)] by (auto simp: returns_iff)
  qed
  show "parent_at h = Started \<Longrightarrow> th_tid (thr h) = tid \<and> th_started (thr h)"
    using ok unfolding handshake_ok_def by auto
  assume w: "parent_at h = WaitingForChild"
  have "\<exists>r. thread_step tid h r"
  proof (cases "latch h \<le> 0")
    case True
    then show ?thesis using thread_step.latch_opens [OF w] by blast
  next
    case False
    then have "child_at h = Created \<or> child_at h = TidStored"
      using ok w by (cases "child_at h") (simp_all add: handshake_ok_def)
    then show ?thesis using thread_step.child_tid thread_step.child_counts by blast
  qed
  then show "\<exists>h'. thread_step tid h (Ret h')" using safe by (metis returns_iff)
qed

lemma Thread_join_once:
  assumes "th_started t" and "\<not> joined t"
  shows "\<exists>t'. Thread_join r t = Ret (r, t') \<and> \<not> returns (Thread_join r' t') \<and> \<not> delete_Thread t'"
  using assms by (simp add: Thread_join_def delete_Thread_def)

end
