(* ===== verification/Traces.thy ===== *)
theory Traces
  imports Threads
begin

text \<open>
  \<^verbatim>\<open>muduo/base/CurrentThread.cc\<close>, \<^verbatim>\<open>Exception.{h,cc}\<close> and the exception handlers of \<^verbatim>\<open>ThreadPool::runInThread\<close>: stack traces, the exception that
  carries one, and what becomes of an exception thrown by a task.

  \<open>symbols\<close> are the lines \<^verbatim>\<open>backtrace_symbols\<close> gives for the frames of the stack, \<open>None\<close> when it fails; \<open>cxa_demangle\<close> is the demangler of
  the C++ runtime, \<open>None\<close> when its status is not 0.
\<close>

section \<open>Stack traces\<close>

definition max_frames :: nat where "max_frames = 200"

text \<open>The scan for the last opening parenthesis and the last plus sign, \<open>i\<close> being the position.\<close>

fun scan_symbol :: "nat \<Rightarrow> nat option \<Rightarrow> nat option \<Rightarrow> string \<Rightarrow> nat option \<times> nat option" where
  "scan_symbol i left_par plus1 [] = (left_par, plus1)"
| "scan_symbol i left_par plus1 (c # cs) =
     (if c = CHR ''('' then scan_symbol (i + 1) (Some i) plus1 cs
      else if c = CHR ''+'' then scan_symbol (i + 1) left_par (Some i) cs
      else scan_symbol (i + 1) left_par plus1 cs)"

text \<open>The text handed to the demangler ends at the plus sign, which is overwritten for the call, if that comes after the parenthesis.\<close>

definition mangled_name :: "nat \<Rightarrow> nat \<Rightarrow> string \<Rightarrow> string" where
  "mangled_name left_par plus1 s = (if left_par < plus1 then drop (left_par + 1) (take plus1 s) else drop (left_par + 1) s)"

definition trace_line :: "(string \<Rightarrow> string option) \<Rightarrow> bool \<Rightarrow> string \<Rightarrow> string" where
  "trace_line cxa_demangle demangle s =
     (case (demangle, scan_symbol 0 None None s) of
        (True, Some left_par, Some plus1) \<Rightarrow>
          (case cxa_demangle (mangled_name left_par plus1 s) of
             Some demangled \<Rightarrow> take (left_par + 1) s @ demangled @ drop plus1 s @ [CHR 0x0A]
           | None \<Rightarrow> s @ [CHR 0x0A])
      | _ \<Rightarrow> s @ [CHR 0x0A])"

definition stackTrace :: "(string \<Rightarrow> string option) \<Rightarrow> bool \<Rightarrow> string list option \<Rightarrow> string" where
  "stackTrace cxa_demangle demangle symbols =
     (case symbols of
        None \<Rightarrow> []
      | Some strings \<Rightarrow> concat (map (trace_line cxa_demangle demangle) (drop 1 (take max_frames strings))))"

record Exception =
  ex_message :: string
  ex_stack :: string

definition new_Exception :: "(string \<Rightarrow> string option) \<Rightarrow> string list option \<Rightarrow> string \<Rightarrow> Exception" where
  "new_Exception cxa_demangle symbols msg = \<lparr>ex_message = msg, ex_stack = stackTrace cxa_demangle False symbols\<rparr>"

definition plain :: "string \<Rightarrow> bool" where
  "plain s \<longleftrightarrow> CHR ''('' \<notin> set s \<and> CHR ''+'' \<notin> set s"

lemma scan_symbol_plain: "plain s \<Longrightarrow> scan_symbol i lp pl (s @ t) = scan_symbol (i + length s) lp pl t"
  by (induction s arbitrary: i) (auto simp: plain_def)

lemma scan_symbol_ends: "plain s \<Longrightarrow> scan_symbol i lp pl s = (lp, pl)"
  using scan_symbol_plain [of s i lp pl "[]"] by simp

lemma scan_symbol_skip: "\<exists>lp' pl'. scan_symbol i lp pl (m @ t) = scan_symbol (i + length m) lp' pl' t"
proof (induction m arbitrary: i lp pl)
  case (Cons c m)
  have i: "i + length (c # m) = Suc i + length m" by simp
  show ?case unfolding i using Cons.IH [of "Suc i"] by simp
qed auto

text \<open>The format of the symbols: the module, which may hold any characters, then the mangled name and the offset in parentheses.\<close>

lemma trace_line_symbol:
  assumes "plain fn" and "plain rest"
  shows "trace_line cxa_demangle True (m @ ''('' @ fn @ ''+'' @ rest) =
    m @ ''('' @ (case cxa_demangle fn of Some d \<Rightarrow> d | None \<Rightarrow> fn) @ ''+'' @ rest @ [CHR 0x0A]"
proof -
  obtain lp pl where "scan_symbol 0 None None (m @ ''('' @ fn @ ''+'' @ rest) = scan_symbol (length m) lp pl (''('' @ fn @ ''+'' @ rest)"
    using scan_symbol_skip [of 0 None None m] by (metis add_0)
  then have "scan_symbol 0 None None (m @ ''('' @ fn @ ''+'' @ rest) = (Some (length m), Some (length m + length fn + 1))"
    using assms by (simp add: scan_symbol_plain scan_symbol_ends add.commute add.left_commute)
  then show ?thesis by (simp add: trace_line_def mangled_name_def split: option.splits)
qed

text \<open>Without a name between the parentheses, or without parentheses, the line is kept.\<close>

lemma trace_line_raw: "trace_line cxa_demangle False s = s @ [CHR 0x0A]" "(\<And>x. cxa_demangle x = None) \<Longrightarrow> trace_line cxa_demangle True s = s @ [CHR 0x0A]"
  by (auto simp: trace_line_def split: option.splits prod.splits)

text \<open>A trace of well-formed symbols: one line for each of the first two hundred frames but the first, each with its name made readable
  where the runtime can, and otherwise as it is.\<close>

theorem stack_trace_lines:
  assumes "\<forall>(m, fn, rest)\<in>set frames. plain fn \<and> plain rest"
  shows "stackTrace cxa_demangle True (Some (map (\<lambda>(m, fn, rest). m @ ''('' @ fn @ ''+'' @ rest) frames)) =
      concat (map (\<lambda>(m, fn, rest). m @ ''('' @ (case cxa_demangle fn of Some d \<Rightarrow> d | None \<Rightarrow> fn) @ ''+'' @ rest @ [CHR 0x0A]) (drop 1 (take 200 frames)))"
proof -
  let ?f = "\<lambda>(m, fn, rest). m @ ''('' @ fn @ ''+'' @ rest"
    and ?g = "\<lambda>(m, fn, rest). m @ ''('' @ (case cxa_demangle fn of Some d \<Rightarrow> d | None \<Rightarrow> fn) @ ''+'' @ rest @ [CHR 0x0A]"
  have "trace_line cxa_demangle True (?f x) = ?g x" if "x \<in> set (drop 1 (take 200 frames))" for x
  proof -
    obtain m fn rest where x: "x = (m, fn, rest)" by (cases x)
    then have "plain fn" "plain rest" using assms that by (auto dest!: in_set_dropD in_set_takeD)
    then show ?thesis using trace_line_symbol [of fn rest cxa_demangle m] unfolding x by simp
  qed
  then have "map (trace_line cxa_demangle True \<circ> ?f) (drop 1 (take 200 frames)) = map ?g (drop 1 (take 200 frames))" by simp
  then show ?thesis unfolding stackTrace_def max_frames_def option.case take_map drop_map map_map by (rule arg_cong)
qed

section \<open>Exceptions in a thread pool\<close>

text \<open>A worker of a pool: the initialisation callback, if set, and the tasks it takes until the pool stops (\<open>None\<close> is the empty task of a
  stopped pool), each with how it ends. The results are how many tasks were begun, the lines on \<^verbatim>\<open>stderr\<close>, and how the function of the
  thread ends.\<close>

fun run_tasks :: "func_end option list \<Rightarrow> nat \<times> func_end" where
  "run_tasks [] = (0, Normal)"
| "run_tasks (None # ts) = run_tasks ts"
| "run_tasks (Some Normal # ts) = (let (n, e) = run_tasks ts in (Suc n, e))"
| "run_tasks (Some e # ts) = (1, e)"

definition pool_handlers :: "string \<Rightarrow> func_end \<Rightarrow> string list \<times> func_end option" where
  "pool_handlers name e =
     (case e of
        Normal \<Rightarrow> ([], Some Normal)
      | MuduoException what trace \<Rightarrow> ([''exception caught in ThreadPool '' @ name, ''reason: '' @ what, ''stack trace: '' @ trace], None)
      | StdException what \<Rightarrow> ([''exception caught in ThreadPool '' @ name, ''reason: '' @ what], None)
      | OtherException \<Rightarrow> ([''unknown exception caught in ThreadPool '' @ name], Some OtherException))"

definition pool_runInThread :: "string \<Rightarrow> func_end option \<Rightarrow> func_end option list \<Rightarrow> nat \<times> string list \<times> func_end option" where
  "pool_runInThread name threadInitCallback tasks =
     (case threadInitCallback of
        Some e \<Rightarrow> if e = Normal then let (n, e) = run_tasks tasks in (n, pool_handlers name e) else (0, pool_handlers name e)
      | None \<Rightarrow> let (n, e) = run_tasks tasks in (n, pool_handlers name e))"

text \<open>The worker as the function of its thread, whose handlers get what the pool's let through; \<open>None\<close> is \<^verbatim>\<open>abort\<close>.\<close>

definition pool_thread :: "string \<Rightarrow> string \<Rightarrow> func_end option \<Rightarrow> func_end option list \<Rightarrow> nat \<times> string list \<times> unit outcome" where
  "pool_thread thread_name name threadInitCallback tasks =
     (case pool_runInThread name threadInitCallback tasks of
        (n, out, None) \<Rightarrow> (n, out, Abort (Fatal ''abort''))
      | (n, out, Some e) \<Rightarrow> (case runInThread_func thread_name e of (_, _, out', r) \<Rightarrow> (n, out @ out', r)))"

lemma run_tasks_normal: "run_tasks ts = (length (filter (\<lambda>t. t \<noteq> None) ts), Normal)" if "\<forall>e. Some e \<in> set ts \<longrightarrow> e = Normal"
  using that by (induction ts rule: run_tasks.induct) auto

lemma run_tasks_first:
  assumes "\<forall>e. Some e \<in> set ts \<longrightarrow> e = Normal" and "e \<noteq> Normal"
  shows "run_tasks (ts @ Some e # us) = (length (filter (\<lambda>t. t \<noteq> None) ts) + 1, e)"
  using assms by (induction ts rule: run_tasks.induct) (cases e; auto)+

text \<open>Tasks that return normally all run, in order, and the thread ends quietly; the first exception ends the process after the tasks before it, with
  a report by the pool, and one more by the thread for an exception of an unknown type.\<close>

theorem pool_exceptions:
  assumes "\<forall>e. Some e \<in> set ts \<longrightarrow> e = Normal"
  shows "pool_thread tn name None ts = (length (filter (\<lambda>t. t \<noteq> None) ts), [], Ret ())"
    and "e \<noteq> Normal \<Longrightarrow> fst (pool_thread tn name None (ts @ Some e # us)) = length (filter (\<lambda>t. t \<noteq> None) ts) + 1
      \<and> \<not> returns (snd (snd (pool_thread tn name None (ts @ Some e # us))))"
    and "fst (snd (pool_thread tn name None (ts @ Some OtherException # us)))
      = [''unknown exception caught in ThreadPool '' @ name, ''unknown exception caught in Thread '' @ tn]"
proof -
  show "pool_thread tn name None ts = (length (filter (\<lambda>t. t \<noteq> None) ts), [], Ret ())"
    by (simp add: pool_thread_def pool_runInThread_def run_tasks_normal [OF assms] pool_handlers_def runInThread_func_def)
  show "e \<noteq> Normal \<Longrightarrow> fst (pool_thread tn name None (ts @ Some e # us)) = length (filter (\<lambda>t. t \<noteq> None) ts) + 1
      \<and> \<not> returns (snd (snd (pool_thread tn name None (ts @ Some e # us))))"
    by (cases e) (simp_all add: pool_thread_def pool_runInThread_def run_tasks_first [OF assms] pool_handlers_def runInThread_func_def)
  show "fst (snd (pool_thread tn name None (ts @ Some OtherException # us)))
      = [''unknown exception caught in ThreadPool '' @ name, ''unknown exception caught in Thread '' @ tn]"
    by (simp add: pool_thread_def pool_runInThread_def run_tasks_first [OF assms] pool_handlers_def runInThread_func_def)
qed

end
