(* ===== verification/Units.thy ===== *)
theory Units
  imports Doubles
begin

text \<open>
  Code of the base library that computes with doubles: \<^verbatim>\<open>formatSI\<close> and \<^verbatim>\<open>formatIEC\<close> of \<^verbatim>\<open>muduo/base/LogStream.cc\<close>, the time
  arithmetic \<^verbatim>\<open>timeDifference\<close> and \<^verbatim>\<open>addTime\<close> of \<^verbatim>\<open>muduo/base/Timestamp.h\<close>, and the deadline of
  \<^verbatim>\<open>Condition::waitForSeconds\<close> in \<^verbatim>\<open>muduo/base/Condition.cc\<close>.
\<close>

section \<open>Numbers with units\<close>

definition formatSI :: "int \<Rightarrow> string" where
  "formatSI s =
     (let n = double_of_int s
      in snprintf 64
       (if s < 1000 then dec_int s
        else if s < 9995 then printf_f 2 (ddiv n (10 ^ 3)) @ ''k''
        else if s < 99950 then printf_f 1 (ddiv n (10 ^ 3)) @ ''k''
        else if s < 999500 then printf_f 0 (ddiv n (10 ^ 3)) @ ''k''
        else if s < 9995000 then printf_f 2 (ddiv n (10 ^ 6)) @ ''M''
        else if s < 99950000 then printf_f 1 (ddiv n (10 ^ 6)) @ ''M''
        else if s < 999500000 then printf_f 0 (ddiv n (10 ^ 6)) @ ''M''
        else if s < 9995000000 then printf_f 2 (ddiv n (10 ^ 9)) @ ''G''
        else if s < 99950000000 then printf_f 1 (ddiv n (10 ^ 9)) @ ''G''
        else if s < 999500000000 then printf_f 0 (ddiv n (10 ^ 9)) @ ''G''
        else if s < 9995000000000 then printf_f 2 (ddiv n (10 ^ 12)) @ ''T''
        else if s < 99950000000000 then printf_f 1 (ddiv n (10 ^ 12)) @ ''T''
        else if s < 999500000000000 then printf_f 0 (ddiv n (10 ^ 12)) @ ''T''
        else if s < 9995000000000000 then printf_f 2 (ddiv n (10 ^ 15)) @ ''P''
        else if s < 99950000000000000 then printf_f 1 (ddiv n (10 ^ 15)) @ ''P''
        else if s < 999500000000000000 then printf_f 0 (ddiv n (10 ^ 15)) @ ''P''
        else printf_f 2 (ddiv n (10 ^ 18)) @ ''E''))"

text \<open>The literals \<^verbatim>\<open>9.995\<close> and \<^verbatim>\<open>99.95\<close> are the nearest doubles; \<^verbatim>\<open>1023.5\<close> is one.\<close>

definition formatIEC :: "int \<Rightarrow> string" where
  "formatIEC s =
     (let n = double_of_int s;
          c3 = fl (9995 / 1000); c2 = fl (9995 / 100); c1 = fl (10235 / 10);
          Ki = 1024; Mi = dmul Ki 1024; Gi = dmul Mi 1024; Ti = dmul Gi 1024; Pi = dmul Ti 1024; Ei = dmul Pi 1024
      in snprintf 64
       (if n < Ki then dec_int s
        else if n < dmul Ki c3 then printf_f 2 (ddiv n Ki) @ ''Ki''
        else if n < dmul Ki c2 then printf_f 1 (ddiv n Ki) @ ''Ki''
        else if n < dmul Ki c1 then printf_f 0 (ddiv n Ki) @ ''Ki''
        else if n < dmul Mi c3 then printf_f 2 (ddiv n Mi) @ ''Mi''
        else if n < dmul Mi c2 then printf_f 1 (ddiv n Mi) @ ''Mi''
        else if n < dmul Mi c1 then printf_f 0 (ddiv n Mi) @ ''Mi''
        else if n < dmul Gi c3 then printf_f 2 (ddiv n Gi) @ ''Gi''
        else if n < dmul Gi c2 then printf_f 1 (ddiv n Gi) @ ''Gi''
        else if n < dmul Gi c1 then printf_f 0 (ddiv n Gi) @ ''Gi''
        else if n < dmul Ti c3 then printf_f 2 (ddiv n Ti) @ ''Ti''
        else if n < dmul Ti c2 then printf_f 1 (ddiv n Ti) @ ''Ti''
        else if n < dmul Ti c1 then printf_f 0 (ddiv n Ti) @ ''Ti''
        else if n < dmul Pi c3 then printf_f 2 (ddiv n Pi) @ ''Pi''
        else if n < dmul Pi c2 then printf_f 1 (ddiv n Pi) @ ''Pi''
        else if n < dmul Pi c1 then printf_f 0 (ddiv n Pi) @ ''Pi''
        else if n < dmul Ei c3 then printf_f 2 (ddiv n Ei) @ ''Ei''
        else printf_f 1 (ddiv n Ei) @ ''Ei''))"

section \<open>Width of the text\<close>

lemma length_snprintf: "length (snprintf n t) \<le> length t"
  by (simp add: snprintf_def)

text \<open>A number up to \<open>t\<close>, divided by \<open>u\<close> and printed with \<open>d\<close> decimals, has at most \<open>k\<close> digits before the point when the
  value for \<open>t\<close> rounds below \<open>10 ^ k\<close>.\<close>

lemma length_scaled:
  assumes "0 \<le> s" and "s \<le> t" and "0 < u" and "ddiv (double_of_int t) u \<le> y"
    and "round_even (y * 10 ^ d) < 10 ^ (k + d)" and "0 < k"
  shows "length (printf_f d (ddiv (double_of_int s) u)) \<le> k + (if d = 0 then 0 else d + 1)"
proof (rule length_printf_f)
  have "rat_of_int s \<le> of_int t" using assms(2) by simp
  then have "double_of_int s / u \<le> double_of_int t / u"
    using assms(3) unfolding double_of_int_def by (intro divide_right_mono fl_mono) simp_all
  then show "ddiv (double_of_int s) u \<le> y" using assms(4) fl_mono unfolding ddiv_def by (meson order_trans)
  show "0 \<le> ddiv (double_of_int s) u" using assms(1,3) unfolding ddiv_def double_of_int_def
    by (intro fl_nonneg divide_nonneg_pos) simp_all
qed (use assms in auto)

text \<open>Below 53 bits the quotient is rounded once.\<close>

lemma ddiv_small:
  assumes "0 \<le> t" and "t < 2 ^ 53" and "0 < u"
  shows "ddiv (double_of_int t) u \<le> of_int t / u * (1 + 1 / 2 ^ 53)"
proof -
  have "double_of_int t = of_int t" using assms(1,2) by (intro double_of_int_small) simp
  moreover have "\<bar>fl (of_int t / u) - of_int t / u\<bar> \<le> of_int t / u / 2 ^ 53"
    using fl_error [of "of_int t / u"] assms(1,3) by simp
  ultimately show ?thesis unfolding ddiv_def by (simp only: distrib_left mult_1_right times_divide_eq_right)
qed

lemma length_scaled_small:
  assumes "0 \<le> s" and "s \<le> t" and "t < 2 ^ 53" and "0 < u"
    and "of_int t / u * (1 + 1 / 2 ^ 53) * 10 ^ d < 10 ^ (k + d) - 1 / 2" and "0 < k"
  shows "length (printf_f d (ddiv (double_of_int s) u)) \<le> k + (if d = 0 then 0 else d + 1)"
proof (rule length_scaled [OF assms(1,2,4) ddiv_small])
  let ?y = "of_int t / u * (1 + 1 / 2 ^ 53) * 10 ^ d"
  have "rat_of_int (round_even ?y) < of_int (10 ^ (k + d))"
    using round_even_error [of ?y] assms(5) unfolding of_int_power of_int_numeral by linarith
  then show "round_even ?y < 10 ^ (k + d)" by (simp only: of_int_less_iff)
qed (use assms in auto)

text \<open>The two places at which the quotient has more than 53 bits: the literals of the code and their neighbours.\<close>

lemma fl_9995_1000: "fl (9995 / 1000) = 5626684784446013 * 2 powi (- 49)"
  using fl_eval [of 3 "9995 / 1000" 5626684784446013] by simp

lemma fl_9995_100: "fl (9995 / 100) = 7033355980557517 * 2 powi (- 46)"
  using fl_eval [of 6 "9995 / 100" 7033355980557517] by simp

lemma fl_10235_10: "fl (10235 / 10) = 2047 * 2 powi (- 1)"
  using fl_eval [of 9 "10235 / 10" "2047 * 2 ^ 42"] by simp

lemma SI_peta2: "ddiv (double_of_int 9994999999999999) (10 ^ 15) \<le> fl (9995 / 1000)"
proof -
  have "fl 9995000000000000 = 9995000000000000"
    using fl_eval [of 53 9995000000000000 4997500000000000] by simp
  then have "double_of_int 9994999999999999 \<le> 9995000000000000"
    using fl_mono [of "of_int 9994999999999999" 9995000000000000] by (simp add: double_of_int_def)
  then show ?thesis unfolding ddiv_def by (intro fl_mono) simp
qed

lemma SI_peta1: "ddiv (double_of_int 99949999999999991) (10 ^ 15) \<le> 7033355980557516 * 2 powi (- 46)"
proof -
  have "fl 99949999999999991 = 99949999999999984"
    using fl_eval [of 56 99949999999999991 6246874999999999] by simp
  moreover have "fl (99949999999999984 / 10 ^ 15) = 7033355980557516 * 2 powi (- 46)"
    using fl_eval [of 6 "99949999999999984 / 10 ^ 15" 7033355980557516] by simp
  ultimately show ?thesis by (simp add: ddiv_def double_of_int_def)
qed

lemma SI_exa: "ddiv (double_of_int (2 ^ 63)) (10 ^ 18) \<le> 95 / 10"
proof -
  have "double_of_int (2 ^ 63) = 2 ^ 63" using fl_powi [of 63] by (simp add: double_of_int_def)
  then have "ddiv (double_of_int (2 ^ 63)) (10 ^ 18) \<le> fl (95 / 10)" unfolding ddiv_def by (intro fl_mono) simp
  also have "\<dots> = 95 / 10" using fl_eval [of 3 "95 / 10" "19 * 2 ^ 48"] by simp
  finally show ?thesis .
qed

text \<open>Up to one petabyte the texts fit because the quotients are off by less than the distance to the next threshold.\<close>

lemma SI_widths:
  assumes s: "0 \<le> s"
  shows "s < 999500000000000 \<Longrightarrow> length (formatSI s) \<le> 5"
proof -
  have b: "s < 1000 \<Longrightarrow> length (dec_int s) \<le> 3" using length_dec_nat [of "nat s" 3] s by (simp add: dec_int_def nat_less_iff)
  have b0: "s < 9995 \<Longrightarrow> length (printf_f 2 (ddiv (double_of_int s) (10 ^ 3))) \<le> 4"
    using length_scaled_small [of s 9994 "10 ^ 3" 2 1] s by simp
  have b1: "s < 99950 \<Longrightarrow> length (printf_f 1 (ddiv (double_of_int s) (10 ^ 3))) \<le> 4"
    using length_scaled_small [of s 99949 "10 ^ 3" 1 2] s by simp
  have b2: "s < 999500 \<Longrightarrow> length (printf_f 0 (ddiv (double_of_int s) (10 ^ 3))) \<le> 3"
    using length_scaled_small [of s 999499 "10 ^ 3" 0 3] s by simp
  have b3: "s < 9995000 \<Longrightarrow> length (printf_f 2 (ddiv (double_of_int s) (10 ^ 6))) \<le> 4"
    using length_scaled_small [of s 9994999 "10 ^ 6" 2 1] s by simp
  have b4: "s < 99950000 \<Longrightarrow> length (printf_f 1 (ddiv (double_of_int s) (10 ^ 6))) \<le> 4"
    using length_scaled_small [of s 99949999 "10 ^ 6" 1 2] s by simp
  have b5: "s < 999500000 \<Longrightarrow> length (printf_f 0 (ddiv (double_of_int s) (10 ^ 6))) \<le> 3"
    using length_scaled_small [of s 999499999 "10 ^ 6" 0 3] s by simp
  have b6: "s < 9995000000 \<Longrightarrow> length (printf_f 2 (ddiv (double_of_int s) (10 ^ 9))) \<le> 4"
    using length_scaled_small [of s 9994999999 "10 ^ 9" 2 1] s by simp
  have b7: "s < 99950000000 \<Longrightarrow> length (printf_f 1 (ddiv (double_of_int s) (10 ^ 9))) \<le> 4"
    using length_scaled_small [of s 99949999999 "10 ^ 9" 1 2] s by simp
  have b8: "s < 999500000000 \<Longrightarrow> length (printf_f 0 (ddiv (double_of_int s) (10 ^ 9))) \<le> 3"
    using length_scaled_small [of s 999499999999 "10 ^ 9" 0 3] s by simp
  have b9: "s < 9995000000000 \<Longrightarrow> length (printf_f 2 (ddiv (double_of_int s) (10 ^ 12))) \<le> 4"
    using length_scaled_small [of s 9994999999999 "10 ^ 12" 2 1] s by simp
  have b10: "s < 99950000000000 \<Longrightarrow> length (printf_f 1 (ddiv (double_of_int s) (10 ^ 12))) \<le> 4"
    using length_scaled_small [of s 99949999999999 "10 ^ 12" 1 2] s by simp
  have b11: "s < 999500000000000 \<Longrightarrow> length (printf_f 0 (ddiv (double_of_int s) (10 ^ 12))) \<le> 3"
    using length_scaled_small [of s 999499999999999 "10 ^ 12" 0 3] s by simp
  show "s < 999500000000000 \<Longrightarrow> length (formatSI s) \<le> 5"
    unfolding formatSI_def Let_def by (rule order_trans [OF length_snprintf]) (auto dest: b b0 b1 b2 b3 b4 b5 b6 b7 b8 b9 b10 b11)
qed

lemma SI_widths_large:
  assumes "999500000000000 \<le> s" and "s < 2 ^ 63" and "s \<le> 99949999999999991 \<or> 99950000000000000 \<le> s"
  shows "length (formatSI s) \<le> 5"
proof -
  have s: "0 \<le> s" using assms(1) by simp
  have r2: "round_even (fl (9995 / 1000) * 10 ^ 2) = 999" unfolding fl_9995_1000 by (rule round_even_eqI) simp
  have b2: "s < 9995000000000000 \<Longrightarrow> length (printf_f 2 (ddiv (double_of_int s) (10 ^ 15))) \<le> 4"
    using length_scaled [of s 9994999999999999 "10 ^ 15" "fl (9995 / 1000)" 2 1] SI_peta2 r2 s by simp
  have r1: "round_even (7033355980557516 * 2 powi (- 46) * 10 ^ 1) = 999" by (rule round_even_eqI) simp
  have b1: "s < 99950000000000000 \<Longrightarrow> length (printf_f 1 (ddiv (double_of_int s) (10 ^ 15))) \<le> 4"
    using length_scaled [of s 99949999999999991 "10 ^ 15" "7033355980557516 * 2 powi (- 46)" 1 2, OF s _ _ SI_peta1]
      assms(3) r1 by simp
  have "double_of_int 999500000000000000 \<le> 2 ^ 60"
    using fl_mono [of "of_int 999500000000000000" "2 powi 60"] unfolding fl_powi by (simp add: double_of_int_def)
  then have "ddiv (double_of_int 999500000000000000) (10 ^ 15) \<le> fl 2000" unfolding ddiv_def by (intro fl_mono) simp
  moreover have "fl 2000 = 2000" using fl_of_nat_small [of 2000] by simp
  moreover have "round_even 2000 = 2000" using round_even_of_int [of 2000] by simp
  ultimately have b0: "s < 999500000000000000 \<Longrightarrow> length (printf_f 0 (ddiv (double_of_int s) (10 ^ 15))) \<le> 4"
    using length_scaled [of s 999500000000000000 "10 ^ 15" 2000 0 4] s by simp
  have re: "round_even (95 / 10 * 10 ^ 2) = 950" by (rule round_even_eqI) simp
  have be: "length (printf_f 2 (ddiv (double_of_int s) (10 ^ 18))) \<le> 4"
    using length_scaled [of s "2 ^ 63" "10 ^ 18" "95 / 10" 2 1, OF s _ _ SI_exa] assms(2) re by simp
  show ?thesis unfolding formatSI_def Let_def
    by (rule order_trans [OF length_snprintf]) (use assms(1) be in \<open>auto dest: b2 b1 b0\<close>)
qed

text \<open>Just below one hundred peta the conversion to a double rounds up to the threshold.\<close>

lemma SI_peta_overflow:
  assumes "99949999999999992 \<le> s" and "s < 99950000000000000"
  shows "formatSI s = ''100.0P''"
proof -
  have f: "\<lfloor>12493749999999999 / 2 :: rat\<rfloor> = 6246874999999999" by (simp add: floor_eq_iff)
  have "fl 99950000000000000 = 99950000000000000" using fl_eval [of 56 99950000000000000 6246875000000000] by simp
  moreover have "fl 99949999999999992 = 99950000000000000"
    using fl_pos_eq [of 56 99949999999999992] f by (simp add: round_even_def Let_def)
  ultimately have "fl (of_int s) = 99950000000000000"
    using fl_mono [of 99949999999999992 "of_int s"] fl_mono [of "of_int s" 99950000000000000] assms by fastforce
  then have "ddiv (double_of_int s) (10 ^ 15) = fl (9995 / 100)" by (simp add: ddiv_def double_of_int_def)
  moreover have "round_even (fl (9995 / 100) * 10 ^ 1) = 1000" unfolding fl_9995_100 by (rule round_even_eqI) simp
  moreover have "\<not> fl (9995 / 100) < 0" using fl_nonneg [of "9995 / 100"] by simp
  ultimately have "printf_f 1 (ddiv (double_of_int s) (10 ^ 15)) = fixed_digits 1 1000"
    unfolding printf_f_def by simp
  also have "\<dots> = ''100.0''" by code_simp
  finally show ?thesis using assms by (simp add: formatSI_def snprintf_def)
qed

text \<open>C40: formatSI gives every non-negative 64-bit number at most the promised five characters, unit included, except for the
  eight numbers just below 99.95 peta, which are printed as 100.0P.\<close>

theorem formatSI_width:
  assumes "0 \<le> s" and "s < 2 ^ 63"
  shows "(length (formatSI s) \<le> 5 \<longleftrightarrow> s \<notin> {99949999999999992 ..< 99950000000000000})
    \<and> (s \<in> {99949999999999992 ..< 99950000000000000} \<longrightarrow> formatSI s = ''100.0P'')"
proof -
  have o: "formatSI s = ''100.0P''" if "s \<in> {99949999999999992 ..< 99950000000000000}" using SI_peta_overflow that by simp
  have "length (formatSI s) \<le> 5" if "s \<notin> {99949999999999992 ..< 99950000000000000}"
    using SI_widths [OF assms(1)] SI_widths_large [OF _ assms(2)] that by fastforce
  then show ?thesis using o by auto
qed

theorem formatSI_width_witness:
  "length (formatSI 123456) \<le> 5 \<and> \<not> length (formatSI 99949999999999999) \<le> 5"
  using formatSI_width [of 123456] formatSI_width [of 99949999999999999] by simp

text \<open>The binary units are powers of two, so that scaling by them is exact and a quotient below a literal is at most its
  predecessor.\<close>

lemma IEC_units: "dmul 1024 1024 = 2 powi 20" "dmul (2 powi 20) 1024 = 2 powi 30" "dmul (2 powi 30) 1024 = 2 powi 40"
  "dmul (2 powi 40) 1024 = 2 powi 50" "dmul (2 powi 50) 1024 = 2 powi 60"
  using fl_powi [of 20] fl_powi [of 30] fl_powi [of 40] fl_powi [of 50] fl_powi [of 60] by (simp_all add: dmul_def)

lemma IEC_threshold:
  assumes "double_of_int s < dmul (2 powi j) (fl c)" and "0 < c"
  shows "double_of_int s / 2 powi j < fl c"
proof -
  have "dmul (2 powi j) (fl c) = fl c * 2 powi j" using fl_scale [OF fl_pos [OF assms(2)], of j] by (simp add: dmul_def mult.commute)
  then show ?thesis using assms(1) by (simp add: pos_divide_less_eq)
qed

lemma ddiv_powi:
  assumes "0 \<le> s"
  shows "ddiv (double_of_int s) (2 powi j) = double_of_int s / 2 powi j"
proof (cases "s = 0")
  case False
  then have "0 < double_of_int s" using assms fl_pos [of "of_int s"] unfolding double_of_int_def by simp
  then have "fl (double_of_int s * 2 powi (- j)) = double_of_int s * 2 powi (- j)"
    by (simp only: fl_scale) (simp add: double_of_int_def)
  then show ?thesis by (simp add: ddiv_def power_int_minus divide_inverse)
qed (simp add: ddiv_def double_of_int_def)

lemma IEC_text:
  assumes s: "0 \<le> s"
  shows "double_of_int s < dmul (2 powi j) (fl (9995 / 1000)) \<Longrightarrow> length (printf_f 2 (ddiv (double_of_int s) (2 powi j))) \<le> 4"
    and "double_of_int s < dmul (2 powi j) (fl (9995 / 100)) \<Longrightarrow> length (printf_f 1 (ddiv (double_of_int s) (2 powi j))) \<le> 4"
    and "double_of_int s < dmul (2 powi j) (fl (10235 / 10)) \<Longrightarrow> length (printf_f 0 (ddiv (double_of_int s) (2 powi j))) \<le> 4"
proof -
  define x where "x = double_of_int s / 2 powi j"
  have x: "0 \<le> x" using s by (simp add: x_def double_of_int_def fl_nonneg)
  have fx: "fl x = x" using ddiv_powi [OF s, of j] unfolding x_def ddiv_def .
  have e: "ddiv (double_of_int s) (2 powi j) = x" using ddiv_powi [OF s] unfolding x_def .
  show "length (printf_f 2 (ddiv (double_of_int s) (2 powi j))) \<le> 4" if "double_of_int s < dmul (2 powi j) (fl (9995 / 1000))"
  proof -
    have "round_even (fl (9995 / 1000) * 10 ^ 2) = 999" unfolding fl_9995_1000 by (rule round_even_eqI) simp
    then show ?thesis using length_printf_f [of x "fl (9995 / 1000)" 2 1] IEC_threshold [OF that] x by (simp add: e x_def)
  qed
  show "length (printf_f 1 (ddiv (double_of_int s) (2 powi j))) \<le> 4" if "double_of_int s < dmul (2 powi j) (fl (9995 / 100))"
  proof -
    have "x < of_int 7033355980557517 * 2 powi (6 - 52)" using IEC_threshold [OF that] unfolding fl_9995_100 x_def by simp
    from fl_less_pred [OF fx this] have "x \<le> 7033355980557516 * 2 powi (- 46)" by simp
    moreover have "round_even (7033355980557516 * 2 powi (- 46) * 10 ^ 1) = 999" by (rule round_even_eqI) simp
    ultimately show ?thesis using length_printf_f [OF x, of "7033355980557516 * 2 powi (- 46)" 1 2] by (simp add: e)
  qed
  show "length (printf_f 0 (ddiv (double_of_int s) (2 powi j))) \<le> 4" if "double_of_int s < dmul (2 powi j) (fl (10235 / 10))"
  proof -
    have "x < 2047 * 2 powi (- 1)" using IEC_threshold [OF that] unfolding fl_10235_10 x_def by simp
    then have "x \<le> 1024" by simp
    moreover have "round_even (1024 * 10 ^ 0) = 1024" using round_even_of_int [of 1024] by simp
    ultimately show ?thesis using length_printf_f [OF x, of 1024 0 4] by (simp add: e)
  qed
qed

lemma length_if: "(b \<Longrightarrow> length x \<le> n) \<Longrightarrow> (\<not> b \<Longrightarrow> length y \<le> n) \<Longrightarrow> length (if b then x else y) \<le> n"
  by simp

lemma length_unit: "length t \<le> 4 \<Longrightarrow> length (t @ [c, d]) \<le> 6"
  by simp

text \<open>formatIEC gives every non-negative 64-bit number at most four characters and a two-letter unit.\<close>

theorem formatIEC_width:
  assumes "0 \<le> s" and "s < 2 ^ 63"
  shows "length (formatIEC s) \<le> 6"
proof -
  have Ki: "(1024 :: rat) = 2 powi 10" by simp
  have "double_of_int s \<le> 2 powi 63"
    using fl_mono [of "of_int s" "2 powi 63"] assms(2) unfolding fl_powi by (simp add: double_of_int_def)
  moreover have "(2 :: rat) powi 63 < dmul (2 powi 60) (fl (9995 / 1000))"
  proof -
    have "dmul (2 powi 60) (fl (9995 / 1000)) = fl (9995 / 1000) * 2 powi 60"
      using fl_scale [OF fl_pos [of "9995 / 1000"], of 60] by (simp add: dmul_def mult.commute)
    then show ?thesis unfolding fl_9995_1000 by simp
  qed
  ultimately have top: "double_of_int s < dmul (2 powi 60) (fl (9995 / 1000))" by linarith
  have small: "length (dec_int s) \<le> 6" if "double_of_int s < 2 powi 10"
  proof -
    have "s < 1024"
    proof (rule ccontr)
      assume "\<not> s < 1024"
      then have "fl (2 powi 10) \<le> double_of_int s" unfolding double_of_int_def by (intro fl_mono) simp
      with that show False unfolding fl_powi by simp
    qed
    then show ?thesis using length_dec_nat [of "nat s" 4] assms(1) by (simp add: dec_int_def nat_less_iff)
  qed
  show ?thesis unfolding formatIEC_def Let_def IEC_units unfolding Ki
    by (rule order_trans [OF length_snprintf], intro length_if length_unit)
      (erule small | erule IEC_text [OF assms(1)] | erule notE, rule top)+
qed

theorem formatIEC_width_witness: "length (formatIEC 109896187196211) \<le> 6"
  using formatIEC_width [of 109896187196211] by simp

section \<open>Time differences\<close>

definition timeDifference :: "int \<Rightarrow> int \<Rightarrow> rat" where
  "timeDifference high low = (let diff = high - low in ddiv (double_of_int diff) (of_int kMicroSecondsPerSecond))"

definition addTime :: "int \<Rightarrow> rat \<Rightarrow> int" where
  "addTime timestamp seconds = (let delta = trunc (dmul seconds (of_int kMicroSecondsPerSecond)) in timestamp + delta)"

text \<open>The absolute deadline that \<^verbatim>\<open>waitForSeconds\<close> computes from the clock \<open>(tv_sec, tv_nsec)\<close>.\<close>

definition waitForSeconds_abstime :: "rat \<Rightarrow> int \<times> int \<Rightarrow> int \<times> int" where
  "waitForSeconds_abstime seconds abstime =
     (let nanoseconds = trunc (dmul seconds 1000000000)
      in (fst abstime + (snd abstime + nanoseconds) sdiv 1000000000, (snd abstime + nanoseconds) smod 1000000000))"

lemma trunc_pos_cases:
  assumes "of_int d - 1 < y" and "y < of_int d + 1" and "0 < d"
  shows "trunc y = d \<or> trunc y = d - 1"
proof -
  have "rat_of_int 0 \<le> of_int (d - 1)" using assms(3) by (simp only: of_int_le_iff)
  then have "0 \<le> y" using assms(1) by simp
  moreover have "d - 1 \<le> \<lfloor>y\<rfloor>" "\<lfloor>y\<rfloor> \<le> d" using assms(1,2) by (simp_all add: le_floor_iff floor_le_iff)
  ultimately show ?thesis by (auto simp: trunc_def)
qed

lemma trunc_minus: "trunc (- y) = - trunc y"
  by (auto simp: trunc_def ceiling_def)

lemma back_and_forth_error:
  assumes "0 < d" and "d \<le> 2 ^ 51"
  shows "\<bar>dmul (ddiv (double_of_int d) 1000000) 1000000 - of_int d\<bar> < 1"
proof -
  define x where "x = fl (of_int d / 1000000)"
  have D: "double_of_int d = of_int d" using assms by (intro double_of_int_small) simp
  have dr: "0 < rat_of_int d" "rat_of_int d \<le> 2 ^ 51"
    using assms of_int_le_iff [of d "2 ^ 51", where 'a = rat] by simp_all
  have "\<bar>x - of_int d / 1000000\<bar> \<le> of_int d / 1000000 / 2 ^ 53"
    using fl_error [of "of_int d / 1000000"] dr(1) by (simp add: x_def)
  then have a: "\<bar>x * 1000000 - of_int d\<bar> \<le> of_int d / 2 ^ 53" by (auto simp: abs_if field_simps split: if_splits)
  have "0 \<le> x" using dr(1) by (simp add: x_def fl_nonneg)
  then have b: "\<bar>fl (x * 1000000) - x * 1000000\<bar> \<le> x * 1000000 / 2 ^ 53" using fl_error [of "x * 1000000"] by simp
  have two: "(2 :: rat) ^ 53 = 9007199254740992" "(2 :: rat) ^ 51 = 2251799813685248" by simp_all
  have "\<bar>fl (x * 1000000) - of_int d\<bar> < 1" using a b dr unfolding two by linarith
  then show ?thesis by (simp add: dmul_def ddiv_def D x_def)
qed

text \<open>Adding a computed time difference to the earlier timestamp gives the later one or, because the delay is truncated, one
  microsecond less, but never more (and symmetrically for negative differences), for differences of up to 71 years.\<close>

theorem addTime_timeDifference:
  assumes "\<bar>high - low\<bar> \<le> 2 ^ 51"
  shows "addTime low (timeDifference high low) \<in> {high, high - sgn (high - low)}"
proof -
  define d where "d = high - low"
  have h: "high = low + d" by (simp add: d_def)
  have pos: "trunc (dmul (ddiv (double_of_int e) 1000000) 1000000) \<in> {e, e - 1}" if "0 < e" "e \<le> 2 ^ 51" for e
    using trunc_pos_cases [OF _ _ that(1)] back_and_forth_error [OF that] by (auto simp: abs_less_iff)
  consider "d = 0" | "0 < d" | "0 < - d" by linarith
  then have "trunc (dmul (ddiv (double_of_int d) 1000000) 1000000) \<in> {d, d - sgn d}"
  proof cases
    case 1
    then show ?thesis by (simp add: dmul_def ddiv_def double_of_int_def trunc_def)
  next
    case 2
    then show ?thesis using pos [of d] assms by (simp add: d_def)
  next
    case 3
    have "trunc (dmul (ddiv (double_of_int (- d)) 1000000) 1000000) \<in> {- d, - d - 1}"
      using pos [of "- d"] 3 assms by (simp add: d_def)
    then show ?thesis using 3 by (auto simp: dmul_def ddiv_def double_of_int_def fl_minus trunc_minus)
  qed
  then show ?thesis by (auto simp: addTime_def timeDifference_def Let_def kMicroSecondsPerSecond_def h)
qed

theorem addTime_timeDifference_witness: "addTime 5 (timeDifference 254 5) \<in> {254, 253}"
  using addTime_timeDifference [of 254 5] by simp

text \<open>The microsecond is lost already for small differences.\<close>

lemma addTime_loses_one: "addTime low (timeDifference (low + 249) low) = low + 248"
proof -
  have f: "fl 249 = 249" using fl_of_nat_small [of 249] by simp
  have g: "fl (249 / 1000000) = 4593239274353678 * 2 powi (- 64)"
    using fl_eval [of "- 12" "249 / 1000000" 4593239274353678] by simp
  have h: "fl (4593239274353678 * 2 powi (- 64) * 1000000) = 8760908650119167 * 2 powi (- 45)"
    using fl_eval [of 7 "4593239274353678 * 2 powi (- 64) * 1000000" 8760908650119167] by simp
  have "dmul (ddiv (double_of_int 249) 1000000) 1000000 = 8760908650119167 * 2 powi (- 45)"
    unfolding dmul_def ddiv_def double_of_int_def of_int_numeral f g h ..
  moreover have "trunc (8760908650119167 * 2 powi (- 45)) = 248" by (simp add: trunc_def floor_eq_iff)
  ultimately have "trunc (dmul (ddiv (double_of_int 249) 1000000) 1000000) = 248" by (simp only:)
  then show ?thesis by (simp add: addTime_def timeDifference_def Let_def kMicroSecondsPerSecond_def)
qed

lemma waitForSeconds_deadline:
  assumes "0 \<le> seconds" and "0 \<le> snd now" and "snd now < 1000000000"
  shows "let (s, ns) = waitForSeconds_abstime seconds now
         in 0 \<le> ns \<and> ns < 1000000000 \<and> s * 1000000000 + ns = fst now * 1000000000 + snd now + trunc (dmul seconds 1000000000)"
proof -
  let ?n = "snd now + trunc (dmul seconds 1000000000)"
  have "0 \<le> trunc (dmul seconds 1000000000)" using assms(1) fl_nonneg by (simp add: trunc_def dmul_def)
  then have n: "0 \<le> ?n" using assms(2) by simp
  then have e: "?n sdiv 1000000000 = ?n div 1000000000" "?n smod 1000000000 = ?n mod 1000000000"
    by (cases "?n = 0"; simp add: signed_divide_int_def signed_modulo_int_def)+
  show ?thesis unfolding waitForSeconds_abstime_def Let_def e by (simp add: algebra_simps)
qed

end
