(* ===== verification/LoopWiring.thy ===== *)
theory LoopWiring
  imports EventLoops
begin

text \<open>
  Construction and destruction of an \<^verbatim>\<open>EventLoop\<close> (\<^verbatim>\<open>muduo/net/EventLoop.cc\<close>) with its \<^verbatim>\<open>TimerQueue\<close>
  (\<^verbatim>\<open>TimerQueue.cc\<close>) and its poller: the loop owns two channels, one for the timer descriptor and one for the event descriptor,
  registers both when it is made and takes both out when it is destroyed.

  The addresses of the two channels and the results of \<^verbatim>\<open>timerfd_create\<close> and \<^verbatim>\<open>eventfd\<close> are arguments; so is the poller with its two operations, and
  what is proved uses only the contract \<open>poller\<close>. The members of an object are destroyed in the reverse order of their declaration: the
  channel for wakeups, then the timer queue, then the poller.
\<close>

section \<open>Construction and destruction\<close>

definition createTimerfd :: "int + int \<Rightarrow> int outcome" where
  "createTimerfd r = (case r of Inl errno \<Rightarrow> Abort (Fatal ''Failed in timerfd_create'') | Inr tfd \<Rightarrow> Ret tfd)"

definition createEventfd :: "int + int \<Rightarrow> int outcome" where
  "createEventfd r = (case r of Inl errno \<Rightarrow> Abort (Fatal ''abort'') | Inr evtfd \<Rightarrow> Ret evtfd)"

definition TimerQueue_ctor ::
  "(nat \<Rightarrow> store \<times> 'p \<Rightarrow> (store \<times> 'p) outcome) \<Rightarrow> int + int \<Rightarrow> nat \<Rightarrow> store \<times> 'p \<Rightarrow> (store \<times> 'p) outcome" where
  "TimerQueue_ctor updateChannel timerfd_create timerfdChannel s =
     bindo (createTimerfd timerfd_create) (\<lambda>tfd.
       (case s of (h, p) \<Rightarrow>
          Channel_interest updateChannel EnableReading timerfdChannel
            (h(timerfdChannel := (new_Channel tfd)\<lparr>readCallback := True\<rparr>), p)))"

text \<open>The destructor of a channel in the loop thread \<open>tid\<close>.\<close>

definition destroy_channel :: "('p \<Rightarrow> int \<rightharpoonup> nat) \<Rightarrow> int \<Rightarrow> int \<Rightarrow> nat \<Rightarrow> store \<times> 'p \<Rightarrow> unit outcome" where
  "destroy_channel chans tid owner_tid c s =
     (case s of (h, p) \<Rightarrow> bindo (hasChannel tid owner_tid (chans p) h c) (\<lambda>has. delete_Channel (tid = owner_tid) has (h c)))"

definition TimerQueue_dtor ::
  "(nat \<Rightarrow> store \<times> 'p \<Rightarrow> (store \<times> 'p) outcome) \<Rightarrow> (nat \<Rightarrow> store \<times> 'p \<Rightarrow> (store \<times> 'p) outcome) \<Rightarrow> ('p \<Rightarrow> int \<rightharpoonup> nat) \<Rightarrow>
   int \<Rightarrow> int \<Rightarrow> nat \<Rightarrow> TimerQueue \<Rightarrow> store \<times> 'p \<Rightarrow> (TimerQueue \<times> (store \<times> 'p) \<times> int) outcome" where
  "TimerQueue_dtor updateChannel removeChannel chans tid owner_tid timerfdChannel q s =
     bindo (Channel_interest updateChannel DisableAll timerfdChannel s) (\<lambda>s.
     bindo (Channel_remove removeChannel timerfdChannel s) (\<lambda>s.
     bindo (delete_timers q) (\<lambda>q.
     bindo (destroy_channel chans tid owner_tid timerfdChannel s) (\<lambda>_. Ret (q, s, fd (fst s timerfdChannel))))))"

definition EventLoop_ctor ::
  "(nat \<Rightarrow> store \<times> 'p \<Rightarrow> (store \<times> 'p) outcome) \<Rightarrow> int \<Rightarrow> int + int \<Rightarrow> int + int \<Rightarrow> nat \<Rightarrow> nat \<Rightarrow> bool \<Rightarrow> store \<times> 'p
    \<Rightarrow> (EventLoop \<times> store \<times> 'p) outcome" where
  "EventLoop_ctor poller_update tid timerfd_create eventfd timerfdChannel wakeupChannel another s =
     bindo (new_EventLoop False tid) (\<lambda>l.
     let updateChannel = (\<lambda>c. EventLoop_updateChannel poller_update tid c l) in
     bindo (TimerQueue_ctor updateChannel timerfd_create timerfdChannel s) (\<lambda>(h, p).
     bindo (createEventfd eventfd) (\<lambda>wakeupFd.
     let h = h(wakeupChannel := new_Channel wakeupFd) in
     bindo (new_EventLoop another tid) (\<lambda>l.
     let h = h(wakeupChannel := (h wakeupChannel)\<lparr>readCallback := True\<rparr>) in
     bindo (Channel_interest updateChannel EnableReading wakeupChannel (h, p)) (\<lambda>s. Ret (l, s))))))"

definition EventLoop_dtor ::
  "(nat \<Rightarrow> store \<times> 'p \<Rightarrow> (store \<times> 'p) outcome) \<Rightarrow> (nat \<Rightarrow> store \<times> 'p \<Rightarrow> (store \<times> 'p) outcome) \<Rightarrow> ('p \<Rightarrow> int \<rightharpoonup> nat) \<Rightarrow>
   int \<Rightarrow> nat \<Rightarrow> nat \<Rightarrow> EventLoop \<Rightarrow> TimerQueue \<Rightarrow> store \<times> 'p \<Rightarrow> (TimerQueue \<times> (store \<times> 'p) \<times> int list) outcome" where
  "EventLoop_dtor poller_update poller_remove chans tid timerfdChannel wakeupChannel l q s =
     (let updateChannel = (\<lambda>c. EventLoop_updateChannel poller_update tid c l);
          removeChannel = (\<lambda>c. EventLoop_removeChannel poller_remove tid c l)
      in bindo (Channel_interest updateChannel DisableAll wakeupChannel s) (\<lambda>s.
         bindo (Channel_remove removeChannel wakeupChannel s) (\<lambda>s.
         let wakeupFd = fd (fst s wakeupChannel) in
         bindo (destroy_channel chans tid (threadId l) wakeupChannel s) (\<lambda>_.
         bindo (TimerQueue_dtor updateChannel removeChannel chans tid (threadId l) timerfdChannel q s) (\<lambda>(q, s, tfd).
         Ret (q, s, [wakeupFd, tfd]))))))"

text \<open>\<^verbatim>\<open>readTimerfd\<close> only logs: whether it complains about a short read.\<close>

definition readTimerfd :: "int \<Rightarrow> bool" where
  "readTimerfd n \<longleftrightarrow> n \<noteq> 8"

definition EventLoop_hasChannel :: "(int \<rightharpoonup> nat) \<Rightarrow> int \<Rightarrow> EventLoop \<Rightarrow> store \<Rightarrow> nat \<Rightarrow> bool outcome" where
  "EventLoop_hasChannel chans tid l h c =
     assertInLoopThread tid (threadId l) (hasChannel tid (threadId l) chans h c)"

definition EventLoop_cancel ::
  "((TimerQueue \<Rightarrow> TimerQueue outcome) \<Rightarrow> TimerQueue \<Rightarrow> TimerQueue outcome) \<Rightarrow> int \<Rightarrow> nat \<times> int \<Rightarrow> TimerQueue \<Rightarrow> TimerQueue outcome" where
  "EventLoop_cancel runInLoop_arg tid timerId q = cancel runInLoop_arg tid timerId q"

section \<open>Timers left over\<close>

lemma delete_entries:
  assumes "distinct (map snd es)" and "\<forall>e\<in>set es. theap q (snd e) \<noteq> None"
  shows "\<exists>q'. foldo (\<lambda>e q. deref q (snd e) (\<lambda>t. Ret (q\<lparr>theap := (theap q)(snd e := None)\<rparr>))) es q = Ret q'
    \<and> theap q' = (\<lambda>p. if p \<in> snd ` set es then None else theap q p)"
  using assms
proof (induction es arbitrary: q)
  case (Cons e es)
  let ?q = "q\<lparr>theap := (theap q)(snd e := None)\<rparr>"
  have "\<forall>x\<in>set es. theap ?q (snd x) \<noteq> None" using Cons.prems by (auto simp: image_iff)
  with Cons.IH [of ?q] Cons.prems(1) obtain q' where
    "foldo (\<lambda>e q. deref q (snd e) (\<lambda>t. Ret (q\<lparr>theap := (theap q)(snd e := None)\<rparr>))) es ?q = Ret q'"
    "theap q' = (\<lambda>p. if p \<in> snd ` set es then None else theap ?q p)" by (auto simp del: fun_upd_apply)
  moreover obtain t where "theap q (snd e) = Some t" using Cons.prems(2) by auto
  ultimately show ?case by (auto simp: deref_def fun_eq_iff simp del: fun_upd_apply) (auto simp: fun_upd_apply)
qed simp

text \<open>The destructor of the queue frees every timer.\<close>

lemma delete_timers_frees:
  assumes "tq_inv tid {} q"
  shows "\<exists>q'. delete_timers q = Ret q' \<and> theap q' = Map.empty"
proof -
  have "distinct (map snd (timers q))" using tq_inj [OF assms] tq_invD(3) [OF assms] by (simp add: distinct_map)
  moreover have "\<forall>e\<in>set (timers q). theap q (snd e) \<noteq> None" using tq_invD(7) [OF assms] by (auto simp: entry_ok_def)
  moreover have "theap q p = None" if "p \<notin> snd ` set (timers q)" for p using tq_invD(5) [OF assms] that by (auto simp: queued_def)
  ultimately show ?thesis using delete_entries [of "timers q" q] by (auto simp: delete_timers_def fun_eq_iff)
qed

section \<open>The two channels\<close>

definition wired :: "(nat \<Rightarrow> int) \<Rightarrow> nat \<Rightarrow> nat \<Rightarrow> watch_state" where
  "wired fdof tc wc = watch_step fdof (Inl EnableReading, wc) (watch_step fdof (Inl EnableReading, tc) no_watch)"

definition unwire_script :: "nat \<Rightarrow> nat \<Rightarrow> ((interest_call + unit) \<times> nat) list" where
  "unwire_script tc wc = [(Inl DisableAll, wc), (Inr (), wc), (Inl DisableAll, tc), (Inr (), tc)]"

lemma interest_wired:
  assumes "fdof tc \<noteq> fdof wc"
  shows "interest_of (wired fdof tc wc) = (\<lambda>_. 0)(fdof tc := kReadEvent, fdof wc := kReadEvent)"
  using assms by (auto simp: fun_eq_iff interest_of_def wired_def watch_step_def no_watch_def)

text \<open>Calls on other channels leave the registration of a channel alone.\<close>

lemma ws_reg_kept:
  assumes "legal_script fdof xs w" and "\<forall>x\<in>set xs. snd x \<noteq> d" and "ws_reg w (fdof d) = Some d"
  shows "ws_reg (foldl (\<lambda>w x. watch_step fdof x w) w xs) (fdof d) = Some d"
  using assms
proof (induction xs arbitrary: w)
  case (Cons x xs)
  obtain y c where x: "x = (y, c)" by fastforce
  have "fdof c \<noteq> fdof d" using Cons.prems x by (cases y) (auto simp: legal_call_def)
  then have "ws_reg (watch_step fdof x w) (fdof d) = Some d" using Cons.prems(3) by (cases y) (auto simp: x watch_step_def)
  then show ?case using Cons by simp
qed simp

context poller
begin

lemma interest_call:
  assumes "agrees fdof s w" and "legal_call fdof (Inl call, c) w"
  shows "\<exists>s'. Channel_interest update_op call c s = Ret s' \<and> agrees fdof s' (watch_step fdof (Inl call, c) w)
    \<and> (\<forall>d. eventHandling (fst s' d) = eventHandling (fst s d))"
proof -
  obtain h p where s: "s = (h, p)" by fastforce
  obtain s' where s': "client_op update_op remove_op (Inl call, c) (h, p) = Ret s'" "agrees fdof s' (watch_step fdof (Inl call, c) w)"
    using client_op_simulates [OF assms [unfolded s]] by blast
  then show ?thesis using client_op_others(2) [OF assms [unfolded s]] by (cases s') (auto simp: s client_op_def)
qed

lemma remove_call:
  assumes "agrees fdof s w" and "legal_call fdof (Inr (), c) w" and "\<not> eventHandling (fst s c)" and "chans = registered"
  shows "\<exists>s'. Channel_remove remove_op c s = Ret s' \<and> agrees fdof s' (watch_step fdof (Inr (), c) w)
    \<and> (\<forall>d. eventHandling (fst s' d) = eventHandling (fst s d)) \<and> destroy_channel chans tid tid c s' = Ret ()"
proof -
  obtain h p where s: "s = (h, p)" by fastforce
  obtain h' p' where s': "client_op update_op remove_op (Inr (), c) (h, p) = Ret (h', p')" "agrees fdof (h', p') (watch_step fdof (Inr (), c) w)"
    using client_op_simulates [OF assms(1,2) [unfolded s]] by auto
  note o = client_op_others [OF assms(1,2) [unfolded s] s'(1)]
  have "registered p' (fd (h' c)) = None" using s'(2) by (simp add: agrees_def watch_step_def)
  moreover have "\<not> addedToLoop (h' c)" "\<not> eventHandling (h' c)" using o(3) o(2) [of c] assms(3) by (simp_all add: s)
  ultimately have "destroy_channel chans tid tid c (h', p') = Ret ()"
    by (simp add: destroy_channel_def hasChannel_def delete_Channel_def assms(4))
  then show ?thesis using s' o(2) by (auto simp: s client_op_def)
qed

lemma EventLoop_ctor_ok:
  assumes ag: "agrees fdof (h, p) no_watch" and fds: "0 \<le> fdof tc" "0 \<le> fdof wc" "fdof tc \<noteq> fdof wc"
  shows "\<exists>l s. EventLoop_ctor update_op tid (Inr (fdof tc)) (Inr (fdof wc)) tc wc False (h, p) = Ret (l, s)
    \<and> new_EventLoop False tid = Ret l \<and> agrees fdof s (wired fdof tc wc)
    \<and> (\<forall>d. eventHandling (fst s d) = (d \<notin> {tc, wc} \<and> eventHandling (h d)))
    \<and> (\<exists>e. EventLoop_ctor update_op tid (Inr (fdof tc)) (Inr (fdof wc)) tc wc True (h, p) = Abort (Fatal e))"
proof -
  have ne: "tc \<noteq> wc" using fds(3) by auto
  let ?t = "(new_Channel (fdof tc))\<lparr>readCallback := True\<rparr>" and ?w = "(new_Channel (fdof wc))\<lparr>readCallback := True\<rparr>"
  have a1: "agrees fdof (h(tc := ?t), p) no_watch" by (rule agrees_create [OF ag]) (simp_all add: no_watch_def new_Channel_def)
  have "legal_call fdof (Inl EnableReading, tc) no_watch" using fds(1) by (simp add: legal_call_def no_watch_def poll_masks)
  from interest_call [OF a1 this] obtain h1 p1 where
    s1: "Channel_interest update_op EnableReading tc (h(tc := ?t), p) = Ret (h1, p1)"
      "agrees fdof (h1, p1) (watch_step fdof (Inl EnableReading, tc) no_watch)"
      "\<forall>d. eventHandling (h1 d) = eventHandling ((h(tc := ?t)) d)" by auto
  have a2: "agrees fdof (h1(wc := ?w), p1) (watch_step fdof (Inl EnableReading, tc) no_watch)"
    by (rule agrees_create [OF s1(2)]) (use ne in \<open>simp_all add: no_watch_def watch_step_def new_Channel_def\<close>)
  have "legal_call fdof (Inl EnableReading, wc) (watch_step fdof (Inl EnableReading, tc) no_watch)"
    using fds ne by (simp add: legal_call_def no_watch_def watch_step_def poll_masks)
  from interest_call [OF a2 this] obtain s2 where
    s2: "Channel_interest update_op EnableReading wc (h1(wc := ?w), p1) = Ret s2" "agrees fdof s2 (wired fdof tc wc)"
      "\<forall>d. eventHandling (fst s2 d) = eventHandling ((h1(wc := ?w)) d)" by (auto simp: wired_def)
  have u: "(\<lambda>c. EventLoop_updateChannel update_op tid c l) = update_op" if "threadId l = tid" for l
    using that by (simp add: EventLoop_updateChannel_def fun_eq_iff)
  obtain l where l: "new_EventLoop False tid = Ret l" "threadId l = tid" by (simp add: new_EventLoop_def)
  have "eventHandling (fst s2 d) = (d \<notin> {tc, wc} \<and> eventHandling (h d))" for d
    using s2(3) s1(3) ne by (auto simp: new_Channel_def)
  moreover have "EventLoop_ctor update_op tid (Inr (fdof tc)) (Inr (fdof wc)) tc wc False (h, p) = Ret (l, s2)"
    using s1(1) s2(1) by (simp add: EventLoop_ctor_def TimerQueue_ctor_def createTimerfd_def createEventfd_def l(1) u [OF l(2)])
  moreover have "\<exists>e. EventLoop_ctor update_op tid (Inr (fdof tc)) (Inr (fdof wc)) tc wc True (h, p) = Abort (Fatal e)"
    using s1(1) by (simp add: EventLoop_ctor_def TimerQueue_ctor_def createTimerfd_def createEventfd_def l(1) u [OF l(2)] new_EventLoop_def [of True])
  ultimately show ?thesis using s2(2) l(1) by blast
qed

lemma EventLoop_dtor_ok:
  assumes ag: "agrees fdof s w" and reg: "ws_reg w (fdof tc) = Some tc" "ws_reg w (fdof wc) = Some wc" "fdof tc \<noteq> fdof wc"
    and idle: "\<not> eventHandling (fst s tc)" "\<not> eventHandling (fst s wc)" and q: "tq_inv tid {} q"
    and l: "threadId l = tid" "\<not> el_eventHandling l" and c: "chans = registered"
  shows "\<exists>q' s'. EventLoop_dtor update_op remove_op chans tid tc wc l q s = Ret (q', s', [fdof wc, fdof tc])
    \<and> theap q' = Map.empty \<and> agrees fdof s' (foldl (\<lambda>w x. watch_step fdof x w) w (unwire_script tc wc))"
proof -
  have ne: "tc \<noteq> wc" using reg(3) by auto
  have fdc: "agrees fdof s w \<Longrightarrow> fd (fst s d) = fdof d" for s w d by (auto simp: agrees_def)
  have u: "(\<lambda>c. EventLoop_updateChannel update_op tid c l) = update_op" "(\<lambda>c. EventLoop_removeChannel remove_op tid c l) = remove_op"
    using l by (simp_all add: EventLoop_updateChannel_def EventLoop_removeChannel_def fun_eq_iff)
  define w1 where "w1 = watch_step fdof (Inl DisableAll, wc) w"
  define w2 where "w2 = watch_step fdof (Inr (), wc) w1"
  define w3 where "w3 = watch_step fdof (Inl DisableAll, tc) w2"
  note ws = w1_def w2_def w3_def watch_step_def
  obtain s1 where s1: "Channel_interest update_op DisableAll wc s = Ret s1" "agrees fdof s1 w1"
      "\<forall>d. eventHandling (fst s1 d) = eventHandling (fst s d)"
    using interest_call [OF ag, of DisableAll wc] reg by (auto simp: w1_def legal_call_def)
  have "legal_call fdof (Inr (), wc) w1" by (simp add: legal_call_def ws poll_masks)
  from remove_call [OF s1(2) this _ c, of tid] s1(3) idle(2) obtain s2 where
    s2: "Channel_remove remove_op wc s1 = Ret s2" "agrees fdof s2 w2" "\<forall>d. eventHandling (fst s2 d) = eventHandling (fst s d)"
      "destroy_channel chans tid tid wc s2 = Ret ()" by (auto simp: w2_def)
  have "legal_call fdof (Inl DisableAll, tc) w2" using reg ne by (simp add: legal_call_def ws)
  from interest_call [OF s2(2) this] s2(3) obtain s3 where s3: "Channel_interest update_op DisableAll tc s2 = Ret s3" "agrees fdof s3 w3"
      "\<forall>d. eventHandling (fst s3 d) = eventHandling (fst s d)" by (auto simp: w3_def)
  have "legal_call fdof (Inr (), tc) w3" by (simp add: legal_call_def ws poll_masks)
  from remove_call [OF s3(2) this _ c, of tid] s3(3) idle(1) obtain s4 where
    s4: "Channel_remove remove_op tc s3 = Ret s4" "agrees fdof s4 (watch_step fdof (Inr (), tc) w3)" "destroy_channel chans tid tid tc s4 = Ret ()" by auto
  obtain q' where q': "delete_timers q = Ret q'" "theap q' = Map.empty" using delete_timers_frees [OF q] by blast
  have "EventLoop_dtor update_op remove_op chans tid tc wc l q s = Ret (q', s4, [fdof wc, fdof tc])"
    using s1(1) s2(1,4) s3(1) s4(1,3) q'(1) fdc [OF s2(2)] fdc [OF s4(2)] l(1) by (simp add: EventLoop_dtor_def u TimerQueue_dtor_def)
  moreover have "foldl (\<lambda>w x. watch_step fdof x w) w (unwire_script tc wc) = watch_step fdof (Inr (), tc) w3"
    by (simp add: unwire_script_def w1_def w2_def w3_def)
  ultimately show ?thesis using s4(2) q'(2) by auto
qed

lemma script_keeps:
  assumes "agrees fdof s w" and "legal_script fdof xs w"
  shows "\<exists>s'. foldo (client_op update_op remove_op) xs s = Ret s' \<and> agrees fdof s' (foldl (\<lambda>w x. watch_step fdof x w) w xs)
    \<and> (\<forall>d. eventHandling (fst s' d) = eventHandling (fst s d))"
  using assms
proof (induction xs arbitrary: s w)
  case (Cons x xs)
  obtain h p where s: "s = (h, p)" by fastforce
  obtain h1 p1 where s1: "client_op update_op remove_op x s = Ret (h1, p1)" "agrees fdof (h1, p1) (watch_step fdof x w)"
    using client_op_simulates [of fdof h p w x] Cons.prems s by auto
  have "eventHandling (h1 d) = eventHandling (h d)" for d
    using client_op_others(2) [of fdof h p w x h1 p1] Cons.prems s1(1) s by auto
  then show ?case using Cons.IH [OF s1(2)] Cons.prems s1(1) s by auto
qed simp

text \<open>A loop's whole life: made, used by other channels, destroyed.\<close>

lemma loop_life:
  assumes ag: "agrees fdof (h, p) no_watch" and h: "\<forall>d. \<not> eventHandling (h d)"
    and fds: "0 \<le> fdof tc" "0 \<le> fdof wc" "fdof tc \<noteq> fdof wc"
    and xs: "legal_script fdof xs (wired fdof tc wc)" "\<forall>x\<in>set xs. snd x \<notin> {tc, wc}" and q: "tq_inv tid {} q"
    and c: "chans = registered"
  shows "\<exists>l s1 s2 q' s3. EventLoop_ctor update_op tid (Inr (fdof tc)) (Inr (fdof wc)) tc wc False (h, p) = Ret (l, s1)
    \<and> watched (snd s1) = (\<lambda>_. 0)(fdof tc := kReadEvent, fdof wc := kReadEvent)
    \<and> foldo (client_op update_op remove_op) xs s1 = Ret s2
    \<and> EventLoop_dtor update_op remove_op chans tid tc wc l q s2 = Ret (q', s3, [fdof wc, fdof tc])
    \<and> theap q' = Map.empty \<and> registered (snd s3) = (registered (snd s2))(fdof wc := None, fdof tc := None)
    \<and> (\<exists>e. EventLoop_ctor update_op tid (Inr (fdof tc)) (Inr (fdof wc)) tc wc True (h, p) = Abort (Fatal e))"
proof -
  let ?w = "foldl (\<lambda>w x. watch_step fdof x w) (wired fdof tc wc) xs"
  obtain l s1 where s1: "EventLoop_ctor update_op tid (Inr (fdof tc)) (Inr (fdof wc)) tc wc False (h, p) = Ret (l, s1)"
      "new_EventLoop False tid = Ret l" "agrees fdof s1 (wired fdof tc wc)" "\<forall>d. \<not> eventHandling (fst s1 d)"
      "\<exists>e. EventLoop_ctor update_op tid (Inr (fdof tc)) (Inr (fdof wc)) tc wc True (h, p) = Abort (Fatal e)"
    using EventLoop_ctor_ok [OF ag fds, of tid] h by blast
  obtain s2 where s2: "foldo (client_op update_op remove_op) xs s1 = Ret s2" "agrees fdof s2 ?w" "\<forall>d. \<not> eventHandling (fst s2 d)"
    using script_keeps [OF s1(3) xs(1)] s1(4) by blast
  have reg: "ws_reg ?w (fdof d) = Some d" if "d \<in> {tc, wc}" for d
    using ws_reg_kept [OF xs(1)] xs(2) that fds(3) by (auto simp: wired_def watch_step_def)
  have l: "threadId l = tid" "\<not> el_eventHandling l" using s1(2) by (auto simp: new_EventLoop_def)
  obtain q' s3 where s3: "EventLoop_dtor update_op remove_op chans tid tc wc l q s2 = Ret (q', s3, [fdof wc, fdof tc])"
      "theap q' = Map.empty" "agrees fdof s3 (foldl (\<lambda>w x. watch_step fdof x w) ?w (unwire_script tc wc))"
    using EventLoop_dtor_ok [OF s2(2) reg [of tc] reg [of wc] fds(3) _ _ q l c] s2(3) by auto
  have "registered (snd s3) = (registered (snd s2))(fdof wc := None, fdof tc := None)"
    using s2(2) s3(3) reg by (cases s2; cases s3) (auto simp: agrees_def unwire_script_def watch_step_def fun_eq_iff)
  moreover have "watched (snd s1) = (\<lambda>_. 0)(fdof tc := kReadEvent, fdof wc := kReadEvent)"
    using s1(3) interest_wired [of fdof tc wc] fds(3) by (cases s1) (simp add: agrees_def)
  ultimately show ?thesis using s1 s2(1) s3(1,2) by blast
qed

end

text \<open>C38: An event loop's life with the epoll poller: in a thread that has none it is created without a failing assertion, and then the kernel
  watches exactly its timer and its event descriptor for reading; after any legal use of other channels its destructor fails no
  assertion, takes exactly these two channels out of the poller, closes their descriptors and frees every timer that is left; creating a
  second loop in the same thread is fatal.\<close>

theorem event_loop_life:
  assumes "epoll_ctl_spec epoll_ctl watching" and "watching k = Map.empty"
    and "0 \<le> fdof tc" and "0 \<le> fdof wc" and "fdof tc \<noteq> fdof wc"
    and "legal_script fdof xs (wired fdof tc wc)" and "\<forall>x\<in>set xs. snd x \<notin> {tc, wc}" and "tq_inv tid {} q"
  shows "\<exists>p l s1 s2 q' s3. new_EPollPoller tid (Inr k) = Ret p
    \<and> EventLoop_ctor (EPoll_updateChannel epoll_ctl tid) tid (Inr (fdof tc)) (Inr (fdof wc)) tc wc False (fresh_channels fdof, p) = Ret (l, s1)
    \<and> epoll_watched watching (snd s1) = (\<lambda>_. 0)(fdof tc := kReadEvent, fdof wc := kReadEvent)
    \<and> foldo (client_op (EPoll_updateChannel epoll_ctl tid) (EPoll_removeChannel epoll_ctl tid)) xs s1 = Ret s2
    \<and> EventLoop_dtor (EPoll_updateChannel epoll_ctl tid) (EPoll_removeChannel epoll_ctl tid) ep_channels tid tc wc l q s2
        = Ret (q', s3, [fdof wc, fdof tc])
    \<and> theap q' = Map.empty \<and> ep_channels (snd s3) = (ep_channels (snd s2))(fdof wc := None, fdof tc := None)
    \<and> (\<exists>e. EventLoop_ctor (EPoll_updateChannel epoll_ctl tid) tid (Inr (fdof tc)) (Inr (fdof wc)) tc wc True (fresh_channels fdof, p) = Abort (Fatal e))"
proof -
  obtain p where p: "new_EPollPoller tid (Inr k) = Ret p" "epoll.agrees epoll_ctl watching tid fdof (fresh_channels fdof, p) no_watch"
    using epoll_fresh_agrees [OF assms(1,2)] by blast
  have "\<forall>d. \<not> eventHandling (fresh_channels fdof d)" by (simp add: fresh_channels_def new_Channel_def)
  from epoll.loop_life [OF p(2) this assms(3-8) refl] p(1) show ?thesis by blast
qed

theorem event_loop_life_witness:
  "\<exists>p l s1 s3 q'. new_EPollPoller 1 (Inr Map.empty) = Ret p
    \<and> EventLoop_ctor (EPoll_updateChannel map_ctl 1) 1 (Inr 5) (Inr 6) 0 1 False (fresh_channels (\<lambda>c. int c + 5), p) = Ret (l, s1)
    \<and> (\<exists>s2. foldo (client_op (EPoll_updateChannel map_ctl 1) (EPoll_removeChannel map_ctl 1)) [(Inl EnableWriting, 2)] s1 = Ret s2
      \<and> EventLoop_dtor (EPoll_updateChannel map_ctl 1) (EPoll_removeChannel map_ctl 1) ep_channels 1 0 1 l demo_queue s2 = Ret (q', s3, [6, 5]))"
proof -
  have "legal_script (\<lambda>c. int c + 5) [(Inl EnableWriting, 2)] (wired (\<lambda>c. int c + 5) 0 1)"
    by (simp add: legal_call_def wired_def watch_step_def no_watch_def poll_masks)
  moreover have "tq_inv 1 {} demo_queue" using demo_queue_idle by (simp add: tq_idle_def)
  ultimately show ?thesis
    using event_loop_life [OF map_ctl_spec, of Map.empty "\<lambda>c. int c + 5" 0 1 "[(Inl EnableWriting, 2)]" 1 demo_queue] by auto
qed

text \<open>The same holds with the poll poller.\<close>

lemma event_loop_life_poll:
  assumes "0 \<le> fdof tc" and "0 \<le> fdof wc" and "fdof tc \<noteq> fdof wc"
    and "legal_script fdof xs (wired fdof tc wc)" and "\<forall>x\<in>set xs. snd x \<notin> {tc, wc}" and "tq_inv tid {} q"
  shows "\<exists>l s1 s2 q' s3.
      EventLoop_ctor (Poll_updateChannel tid) tid (Inr (fdof tc)) (Inr (fdof wc)) tc wc False (fresh_channels fdof, new_PollPoller tid) = Ret (l, s1)
    \<and> poll_watched (snd s1) = (\<lambda>_. 0)(fdof tc := kReadEvent, fdof wc := kReadEvent)
    \<and> foldo (client_op (Poll_updateChannel tid) (Poll_removeChannel tid)) xs s1 = Ret s2
    \<and> EventLoop_dtor (Poll_updateChannel tid) (Poll_removeChannel tid) pp_channels tid tc wc l q s2 = Ret (q', s3, [fdof wc, fdof tc])
    \<and> theap q' = Map.empty"
proof -
  have "\<forall>d. \<not> eventHandling (fresh_channels fdof d)" by (simp add: fresh_channels_def new_Channel_def)
  from poll.loop_life [OF poll_fresh_agrees this assms refl] show ?thesis by blast
qed

end
