(* ===== verification/Singletons.thy ===== *)
theory Singletons
  imports Prelude
begin

text \<open>
  \<^verbatim>\<open>muduo/base/Atomic.h\<close>, \<^verbatim>\<open>Singleton.h\<close>, \<^verbatim>\<open>ThreadLocal.h\<close>, \<^verbatim>\<open>ThreadLocalSingleton.h\<close> and \<^verbatim>\<open>WeakCallback.h\<close>: objects shared by threads, objects
  every thread has its own of, and callbacks that do not keep their object alive.

  An object is the number of its creation. \<^verbatim>\<open>pthread_once\<close> lets one caller run the initialiser and the others wait for it; a value stored under a
  thread key is handed to the destructor when the thread ends, after the key was reset.
\<close>

section \<open>Atomic integers\<close>

text \<open>Each call takes the argument and the stored value and gives what it returns and the new value. The words wrap around, as the
  machine's atomic addition does; the source's own \<^verbatim>\<open>+ x\<close> on a signed type is undefined there.\<close>

type_synonym 'w atomic = "'w word"

definition getAndSet :: "'w :: len atomic \<Rightarrow> 'w atomic \<Rightarrow> 'w atomic \<times> 'w atomic" where
  "getAndSet x v = (v, x)"

definition getAndAdd :: "'w :: len atomic \<Rightarrow> 'w atomic \<Rightarrow> 'w atomic \<times> 'w atomic" where
  "getAndAdd x v = (v, v + x)"

definition addAndGet :: "'w :: len atomic \<Rightarrow> 'w atomic \<Rightarrow> 'w atomic \<times> 'w atomic" where
  "addAndGet x v = (let (old, v) = getAndAdd x v in (old + x, v))"

definition incrementAndGet :: "'w :: len atomic \<Rightarrow> 'w atomic \<times> 'w atomic" where
  "incrementAndGet = addAndGet 1"

definition decrementAndGet :: "'w :: len atomic \<Rightarrow> 'w atomic \<times> 'w atomic" where
  "decrementAndGet = addAndGet (- 1)"

fun take_numbers :: "nat \<Rightarrow> 'w :: len atomic \<Rightarrow> 'w atomic list \<times> 'w atomic" where
  "take_numbers 0 v = ([], v)"
| "take_numbers (Suc n) v = (let (x, v) = incrementAndGet v; (xs, v) = take_numbers n v in (x # xs, v))"

lemma take_numbers_eq: "take_numbers n v = (map (\<lambda>i. v + of_nat i + 1) [0..<n], v + of_nat n)"
  by (induction n arbitrary: v)
    (simp_all add: incrementAndGet_def addAndGet_def getAndAdd_def upt_conv_Cons map_Suc_upt [symmetric] algebra_simps del: upt_Suc)

text \<open>The calls are atomic, so that in whatever order threads make them, numbers taken from a counter are distinct until it has gone round.\<close>

lemma numbers_distinct:
  assumes "n \<le> 2 ^ LENGTH('w :: len)"
  shows "distinct (fst (take_numbers n (v :: 'w atomic)))"
proof -
  have "i = j" if "i < n" and "j < n" and "(of_nat i :: 'w word) = of_nat j" for i j
    using that assms by (metis mod_less order_less_le_trans unat_of_nat)
  then have "inj_on (\<lambda>i. v + of_nat i + 1) {0..<n}" by (auto intro!: inj_onI)
  then show ?thesis by (simp add: take_numbers_eq distinct_map)
qed

section \<open>Singleton\<close>

datatype once = OnceNew | OnceRunning | OnceDone
datatype caller = Idle | InInit | InAtexit | AfterOnce | Got nat

record Singleton =
  ponce :: once
  sg_value :: "nat option"
  sg_created :: nat
  sg_atexit :: nat

text \<open>A step of a thread inside \<^verbatim>\<open>instance()\<close>; \<open>None\<close> is waiting in \<^verbatim>\<open>pthread_once\<close>.\<close>

fun instance_step :: "bool \<Rightarrow> caller \<Rightarrow> Singleton \<Rightarrow> (caller \<times> Singleton) outcome option" where
  "instance_step no_destroy Idle s =
     (case ponce s of
        OnceNew \<Rightarrow> Some (Ret (InInit, s\<lparr>ponce := OnceRunning\<rparr>))
      | OnceRunning \<Rightarrow> None
      | OnceDone \<Rightarrow> Some (Ret (AfterOnce, s)))"
| "instance_step no_destroy InInit s = Some (Ret (InAtexit, s\<lparr>sg_value := Some (sg_created s), sg_created := sg_created s + 1\<rparr>))"
| "instance_step no_destroy InAtexit s =
     Some (Ret (AfterOnce, s\<lparr>sg_atexit := sg_atexit s + (if no_destroy then 0 else 1), ponce := OnceDone\<rparr>))"
| "instance_step no_destroy AfterOnce s =
     Some (case sg_value s of None \<Rightarrow> Abort (AssertFail ''value_ != NULL'') | Some v \<Rightarrow> Ret (Got v, s))"
| "instance_step no_destroy (Got v) s = Some (Ret (Idle, s))"

definition new_Singleton :: Singleton where
  "new_Singleton = \<lparr>ponce = OnceNew, sg_value = None, sg_created = 0, sg_atexit = 0\<rparr>"

text \<open>The handler that runs when the process exits.\<close>

definition destory :: "Singleton \<Rightarrow> Singleton" where
  "destory s = s\<lparr>sg_value := None\<rparr>"

inductive sg_reach :: "bool \<Rightarrow> (int \<Rightarrow> caller) \<Rightarrow> Singleton \<Rightarrow> bool" for no_destroy where
  init: "sg_reach no_destroy (\<lambda>_. Idle) new_Singleton"
| step: "sg_reach no_destroy at s \<Longrightarrow> instance_step no_destroy (at t) s = Some (Ret (c, s')) \<Longrightarrow> sg_reach no_destroy (at(t := c)) s'"

definition sg_ok :: "bool \<Rightarrow> (int \<Rightarrow> caller) \<Rightarrow> Singleton \<Rightarrow> bool" where
  "sg_ok no_destroy at s \<longleftrightarrow> (case ponce s of
       OnceNew \<Rightarrow> s = new_Singleton \<and> (\<forall>t. at t = Idle)
     | OnceRunning \<Rightarrow> (\<exists>t. (\<forall>u. u \<noteq> t \<longrightarrow> at u = Idle) \<and> (at t = InInit \<and> s = new_Singleton\<lparr>ponce := OnceRunning\<rparr>
         \<or> at t = InAtexit \<and> s = new_Singleton\<lparr>ponce := OnceRunning, sg_value := Some 0, sg_created := 1\<rparr>))
     | OnceDone \<Rightarrow> s = \<lparr>ponce = OnceDone, sg_value = Some 0, sg_created = 1, sg_atexit = (if no_destroy then 0 else 1)\<rparr>
         \<and> (\<forall>t. at t \<in> {Idle, AfterOnce, Got 0}))"

lemma sg_ok_reach: "sg_reach no_destroy at s \<Longrightarrow> sg_ok no_destroy at s"
proof (induction rule: sg_reach.induct)
  case init
  then show ?case by (simp add: sg_ok_def new_Singleton_def)
next
  case (step at s t c s')
  show ?case
  proof (cases "ponce s")
    case OnceNew
    then have i: "s = new_Singleton" "\<forall>u. at u = Idle" using step.IH by (simp_all add: sg_ok_def)
    then have "c = InInit" "s' = new_Singleton\<lparr>ponce := OnceRunning\<rparr>" using step.hyps(2) OnceNew by auto
    then show ?thesis using i by (auto simp: sg_ok_def intro!: exI [of _ t])
  next
    case OnceRunning
    then obtain u where u: "\<forall>v. v \<noteq> u \<longrightarrow> at v = Idle" "at u = InInit \<and> s = new_Singleton\<lparr>ponce := OnceRunning\<rparr>
         \<or> at u = InAtexit \<and> s = new_Singleton\<lparr>ponce := OnceRunning, sg_value := Some 0, sg_created := 1\<rparr>"
      using step.IH by (auto simp: sg_ok_def)
    have t: "t = u" using step.hyps(2) OnceRunning u(1) by (metis instance_step.simps(1) once.simps(8) option.distinct(1))
    show ?thesis
    proof (cases "at u")
      case InInit
      then show ?thesis using u t step.hyps(2) by (auto simp: sg_ok_def new_Singleton_def intro!: exI [of _ u])
    next
      case InAtexit
      then show ?thesis using u t step.hyps(2) by (auto simp: sg_ok_def new_Singleton_def)
    qed (use u in auto)
  next
    case OnceDone
    then have d: "s = \<lparr>ponce = OnceDone, sg_value = Some 0, sg_created = 1, sg_atexit = (if no_destroy then 0 else 1)\<rparr>"
      "\<forall>t. at t \<in> {Idle, AfterOnce, Got 0}" using step.IH by (simp_all add: sg_ok_def)
    then have "at t = Idle \<or> at t = AfterOnce \<or> at t = Got 0" by simp
    then show ?thesis using d step.hyps(2) by (elim disjE) (auto simp: sg_ok_def)
  qed
qed

text \<open>Until the process exits, in every interleaving exactly one object is made, every caller gets it, no assertion fails, and the
  handler that deletes it is registered once.\<close>

lemma singleton_once:
  assumes "sg_reach no_destroy at s"
  shows "sg_created s \<le> 1" and "at t = Got v \<Longrightarrow> v = 0" and "instance_step no_destroy (at t) s = Some r \<Longrightarrow> returns r"
    and "ponce s = OnceDone \<Longrightarrow> sg_atexit s = (if no_destroy then 0 else 1)"
proof -
  note ok = sg_ok_reach [OF assms, unfolded sg_ok_def]
  show "sg_created s \<le> 1" using ok by (auto simp: new_Singleton_def split: once.splits)
  have d: "ponce s = OnceDone" if "at t = AfterOnce \<or> at t = Got v" for t v
  proof (cases "ponce s")
    case OnceRunning
    then obtain u where "\<forall>v. v \<noteq> u \<longrightarrow> at v = Idle" "at u = InInit \<or> at u = InAtexit" using ok by auto
    then show ?thesis using that by (cases "t = u") auto
  qed (use ok that in auto)
  show "at t = Got v \<Longrightarrow> v = 0" using ok d [of t v] by (auto dest: spec [of _ t] split: once.splits)
  show "ponce s = OnceDone \<Longrightarrow> sg_atexit s = (if no_destroy then 0 else 1)" using ok by (auto split: once.splits)
  have "at t = AfterOnce \<Longrightarrow> sg_value s = Some 0" using ok d [of t] by (auto split: once.splits)
  then show "instance_step no_destroy (at t) s = Some r \<Longrightarrow> returns r" by (cases "at t") (auto split: once.splits)
qed

text \<open>A call of \<^verbatim>\<open>instance()\<close> after the exit handler has run fails its assertion.\<close>

lemma singleton_after_exit: "\<not> returns (the (instance_step no_destroy AfterOnce (destory s)))"
  by (simp add: destory_def)

section \<open>Objects of a thread\<close>

text \<open>What both classes promise: a thread keeps its object until it ends, other threads have other objects, and ending a thread deletes
  its object and no other.\<close>

locale per_thread_object =
  fixes invar :: "'s \<Rightarrow> bool"
    and obj :: "'s \<Rightarrow> int \<rightharpoonup> nat"
    and live :: "'s \<Rightarrow> nat set"
    and get_obj :: "int \<Rightarrow> 's \<Rightarrow> (nat \<times> 's) outcome"
    and leave :: "int \<Rightarrow> 's \<Rightarrow> 's outcome"
  assumes get_old: "invar s \<Longrightarrow> obj s t = Some p \<Longrightarrow> get_obj t s = Ret (p, s)"
    and get_new: "invar s \<Longrightarrow> obj s t = None \<Longrightarrow>
      \<exists>p s'. get_obj t s = Ret (p, s') \<and> invar s' \<and> p \<notin> live s \<and> obj s' = (obj s)(t \<mapsto> p) \<and> live s' = insert p (live s)"
    and leave_ok: "invar s \<Longrightarrow> \<exists>s'. leave t s = Ret s' \<and> invar s' \<and> obj s' = (obj s)(t := None) \<and> live s' = live s - set_option (obj s t)"
    and live_ok: "invar s \<Longrightarrow> live s = ran (obj s) \<and> inj_on (obj s) (dom (obj s))"
begin

definition thread_event :: "int \<times> bool \<Rightarrow> 's \<Rightarrow> 's outcome" where
  "thread_event e s = (if snd e then leave (fst e) s else bindo (get_obj (fst e) s) (\<lambda>(_, s). Ret s))"

lemma thread_event_ok: "invar s \<Longrightarrow> \<exists>s'. thread_event e s = Ret s' \<and> invar s' \<and> (\<forall>t. t \<noteq> fst e \<longrightarrow> obj s' t = obj s t)"
  using leave_ok [of s "fst e"] get_new [of s "fst e"] get_old [of s "fst e"]
  by (cases "obj s (fst e)"; cases "snd e") (auto simp: thread_event_def)

text \<open>Whatever threads do, nothing fails, nothing leaks, and a thread keeps the object it has as long as it does not end.\<close>

lemma thread_events_ok:
  assumes "invar s"
  shows "\<exists>s'. foldo thread_event es s = Ret s' \<and> invar s' \<and> live s' = ran (obj s')
    \<and> (\<forall>t p. obj s t = Some p \<and> (t, True) \<notin> set es \<longrightarrow> obj s' t = Some p)
    \<and> (\<forall>t u p. obj s' t = Some p \<and> obj s' u = Some p \<longrightarrow> t = u)"
  using assms
proof (induction es arbitrary: s)
  case Nil
  then show ?case using live_ok [of s] by (auto simp: inj_on_def dom_def)
next
  case (Cons e es)
  obtain s1 where s1: "thread_event e s = Ret s1" "invar s1" "\<forall>t. t \<noteq> fst e \<longrightarrow> obj s1 t = obj s t"
    using thread_event_ok [OF Cons.prems, of e] by blast
  have keep: "obj s1 t = Some p" if "obj s t = Some p" "(t, True) \<notin> set (e # es)" for t p
  proof (cases "t = fst e")
    case True
    then have "\<not> snd e" using that(2) by (cases e) auto
    then show ?thesis using s1(1) get_old [OF Cons.prems, of t p] that(1) True by (auto simp: thread_event_def)
  qed (use s1(3) that in simp)
  obtain s' where s': "foldo thread_event es s1 = Ret s'" "invar s'" "live s' = ran (obj s')"
      "\<forall>t p. obj s1 t = Some p \<and> (t, True) \<notin> set es \<longrightarrow> obj s' t = Some p"
      "\<forall>t u p. obj s' t = Some p \<and> obj s' u = Some p \<longrightarrow> t = u"
    using Cons.IH [OF s1(2)] by blast
  have "\<forall>t p. obj s t = Some p \<and> (t, True) \<notin> set (e # es) \<longrightarrow> obj s' t = Some p" using keep s'(4) by simp
  then show ?case using s1(1) s' by simp
qed

end

section \<open>ThreadLocal\<close>

record ThreadLocal =
  tl_specific :: "int \<rightharpoonup> nat"
  tl_live :: "nat set"
  tl_next :: nat

definition new_ThreadLocal :: ThreadLocal where
  "new_ThreadLocal = \<lparr>tl_specific = Map.empty, tl_live = {}, tl_next = 0\<rparr>"

definition ThreadLocal_value :: "int \<Rightarrow> ThreadLocal \<Rightarrow> (nat \<times> ThreadLocal) outcome" where
  "ThreadLocal_value tid s =
     (case tl_specific s tid of
        Some perThreadValue \<Rightarrow> Ret (perThreadValue, s)
      | None \<Rightarrow>
          let newObj = tl_next s
          in Ret (newObj, s\<lparr>tl_specific := (tl_specific s)(tid \<mapsto> newObj), tl_live := insert newObj (tl_live s), tl_next := newObj + 1\<rparr>))"

text \<open>The end of a thread: the key is reset and the destructor deletes the object.\<close>

definition ThreadLocal_exit :: "int \<Rightarrow> ThreadLocal \<Rightarrow> ThreadLocal outcome" where
  "ThreadLocal_exit tid s =
     (case tl_specific s tid of
        None \<Rightarrow> Ret s
      | Some x \<Rightarrow> Ret (s\<lparr>tl_specific := (tl_specific s)(tid := None), tl_live := tl_live s - {x}\<rparr>))"

text \<open>The objects are those stored under the key, one per thread, and older than the next one.\<close>

definition own_objects :: "(int \<rightharpoonup> nat) \<Rightarrow> nat set \<Rightarrow> nat \<Rightarrow> bool" where
  "own_objects m l n \<longleftrightarrow> l = ran m \<and> inj_on m (dom m) \<and> (\<forall>p\<in>l. p < n)"

lemma own_objects_new:
  assumes "own_objects m l n" and "m t = None"
  shows "own_objects (m(t \<mapsto> n)) (insert n l) (n + 1) \<and> n \<notin> l"
proof -
  have "n \<notin> ran m" using assms(1) by (auto simp: own_objects_def)
  moreover have "\<forall>p\<in>insert n l. p < n + 1" using assms(1) by (auto simp: own_objects_def intro: less_SucI)
  moreover have "inj_on (m(t \<mapsto> n)) (dom (m(t \<mapsto> n)))"
    using assms \<open>n \<notin> ran m\<close> by (auto simp: own_objects_def inj_on_def ran_def dom_def)
  ultimately show ?thesis using assms by (auto simp: own_objects_def)
qed

lemma own_objects_end:
  assumes "own_objects m l n"
  shows "own_objects (m(t := None)) (l - set_option (m t)) n"
proof (cases "m t")
  case None
  then have "m(t := None) = m" by auto
  then show ?thesis using assms None by simp
next
  case (Some p)
  have "ran (m(t := None)) = ran m - {p}"
    using assms Some by (auto simp: own_objects_def ran_def inj_on_def dom_def) (metis option.inject)+
  then show ?thesis using assms Some by (auto simp: own_objects_def inj_on_def dom_def)
qed

interpretation thread_local: per_thread_object "\<lambda>s. own_objects (tl_specific s) (tl_live s) (tl_next s)" tl_specific tl_live
  ThreadLocal_value ThreadLocal_exit
proof
  fix s :: ThreadLocal and t
  assume i: "own_objects (tl_specific s) (tl_live s) (tl_next s)"
  show "tl_specific s t = Some p \<Longrightarrow> ThreadLocal_value t s = Ret (p, s)" for p by (simp add: ThreadLocal_value_def)
  show "\<exists>p s'. ThreadLocal_value t s = Ret (p, s') \<and> own_objects (tl_specific s') (tl_live s') (tl_next s') \<and> p \<notin> tl_live s
      \<and> tl_specific s' = (tl_specific s)(t \<mapsto> p) \<and> tl_live s' = insert p (tl_live s)" if "tl_specific s t = None"
    using own_objects_new [OF i that] that by (simp add: ThreadLocal_value_def Let_def)
  show "\<exists>s'. ThreadLocal_exit t s = Ret s' \<and> own_objects (tl_specific s') (tl_live s') (tl_next s')
      \<and> tl_specific s' = (tl_specific s)(t := None) \<and> tl_live s' = tl_live s - set_option (tl_specific s t)"
    using own_objects_end [OF i, of t] i by (cases "tl_specific s t") (auto simp: ThreadLocal_exit_def fun_upd_idem)
  show "tl_live s = ran (tl_specific s) \<and> inj_on (tl_specific s) (dom (tl_specific s))" using i by (simp add: own_objects_def)
qed

section \<open>ThreadLocalSingleton\<close>

text \<open>The object is kept in a thread-local variable; the key is only there to delete it.\<close>

record ThreadLocalSingleton =
  t_value :: "int \<rightharpoonup> nat"
  deleter_specific :: "int \<rightharpoonup> nat"
  ts_live :: "nat set"
  ts_next :: nat

definition new_ThreadLocalSingleton :: ThreadLocalSingleton where
  "new_ThreadLocalSingleton = \<lparr>t_value = Map.empty, deleter_specific = Map.empty, ts_live = {}, ts_next = 0\<rparr>"

definition deleter_set :: "int \<Rightarrow> nat \<Rightarrow> ThreadLocalSingleton \<Rightarrow> ThreadLocalSingleton outcome" where
  "deleter_set tid newObj s = require (deleter_specific s tid = None) ''pthread_getspecific(pkey_) == NULL''
     (Ret (s\<lparr>deleter_specific := (deleter_specific s)(tid \<mapsto> newObj)\<rparr>))"

definition ThreadLocalSingleton_instance :: "int \<Rightarrow> ThreadLocalSingleton \<Rightarrow> (nat \<times> ThreadLocalSingleton) outcome" where
  "ThreadLocalSingleton_instance tid s =
     (case t_value s tid of
        Some v \<Rightarrow> Ret (v, s)
      | None \<Rightarrow>
          let v = ts_next s
          in bindo (deleter_set tid v (s\<lparr>t_value := (t_value s)(tid \<mapsto> v), ts_live := insert v (ts_live s), ts_next := v + 1\<rparr>)) (\<lambda>s. Ret (v, s)))"

definition ThreadLocalSingleton_destructor :: "int \<Rightarrow> nat \<Rightarrow> ThreadLocalSingleton \<Rightarrow> ThreadLocalSingleton outcome" where
  "ThreadLocalSingleton_destructor tid x s = require (t_value s tid = Some x) ''obj == t_value_''
     (Ret (s\<lparr>ts_live := ts_live s - {x}, t_value := (t_value s)(tid := None)\<rparr>))"

definition ThreadLocalSingleton_exit :: "int \<Rightarrow> ThreadLocalSingleton \<Rightarrow> ThreadLocalSingleton outcome" where
  "ThreadLocalSingleton_exit tid s =
     (case deleter_specific s tid of
        None \<Rightarrow> Ret s
      | Some x \<Rightarrow> ThreadLocalSingleton_destructor tid x (s\<lparr>deleter_specific := (deleter_specific s)(tid := None)\<rparr>))"

definition ts_ok :: "ThreadLocalSingleton \<Rightarrow> bool" where
  "ts_ok s \<longleftrightarrow> deleter_specific s = t_value s \<and> own_objects (t_value s) (ts_live s) (ts_next s)"

interpretation thread_singleton: per_thread_object ts_ok t_value ts_live ThreadLocalSingleton_instance ThreadLocalSingleton_exit
proof
  fix s t
  assume i: "ts_ok s"
  then have o: "own_objects (t_value s) (ts_live s) (ts_next s)" and d: "deleter_specific s = t_value s" by (simp_all add: ts_ok_def)
  show "t_value s t = Some p \<Longrightarrow> ThreadLocalSingleton_instance t s = Ret (p, s)" for p by (simp add: ThreadLocalSingleton_instance_def)
  show "\<exists>p s'. ThreadLocalSingleton_instance t s = Ret (p, s') \<and> ts_ok s' \<and> p \<notin> ts_live s
      \<and> t_value s' = (t_value s)(t \<mapsto> p) \<and> ts_live s' = insert p (ts_live s)" if "t_value s t = None"
    using own_objects_new [OF o that] that d by (simp add: ThreadLocalSingleton_instance_def deleter_set_def ts_ok_def Let_def)
  show "\<exists>s'. ThreadLocalSingleton_exit t s = Ret s' \<and> ts_ok s' \<and> t_value s' = (t_value s)(t := None) \<and> ts_live s' = ts_live s - set_option (t_value s t)"
    using own_objects_end [OF o, of t] o d
    by (cases "t_value s t") (auto simp: ThreadLocalSingleton_exit_def ThreadLocalSingleton_destructor_def ts_ok_def fun_upd_idem)
  show "ts_live s = ran (t_value s) \<and> inj_on (t_value s) (dom (t_value s))" using o by (simp add: own_objects_def)
qed

text \<open>ThreadLocalSingleton: whatever threads call instance() and end, in any order, no assertion fails, a thread gets the same object until it ends,
  two threads never share one, and the live objects are exactly those of the running threads, so that every object is deleted when its thread
  ends and none is leaked.\<close>

theorem thread_local_singletons:
  shows "\<exists>s. foldo (\<lambda>(tid, ends) s. if ends then ThreadLocalSingleton_exit tid s
      else bindo (ThreadLocalSingleton_instance tid s) (\<lambda>(_, s). Ret s)) es new_ThreadLocalSingleton = Ret s
    \<and> ts_live s = ran (t_value s) \<and> (\<forall>t u p. t_value s t = Some p \<and> t_value s u = Some p \<longrightarrow> t = u)
    \<and> (\<forall>t p. t_value s t = Some p \<longrightarrow> ThreadLocalSingleton_instance t s = Ret (p, s))"
proof -
  have e: "(\<lambda>(tid, ends) s. if ends then ThreadLocalSingleton_exit tid s
      else bindo (ThreadLocalSingleton_instance tid s) (\<lambda>(_, s). Ret s)) = thread_singleton.thread_event"
    by (auto simp: fun_eq_iff thread_singleton.thread_event_def)
  have "ts_ok new_ThreadLocalSingleton" by (simp add: ts_ok_def new_ThreadLocalSingleton_def own_objects_def)
  from thread_singleton.thread_events_ok [OF this, of es] show ?thesis
    unfolding e using thread_singleton.get_old by blast
qed

section \<open>Weak callbacks\<close>

text \<open>\<open>refs\<close> counts the shared pointers to the object. The call holds one more while the function runs, which may drop others; an object whose
  count reaches zero is destroyed.\<close>

record weak_object =
  refs :: nat
  destroyed :: bool
  calls :: nat

definition drop_ref :: "weak_object \<Rightarrow> weak_object" where
  "drop_ref o1 = (let o1 = o1\<lparr>refs := refs o1 - 1\<rparr> in if refs o1 = 0 then o1\<lparr>destroyed := True\<rparr> else o1)"

definition WeakCallback_call :: "(weak_object \<Rightarrow> weak_object) \<Rightarrow> weak_object \<Rightarrow> weak_object" where
  "WeakCallback_call function o1 =
     (if refs o1 > 0 then drop_ref (function (o1\<lparr>refs := refs o1 + 1, calls := calls o1 + 1\<rparr>)) else o1)"

text \<open>Even if the function drops every other reference, the object is destroyed only after it has returned; an expired object is not called.\<close>

lemma WeakCallback_keeps_alive:
  assumes "0 < refs o1" and "\<not> destroyed o1" and "k \<le> refs o1"
  shows "let o2 = (drop_ref ^^ k) (o1\<lparr>refs := refs o1 + 1, calls := calls o1 + 1\<rparr>) in \<not> destroyed o2
    \<and> (destroyed (WeakCallback_call (drop_ref ^^ k) o1) \<longleftrightarrow> k = refs o1)"
proof -
  have d: "(drop_ref ^^ j) o2 = o2\<lparr>refs := refs o2 - j\<rparr>" if "j < refs o2" for j o2
    using that by (induction j) (auto simp: drop_ref_def Let_def)
  show ?thesis using assms d [of k "o1\<lparr>refs := refs o1 + 1, calls := calls o1 + 1\<rparr>"]
    by (auto simp: WeakCallback_call_def drop_ref_def Let_def)
qed

lemma WeakCallback_expired: "refs o1 = 0 \<Longrightarrow> WeakCallback_call function o1 = o1"
  by (simp add: WeakCallback_call_def)

end
