(* ===== verification/SocketCalls.thy ===== *)
theory SocketCalls
  imports Sockets
begin

text \<open>
  \<^verbatim>\<open>muduo/net/Socket.{h,cc}\<close> and the remaining calls of \<^verbatim>\<open>SocketsOps.cc\<close>: options, closing, addresses of a socket, and the text of \<^verbatim>\<open>TCP_INFO\<close>.

  \<^verbatim>\<open>setsockopt\<close> is a parameter that gives its result and the new state of the kernel; \<open>option_of\<close> reads an option of a descriptor. The other system
  calls are given by their results, an errno or a value. What the code logs is returned as a list of messages. An address structure that was only
  zeroed, whose family is neither of the two, is \<open>None\<close>.
\<close>

section \<open>Options\<close>

datatype sockopt = TCP_NODELAY | SO_REUSEADDR | SO_REUSEPORT | SO_KEEPALIVE

type_synonym 'k setsockopt = "int \<Rightarrow> sockopt \<Rightarrow> int \<Rightarrow> 'k \<Rightarrow> int \<times> 'k"

definition setTcpNoDelay :: "'k setsockopt \<Rightarrow> int \<Rightarrow> bool \<Rightarrow> 'k \<Rightarrow> string list \<times> 'k" where
  "setTcpNoDelay setsockopt sockfd on k = ([], snd (setsockopt sockfd TCP_NODELAY (if on then 1 else 0) k))"

definition setReuseAddr :: "'k setsockopt \<Rightarrow> int \<Rightarrow> bool \<Rightarrow> 'k \<Rightarrow> string list \<times> 'k" where
  "setReuseAddr setsockopt sockfd on k = ([], snd (setsockopt sockfd SO_REUSEADDR (if on then 1 else 0) k))"

definition setReusePort :: "'k setsockopt \<Rightarrow> int \<Rightarrow> bool \<Rightarrow> 'k \<Rightarrow> string list \<times> 'k" where
  "setReusePort setsockopt sockfd on k =
     (let (ret, k) = setsockopt sockfd SO_REUSEPORT (if on then 1 else 0) k
      in (if ret < 0 \<and> on then [''SO_REUSEPORT failed.''] else [], k))"

definition setKeepAlive :: "'k setsockopt \<Rightarrow> int \<Rightarrow> bool \<Rightarrow> 'k \<Rightarrow> string list \<times> 'k" where
  "setKeepAlive setsockopt sockfd on k = ([], snd (setsockopt sockfd SO_KEEPALIVE (if on then 1 else 0) k))"

fun set_option_call :: "'k setsockopt \<Rightarrow> int \<times> sockopt \<times> bool \<Rightarrow> 'k \<Rightarrow> string list \<times> 'k" where
  "set_option_call setsockopt (sockfd, TCP_NODELAY, on) = setTcpNoDelay setsockopt sockfd on"
| "set_option_call setsockopt (sockfd, SO_REUSEADDR, on) = setReuseAddr setsockopt sockfd on"
| "set_option_call setsockopt (sockfd, SO_REUSEPORT, on) = setReusePort setsockopt sockfd on"
| "set_option_call setsockopt (sockfd, SO_KEEPALIVE, on) = setKeepAlive setsockopt sockfd on"

text \<open>The options that the constructors of Acceptor and TcpConnection set.\<close>

definition acceptor_options :: "'k setsockopt \<Rightarrow> int \<Rightarrow> bool \<Rightarrow> 'k \<Rightarrow> string list \<times> 'k" where
  "acceptor_options setsockopt sockfd reuseport k =
     (let (m1, k) = setReuseAddr setsockopt sockfd True k; (m2, k) = setReusePort setsockopt sockfd reuseport k in (m1 @ m2, k))"

definition connection_options :: "'k setsockopt \<Rightarrow> int \<Rightarrow> 'k \<Rightarrow> string list \<times> 'k" where
  "connection_options setsockopt sockfd k = setKeepAlive setsockopt sockfd True k"

text \<open>A call sets its option of its descriptor or fails without effect.\<close>

definition setsockopt_spec :: "'k setsockopt \<Rightarrow> ('k \<Rightarrow> int \<Rightarrow> sockopt \<Rightarrow> int) \<Rightarrow> bool" where
  "setsockopt_spec setsockopt option_of \<longleftrightarrow> (\<forall>fd1 op v k. case setsockopt fd1 op v k of (ret, k') \<Rightarrow>
     ret = 0 \<and> option_of k' = (option_of k)(fd1 := (option_of k fd1)(op := v)) \<or> ret < 0 \<and> k' = k)"

lemma setsockopt_specD:
  assumes "setsockopt_spec setsockopt option_of" and "setsockopt fd1 op v k = (ret, k')"
  shows "ret = 0 \<and> option_of k' = (option_of k)(fd1 := (option_of k fd1)(op := v)) \<or> ret < 0 \<and> k' = k"
proof -
  have "case setsockopt fd1 op v k of (ret, k') \<Rightarrow>
     ret = 0 \<and> option_of k' = (option_of k)(fd1 := (option_of k fd1)(op := v)) \<or> ret < 0 \<and> k' = k"
    using assms(1) unfolding setsockopt_spec_def by (elim allE)
  then show ?thesis unfolding assms(2) by simp
qed

lemma option_call_effect:
  assumes "setsockopt_spec setsockopt option_of" and "set_option_call setsockopt (fd1, op, on) k = (m, k')"
  shows "option_of k' = (option_of k)(fd1 := (option_of k fd1)(op := if on then 1 else 0)) \<or> k' = k"
    and "m \<noteq> [] \<Longrightarrow> op = SO_REUSEPORT \<and> on \<and> k' = k"
proof -
  obtain ret k1 where s: "setsockopt fd1 op (if on then 1 else 0) k = (ret, k1)" by fastforce
  note spec = setsockopt_specD [OF assms(1) s]
  have "k' = k1" using assms(2) s
    by (cases op) (auto simp: setTcpNoDelay_def setReuseAddr_def setReusePort_def setKeepAlive_def)
  moreover have "m \<noteq> [] \<Longrightarrow> op = SO_REUSEPORT \<and> on \<and> ret < 0" using assms(2) s
    by (cases op) (auto simp: setTcpNoDelay_def setReuseAddr_def setReusePort_def setKeepAlive_def split: if_splits)
  ultimately show "option_of k' = (option_of k)(fd1 := (option_of k fd1)(op := if on then 1 else 0)) \<or> k' = k"
    and "m \<noteq> [] \<Longrightarrow> op = SO_REUSEPORT \<and> on \<and> k' = k" using spec by auto
qed

lemma acceptor_options_set:
  assumes "setsockopt_spec setsockopt option_of" and "\<forall>fd1 op v k. fst (setsockopt fd1 op v k) = 0"
  shows "fst (acceptor_options setsockopt fd1 rp k) = []"
    and "option_of (snd (acceptor_options setsockopt fd1 rp k)) =
      (option_of k)(fd1 := (option_of k fd1)(SO_REUSEADDR := 1, SO_REUSEPORT := if rp then 1 else 0))"
proof -
  have s: "option_of (snd (setsockopt fd1 op v k)) = (option_of k)(fd1 := (option_of k fd1)(op := v))" for op v k
    using setsockopt_specD [OF assms(1), of fd1 op v k] assms(2) by (cases "setsockopt fd1 op v k") (metis fst_conv less_irrefl snd_conv)
  show "fst (acceptor_options setsockopt fd1 rp k) = []"
    using assms(2) by (simp add: acceptor_options_def setReuseAddr_def setReusePort_def split_beta Let_def)
  show "option_of (snd (acceptor_options setsockopt fd1 rp k)) =
      (option_of k)(fd1 := (option_of k fd1)(SO_REUSEADDR := 1, SO_REUSEPORT := if rp then 1 else 0))"
    by (auto simp: acceptor_options_def setReuseAddr_def setReusePort_def split_beta Let_def s fun_eq_iff)
qed

section \<open>Plain calls\<close>

definition sockets_close :: "int \<Rightarrow> string list" where
  "sockets_close r = (if r < 0 then [''sockets::close''] else [])"

definition sockets_shutdownWrite :: "int \<Rightarrow> string list" where
  "sockets_shutdownWrite r = (if r < 0 then [''sockets::shutdownWrite''] else [])"

text \<open>\<^verbatim>\<open>peeraddr\<close> is assigned only when a descriptor is returned.\<close>

definition Socket_accept :: "int + int \<Rightarrow> InetAddress \<Rightarrow> InetAddress \<Rightarrow> ((int + int) \<times> InetAddress) outcome" where
  "Socket_accept r addr peeraddr =
     bindo (sockets_accept r) (\<lambda>connfd. Ret (connfd, case connfd of Inr _ \<Rightarrow> addr | Inl _ \<Rightarrow> peeraddr))"

definition getLocalAddr :: "int + InetAddress \<Rightarrow> string list \<times> InetAddress option" where
  "getLocalAddr r = (case r of Inl _ \<Rightarrow> ([''sockets::getLocalAddr''], None) | Inr localaddr \<Rightarrow> ([], Some localaddr))"

definition getPeerAddr :: "int + InetAddress \<Rightarrow> string list \<times> InetAddress option" where
  "getPeerAddr r = (case r of Inl _ \<Rightarrow> ([''sockets::getPeerAddr''], None) | Inr peeraddr \<Rightarrow> ([], Some peeraddr))"

fun zero_address :: "InetAddress \<Rightarrow> bool" where
  "zero_address (Sockaddr_in p a) \<longleftrightarrow> p = 0 \<and> a = 0"
| "zero_address (Sockaddr_in6 p a s) \<longleftrightarrow> p = 0 \<and> a = in6addr_any"

definition sockets_isSelfConnect :: "int + InetAddress \<Rightarrow> int + InetAddress \<Rightarrow> bool" where
  "sockets_isSelfConnect rl rp =
     (case (snd (getLocalAddr rl), snd (getPeerAddr rp)) of
        (None, _) \<Rightarrow> False
      | (Some l, Some p) \<Rightarrow> isSelfConnect l p
      | (Some l, None) \<Rightarrow> zero_address l)"

text \<open>A socket whose port is assigned is found to be connected to itself only if both addresses could be read and are the same.\<close>

lemma self_connect_exact:
  assumes "rl = Inr l" and "port l \<noteq> 0"
  shows "sockets_isSelfConnect rl rp \<longleftrightarrow> (\<exists>p. rp = Inr p \<and> isSelfConnect l p)"
proof -
  have "networkToHost16 0 = 0" by code_simp
  then have "\<not> zero_address l" using assms(2) by (cases l) (auto simp: port_def)
  then show ?thesis using assms(1) by (cases rp) (simp_all add: sockets_isSelfConnect_def getLocalAddr_def getPeerAddr_def)
qed

section \<open>TCP information\<close>

text \<open>The fields of \<^verbatim>\<open>struct tcp_info\<close> that are printed.\<close>

record tcp_info =
  tcpi_retransmits :: "8 word"
  tcpi_rto :: "32 word"
  tcpi_ato :: "32 word"
  tcpi_snd_mss :: "32 word"
  tcpi_rcv_mss :: "32 word"
  tcpi_lost :: "32 word"
  tcpi_retrans :: "32 word"
  tcpi_rtt :: "32 word"
  tcpi_rttvar :: "32 word"
  tcpi_snd_ssthresh :: "32 word"
  tcpi_snd_cwnd :: "32 word"
  tcpi_total_retrans :: "32 word"

definition percent_u :: "'a :: len word \<Rightarrow> string" where
  "percent_u w = dec_nat (unat w)"

definition tcp_info_text :: "tcp_info \<Rightarrow> string" where
  "tcp_info_text t = ''unrecovered='' @ percent_u (tcpi_retransmits t) @ '' rto='' @ percent_u (tcpi_rto t) @ '' ato='' @ percent_u (tcpi_ato t)
     @ '' snd_mss='' @ percent_u (tcpi_snd_mss t) @ '' rcv_mss='' @ percent_u (tcpi_rcv_mss t) @ '' lost='' @ percent_u (tcpi_lost t)
     @ '' retrans='' @ percent_u (tcpi_retrans t) @ '' rtt='' @ percent_u (tcpi_rtt t) @ '' rttvar='' @ percent_u (tcpi_rttvar t)
     @ '' sshthresh='' @ percent_u (tcpi_snd_ssthresh t) @ '' cwnd='' @ percent_u (tcpi_snd_cwnd t) @ '' total_retrans='' @ percent_u (tcpi_total_retrans t)"

text \<open>\<open>getTcpInfo\<close> gives \<open>None\<close> when \<^verbatim>\<open>getsockopt\<close> fails; the buffer is then untouched.\<close>

definition getTcpInfo :: "int + tcp_info \<Rightarrow> tcp_info option" where
  "getTcpInfo r = (case r of Inl _ \<Rightarrow> None | Inr t \<Rightarrow> Some t)"

definition Socket_getTcpInfoString :: "int + tcp_info \<Rightarrow> string \<Rightarrow> nat \<Rightarrow> bool \<times> string" where
  "Socket_getTcpInfoString r buf len =
     (case getTcpInfo r of Some tcpi \<Rightarrow> (True, snprintf len (tcp_info_text tcpi)) | None \<Rightarrow> (False, buf))"

definition getTcpInfoString :: "int + tcp_info \<Rightarrow> string" where
  "getTcpInfoString r = snd (Socket_getTcpInfoString r [] 1024)"

lemma percent_u_digits: "c \<in> set (percent_u w) \<Longrightarrow> c \<noteq> CHR '' ''"
  using dec_nat_digits [of c "unat w"] by (auto simp: percent_u_def)

lemma percent_u_inj [simp]: "percent_u v = percent_u w \<longleftrightarrow> v = w"
  by (simp add: percent_u_def dec_nat_inj word_unat_eq_iff)

lemma percent_u_space [simp]: "percent_u v @ CHR '' '' # x = percent_u w @ CHR '' '' # y \<longleftrightarrow> v = w \<and> x = y"
proof
  assume e: "percent_u v @ CHR '' '' # x = percent_u w @ CHR '' '' # y"
  have "takeWhile (\<lambda>c. c \<noteq> CHR '' '') (percent_u u @ CHR '' '' # z) = percent_u u" for u :: "'b :: len word" and z
    using percent_u_digits [of _ u] by (simp add: takeWhile_append2)
  then have "percent_u v = percent_u w" using e by metis
  then show "v = w \<and> x = y" using e by simp
qed simp

lemma length_percent_u: "length (percent_u (w :: 32 word)) \<le> 10" "length (percent_u (v :: 8 word)) \<le> 3"
proof -
  have "unat w < 10 ^ 10" using unsigned_less [of w, where ?'a = nat] by simp
  then show "length (percent_u w) \<le> 10" unfolding percent_u_def by (rule length_dec_nat) simp
  have "unat v < 10 ^ 3" using unsigned_less [of v, where ?'a = nat] by simp
  then show "length (percent_u v) \<le> 3" unfolding percent_u_def by (rule length_dec_nat) simp
qed

lemma length_tcp_info_text: "length (tcp_info_text t) < 256"
  using length_percent_u(1) [of "tcpi_rto t"] length_percent_u(1) [of "tcpi_ato t"] length_percent_u(1) [of "tcpi_snd_mss t"]
    length_percent_u(1) [of "tcpi_rcv_mss t"] length_percent_u(1) [of "tcpi_lost t"] length_percent_u(1) [of "tcpi_retrans t"]
    length_percent_u(1) [of "tcpi_rtt t"] length_percent_u(1) [of "tcpi_rttvar t"] length_percent_u(1) [of "tcpi_snd_ssthresh t"]
    length_percent_u(1) [of "tcpi_snd_cwnd t"] length_percent_u(1) [of "tcpi_total_retrans t"] length_percent_u(2) [of "tcpi_retransmits t"]
  by (simp add: tcp_info_text_def)

text \<open>The text of the TCP information always fits into the buffer, tells every printed field, and is empty exactly when the call fails.\<close>

theorem tcp_info_string:
  shows "getTcpInfoString (Inr t) = tcp_info_text t" and "getTcpInfoString r = '''' \<longleftrightarrow> (\<exists>e. r = Inl e)"
    and "getTcpInfoString (Inr t) = getTcpInfoString (Inr u) \<longleftrightarrow> t = u"
proof -
  have f: "getTcpInfoString (Inr t) = tcp_info_text t" for t
    using length_tcp_info_text [of t] by (simp add: getTcpInfoString_def Socket_getTcpInfoString_def getTcpInfo_def snprintf_def)
  show "getTcpInfoString (Inr t) = tcp_info_text t" by (rule f)
  show "getTcpInfoString r = '''' \<longleftrightarrow> (\<exists>e. r = Inl e)"
    by (cases r) (simp_all add: f tcp_info_text_def, simp add: getTcpInfoString_def Socket_getTcpInfoString_def getTcpInfo_def)
  show "getTcpInfoString (Inr t) = getTcpInfoString (Inr u) \<longleftrightarrow> t = u"
    unfolding f by (cases t; cases u) (simp add: tcp_info_text_def)
qed

end
